(* ===== verification/Prelude.thy ===== *)
theory Prelude
  imports Main "HOL-Library.Word"
begin

text \<open>
  Shared vocabulary of the development: the C integer types as machine words, the arrays of the
  kernel as total functions on indices, the search loop
  \<^verbatim>\<open>for (i = lo; i < hi; i++) if (P(i)) return i;\<close> as \<open>find P [lo..<hi]\<close>,
  and the generic facts on lists, finite counts, words and bits that the component theories share.
\<close>

unbundle bit_operations_syntax

section \<open>Machine integers and arrays\<close>

type_synonym u8 = "8 word"
type_synonym u16 = "16 word"
type_synonym u32 = "32 word"
type_synonym u64 = "64 word"

text \<open>A C array that is only accessed below a bound its users check: index to element.\<close>

type_synonym 'a carray = "nat \<Rightarrow> 'a"

text \<open>Collections: the frame facts of each component (which state an operation leaves alone)
  and the equations that unfold its operations.\<close>

named_theorems frame_simps
named_theorems op_defs

section \<open>Search loops\<close>

lemma find_upt_SomeD:
  assumes "find P [lo..<hi] = Some i"
  shows "lo \<le> i" "i < hi" "P i" "\<And>j. lo \<le> j \<Longrightarrow> j < i \<Longrightarrow> \<not> P j"
proof -
  from assms obtain k where k: "k < length [lo..<hi]" "P ([lo..<hi] ! k)" "i = [lo..<hi] ! k"
      and first: "\<forall>j<k. \<not> P ([lo..<hi] ! j)"
    by (auto simp: find_Some_iff)
  then have i: "i = lo + k" by simp
  with k show "lo \<le> i" "i < hi" "P i" by auto
  fix j assume "lo \<le> j" "j < i"
  then have "j - lo < k" and "[lo..<hi] ! (j - lo) = j" using i k by auto
  with first show "\<not> P j" by metis
qed

lemma find_upt_None: "find P [lo..<hi] = None \<longleftrightarrow> (\<forall>i. lo \<le> i \<longrightarrow> i < hi \<longrightarrow> \<not> P i)"
  by (auto simp: find_None_iff)

lemma find_upt_ex:
  assumes "lo \<le> i" "i < hi" "P i"
  obtains j where "find P [lo..<hi] = Some j"
  using assms find_upt_None [of P lo hi] by (cases "find P [lo..<hi]") auto

lemma find_upt_eqI:
  assumes "lo \<le> i" "i < hi" "P i" "\<And>j. lo \<le> j \<Longrightarrow> j < i \<Longrightarrow> \<not> P j"
  shows "find P [lo..<hi] = Some i"
proof -
  obtain j where j: "find P [lo..<hi] = Some j" using assms(1-3) by (rule find_upt_ex)
  have "j = i"
    using find_upt_SomeD [OF j] assms by (metis linorder_neqE_nat)
  with j show ?thesis by simp
qed

lemma find_upt_cong:
  assumes "\<And>i. lo \<le> i \<Longrightarrow> i < hi \<Longrightarrow> P i = Q i"
  shows "find P [lo..<hi] = find Q [lo..<hi]"
  by (rule find_cong) (use assms in auto)

lemma find_append: "find P (xs @ ys) = (case find P xs of None \<Rightarrow> find P ys | Some x \<Rightarrow> Some x)"
  by (induction xs) auto

lemma distinct_set_singleton:
  assumes "distinct xs" "set xs = {x}"
  shows "xs = [x]"
proof (cases xs)
  case (Cons a as)
  with assms have "a = x" "x \<notin> set as" "set as \<subseteq> {x}" by auto
  then have "set as = {}" by (auto simp: subset_singleton_iff)
  with Cons \<open>a = x\<close> show ?thesis by simp
qed (use assms in simp)

text \<open>Bounded quantifiers as executable tests.\<close>

lemma all_less_iff_list_all: "(\<forall>i < n. P i) \<longleftrightarrow> list_all P [0..<n]"
  by (auto simp: list_all_iff)

section \<open>Counting\<close>

text \<open>The number of indices below a bound with a property: what the kernel's usage counters
  (\<open>used_frames\<close>) are meant to hold.\<close>

definition count_below :: "nat \<Rightarrow> (nat \<Rightarrow> bool) \<Rightarrow> nat" where
  "count_below n P = card {i. i < n \<and> P i}"

lemma count_below_0 [simp]: "count_below 0 P = 0"
  by (simp add: count_below_def)

lemma count_below_Suc:
  "count_below (Suc n) P = count_below n P + (if P n then 1 else 0)"
proof -
  have "{i. i < Suc n \<and> P i} = (if P n then insert n {i. i < n \<and> P i} else {i. i < n \<and> P i})"
    by (auto simp: less_Suc_eq)
  then show ?thesis by (simp add: count_below_def)
qed

lemma count_below_le: "count_below n P \<le> n"
proof -
  have "card {i. i < n \<and> P i} \<le> card {..<n}" by (rule card_mono) auto
  then show ?thesis by (simp add: count_below_def)
qed

lemma count_below_cong:
  assumes "\<And>i. i < n \<Longrightarrow> P i = Q i"
  shows "count_below n P = count_below n Q"
  using assms by (auto simp: count_below_def intro: arg_cong [where f = card])

lemma count_below_insert:
  assumes "f < n" "\<not> P f" "\<And>i. i < n \<Longrightarrow> Q i = (i = f \<or> P i)"
  shows "count_below n Q = count_below n P + 1"
proof -
  have "{i. i < n \<and> Q i} = insert f {i. i < n \<and> P i}" using assms by auto
  with assms(2) show ?thesis by (simp add: count_below_def)
qed

lemma count_below_remove:
  assumes "f < n" "P f" "\<And>i. i < n \<Longrightarrow> Q i = (i \<noteq> f \<and> P i)"
  shows "count_below n P = count_below n Q + 1"
  by (rule count_below_insert) (use assms in auto)

lemma count_below_pos: "f < n \<Longrightarrow> P f \<Longrightarrow> 0 < count_below n P"
  by (auto simp: count_below_def card_gt_0_iff)

lemma count_below_insert_range:
  assumes "a + k \<le> n" "\<And>i. a \<le> i \<Longrightarrow> i < a + k \<Longrightarrow> \<not> P i"
    "\<And>i. i < n \<Longrightarrow> Q i = ((a \<le> i \<and> i < a + k) \<or> P i)"
  shows "count_below n Q = count_below n P + k"
proof -
  have eq: "{i. i < n \<and> Q i} = {a..<a + k} \<union> {i. i < n \<and> P i}" using assms by auto
  have "{a..<a + k} \<inter> {i. i < n \<and> P i} = {}" using assms(2) by auto
  then have "card ({a..<a + k} \<union> {i. i < n \<and> P i}) = k + card {i. i < n \<and> P i}"
    by (subst card_Un_disjoint) auto
  with eq show ?thesis by (simp add: count_below_def)
qed

lemma fold_count_below:
  "fold (\<lambda>f n. if P f then n + 1 else n) [0..<n] (0 :: 'a::semiring_1) = of_nat (count_below n P)"
  by (induction n) (simp_all add: count_below_Suc)

text \<open>A scan that starts at a hint and wraps round visits every index.\<close>

lemma mod_scan_covers:
  assumes "f < (n::nat)"
  obtains k where "k < n" "(h + k) mod n = f"
proof
  let ?k = "(f + (n - h mod n)) mod n"
  show "?k < n" using assms by simp
  have "(h + ?k) mod n = (h mod n + (f + (n - h mod n))) mod n"
    by (simp add: mod_simps)
  also have "h mod n + (f + (n - h mod n)) = f + n"
    using mod_less_divisor [of n h] assms by linarith
  finally show "(h + ?k) mod n = f" using assms by simp
qed

section \<open>Bit indices and words\<close>

lemma nat_shift3 [simp]: "drop_bit 3 (i::nat) = i div 8"
  by (simp add: drop_bit_eq_div)

lemma nat_and_7: "(i::nat) AND 7 = i mod 8"
  using take_bit_eq_mask [of 3 i] by (simp add: take_bit_eq_mod mask_eq_exp_minus_1)

lemma bit_mask_one: "bit (2 ^ n :: 'a::len word) m \<longleftrightarrow> m = n \<and> n < LENGTH('a)"
  by (auto simp: bit_exp_iff)

lemma word_and_one_eq: "(w :: 'a::len word) AND 1 = of_bool (bit w 0)"
  by (simp add: and_one_eq odd_iff_mod_2_eq_one bit_0)

lemma div_mod_8_eq: "(i::nat) div 8 = j div 8 \<Longrightarrow> i mod 8 = j mod 8 \<Longrightarrow> i = j"
  by (metis div_mult_mod_eq)

lemma mod_8_less [simp]: "(i::nat) mod 8 < 8"
  by simp

lemma unat_of_nat_less: "n < 2 ^ LENGTH('a) \<Longrightarrow> unat (of_nat n :: 'a::len word) = n"
  by (simp add: unat_of_nat take_bit_nat_eq_self)

lemma of_nat_word_eq_0: "n < 2 ^ LENGTH('a) \<Longrightarrow> (of_nat n :: 'a::len word) = 0 \<longleftrightarrow> n = 0"
  using unat_of_nat_less [of n, where 'a = 'a] by auto

lemma unat_less_64: "unat (w :: u64) < 18446744073709551616"
  using unsigned_less [of w] by simp

lemma word_and_not_mask: "(w :: 'a::len word) AND NOT (mask n) = push_bit n (drop_bit n w)"
  by (rule bit_word_eqI) (auto simp: bit_simps)

lemma unat_and_not_mask: "unat ((w :: 'a::len word) AND NOT (mask n)) = unat w div 2 ^ n * 2 ^ n"
proof -
  have "unat w div 2 ^ n * 2 ^ n \<le> unat w" by simp
  then have lt: "unat w div 2 ^ n * 2 ^ n < 2 ^ LENGTH('a)" using unsigned_less [of w] by (rule le_less_trans)
  have "push_bit n (drop_bit n w) = of_nat (unat w div 2 ^ n * 2 ^ n)"
  proof -
    have "drop_bit n w = of_nat (unat w div 2 ^ n)"
      by (rule word_unat_eq_iff [THEN iffD2])
         (simp add: unat_drop_bit_eq drop_bit_eq_div [of n "unat w"] unat_of_nat_less le_less_trans [OF div_le_dividend unsigned_less])
    then show ?thesis by (simp add: push_bit_eq_mult)
  qed
  then show ?thesis using lt by (simp only: word_and_not_mask unat_of_nat_less)
qed

lemma mask_literals:
  "(15 :: 'a::len word) = mask 4" "(7 :: 'a::len word) = mask 3" "(4095 :: 'a::len word) = mask 12"
  by (simp_all add: mask_eq_exp_minus_1)
end
