(* ===== verification/Pmm.thy ===== *)
theory Pmm
  imports Prelude
begin

text \<open>
  The physical memory manager, \<^verbatim>\<open>kernel/memory/pmm.c\<close>: a bitmap with one bit per
  4 KiB frame (set = used), a next-fit single-frame allocator, a first-fit contiguous allocator and
  one saturating reference count per frame. Every operation runs under \<open>pmm_lock\<close>, so each
  is one atomic state transformer here. Frame numbers are \<open>nat\<close>, addresses and the usage
  counter are 64-bit words; the static arrays are index functions (\<open>carray\<close>). The
  reference-count table is a component of the state (None while the pointer is NULL); that it lives
  in frames of the pool is what \<open>pmm_init\<close> reserves them for.
\<close>

section \<open>State\<close>

abbreviation (input) PAGE_SIZE :: "'a::numeral" where "PAGE_SIZE \<equiv> 4096"
abbreviation (input) MAX_FRAMES :: nat where "MAX_FRAMES \<equiv> 2097152"
abbreviation (input) REF_MAX :: u8 where "REF_MAX \<equiv> 255"
abbreviation (input) HAND_MEM_USABLE :: u64 where "HAND_MEM_USABLE \<equiv> 0"

record hand_memmap_entry =
  mm_base :: u64
  mm_length :: u64
  mm_type :: u64

record handoff =
  hhdm_offset :: u64
  memmap :: "hand_memmap_entry list"

record pmm =
  bitmap :: "u8 carray"
  total_frames :: nat
  used_frames :: u64
  hhdm :: u64
  alloc_hint :: nat
  refcnt :: "u8 carray option"

text \<open>The static initialisers.\<close>

definition pmm_boot :: pmm where
  "pmm_boot = \<lparr>bitmap = (\<lambda>_. 0), total_frames = 0, used_frames = 0, hhdm = 0,
               alloc_hint = 0, refcnt = None\<rparr>"

section \<open>Operations\<close>

definition bit_set :: "nat \<Rightarrow> u8 carray \<Rightarrow> u8 carray" where
  "bit_set i b = b(drop_bit 3 i := b (drop_bit 3 i) OR push_bit (i AND 7) 1)"

definition bit_clr :: "nat \<Rightarrow> u8 carray \<Rightarrow> u8 carray" where
  "bit_clr i b = b(drop_bit 3 i := b (drop_bit 3 i) AND NOT (push_bit (i AND 7) 1))"

definition bit_get :: "u8 carray \<Rightarrow> nat \<Rightarrow> bool" where
  "bit_get b i \<longleftrightarrow> drop_bit (i AND 7) (b (drop_bit 3 i)) AND 1 \<noteq> 0"

definition phys_to_virt :: "pmm \<Rightarrow> u64 \<Rightarrow> u64" where
  "phys_to_virt s phys = phys + hhdm s"

definition virt_to_phys :: "pmm \<Rightarrow> u64 \<Rightarrow> u64" where
  "virt_to_phys s virt = virt - hhdm s"

text \<open>\<^verbatim>\<open>phys / PAGE_SIZE\<close> and \<^verbatim>\<open>f * PAGE_SIZE\<close>.\<close>

definition frame_of :: "u64 \<Rightarrow> nat" where
  "frame_of phys = unat (phys div PAGE_SIZE)"

definition addr_of :: "nat \<Rightarrow> u64" where
  "addr_of f = of_nat f * PAGE_SIZE"

text \<open>The loop of \<open>pmm_alloc_contig\<close>: \<open>run\<close> free frames seen so far, the first at \<open>start\<close>.\<close>

function contig_scan :: "u8 carray \<Rightarrow> nat \<Rightarrow> nat \<Rightarrow> nat \<Rightarrow> nat \<Rightarrow> nat \<Rightarrow> nat option" where
  "contig_scan b tot frames f run start =
     (if f < tot then
        if \<not> bit_get b f then
          let start' = (if run = 0 then f else start) in
          if run + 1 = frames then Some start'
          else contig_scan b tot frames (f + 1) (run + 1) start'
        else contig_scan b tot frames (f + 1) 0 start
      else None)"
  by pat_completeness auto
termination
  by (relation "measure (\<lambda>(b, tot, frames, f, run, start). tot - f)") auto

declare contig_scan.simps [simp del]

definition pmm_claim :: "nat \<Rightarrow> pmm \<Rightarrow> pmm" where
  "pmm_claim k s = s\<lparr>bitmap := bit_set k (bitmap s),
                     refcnt := map_option (\<lambda>r. r(k := 1)) (refcnt s)\<rparr>"

definition pmm_alloc_contig :: "nat \<Rightarrow> pmm \<Rightarrow> u64 \<times> pmm" where
  "pmm_alloc_contig frames s =
     (if frames = 0 then (0, s)
      else case contig_scan (bitmap s) (total_frames s) frames 0 0 0 of
        Some start \<Rightarrow>
          let s1 = fold pmm_claim [start..<start + frames] s
          in (addr_of start, s1\<lparr>used_frames := used_frames s1 + of_nat frames\<rparr>)
      | None \<Rightarrow> (0, s))"

definition pmm_free_step :: "nat \<Rightarrow> pmm \<Rightarrow> pmm" where
  "pmm_free_step f s = s\<lparr>bitmap := bit_clr f (bitmap s),
     total_frames := (if f + 1 > total_frames s then f + 1 else total_frames s)\<rparr>"

definition pmm_free_region :: "hand_memmap_entry \<Rightarrow> pmm \<Rightarrow> pmm" where
  "pmm_free_region e s =
     (if mm_type e \<noteq> HAND_MEM_USABLE then s
      else let start = unat ((mm_base e + PAGE_SIZE - 1) div PAGE_SIZE);
               end = unat ((mm_base e + mm_length e) div PAGE_SIZE)
           in fold pmm_free_step [start..<min end MAX_FRAMES] s)"

definition count_used :: "u8 carray \<Rightarrow> nat \<Rightarrow> u64" where
  "count_used b tot = fold (\<lambda>f n. if bit_get b f then n + 1 else n) [0..<tot] 0"

text \<open>\<open>pmm_init\<close> halts the machine (None) when the reference-count table does not fit.\<close>

definition pmm_init :: "handoff \<Rightarrow> pmm \<Rightarrow> pmm option" where
  "pmm_init h s =
     (let s0 = s\<lparr>hhdm := hhdm_offset h, bitmap := (\<lambda>_. 255), total_frames := 0\<rparr>;
          s1 = fold pmm_free_region (memmap h) s0;
          s2 = s1\<lparr>bitmap := fold bit_set [0..<0x100000 div PAGE_SIZE] (bitmap s1)\<rparr>;
          s3 = s2\<lparr>used_frames := count_used (bitmap s2) (total_frames s2)\<rparr>;
          rc_pages = (total_frames s3 + PAGE_SIZE - 1) div PAGE_SIZE;
          (rc_phys, s4) = pmm_alloc_contig rc_pages s3
      in if rc_phys = 0 then None
         else Some (s4\<lparr>refcnt := Some (\<lambda>f. if bit_get (bitmap s4) f then 1 else 0)\<rparr>))"

definition pmm_alloc_frame :: "pmm \<Rightarrow> u64 \<times> pmm" where
  "pmm_alloc_frame s =
     (case find (\<lambda>scan. \<not> bit_get (bitmap s) ((alloc_hint s + scan) mod total_frames s))
             [0..<total_frames s] of
        Some scan \<Rightarrow>
          let f = (alloc_hint s + scan) mod total_frames s
          in (addr_of f,
              s\<lparr>bitmap := bit_set f (bitmap s), used_frames := used_frames s + 1,
                alloc_hint := f + 1,
                refcnt := map_option (\<lambda>r. r(f := 1)) (refcnt s)\<rparr>)
      | None \<Rightarrow> (0, s))"

definition pmm_ref_frame :: "u64 \<Rightarrow> pmm \<Rightarrow> pmm" where
  "pmm_ref_frame phys s =
     (let f = frame_of phys in
      if f \<ge> MAX_FRAMES then s
      else case refcnt s of
        None \<Rightarrow> s
      | Some r \<Rightarrow> if f < total_frames s \<and> r f \<noteq> 0 \<and> r f < REF_MAX
                  then s\<lparr>refcnt := Some (r(f := r f + 1))\<rparr> else s)"

text \<open>The tail of \<open>pmm_unref_frame\<close>: give the frame back and pull the hint down.\<close>

definition pmm_release :: "nat \<Rightarrow> pmm \<Rightarrow> pmm" where
  "pmm_release f s =
     (let s1 = (if bit_get (bitmap s) f
                then s\<lparr>bitmap := bit_clr f (bitmap s), used_frames := used_frames s - 1\<rparr>
                else s)
      in if f < alloc_hint s1 then s1\<lparr>alloc_hint := f\<rparr> else s1)"

definition pmm_unref_frame :: "u64 \<Rightarrow> pmm \<Rightarrow> pmm" where
  "pmm_unref_frame phys s =
     (let f = frame_of phys in
      if f \<ge> MAX_FRAMES then s
      else case refcnt s of
        Some r \<Rightarrow>
          if f < total_frames s then
            if r f > 1 then s\<lparr>refcnt := Some (r(f := r f - 1))\<rparr>
            else if r f = REF_MAX then s
            else pmm_release f (s\<lparr>refcnt := Some (r(f := 0))\<rparr>)
          else pmm_release f s
      | None \<Rightarrow> pmm_release f s)"

definition pmm_refcount :: "u64 \<Rightarrow> pmm \<Rightarrow> u32" where
  "pmm_refcount phys s =
     (case refcnt s of
        None \<Rightarrow> 0
      | Some r \<Rightarrow> if frame_of phys \<ge> total_frames s then 0 else ucast (r (frame_of phys)))"

definition pmm_total_bytes :: "pmm \<Rightarrow> u64" where
  "pmm_total_bytes s = of_nat (total_frames s) * PAGE_SIZE"

definition pmm_used_bytes :: "pmm \<Rightarrow> u64" where
  "pmm_used_bytes s = used_frames s * PAGE_SIZE"

section \<open>The invariant\<close>

text \<open>
  The frames in use; the counter counts them; the reference counts agree with the bitmap; frame 0 is
  never handed out, so address 0 can stand for failure.
\<close>

definition frames_used :: "pmm \<Rightarrow> nat set" where
  "frames_used s = {f. f < total_frames s \<and> bit_get (bitmap s) f}"

definition pmm_inv :: "pmm \<Rightarrow> bool" where
  "pmm_inv s \<longleftrightarrow>
     total_frames s \<le> MAX_FRAMES \<and>
     used_frames s = of_nat (count_below (total_frames s) (bit_get (bitmap s))) \<and>
     (0 < total_frames s \<longrightarrow> bit_get (bitmap s) 0) \<and>
     (\<forall>r. refcnt s = Some r \<longrightarrow> (\<forall>f < total_frames s. bit_get (bitmap s) f \<longleftrightarrow> r f \<noteq> 0))"

section \<open>Bitmap and address lemmas\<close>

lemma bit_get_iff: "bit_get b i \<longleftrightarrow> bit (b (i div 8)) (i mod 8)"
  by (simp add: bit_get_def word_and_one_eq bit_drop_bit_eq nat_and_7)

lemma bit_get_set [simp]: "bit_get (bit_set i b) j \<longleftrightarrow> j = i \<or> bit_get b j"
  by (auto simp: bit_get_iff bit_set_def bit_or_iff bit_mask_one nat_and_7 dest: div_mod_8_eq)

lemma bit_get_clr [simp]: "bit_get (bit_clr i b) j \<longleftrightarrow> j \<noteq> i \<and> bit_get b j"
  by (auto simp: bit_get_iff bit_clr_def bit_and_iff bit_not_iff bit_mask_one nat_and_7
           dest: div_mod_8_eq)

lemma bit_get_fold_set: "bit_get (fold bit_set ks b) j \<longleftrightarrow> j \<in> set ks \<or> bit_get b j"
  by (induction ks arbitrary: b) auto

lemma bit_get_all_ones: "bit_get (\<lambda>_. 255) j"
proof -
  have "(255::u8) = mask 8" by (simp add: mask_eq_exp_minus_1)
  then show ?thesis by (simp only: bit_get_iff bit_mask_iff) simp
qed

lemma phys_virt_round_trip [simp]:
  "virt_to_phys s (phys_to_virt s p) = p" "phys_to_virt s (virt_to_phys s v) = v"
  by (simp_all add: phys_to_virt_def virt_to_phys_def)

lemma unat_addr_of: "f < MAX_FRAMES \<Longrightarrow> unat (addr_of f) = f * 4096"
  by (simp add: addr_of_def unat_word_ariths unat_of_nat take_bit_nat_eq_self)

lemma frame_of_addr_of [simp]: "f < MAX_FRAMES \<Longrightarrow> frame_of (addr_of f) = f"
  by (simp add: frame_of_def unat_div unat_addr_of)

lemma addr_of_eq_0: "f < MAX_FRAMES \<Longrightarrow> addr_of f = 0 \<longleftrightarrow> f = 0"
  by (metis addr_of_def frame_of_addr_of mult_zero_left of_nat_0 unat_addr_of unat_0 mult_is_0
      zero_neq_numeral)

lemma addr_of_inj: "f < MAX_FRAMES \<Longrightarrow> g < MAX_FRAMES \<Longrightarrow> addr_of f = addr_of g \<Longrightarrow> f = g"
  by (metis frame_of_addr_of)

section \<open>Single frames\<close>

lemma pmm_alloc_frame_cases:
  obtains
    (full) "pmm_alloc_frame s = (0, s)" "\<forall>f < total_frames s. bit_get (bitmap s) f"
  | (got) f where "f < total_frames s" "\<not> bit_get (bitmap s) f"
      "pmm_alloc_frame s = (addr_of f,
         s\<lparr>bitmap := bit_set f (bitmap s), used_frames := used_frames s + 1,
           alloc_hint := f + 1, refcnt := map_option (\<lambda>r. r(f := 1)) (refcnt s)\<rparr>)"
proof (cases "find (\<lambda>scan. \<not> bit_get (bitmap s) ((alloc_hint s + scan) mod total_frames s))
                [0..<total_frames s]")
  case None
  have "bit_get (bitmap s) f" if lt: "f < total_frames s" for f
  proof -
    obtain k where "k < total_frames s" "(alloc_hint s + k) mod total_frames s = f"
      using mod_scan_covers [OF lt] by metis
    with None show ?thesis by (auto simp: find_upt_None)
  qed
  with None show ?thesis by (intro full) (auto simp: pmm_alloc_frame_def)
next
  case (Some k)
  then have "k < total_frames s"
      and free: "\<not> bit_get (bitmap s) ((alloc_hint s + k) mod total_frames s)"
    by (auto dest: find_upt_SomeD)
  then have "(alloc_hint s + k) mod total_frames s < total_frames s" by simp
  with Some free show ?thesis
    by (intro got [of "(alloc_hint s + k) mod total_frames s"])
       (auto simp: pmm_alloc_frame_def Let_def)
qed

lemma pmm_inv_used_less: "pmm_inv s \<Longrightarrow> f \<in> frames_used s \<Longrightarrow> f < MAX_FRAMES"
  by (auto simp: pmm_inv_def frames_used_def)

lemma pmm_alloc_frame_spec:
  assumes inv: "pmm_inv s" and alloc: "pmm_alloc_frame s = (a, s')"
  shows "pmm_inv s'"
    and "a \<noteq> 0 \<Longrightarrow> frame_of a < total_frames s \<and> frame_of a \<notin> frames_used s \<and>
           a = addr_of (frame_of a) \<and> frames_used s' = insert (frame_of a) (frames_used s) \<and>
           used_frames s' = used_frames s + 1 \<and>
           refcnt s' = map_option (\<lambda>r. r(frame_of a := 1)) (refcnt s)"
    and "a = 0 \<Longrightarrow> s' = s \<and> frames_used s = {..<total_frames s}"
    and "total_frames s' = total_frames s" "hhdm s' = hhdm s"
proof -
  have "pmm_inv s' \<and> (a \<noteq> 0 \<longrightarrow> frame_of a < total_frames s \<and> frame_of a \<notin> frames_used s \<and>
           a = addr_of (frame_of a) \<and> frames_used s' = insert (frame_of a) (frames_used s) \<and>
           used_frames s' = used_frames s + 1 \<and>
           refcnt s' = map_option (\<lambda>r. r(frame_of a := 1)) (refcnt s)) \<and>
        (a = 0 \<longrightarrow> s' = s \<and> frames_used s = {..<total_frames s}) \<and>
        total_frames s' = total_frames s \<and> hhdm s' = hhdm s"
  proof (cases rule: pmm_alloc_frame_cases [of s])
    case full
    with alloc inv show ?thesis by (auto simp: frames_used_def)
  next
    case (got f)
    with alloc have a: "a = addr_of f" and s': "s' = s\<lparr>bitmap := bit_set f (bitmap s),
        used_frames := used_frames s + 1, alloc_hint := f + 1,
        refcnt := map_option (\<lambda>r. r(f := 1)) (refcnt s)\<rparr>" by auto
    from inv got have fm: "f < MAX_FRAMES" by (auto simp: pmm_inv_def)
    moreover have f0: "f \<noteq> 0" using inv got by (intro notI) (auto simp: pmm_inv_def)
    ultimately have fa: "frame_of a = f" and a0: "a \<noteq> 0" by (auto simp: a addr_of_eq_0)
    have cnt: "count_below (total_frames s) (bit_get (bit_set f (bitmap s))) =
        count_below (total_frames s) (bit_get (bitmap s)) + 1"
      by (rule count_below_insert [of f]) (use got in auto)
    have "pmm_inv s'" using inv got unfolding s' pmm_inv_def by (auto simp: cnt split: if_splits)
    then show ?thesis using got a0 fa a by (auto simp: s' frames_used_def)
  qed
  then show "pmm_inv s'"
    and "a \<noteq> 0 \<Longrightarrow> frame_of a < total_frames s \<and> frame_of a \<notin> frames_used s \<and>
           a = addr_of (frame_of a) \<and> frames_used s' = insert (frame_of a) (frames_used s) \<and>
           used_frames s' = used_frames s + 1 \<and>
           refcnt s' = map_option (\<lambda>r. r(frame_of a := 1)) (refcnt s)"
    and "a = 0 \<Longrightarrow> s' = s \<and> frames_used s = {..<total_frames s}"
    and "total_frames s' = total_frames s" "hhdm s' = hhdm s"
    by blast+
qed

section \<open>Contiguous runs\<close>

lemma pmm_claim_simps [simp]:
  "bitmap (pmm_claim k s) = bit_set k (bitmap s)"
  "refcnt (pmm_claim k s) = map_option (\<lambda>r. r(k := 1)) (refcnt s)"
  "total_frames (pmm_claim k s) = total_frames s" "used_frames (pmm_claim k s) = used_frames s"
  "hhdm (pmm_claim k s) = hhdm s" "alloc_hint (pmm_claim k s) = alloc_hint s"
  by (simp_all add: pmm_claim_def)

lemma fold_pmm_claim_simps [simp]:
  "bitmap (fold pmm_claim ks s) = fold bit_set ks (bitmap s)"
  "refcnt (fold pmm_claim ks s) = map_option (\<lambda>r f. if f \<in> set ks then 1 else r f) (refcnt s)"
  "total_frames (fold pmm_claim ks s) = total_frames s"
  "used_frames (fold pmm_claim ks s) = used_frames s"
  "hhdm (fold pmm_claim ks s) = hhdm s" "alloc_hint (fold pmm_claim ks s) = alloc_hint s"
proof (induction ks arbitrary: s)
  case (Cons k ks)
  { case 2 show ?case by (cases "refcnt s") (auto simp: Cons fun_eq_iff) }
qed (simp_all add: option.map_ident)

text \<open>A run of \<open>n\<close> free frames from \<open>st\<close> below the managed total.\<close>

definition free_run :: "u8 carray \<Rightarrow> nat \<Rightarrow> nat \<Rightarrow> nat \<Rightarrow> bool" where
  "free_run b tot n st \<longleftrightarrow> st + n \<le> tot \<and> (\<forall>k. st \<le> k \<longrightarrow> k < st + n \<longrightarrow> \<not> bit_get b k)"

lemma contig_scan_spec:
  assumes "run < n" "run \<le> f" "run \<noteq> 0 \<Longrightarrow> start + run = f"
    "\<And>k. f - run \<le> k \<Longrightarrow> k < f \<Longrightarrow> \<not> bit_get b k"
  shows "case contig_scan b tot n f run start of
           Some st \<Rightarrow> free_run b tot n st \<and> (\<forall>st'. f - run \<le> st' \<longrightarrow> st' < st \<longrightarrow> \<not> free_run b tot n st')
         | None \<Rightarrow> (\<forall>st'. f - run \<le> st' \<longrightarrow> \<not> free_run b tot n st')"
  using assms
proof (induction b tot n f run start rule: contig_scan.induct)
  case (1 b tot n f run start)
  show ?case
  proof (cases "f < tot")
    case False
    have "\<not> free_run b tot n st'" if "f - run \<le> st'" for st'
      using that False 1(3,4) by (auto simp: free_run_def)
    with False show ?thesis by (simp add: contig_scan.simps [of b tot])
  next
    case lt: True
    show ?thesis
    proof (cases "bit_get b f")
      case True
      have skip: "\<not> free_run b tot n st'" if "f - run \<le> st'" "st' \<le> f" for st'
        using that True 1(3,4) by (auto simp: free_run_def)
      have IH: "case contig_scan b tot n (f + 1) 0 start of
           Some st \<Rightarrow> free_run b tot n st \<and> (\<forall>st'. f + 1 \<le> st' \<longrightarrow> st' < st \<longrightarrow> \<not> free_run b tot n st')
         | None \<Rightarrow> (\<forall>st'. f + 1 \<le> st' \<longrightarrow> \<not> free_run b tot n st')"
        using 1(2) [OF lt] True 1(3) by (auto split: option.splits)
      from lt True have "contig_scan b tot n f run start = contig_scan b tot n (f + 1) 0 start"
        by (simp add: contig_scan.simps [of b tot n f])
      moreover have "\<not> free_run b tot n st'" if "f - run \<le> st'" "\<not> f + 1 \<le> st'" for st'
        using skip that by simp
      ultimately show ?thesis using IH by (auto split: option.splits)
    next
      case free: False
      define st0 where "st0 = (if run = 0 then f else start)"
      have st0: "st0 = f - run" "st0 + (run + 1) = f + 1" using 1(4,5) by (auto simp: st0_def)
      have seen: "\<not> bit_get b k" if "st0 \<le> k" "k < f + 1" for k
        using that free 1(6) [of k] st0 by (cases "k = f") auto
      show ?thesis
      proof (cases "run + 1 = n")
        case True
        with lt free have "contig_scan b tot n f run start = Some st0"
          by (simp add: contig_scan.simps [of b tot n f] st0_def Let_def)
        moreover have "free_run b tot n st0"
          using True lt st0 seen by (auto simp: free_run_def)
        ultimately show ?thesis using st0 by auto
      next
        case False
        have step: "contig_scan b tot n f run start = contig_scan b tot n (f + 1) (run + 1) st0"
          using lt free False by (simp add: contig_scan.simps [of b tot n f] st0_def Let_def)
        have pre: "run + 1 < n" "run + 1 \<le> f + 1" "run + 1 \<noteq> 0 \<Longrightarrow> st0 + (run + 1) = f + 1"
            "\<And>k. f + 1 - (run + 1) \<le> k \<Longrightarrow> k < f + 1 \<Longrightarrow> \<not> bit_get b k"
          using False 1(3,4) st0 seen by auto
        have "case contig_scan b tot n (f + 1) (run + 1) st0 of
           Some st \<Rightarrow> free_run b tot n st \<and>
             (\<forall>st'. f + 1 - (run + 1) \<le> st' \<longrightarrow> st' < st \<longrightarrow> \<not> free_run b tot n st')
         | None \<Rightarrow> (\<forall>st'. f + 1 - (run + 1) \<le> st' \<longrightarrow> \<not> free_run b tot n st')"
          by (rule 1(1) [OF lt free st0_def False pre])
        with step show ?thesis by (auto split: option.splits)
      qed
    qed
  qed
qed

lemmas contig_scan_start = contig_scan_spec [of 0 _ 0 0, simplified]

lemma pmm_alloc_contig_cases:
  assumes "0 < n"
  obtains
    (none) "pmm_alloc_contig n s = (0, s)"
      "\<And>st. \<not> free_run (bitmap s) (total_frames s) n st"
  | (got) st s1 where "free_run (bitmap s) (total_frames s) n st"
      "\<And>st'. st' < st \<Longrightarrow> \<not> free_run (bitmap s) (total_frames s) n st'"
      "s1 = fold pmm_claim [st..<st + n] s"
      "pmm_alloc_contig n s = (addr_of st, s1\<lparr>used_frames := used_frames s1 + of_nat n\<rparr>)"
  using assms contig_scan_start [OF assms, of "bitmap s" "total_frames s"]
  by (cases "contig_scan (bitmap s) (total_frames s) n 0 0 0")
     (auto simp: pmm_alloc_contig_def Let_def)

lemma pmm_alloc_contig_spec:
  assumes inv: "pmm_inv s" and n: "0 < n" and alloc: "pmm_alloc_contig n s = (a, s')"
  shows "pmm_inv s'"
    and "a \<noteq> 0 \<Longrightarrow> free_run (bitmap s) (total_frames s) n (frame_of a) \<and>
           a = addr_of (frame_of a) \<and>
           (\<forall>st < frame_of a. \<not> free_run (bitmap s) (total_frames s) n st) \<and>
           frames_used s' = {frame_of a..<frame_of a + n} \<union> frames_used s"
    and "a = 0 \<Longrightarrow> s' = s \<and> (\<forall>st. \<not> free_run (bitmap s) (total_frames s) n st)"
    and "total_frames s' = total_frames s" "hhdm s' = hhdm s" "alloc_hint s' = alloc_hint s"
proof -
  have "pmm_inv s' \<and> (a \<noteq> 0 \<longrightarrow> free_run (bitmap s) (total_frames s) n (frame_of a) \<and>
           a = addr_of (frame_of a) \<and>
           (\<forall>st < frame_of a. \<not> free_run (bitmap s) (total_frames s) n st) \<and>
           frames_used s' = {frame_of a..<frame_of a + n} \<union> frames_used s) \<and>
        (a = 0 \<longrightarrow> s' = s \<and> (\<forall>st. \<not> free_run (bitmap s) (total_frames s) n st)) \<and>
        total_frames s' = total_frames s \<and> hhdm s' = hhdm s \<and> alloc_hint s' = alloc_hint s"
    using n
  proof (cases rule: pmm_alloc_contig_cases [of n s])
    case none
    with alloc inv show ?thesis by auto
  next
    case (got st s1)
    with alloc have a: "a = addr_of st" and s': "s' = s1\<lparr>used_frames := used_frames s1 + of_nat n\<rparr>"
      by auto
    have fit: "st + n \<le> total_frames s" and free: "\<And>k. st \<le> k \<Longrightarrow> k < st + n \<Longrightarrow> \<not> bit_get (bitmap s) k"
      using got(1) by (auto simp: free_run_def)
    have stm: "st < MAX_FRAMES" using fit n inv by (auto simp: pmm_inv_def)
    have st0: "st \<noteq> 0" using free [of 0] fit n inv by (intro notI) (auto simp: pmm_inv_def)
    have fa: "frame_of a = st" and a0: "a \<noteq> 0" using stm st0 by (auto simp: a addr_of_eq_0)
    have cnt: "count_below (total_frames s) (bit_get (fold bit_set [st..<st + n] (bitmap s))) =
        count_below (total_frames s) (bit_get (bitmap s)) + n"
      by (rule count_below_insert_range [of st])
         (use fit free in \<open>auto simp: bit_get_fold_set\<close>)
    have "pmm_inv s'"
      using inv unfolding s' got(3) pmm_inv_def
      by (auto simp: cnt bit_get_fold_set split: if_splits)
    moreover have "frames_used s' = {st..<st + n} \<union> frames_used s"
      using fit by (auto simp: s' got(3) frames_used_def bit_get_fold_set)
    ultimately show ?thesis using got(1,2) a0 fa a by (simp add: s' got(3))
  qed
  then show "pmm_inv s'"
    and "a \<noteq> 0 \<Longrightarrow> free_run (bitmap s) (total_frames s) n (frame_of a) \<and>
           a = addr_of (frame_of a) \<and>
           (\<forall>st < frame_of a. \<not> free_run (bitmap s) (total_frames s) n st) \<and>
           frames_used s' = {frame_of a..<frame_of a + n} \<union> frames_used s"
    and "a = 0 \<Longrightarrow> s' = s \<and> (\<forall>st. \<not> free_run (bitmap s) (total_frames s) n st)"
    and "total_frames s' = total_frames s" "hhdm s' = hhdm s" "alloc_hint s' = alloc_hint s"
    by blast+
qed

section \<open>References\<close>

lemma word8_pred_succ:
  fixes w :: u8
  shows "w < 255 \<Longrightarrow> w + 1 \<noteq> 0" "1 < w \<Longrightarrow> w - 1 \<noteq> 0"
proof -
  show "w + 1 \<noteq> 0" if "w < 255"
  proof
    assume "w + 1 = 0"
    then have "w = -1" by (simp add: eq_neg_iff_add_eq_0)
    with that show False by simp
  qed
qed auto

lemma pmm_ref_frame_simps [simp]:
  "bitmap (pmm_ref_frame a s) = bitmap s" "total_frames (pmm_ref_frame a s) = total_frames s"
  "used_frames (pmm_ref_frame a s) = used_frames s" "hhdm (pmm_ref_frame a s) = hhdm s"
  "alloc_hint (pmm_ref_frame a s) = alloc_hint s"
  by (simp_all add: pmm_ref_frame_def Let_def split: option.splits)

lemma pmm_ref_frame_inv: "pmm_inv s \<Longrightarrow> pmm_inv (pmm_ref_frame a s)"
  by (auto simp: pmm_inv_def pmm_ref_frame_def Let_def word8_pred_succ split: option.splits)

lemma pmm_release_simps [simp]:
  "total_frames (pmm_release f s) = total_frames s" "hhdm (pmm_release f s) = hhdm s"
  "refcnt (pmm_release f s) = refcnt s"
  "bit_get (bitmap (pmm_release f s)) g \<longleftrightarrow> g \<noteq> f \<and> bit_get (bitmap s) g"
  by (auto simp: pmm_release_def Let_def)

lemma pmm_release_used:
  "used_frames (pmm_release f s) = used_frames s - (if bit_get (bitmap s) f then 1 else 0)"
  by (simp add: pmm_release_def Let_def)

lemma pmm_release_inv:
  assumes "f < total_frames s" "f \<noteq> 0" "total_frames s \<le> MAX_FRAMES"
    and used: "used_frames s = of_nat (count_below (total_frames s) (bit_get (bitmap s)))"
    and z: "bit_get (bitmap s) 0"
    and r: "\<And>r. refcnt s = Some r \<Longrightarrow>
          r f = 0 \<and> (\<forall>g < total_frames s. g \<noteq> f \<longrightarrow> bit_get (bitmap s) g = (r g \<noteq> 0))"
  shows "pmm_inv (pmm_release f s)"
proof -
  have "count_below (total_frames s) (bit_get (bitmap s)) =
      count_below (total_frames s) (bit_get (bitmap (pmm_release f s))) + 1"
    if "bit_get (bitmap s) f"
    by (rule count_below_remove [of f]) (use that assms in auto)
  moreover have "count_below (total_frames s) (bit_get (bitmap (pmm_release f s))) =
      count_below (total_frames s) (bit_get (bitmap s))" if "\<not> bit_get (bitmap s) f"
    by (rule count_below_cong) (use that in auto)
  ultimately have "used_frames (pmm_release f s) =
      of_nat (count_below (total_frames s) (bit_get (bitmap (pmm_release f s))))"
    by (cases "bit_get (bitmap s) f") (simp_all add: pmm_release_used used)
  then show ?thesis using assms by (auto simp: pmm_inv_def)
qed

lemma pmm_unref_frame_inv:
  assumes inv: "pmm_inv s" and f: "frame_of a < total_frames s" "frame_of a \<noteq> 0"
  shows "pmm_inv (pmm_unref_frame a s)"
proof -
  have zero: "bit_get (bitmap s) 0" using inv f by (auto simp: pmm_inv_def)
  show ?thesis
  proof (cases "refcnt s")
    case None
    have "pmm_inv (pmm_release (frame_of a) s)"
      by (rule pmm_release_inv) (use inv f zero None in \<open>auto simp: pmm_inv_def\<close>)
    with None show ?thesis using inv by (simp add: pmm_unref_frame_def Let_def)
  next
    case (Some r)
    let ?s = "s\<lparr>refcnt := Some (r(frame_of a := 0))\<rparr>"
    have rel: "pmm_inv (pmm_release (frame_of a) ?s)"
      by (rule pmm_release_inv) (use inv f zero Some in \<open>auto simp: pmm_inv_def\<close>)
    have dec: "pmm_inv (s\<lparr>refcnt := Some (r(frame_of a := r (frame_of a) - 1))\<rparr>)"
      if "r (frame_of a) > 1"
      using inv Some f that by (auto simp: pmm_inv_def word8_pred_succ)
    show ?thesis using rel dec inv Some f by (simp add: pmm_unref_frame_def Let_def)
  qed
qed

lemma pmm_unref_frame_simps [simp]:
  "total_frames (pmm_unref_frame a s) = total_frames s" "hhdm (pmm_unref_frame a s) = hhdm s"
  by (simp_all add: pmm_unref_frame_def Let_def split: option.splits)

text \<open>Taking a reference \<open>k\<close> times saturates at 255; dropping one moves the count down by one
  until it reaches zero, and then gives the frame back.\<close>

lemma pmm_ref_iter:
  assumes "refcnt s = Some r" "frame_of a < total_frames s" "total_frames s \<le> MAX_FRAMES"
    "r (frame_of a) = of_nat c" "1 \<le> c" "c \<le> 255"
  shows "refcnt ((pmm_ref_frame a ^^ k) s) = Some (r(frame_of a := of_nat (min 255 (c + k)))) \<and>
         total_frames ((pmm_ref_frame a ^^ k) s) = total_frames s \<and>
         bitmap ((pmm_ref_frame a ^^ k) s) = bitmap s"
proof (induction k)
  case 0
  with assms show ?case by (auto simp: min_def fun_eq_iff)
next
  case (Suc k)
  let ?m = "min 255 (c + k)"
  have nz: "(of_nat ?m :: u8) \<noteq> 0" and lt: "(of_nat ?m :: u8) < 255 \<longleftrightarrow> ?m < 255"
    using assms by (auto simp: word_less_nat_alt unat_of_nat_less unat_eq_0 [symmetric])
  have "min 255 (c + Suc k) = (if ?m < 255 then ?m + 1 else ?m)" by auto
  with Suc nz lt assms show ?case
    by (auto simp: pmm_ref_frame_def Let_def)
qed

lemma pmm_unref_iter:
  assumes "refcnt s = Some r" "frame_of a < total_frames s" "total_frames s \<le> MAX_FRAMES"
    "r (frame_of a) = of_nat c" "c \<le> 255" "bit_get (bitmap s) (frame_of a) \<longleftrightarrow> c \<noteq> 0"
  shows "refcnt ((pmm_unref_frame a ^^ m) s) = Some (r(frame_of a := of_nat (c - m))) \<and>
         total_frames ((pmm_unref_frame a ^^ m) s) = total_frames s \<and>
         (bit_get (bitmap ((pmm_unref_frame a ^^ m) s)) (frame_of a) \<longleftrightarrow> m < c)"
proof (induction m)
  case 0
  with assms show ?case by (auto simp: fun_eq_iff)
next
  case (Suc m)
  have gt: "(1::u8) < of_nat (c - m) \<longleftrightarrow> 1 < c - m" and e: "(of_nat (c - m) :: u8) = 255 \<longleftrightarrow> c - m = 255"
    using assms by (auto simp: word_less_nat_alt unat_of_nat_less word_unat_eq_iff)
  have d: "1 < c - m \<Longrightarrow> (of_nat (c - m) :: u8) - 1 = of_nat (c - Suc m)"
    by (metis Suc_diff_Suc add_diff_cancel_left' of_nat_Suc zero_less_diff diff_diff_left
        order.strict_trans zero_less_one)
  show ?case
  proof (cases "1 < c - m")
    case True
    with Suc gt d assms show ?thesis by (auto simp: pmm_unref_frame_def Let_def)
  next
    case False
    with Suc gt e assms show ?thesis
      by (auto simp: pmm_unref_frame_def Let_def)
  qed
qed

text \<open>Once the reference-count table exists, it stays.\<close>

lemma refcnt_stays:
  "refcnt (snd (pmm_alloc_frame s)) = None \<longleftrightarrow> refcnt s = None"
  "refcnt (snd (pmm_alloc_contig n s)) = None \<longleftrightarrow> refcnt s = None"
  "refcnt (pmm_ref_frame a s) = None \<longleftrightarrow> refcnt s = None"
  "refcnt (pmm_unref_frame a s) = None \<longleftrightarrow> refcnt s = None"
  by (auto simp: pmm_alloc_frame_def pmm_alloc_contig_def pmm_ref_frame_def pmm_unref_frame_def
      Let_def split: option.splits)

section \<open>Boot\<close>

text \<open>The frames a memory-map entry releases, and what is known after all entries are processed.\<close>

definition region_frames :: "hand_memmap_entry \<Rightarrow> nat set" where
  "region_frames e = (if mm_type e = HAND_MEM_USABLE
     then {unat ((mm_base e + PAGE_SIZE - 1) div PAGE_SIZE)..<
           min (unat ((mm_base e + mm_length e) div PAGE_SIZE)) MAX_FRAMES} else {})"

lemma pmm_free_region_simps:
  "bit_get (bitmap (pmm_free_region e s)) f \<longleftrightarrow> f \<notin> region_frames e \<and> bit_get (bitmap s) f"
  "total_frames s \<le> MAX_FRAMES \<Longrightarrow> total_frames (pmm_free_region e s) \<le> MAX_FRAMES"
  "refcnt (pmm_free_region e s) = refcnt s" "hhdm (pmm_free_region e s) = hhdm s"
proof -
  have bits: "bit_get (bitmap (fold pmm_free_step fs s)) f \<longleftrightarrow> f \<notin> set fs \<and> bit_get (bitmap s) f" for fs s
    by (induction fs arbitrary: s) (auto simp: pmm_free_step_def)
  have rest: "refcnt (fold pmm_free_step fs s) = refcnt s" "hhdm (fold pmm_free_step fs s) = hhdm s" for fs s
    by (induction fs arbitrary: s) (auto simp: pmm_free_step_def)
  have tot: "total_frames (fold pmm_free_step fs s) \<le> MAX_FRAMES"
    if "total_frames s \<le> MAX_FRAMES" "\<forall>f \<in> set fs. f < MAX_FRAMES" for fs s
    using that by (induction fs arbitrary: s) (auto simp: pmm_free_step_def)
  show "bit_get (bitmap (pmm_free_region e s)) f \<longleftrightarrow> f \<notin> region_frames e \<and> bit_get (bitmap s) f"
    by (auto simp: pmm_free_region_def region_frames_def Let_def bits)
  show "total_frames s \<le> MAX_FRAMES \<Longrightarrow> total_frames (pmm_free_region e s) \<le> MAX_FRAMES"
    by (auto simp: pmm_free_region_def Let_def intro!: tot)
  show "refcnt (pmm_free_region e s) = refcnt s" "hhdm (pmm_free_region e s) = hhdm s"
    by (auto simp: pmm_free_region_def Let_def rest)
qed

lemma fold_free_region_simps:
  "bit_get (bitmap (fold pmm_free_region es s)) f \<longleftrightarrow>
     (\<forall>e \<in> set es. f \<notin> region_frames e) \<and> bit_get (bitmap s) f"
  "total_frames s \<le> MAX_FRAMES \<Longrightarrow> total_frames (fold pmm_free_region es s) \<le> MAX_FRAMES"
  "refcnt (fold pmm_free_region es s) = refcnt s" "hhdm (fold pmm_free_region es s) = hhdm s"
  by (induction es arbitrary: s) (auto simp: pmm_free_region_simps)

lemma pmm_init_spec:
  assumes init: "pmm_init h s0 = Some s" and none: "refcnt s0 = None"
  shows "pmm_inv s" "hhdm s = hhdm_offset h" "\<exists>r. refcnt s = Some r"
    and "\<And>f. f < total_frames s \<Longrightarrow> \<not> bit_get (bitmap s) f \<Longrightarrow>
           256 \<le> f \<and> (\<exists>e \<in> set (memmap h). f \<in> region_frames e)"
proof -
  define s1 where "s1 = fold pmm_free_region (memmap h)
    (s0\<lparr>hhdm := hhdm_offset h, bitmap := (\<lambda>_. 255), total_frames := 0\<rparr>)"
  define b2 where "b2 = fold bit_set [0..<0x100000 div PAGE_SIZE] (bitmap s1)"
  define s3 where "s3 = s1\<lparr>bitmap := b2, used_frames := count_used b2 (total_frames s1)\<rparr>"
  define n where "n = (total_frames s3 + PAGE_SIZE - 1) div PAGE_SIZE"
  obtain a s4 where alloc: "pmm_alloc_contig n s3 = (a, s4)" by fastforce
  have a0: "a \<noteq> 0" and s: "s = s4\<lparr>refcnt := Some (\<lambda>f. if bit_get (bitmap s4) f then 1 else 0)\<rparr>"
    using init alloc unfolding pmm_init_def Let_def s1_def [symmetric]
    by (auto simp: b2_def s3_def n_def split: if_splits)
  have b2: "bit_get b2 f \<longleftrightarrow> f < 256 \<or> (\<forall>e \<in> set (memmap h). f \<notin> region_frames e)" for f
    by (simp only: b2_def s1_def bit_get_fold_set fold_free_region_simps)
       (auto simp: bit_get_all_ones)
  have cnt: "count_used b2 m = of_nat (count_below m (bit_get b2))" for m
    by (simp add: count_used_def fold_count_below)
  have "bit_get b2 0" by (simp add: b2)
  then have inv3: "pmm_inv s3"
    using none by (auto simp: pmm_inv_def s3_def cnt s1_def fold_free_region_simps)
  have n: "0 < n" using alloc a0 by (cases n) (auto simp: pmm_alloc_contig_def)
  note spec = pmm_alloc_contig_spec [OF inv3 n alloc]
  show "pmm_inv s" using spec(1) by (auto simp: s pmm_inv_def)
  show "\<exists>r. refcnt s = Some r" by (simp add: s)
  show "hhdm s = hhdm_offset h"
    by (simp add: s spec s3_def s1_def fold_free_region_simps)
  fix f assume f: "f < total_frames s" "\<not> bit_get (bitmap s) f"
  then have "f \<notin> frames_used s4" by (simp add: s frames_used_def)
  then have "f \<notin> frames_used s3" using spec(2) [OF a0] by auto
  then show "256 \<le> f \<and> (\<exists>e \<in> set (memmap h). f \<in> region_frames e)"
    using f spec(4) by (auto simp: frames_used_def s s3_def b2)
qed

lemma fold_free_step_total:
  "total_frames s \<le> total_frames (fold pmm_free_step fs s)"
  "f \<in> set fs \<Longrightarrow> f < total_frames (fold pmm_free_step fs s)"
proof (induction fs arbitrary: s)
  case (Cons g fs)
  have mono: "total_frames t \<le> total_frames (fold pmm_free_step fs t)" for t by (rule Cons.IH)
  have step: "total_frames s \<le> total_frames (pmm_free_step g s)" "g < total_frames (pmm_free_step g s)"
    for s by (auto simp: pmm_free_step_def)
  { case 1 show ?case using order_trans [OF step(1) mono] by simp }
  { case 2 then show ?case using less_le_trans [OF step(2) mono] Cons.IH(2) by auto }
qed auto

lemma fold_free_region_total:
  "total_frames s \<le> total_frames (fold pmm_free_region es s)"
  "e \<in> set es \<Longrightarrow> f \<in> region_frames e \<Longrightarrow> f < total_frames (fold pmm_free_region es s)"
proof (induction es arbitrary: s)
  case (Cons d es)
  have mono: "total_frames t \<le> total_frames (fold pmm_free_region es t)" for t by (rule Cons.IH)
  have step: "total_frames s \<le> total_frames (pmm_free_region d s)"
      "f \<in> region_frames d \<Longrightarrow> f < total_frames (pmm_free_region d s)" for s
    by (auto simp: pmm_free_region_def region_frames_def Let_def intro: fold_free_step_total
        split: if_splits)
  { case 1 show ?case using order_trans [OF step(1) mono] by simp }
  { case 2 then show ?case using less_le_trans [OF step(2) mono] Cons.IH(2) by auto }
qed auto

text \<open>512 pages hold one reference count for each of the 2097152 frames the bitmap covers.\<close>

lemma pmm_init_Some:
  assumes "256 \<le> st" "\<And>f. st \<le> f \<Longrightarrow> f < st + 512 \<Longrightarrow> \<exists>e \<in> set (memmap h). f \<in> region_frames e"
    and none: "refcnt s0 = None"
  shows "\<exists>s. pmm_init h s0 = Some s"
proof -
  define s1 where "s1 = fold pmm_free_region (memmap h)
    (s0\<lparr>hhdm := hhdm_offset h, bitmap := (\<lambda>_. 255), total_frames := 0\<rparr>)"
  define b2 where "b2 = fold bit_set [0..<0x100000 div PAGE_SIZE] (bitmap s1)"
  define s3 where "s3 = s1\<lparr>bitmap := b2, used_frames := count_used b2 (total_frames s1)\<rparr>"
  define n where "n = (total_frames s3 + PAGE_SIZE - 1) div PAGE_SIZE"
  have tot: "total_frames s1 \<le> MAX_FRAMES" "st + 511 < total_frames s1"
    using assms(2) [of "st + 511"]
    by (auto simp: s1_def fold_free_region_simps intro: fold_free_region_total)
  then have n: "0 < n" "n \<le> 512" by (auto simp: n_def s3_def)
  have b2: "bit_get b2 f \<longleftrightarrow> f < 256 \<or> (\<forall>e \<in> set (memmap h). f \<notin> region_frames e)" for f
    by (simp only: b2_def s1_def bit_get_fold_set fold_free_region_simps)
       (auto simp: bit_get_all_ones)
  have cnt: "count_used b2 m = of_nat (count_below m (bit_get b2))" for m
    by (simp add: count_used_def fold_count_below)
  have "bit_get b2 0" by (simp add: b2)
  then have inv3: "pmm_inv s3"
    using none tot by (auto simp: pmm_inv_def s3_def cnt s1_def fold_free_region_simps)
  have run: "free_run (bitmap s3) (total_frames s3) n st"
    using tot n assms(1,2) by (auto simp: free_run_def s3_def b2)
  obtain a s4 where alloc: "pmm_alloc_contig n s3 = (a, s4)" by fastforce
  have "a \<noteq> 0" using pmm_alloc_contig_spec(3) [OF inv3 n(1) alloc] run by auto
  then show ?thesis
    using alloc unfolding pmm_init_def Let_def s1_def [symmetric]
    by (auto simp: b2_def s3_def n_def)
qed

section \<open>The interface to the clients\<close>

text \<open>
  What the address-space, heap and disk code relies on: an allocation that returns a nonzero address
  returns a page that nobody holds, and changes nothing else. Address 0 means that memory is full.
\<close>

locale frame_source =
  fixes alloc :: "'s \<Rightarrow> u64 \<times> 's" and held :: "'s \<Rightarrow> nat set" and wf :: "'s \<Rightarrow> bool"
  assumes alloc_wf: "wf s \<Longrightarrow> wf (snd (alloc s))"
    and alloc_fresh: "wf s \<Longrightarrow> fst (alloc s) \<noteq> 0 \<Longrightarrow> frame_of (fst (alloc s)) \<notin> held s"
    and alloc_held: "wf s \<Longrightarrow> held (snd (alloc s)) =
          (if fst (alloc s) = 0 then held s else insert (frame_of (fst (alloc s))) (held s))"
    and alloc_aligned: "wf s \<Longrightarrow> fst (alloc s) = addr_of (frame_of (fst (alloc s)))"
begin

text \<open>A client that asks for \<open>n\<close> frames one after the other: the addresses it gets are pairwise
  distinct pages, none of which was held before.\<close>

primrec alloc_seq :: "nat \<Rightarrow> 's \<Rightarrow> u64 list \<times> 's" where
  "alloc_seq 0 s = ([], s)"
| "alloc_seq (Suc n) s =
     (let (a, s1) = alloc s; (as, s2) = alloc_seq n s1 in (if a = 0 then as else a # as, s2))"

lemma alloc_seq_spec:
  assumes "wf s" "alloc_seq n s = (as, s')"
  shows "wf s' \<and> distinct (map frame_of as) \<and> set (map frame_of as) \<inter> held s = {} \<and>
         held s' = held s \<union> set (map frame_of as) \<and> 0 \<notin> set as"
  using assms
proof (induction n arbitrary: s as s')
  case 0
  then show ?case by auto
next
  case (Suc n)
  obtain a s1 where a: "alloc s = (a, s1)" by fastforce
  obtain as1 s2 where r: "alloc_seq n s1 = (as1, s2)" by fastforce
  have wf1: "wf s1" using alloc_wf [OF Suc.prems(1)] a by simp
  note IH = Suc.IH [OF wf1 r]
  show ?case
    using IH Suc.prems a r alloc_fresh [OF Suc.prems(1)] alloc_held [OF Suc.prems(1)]
    by (cases "a = 0") (auto simp: disjoint_iff)
qed

end

interpretation frames: frame_source pmm_alloc_frame frames_used pmm_inv
proof
  fix s assume inv: "pmm_inv s"
  obtain a s' where alloc: "pmm_alloc_frame s = (a, s')" by fastforce
  note spec = pmm_alloc_frame_spec [OF inv alloc]
  show "pmm_inv (snd (pmm_alloc_frame s))" using spec(1) alloc by simp
  show "fst (pmm_alloc_frame s) \<noteq> 0 \<Longrightarrow> frame_of (fst (pmm_alloc_frame s)) \<notin> frames_used s"
    using spec(2) alloc by simp
  show "frames_used (snd (pmm_alloc_frame s)) =
      (if fst (pmm_alloc_frame s) = 0 then frames_used s
       else insert (frame_of (fst (pmm_alloc_frame s))) (frames_used s))"
    using spec(2,3) alloc by (cases "a = 0") auto
  show "fst (pmm_alloc_frame s) = addr_of (frame_of (fst (pmm_alloc_frame s)))"
    using spec(2) alloc by (cases "a = 0") (auto simp: addr_of_def frame_of_def)
qed

section \<open>Properties\<close>

text \<open>The states the kernel can reach: boot, then any sequence of calls in which only addresses of
  allocated pages are released.\<close>

inductive pmm_reach :: "handoff \<Rightarrow> pmm \<Rightarrow> bool" for h where
  boot: "pmm_init h pmm_boot = Some s \<Longrightarrow> pmm_reach h s"
| alloc: "pmm_reach h s \<Longrightarrow> pmm_alloc_frame s = (a, s') \<Longrightarrow> pmm_reach h s'"
| contig: "pmm_reach h s \<Longrightarrow> pmm_alloc_contig n s = (a, s') \<Longrightarrow> pmm_reach h s'"
| ref: "pmm_reach h s \<Longrightarrow> pmm_reach h (pmm_ref_frame a s)"
| unref: "pmm_reach h s \<Longrightarrow> frame_of a \<in> frames_used s \<Longrightarrow> frame_of a \<noteq> 0 \<Longrightarrow>
    pmm_reach h (pmm_unref_frame a s)"

lemma pmm_reach_inv: "pmm_reach h s \<Longrightarrow> pmm_inv s"
proof (induction rule: pmm_reach.induct)
  case (boot s)
  then show ?case by (rule pmm_init_spec) (simp add: pmm_boot_def)
next
  case (alloc s a s')
  then show ?case by (blast intro: pmm_alloc_frame_spec)
next
  case (contig s n a s')
  then show ?case
    by (cases "n = 0") (auto simp: pmm_alloc_contig_def [of 0] dest: pmm_alloc_contig_spec(1))
next
  case (ref s a)
  then show ?case by (blast intro: pmm_ref_frame_inv)
next
  case (unref s a)
  then show ?case by (auto simp: frames_used_def intro: pmm_unref_frame_inv)
qed

text \<open>C3: in every state reachable from boot, the usage counter is the number of frames marked in the
  bitmap, a frame is marked exactly when its reference count is nonzero, and frame 0 is never free
  (so the failure value 0 is never a valid allocation).\<close>

theorem pmm_accounting:
  assumes "pmm_reach h s"
  shows "unat (used_frames s) = card (frames_used s) \<and>
         (\<exists>r. refcnt s = Some r \<and> (\<forall>f < total_frames s. f \<in> frames_used s \<longleftrightarrow> r f \<noteq> 0)) \<and>
         (0 < total_frames s \<longrightarrow> 0 \<in> frames_used s)"
proof -
  have inv: "pmm_inv s" using assms by (rule pmm_reach_inv)
  have "refcnt s \<noteq> None" using assms
  proof (induction rule: pmm_reach.induct)
    case (boot s)
    then have "\<exists>r. refcnt s = Some r" by (rule pmm_init_spec) (simp add: pmm_boot_def)
    then show ?case by simp
  qed (metis refcnt_stays snd_conv)+
  moreover have "card (frames_used s) \<le> total_frames s"
    using count_below_le by (simp add: frames_used_def count_below_def)
  ultimately show ?thesis using inv
    by (auto simp: pmm_inv_def frames_used_def count_below_def unat_of_nat_less)
qed

text \<open>A memory map for the witnesses: 4 MiB of usable memory from 1 MiB on.\<close>

definition example_handoff :: handoff where
  "example_handoff = \<lparr>hhdm_offset = 0xFFFF800000000000,
     memmap = [\<lparr>mm_base = 0x100000, mm_length = 0x400000, mm_type = 0\<rparr>]\<rparr>"

lemma example_boots:
  obtains s where "pmm_init example_handoff pmm_boot = Some s" "pmm_reach example_handoff s"
    "pmm_inv s"
proof -
  have "\<exists>s. pmm_init example_handoff pmm_boot = Some s"
    by (rule pmm_init_Some [of 256])
       (auto simp: example_handoff_def region_frames_def pmm_boot_def)
  then show ?thesis using that by (blast intro: pmm_reach.boot pmm_reach_inv)
qed

theorem pmm_accounting_witness:
  "\<exists>s. pmm_reach example_handoff s \<and> unat (used_frames s) = card (frames_used s)"
  using pmm_accounting example_boots by metis

text \<open>C21: allocating frames one by one, \<open>n\<close> times from any consistent state: the pages handed out are
  pairwise distinct, none of them was in use, exactly they are added to the frames in use, and one
  call fails (returns 0) only when every managed frame is in use.\<close>

theorem pmm_alloc_frame_exclusive:
  assumes "pmm_inv s"
  shows "(let (as, s') = frames.alloc_seq n s in
            pmm_inv s' \<and> distinct (map frame_of as) \<and> set (map frame_of as) \<inter> frames_used s = {} \<and>
            frames_used s' = frames_used s \<union> set (map frame_of as)) \<and>
         (fst (pmm_alloc_frame s) = 0 \<longleftrightarrow> frames_used s = {..<total_frames s})"
proof -
  obtain as s' where seq: "frames.alloc_seq n s = (as, s')" by fastforce
  obtain a t where a: "pmm_alloc_frame s = (a, t)" by fastforce
  note spec = pmm_alloc_frame_spec [OF assms a]
  have "a = 0 \<longleftrightarrow> frames_used s = {..<total_frames s}" using spec(2,3) by auto
  then show ?thesis using frames.alloc_seq_spec [OF assms seq] seq a by simp
qed

theorem pmm_alloc_frame_exclusive_witness:
  "\<exists>s. pmm_inv s \<and> distinct (map frame_of (fst (frames.alloc_seq 3 s)))"
proof -
  obtain s where "pmm_inv s" using example_boots by metis
  with pmm_alloc_frame_exclusive [OF this, of 3] show ?thesis
    by (auto simp: Let_def split: prod.splits)
qed

text \<open>The contiguous allocator is first fit: it returns the lowest run of \<open>n\<close> free frames, claims
  exactly these frames, and fails (returns 0, state unchanged) exactly when no such run exists.\<close>

theorem pmm_alloc_contig_first_fit:
  assumes "pmm_inv s" "0 < n" "pmm_alloc_contig n s = (a, s')"
  shows "if \<exists>st. free_run (bitmap s) (total_frames s) n st
         then a = addr_of (LEAST st. free_run (bitmap s) (total_frames s) n st) \<and> a \<noteq> 0 \<and>
              pmm_inv s' \<and> frames_used s' = {frame_of a..<frame_of a + n} \<union> frames_used s
         else a = 0 \<and> s' = s"
proof -
  note spec = pmm_alloc_contig_spec [OF assms]
  show ?thesis
  proof (cases "a = 0")
    case True
    then show ?thesis using spec(3) by auto
  next
    case False
    note got = spec(2) [OF False]
    have "(LEAST st. free_run (bitmap s) (total_frames s) n st) = frame_of a"
      by (rule Least_equality) (use got in \<open>auto simp: not_less [symmetric]\<close>)
    then show ?thesis using got False spec(1) by auto
  qed
qed

theorem pmm_alloc_contig_first_fit_witness:
  "\<exists>s a s'. pmm_inv s \<and> pmm_alloc_contig 4 s = (a, s') \<and>
     (a = 0 \<or> frames_used s' = {frame_of a..<frame_of a + 4} \<union> frames_used s)"
proof -
  obtain s where inv: "pmm_inv s" using example_boots by metis
  obtain a s' where "pmm_alloc_contig 4 s = (a, s')" by fastforce
  with inv pmm_alloc_contig_first_fit [OF inv _ this] show ?thesis by (auto split: if_splits)
qed

text \<open>Boot. If the memory map has 512 consecutive usable frames above 1 MiB, \<open>pmm_init\<close> succeeds
  (it does not halt); and whenever it succeeds, every frame it leaves free lies above 1 MiB inside a
  usable entry of the memory map.\<close>

theorem pmm_boot_frames_usable:
  assumes "256 \<le> st" "\<forall>f. st \<le> f \<and> f < st + 512 \<longrightarrow> (\<exists>e \<in> set (memmap h). f \<in> region_frames e)"
  shows "\<exists>s. pmm_init h pmm_boot = Some s \<and> pmm_inv s \<and> hhdm s = hhdm_offset h \<and>
           (\<forall>f < total_frames s. f \<notin> frames_used s \<longrightarrow>
              256 \<le> f \<and> (\<exists>e \<in> set (memmap h). f \<in> region_frames e))"
proof -
  have none: "refcnt pmm_boot = None" by (simp add: pmm_boot_def)
  obtain s where init: "pmm_init h pmm_boot = Some s"
    using pmm_init_Some [of st h pmm_boot] assms none by blast
  show ?thesis
    using pmm_init_spec [OF init none] init by (auto simp: frames_used_def)
qed

theorem pmm_boot_frames_usable_witness:
  "\<exists>s. pmm_init example_handoff pmm_boot = Some s \<and> pmm_inv s"
  using pmm_boot_frames_usable [of 256 example_handoff]
  by (auto simp: example_handoff_def region_frames_def)

text \<open>A frame with one owner that gets \<open>k\<close> more references and then loses \<open>m\<close> of them is still
  allocated exactly when \<open>m < min 255 (k + 1)\<close>. With at most 254 extra references this is exact
  reference counting. Beyond that the count has saturated and the frame is returned to the pool
  after 255 drops although references remain: the test that is meant to keep a saturated frame
  comes after the decrement and is never reached.\<close>

theorem pmm_refcount_lifetime:
  assumes "pmm_inv s" "refcnt s = Some r" "frame_of a < total_frames s" "r (frame_of a) = 1"
  shows "frame_of a \<in> frames_used ((pmm_unref_frame a ^^ m) ((pmm_ref_frame a ^^ k) s)) \<longleftrightarrow>
         m < min 255 (k + 1)"
proof -
  have tot: "total_frames s \<le> MAX_FRAMES" and bit: "bit_get (bitmap s) (frame_of a)"
    using assms by (auto simp: pmm_inv_def)
  let ?t = "(pmm_ref_frame a ^^ k) s" and ?c = "min 255 (1 + k)"
  have r1: "r (frame_of a) = of_nat 1" using assms(4) by simp
  note t = pmm_ref_iter [OF assms(2,3) tot r1, of k, simplified]
  have "refcnt ((pmm_unref_frame a ^^ m) ?t) = Some (r(frame_of a := of_nat ?c, frame_of a := of_nat (?c - m))) \<and>
         total_frames ((pmm_unref_frame a ^^ m) ?t) = total_frames ?t \<and>
         (bit_get (bitmap ((pmm_unref_frame a ^^ m) ?t)) (frame_of a) \<longleftrightarrow> m < ?c)"
    by (rule pmm_unref_iter) (use t tot assms(3) bit in auto)
  then show ?thesis using t assms(3) by (simp add: frames_used_def add.commute)
qed

theorem pmm_refcount_lifetime_witness:
  "\<exists>s r a. refcnt s = Some r \<and> r (frame_of a) = 1 \<and>
     frame_of a \<notin> frames_used ((pmm_unref_frame a ^^ 255) ((pmm_ref_frame a ^^ 300) s))"
proof -
  let ?s = "\<lparr>bitmap = (\<lambda>_. 255), total_frames = 1, used_frames = 1, hhdm = 0, alloc_hint = 0,
             refcnt = Some (\<lambda>_. 1)\<rparr>"
  have "pmm_inv ?s"
    by (simp add: pmm_inv_def bit_get_all_ones count_below_Suc [of 0, simplified])
  then show ?thesis
    using pmm_refcount_lifetime [of ?s "\<lambda>_. 1" 0 255 300]
    by (intro exI [of _ ?s] exI [of _ "\<lambda>_. 1"] exI [of _ 0]) (simp add: frame_of_def)
qed

end
