(* ===== verification/Kstring.thy ===== *)
theory Kstring
  imports Prelude
begin

text \<open>
  The kernel's string library (\<^verbatim>\<open>src/kernel/lib/string.c\<close>). Memory is a function from
  64-bit addresses to bytes. The block routines are modelled as they are written: a byte loop up to
  an 8-byte boundary, a loop over eight 64-bit words at a time, a loop over single words, and a byte
  tail. Each of them is then shown equal to the one-line effect it stands for. The string loops run
  until they meet a NUL byte and are partial functions: \<open>None\<close> is a loop that never ends.
\<close>

type_synonym mem = "u64 \<Rightarrow> u8"

section \<open>Eight-byte accesses\<close>

text \<open>A 64-bit access is little endian.\<close>

definition load8 :: "mem \<Rightarrow> u64 \<Rightarrow> u64" where
  "load8 m a = fold (\<lambda>i w. w OR push_bit (8 * i) (ucast (m (a + of_nat i)))) [0..<8] 0"

definition store8 :: "mem \<Rightarrow> u64 \<Rightarrow> u64 \<Rightarrow> mem" where
  "store8 m a w = fold (\<lambda>i m. m(a + of_nat i := ucast (drop_bit (8 * i) w))) [0..<8] m"

section \<open>Block routines\<close>

text \<open>\<^verbatim>\<open>while (n >= c && g(d)) { body; d += c; s += c; n -= c; }\<close>, the shape of every
  loop of \<open>memcpy\<close> and of the forward half of \<open>memmove\<close>.\<close>

function copy_loop :: "nat \<Rightarrow> (u64 \<Rightarrow> bool) \<Rightarrow> (mem \<Rightarrow> u64 \<Rightarrow> u64 \<Rightarrow> mem) \<Rightarrow>
    mem \<times> u64 \<times> u64 \<times> nat \<Rightarrow> mem \<times> u64 \<times> u64 \<times> nat" where
  "copy_loop c g body (m, d, s, n) =
     (if 0 < c \<and> c \<le> n \<and> g d
      then copy_loop c g body (body m d s, d + of_nat c, s + of_nat c, n - c)
      else (m, d, s, n))"
  by pat_completeness auto
termination
  by (relation "measure (\<lambda>(c, g, body, m, d, s, n). n)") auto

declare copy_loop.simps [simp del]

definition copy1 :: "mem \<Rightarrow> u64 \<Rightarrow> u64 \<Rightarrow> mem" where
  "copy1 m d s = m(d := m s)"

definition copy8 :: "mem \<Rightarrow> u64 \<Rightarrow> u64 \<Rightarrow> mem" where
  "copy8 m d s = store8 m d (load8 m s)"

definition copy64 :: "mem \<Rightarrow> u64 \<Rightarrow> u64 \<Rightarrow> mem" where
  "copy64 m d s =
     fold (\<lambda>i m. copy8 m (d + of_nat (8 * i)) (s + of_nat (8 * i))) [0..<8] m"

definition misaligned :: "u64 \<Rightarrow> bool" where
  "misaligned d \<longleftrightarrow> d AND 7 \<noteq> 0"

definition copy_forward :: "mem \<Rightarrow> u64 \<Rightarrow> u64 \<Rightarrow> nat \<Rightarrow> mem" where
  "copy_forward m d s n =
     fst (copy_loop 1 (\<lambda>_. True) copy1
           (copy_loop 8 (\<lambda>_. True) copy8
             (copy_loop 64 (\<lambda>_. True) copy64
               (copy_loop 1 misaligned copy1 (m, d, s, n)))))"

definition memcpy :: "mem \<Rightarrow> u64 \<Rightarrow> u64 \<Rightarrow> nat \<Rightarrow> u64 \<times> mem" where
  "memcpy m dst src n = (dst, copy_forward m dst src n)"

text \<open>\<^verbatim>\<open>while (n >= c && g(d)) { d -= c; s -= c; body; n -= c; }\<close>, the loops of
  \<open>memmove\<close> when the destination lies above the source.\<close>

function back_loop :: "nat \<Rightarrow> (u64 \<Rightarrow> bool) \<Rightarrow> (mem \<Rightarrow> u64 \<Rightarrow> u64 \<Rightarrow> mem) \<Rightarrow>
    mem \<times> u64 \<times> u64 \<times> nat \<Rightarrow> mem \<times> u64 \<times> u64 \<times> nat" where
  "back_loop c g body (m, d, s, n) =
     (if 0 < c \<and> c \<le> n \<and> g d
      then back_loop c g body (body m (d - of_nat c) (s - of_nat c), d - of_nat c, s - of_nat c, n - c)
      else (m, d, s, n))"
  by pat_completeness auto
termination
  by (relation "measure (\<lambda>(c, g, body, m, d, s, n). n)") auto

declare back_loop.simps [simp del]

definition back64 :: "mem \<Rightarrow> u64 \<Rightarrow> u64 \<Rightarrow> mem" where
  "back64 m d s =
     fold (\<lambda>i m. copy8 m (d + of_nat (8 * i)) (s + of_nat (8 * i))) (rev [0..<8]) m"

definition copy_backward :: "mem \<Rightarrow> u64 \<Rightarrow> u64 \<Rightarrow> nat \<Rightarrow> mem" where
  "copy_backward m d s n =
     fst (back_loop 1 (\<lambda>_. True) copy1
           (back_loop 8 (\<lambda>_. True) copy8
             (back_loop 64 (\<lambda>_. True) back64
               (back_loop 1 misaligned copy1 (m, d + of_nat n, s + of_nat n, n)))))"

definition memmove :: "mem \<Rightarrow> u64 \<Rightarrow> u64 \<Rightarrow> nat \<Rightarrow> u64 \<times> mem" where
  "memmove m dst src n =
     (if dst = src \<or> n = 0 then (dst, m)
      else if dst < src then (dst, copy_forward m dst src n)
      else (dst, copy_backward m dst src n))"

text \<open>\<open>memset\<close>, with the byte spread over a word by three shift-or steps.\<close>

definition spread8 :: "u8 \<Rightarrow> u64" where
  "spread8 val =
     (let v = ucast val;
          v = v OR push_bit 8 v;
          v = v OR push_bit 16 v
      in v OR push_bit 32 v)"

function fill_loop :: "nat \<Rightarrow> (u64 \<Rightarrow> bool) \<Rightarrow> (mem \<Rightarrow> u64 \<Rightarrow> mem) \<Rightarrow>
    mem \<times> u64 \<times> nat \<Rightarrow> mem \<times> u64 \<times> nat" where
  "fill_loop c g body (m, d, n) =
     (if 0 < c \<and> c \<le> n \<and> g d
      then fill_loop c g body (body m d, d + of_nat c, n - c)
      else (m, d, n))"
  by pat_completeness auto
termination
  by (relation "measure (\<lambda>(c, g, body, m, d, n). n)") auto

declare fill_loop.simps [simp del]

definition memset :: "mem \<Rightarrow> u64 \<Rightarrow> int \<Rightarrow> nat \<Rightarrow> u64 \<times> mem" where
  "memset m dst c n =
     (let val = (word_of_int c :: u8);
          val64 = spread8 val;
          set1 = (\<lambda>m d. m(d := val));
          set8 = (\<lambda>m d. store8 m d val64);
          set64 = (\<lambda>m d. fold (\<lambda>i m. store8 m (d + of_nat (8 * i)) val64) [0..<8] m)
      in (dst, fst (fill_loop 1 (\<lambda>_. True) set1
                (fill_loop 8 (\<lambda>_. True) set8
                  (fill_loop 64 (\<lambda>_. True) set64
                    (fill_loop 1 misaligned set1 (m, dst, n)))))))"

text \<open>\<open>memcmp\<close>: the first component is the value returned from inside the loop.\<close>

definition byte_diff :: "mem \<Rightarrow> u64 \<Rightarrow> u64 \<Rightarrow> int" where
  "byte_diff m x y = uint (m x) - uint (m y)"

function memcmp_bytes :: "(u64 \<Rightarrow> u64 \<Rightarrow> bool) \<Rightarrow> mem \<Rightarrow> u64 \<Rightarrow> u64 \<Rightarrow> nat \<Rightarrow>
    int option \<times> u64 \<times> u64 \<times> nat" where
  "memcmp_bytes g m x y n =
     (if n \<noteq> 0 \<and> g x y then
        if m x \<noteq> m y then (Some (byte_diff m x y), x, y, n)
        else memcmp_bytes g m (x + 1) (y + 1) (n - 1)
      else (None, x, y, n))"
  by pat_completeness auto
termination
  by (relation "measure (\<lambda>(g, m, x, y, n). n)") auto

declare memcmp_bytes.simps [simp del]

function memcmp_words :: "mem \<Rightarrow> u64 \<Rightarrow> u64 \<Rightarrow> nat \<Rightarrow> int option \<times> u64 \<times> u64 \<times> nat" where
  "memcmp_words m x y n =
     (if n \<ge> 8 then
        case (if load8 m x \<noteq> load8 m y
              then find (\<lambda>i. m (x + of_nat i) \<noteq> m (y + of_nat i)) [0..<8] else None) of
          Some i \<Rightarrow> (Some (byte_diff m (x + of_nat i) (y + of_nat i)), x, y, n)
        | None \<Rightarrow> memcmp_words m (x + 8) (y + 8) (n - 8)
      else (None, x, y, n))"
  by pat_completeness auto
termination
  by (relation "measure (\<lambda>(m, x, y, n). n)") auto

declare memcmp_words.simps [simp del]

definition memcmp :: "mem \<Rightarrow> u64 \<Rightarrow> u64 \<Rightarrow> nat \<Rightarrow> int" where
  "memcmp m a b n =
     (case memcmp_bytes (\<lambda>x y. misaligned x \<or> misaligned y) m a b n of
        (Some r, _) \<Rightarrow> r
      | (None, x, y, n) \<Rightarrow>
          (case memcmp_words m x y n of
             (Some r, _) \<Rightarrow> r
           | (None, x, y, n) \<Rightarrow>
               (case memcmp_bytes (\<lambda>_ _. True) m x y n of
                  (Some r, _) \<Rightarrow> r
                | (None, _) \<Rightarrow> 0)))"

section \<open>String routines\<close>

partial_function (option) strlen_loop :: "mem \<Rightarrow> u64 \<Rightarrow> u64 \<Rightarrow> u64 option" where
  "strlen_loop m s n = (if m (s + n) \<noteq> 0 then strlen_loop m s (n + 1) else Some n)"

definition strlen :: "mem \<Rightarrow> u64 \<Rightarrow> u64 option" where
  "strlen m s = strlen_loop m s 0"

partial_function (option) strcmp :: "mem \<Rightarrow> u64 \<Rightarrow> u64 \<Rightarrow> int option" where
  "strcmp m a b = (if m a \<noteq> 0 \<and> m a = m b then strcmp m (a + 1) (b + 1)
                   else Some (byte_diff m a b))"

definition strncmp :: "mem \<Rightarrow> u64 \<Rightarrow> u64 \<Rightarrow> nat \<Rightarrow> int" where
  "strncmp m a b n =
     (case find (\<lambda>i. m (a + of_nat i) \<noteq> m (b + of_nat i) \<or> m (a + of_nat i) = 0) [0..<n] of
        Some i \<Rightarrow> byte_diff m (a + of_nat i) (b + of_nat i)
      | None \<Rightarrow> 0)"

partial_function (option) strcpy_loop :: "mem \<Rightarrow> u64 \<Rightarrow> u64 \<Rightarrow> mem option" where
  "strcpy_loop m p src =
     (let m' = m(p := m src) in
      if m' p \<noteq> 0 then strcpy_loop m' (p + 1) (src + 1) else Some m')"

definition strcpy :: "mem \<Rightarrow> u64 \<Rightarrow> u64 \<Rightarrow> (u64 \<times> mem) option" where
  "strcpy m dst src = map_option (\<lambda>m'. (dst, m')) (strcpy_loop m dst src)"

function strncpy_copy :: "mem \<Rightarrow> u64 \<Rightarrow> u64 \<Rightarrow> nat \<Rightarrow> nat \<Rightarrow> mem \<times> nat" where
  "strncpy_copy m dst src n i =
     (if i < n \<and> m (src + of_nat i) \<noteq> 0
      then strncpy_copy (m(dst + of_nat i := m (src + of_nat i))) dst src n (i + 1)
      else (m, i))"
  by pat_completeness auto
termination
  by (relation "measure (\<lambda>(m, dst, src, n, i). n - i)") auto

declare strncpy_copy.simps [simp del]

definition strncpy :: "mem \<Rightarrow> u64 \<Rightarrow> u64 \<Rightarrow> nat \<Rightarrow> u64 \<times> mem" where
  "strncpy m dst src n =
     (let (m1, i) = strncpy_copy m dst src n 0
      in (dst, fold (\<lambda>i m. m(dst + of_nat i := 0)) [i..<n] m1))"

section \<open>What the block routines do\<close>

text \<open>The effect of a copy and of a fill in one step. The range test is on the wrapped distance.\<close>

definition blit :: "mem \<Rightarrow> u64 \<Rightarrow> u64 \<Rightarrow> nat \<Rightarrow> mem" where
  "blit m d s n = (\<lambda>a. if unat (a - d) < n then m (s + (a - d)) else m a)"

definition fill :: "mem \<Rightarrow> u64 \<Rightarrow> u8 \<Rightarrow> nat \<Rightarrow> mem" where
  "fill m d v n = (\<lambda>a. if unat (a - d) < n then v else m a)"

lemma blit_0 [simp]: "blit m d s 0 = m"
  by (simp add: blit_def)

lemma blit_outside: "n \<le> unat (a - d) \<Longrightarrow> blit m d s n a = m a"
  by (simp add: blit_def)

lemma fill_0 [simp]: "fill m d v 0 = m"
  by (simp add: fill_def)

lemma word_offset_iff:
  assumes "k < 2 ^ LENGTH('a)"
  shows "a = d + of_nat k \<longleftrightarrow> unat (a - d :: 'a::len word) = k"
proof
  assume "unat (a - d) = k"
  then have "a - d = of_nat k" by auto
  then show "a = d + of_nat k" by (metis add.commute diff_add_cancel)
qed (simp add: unat_of_nat_less assms)

lemma fold_store:
  assumes "hi \<le> 2 ^ 64"
  shows "fold (\<lambda>i m. m(d + of_nat i := f i)) [lo..<hi] m a =
         (if lo \<le> unat (a - d) \<and> unat (a - d) < hi then f (unat (a - d)) else m (a :: u64))"
  using assms
proof (induction hi)
  case (Suc hi)
  have "a = d + of_nat hi \<longleftrightarrow> unat (a - d) = hi"
    using Suc.prems by (intro word_offset_iff) simp
  with Suc show ?case by (auto simp: less_Suc_eq)
qed simp

lemma store8_apply:
  "store8 m d w a = (if unat (a - d) < 8 then ucast (drop_bit (8 * unat (a - d)) w) else m a)"
  using fold_store [of 8 d "\<lambda>i. ucast (drop_bit (8 * i) w)" 0 m a] by (simp add: store8_def)

lemma bit_fold_bytes:
  "bit (fold (\<lambda>i w. w OR push_bit (8 * i) (ucast (f i :: u8))) [0..<n] (0 :: u64)) k \<longleftrightarrow>
   k < 8 * n \<and> k < 64 \<and> bit (f (k div 8)) (k mod 8)"
proof (induction n)
  case (Suc n)
  obtain q r where k: "k = 8 * q + r" "r < 8"
    by (metis mult_div_mod_eq mod_8_less)
  then have qr: "k div 8 = q" "k mod 8 = r" by simp_all
  have "bit (push_bit (8 * n) (ucast (f n)) :: u64) k \<longleftrightarrow> k < 64 \<and> q = n \<and> bit (f q) r"
  proof (cases "q = n")
    case True
    with k show ?thesis by (simp add: bit_push_bit_iff bit_unsigned_iff)
  next
    case False
    with k have "8 \<le> k - 8 * n" if "8 * n \<le> k" using that by linarith
    with False show ?thesis
      by (auto simp: bit_push_bit_iff bit_unsigned_iff dest!: bit_imp_le_length)
  qed
  moreover have "k < 8 * Suc n \<longleftrightarrow> k < 8 * n \<or> q = n" using k by auto
  ultimately show ?case using Suc unfolding qr by (auto simp: bit_or_iff)
qed simp

lemma load8_byte:
  assumes "i < 8"
  shows "ucast (drop_bit (8 * i) (load8 m a)) = m (a + of_nat i)"
proof (rule bit_word_eqI)
  fix j assume "j < LENGTH(8)"
  with assms have "(8 * i + j) div 8 = i" "(8 * i + j) mod 8 = j" "8 * i + j < 64" by auto
  with assms \<open>j < _\<close> show "bit (ucast (drop_bit (8 * i) (load8 m a)) :: u8) j = bit (m (a + of_nat i)) j"
    by (simp add: load8_def bit_fold_bytes bit_unsigned_iff bit_drop_bit_eq)
qed

lemma load8_eq_iff: "load8 m a = load8 m b \<longleftrightarrow> (\<forall>i<8. m (a + of_nat i) = m (b + of_nat i))"
proof
  assume "\<forall>i<8. m (a + of_nat i) = m (b + of_nat i)"
  then show "load8 m a = load8 m b"
    unfolding load8_def by (intro fold_cong) auto
qed (metis load8_byte)

text \<open>Every copy step is a simultaneous copy, and two steps in a row are one longer copy as long
  as the second does not read what the first wrote.\<close>

lemma copy1_blit: "copy1 m d s = blit m d s 1"
  by (auto simp: copy1_def blit_def fun_eq_iff unat_eq_0)

lemma copy8_blit: "copy8 m d s = blit m d s 8"
  by (auto simp: copy8_def blit_def fun_eq_iff store8_apply load8_byte)

lemma unat_add_offset:
  assumes "unat (a :: u64) + k < 2 ^ 64"
  shows "unat (a + of_nat k) = unat a + k"
  using assms by (simp add: unat_word_ariths unat_of_nat_less)

lemma unat_add_less_iff:
  assumes "k + c \<le> 2 ^ 64"
  shows "unat (x + of_nat k :: u64) < k + c \<longleftrightarrow> unat x < c \<or> unat (x + of_nat k) < k"
proof (cases "unat x + k < 2 ^ 64")
  case True
  then show ?thesis by (simp add: unat_add_offset)
next
  case False
  have "unat x < 2 ^ 64" using unsigned_less [of x] by simp
  then have "unat (x + of_nat k) = unat x + k - 2 ^ 64"
    using False assms by (simp add: unat_word_ariths unat_of_nat take_bit_eq_mod mod_simps le_mod_geq)
  with \<open>unat x < 2 ^ 64\<close> False assms show ?thesis by linarith
qed

lemma blit_append:
  assumes "\<And>i. i < c \<Longrightarrow> k \<le> unat (s + of_nat k + of_nat i - d)" "k + c \<le> 2 ^ 64"
  shows "blit (blit m d s k) (d + of_nat k) (s + of_nat k) c = blit m d s (k + c)"
proof
  fix a
  define x where "x = a - (d + of_nat k)"
  have a: "a = d + (x + of_nat k)" by (simp add: x_def)
  have eqs: "a - d = x + of_nat k" "a - (d + of_nat k) = x" by (simp_all add: a)
  show "blit (blit m d s k) (d + of_nat k) (s + of_nat k) c a = blit m d s (k + c) a"
  proof (cases "unat x < c")
    case True
    have "k \<le> unat (s + of_nat k + x - d)" using assms(1) [OF True] by simp
    with True show ?thesis
      unfolding blit_def eqs unat_add_less_iff [OF assms(2)] by (simp add: ac_simps)
  next
    case False
    then show ?thesis
      unfolding blit_def eqs unat_add_less_iff [OF assms(2)] by (simp add: eqs)
  qed
qed

lemma blit_prepend:
  assumes "\<And>i. i < c \<Longrightarrow> k \<le> unat (s - of_nat c + of_nat i - d)" "k + c \<le> 2 ^ 64"
  shows "blit (blit m d s k) (d - of_nat c) (s - of_nat c) c = blit m (d - of_nat c) (s - of_nat c) (k + c)"
proof
  fix a
  define x where "x = a - d"
  have a: "a = d + x" by (simp add: x_def)
  have eqs: "a - d = x" "a - (d - of_nat c) = x + of_nat c" by (simp_all add: a)
  have ck: "c + k \<le> 2 ^ 64" using assms(2) by simp
  show "blit (blit m d s k) (d - of_nat c) (s - of_nat c) c a =
        blit m (d - of_nat c) (s - of_nat c) (k + c) a"
  proof (cases "unat (x + of_nat c) < c")
    case True
    have "k \<le> unat (s - of_nat c + (x + of_nat c) - d)" using assms(1) [OF True] by simp
    with True show ?thesis
      unfolding blit_def eqs add.commute [of k c] unat_add_less_iff [OF ck] by simp
  next
    case False
    then show ?thesis
      unfolding blit_def eqs add.commute [of k c] unat_add_less_iff [OF ck] by (simp add: eqs)
  qed
qed

text \<open>A forward copy is safe when byte \<open>j\<close> of the source is not among the first \<open>j\<close> bytes of the
  destination, a backward copy when it is not among the bytes after the \<open>j\<close>-th.\<close>

definition fwd_ok :: "u64 \<Rightarrow> u64 \<Rightarrow> nat \<Rightarrow> bool" where
  "fwd_ok d s n \<longleftrightarrow> n \<le> 2 ^ 64 \<and> (\<forall>j < n. \<forall>k \<le> j. k \<le> unat (s + of_nat j - d))"

lemma fwd_okD: "fwd_ok d s n \<Longrightarrow> j < n \<Longrightarrow> k \<le> j \<Longrightarrow> k \<le> unat (s + of_nat j - d)"
  by (simp add: fwd_ok_def)

lemma fwd_ok_bound: "fwd_ok d s n \<Longrightarrow> n \<le> 2 ^ 64"
  by (simp add: fwd_ok_def)

definition fwd_st :: "mem \<Rightarrow> u64 \<Rightarrow> u64 \<Rightarrow> nat \<Rightarrow> mem \<times> u64 \<times> u64 \<times> nat \<Rightarrow> bool" where
  "fwd_st m0 d0 s0 n0 st \<longleftrightarrow>
     (\<exists>k \<le> n0. st = (blit m0 d0 s0 k, d0 + of_nat k, s0 + of_nat k, n0 - k))"

lemma fwd_st_step:
  assumes "fwd_ok d s n" "k + c \<le> n"
  shows "blit (blit m d s k) (d + of_nat k) (s + of_nat k) c = blit m d s (k + c)"
proof (rule blit_append)
  fix i assume "i < c"
  then have "k \<le> unat (s + of_nat (k + i) - d)"
    using assms(2) by (intro fwd_okD [OF assms(1)]) simp_all
  then show "k \<le> unat (s + of_nat k + of_nat i - d)" by (simp add: add.assoc)
qed (use assms(2) fwd_ok_bound [OF assms(1)] in linarith)

lemma fwd_st_loop:
  assumes "fwd_ok d0 s0 n0" "fwd_st m0 d0 s0 n0 st"
    and "\<And>m k. k + c \<le> n0 \<Longrightarrow> body m (d0 + of_nat k) (s0 + of_nat k) =
           blit m (d0 + of_nat k) (s0 + of_nat k) c"
  shows "fwd_st m0 d0 s0 n0 (copy_loop c g body st)"
  using assms(2,3)
proof (induction c g body st rule: copy_loop.induct [case_names step])
  case (step c g body m d s n)
  show ?case
  proof (cases "0 < c \<and> c \<le> n \<and> g d")
    case True
    from step.prems(1) obtain k where k: "k \<le> n0" "m = blit m0 d0 s0 k" "d = d0 + of_nat k"
        "s = s0 + of_nat k" "n = n0 - k" by (auto simp: fwd_st_def)
    have le: "k + c \<le> n0" using True k(1,5) by linarith
    have "fwd_st m0 d0 s0 n0 (body m d s, d + of_nat c, s + of_nat c, n - c)"
      unfolding fwd_st_def
      by (rule exI [of _ "k + c"])
         (use le in \<open>simp add: k step.prems(2) fwd_st_step [OF assms(1)] add.assoc\<close>)
    with step.IH [OF True] step.prems(2) True show ?thesis by (simp add: copy_loop.simps [of c g body m])
  next
    case False
    with step.prems(1) show ?thesis by (subst copy_loop.simps) auto
  qed
qed

lemma copy_loop_drained: "snd (snd (snd (copy_loop 1 (\<lambda>_. True) body st))) = 0"
proof (induction "snd (snd (snd st))" arbitrary: st)
  case 0
  then show ?case by (cases st) (simp add: copy_loop.simps)
next
  case (Suc n)
  obtain m d s where "st = (m, d, s, Suc n)" using Suc.hyps(2) by (cases st) auto
  then show ?case using Suc.hyps(1) by (simp add: copy_loop.simps [of _ _ _ m])
qed

lemma fwd_st_drained: "fwd_st m d s n st \<Longrightarrow> snd (snd (snd st)) = 0 \<Longrightarrow> fst st = blit m d s n"
  by (auto simp: fwd_st_def)

lemma fwd_ok_sub:
  assumes "fwd_ok d s n" "k + c \<le> n"
  shows "fwd_ok (d + of_nat k) (s + of_nat k) c"
proof -
  have "i \<le> unat (s + of_nat k + of_nat j - (d + of_nat k))" if "j < c" "i \<le> j" for i j
  proof -
    have "s + of_nat k + of_nat j - (d + of_nat k) = s + of_nat j - d" by simp
    moreover have "i \<le> unat (s + of_nat j - d)"
      using that assms(2) by (intro fwd_okD [OF assms(1)]) simp_all
    ultimately show ?thesis by metis
  qed
  moreover have "c \<le> 2 ^ 64" using assms(2) fwd_ok_bound [OF assms(1)] by linarith
  ultimately show ?thesis unfolding fwd_ok_def by blast
qed

lemma copy8_fold_blit:
  assumes "fwd_ok d s n" "8 * j \<le> n"
  shows "fold (\<lambda>i m. copy8 m (d + of_nat (8 * i)) (s + of_nat (8 * i))) [0..<j] m = blit m d s (8 * j)"
  using assms(2)
proof (induction j)
  case (Suc j)
  then show ?case
    using fwd_st_step [OF assms(1), of "8 * j" 8 m] by (simp add: copy8_blit ac_simps)
qed simp

lemma copy_forward_blit:
  assumes ok: "fwd_ok d s n"
  shows "copy_forward m d s n = blit m d s n"
proof -
  have b64: "copy64 m (d + of_nat k) (s + of_nat k) = blit m (d + of_nat k) (s + of_nat k) 64"
    if "k + 64 \<le> n" for m k
    using copy8_fold_blit [OF fwd_ok_sub [OF ok that], of 8] by (simp add: copy64_def)
  have "fwd_st m d s n (m, d, s, n)" unfolding fwd_st_def by (intro exI [of _ 0]) simp
  then have "fwd_st m d s n (copy_loop 1 (\<lambda>_. True) copy1 (copy_loop 8 (\<lambda>_. True) copy8
      (copy_loop 64 (\<lambda>_. True) copy64 (copy_loop 1 misaligned copy1 (m, d, s, n)))))"
    by (intro fwd_st_loop [OF ok] copy1_blit copy8_blit b64)
  then show ?thesis
    unfolding copy_forward_def by (rule fwd_st_drained) (rule copy_loop_drained)
qed

text \<open>The backward half.\<close>

definition bwd_ok :: "u64 \<Rightarrow> u64 \<Rightarrow> nat \<Rightarrow> bool" where
  "bwd_ok d s n \<longleftrightarrow> n \<le> 2 ^ 64 \<and>
     (\<forall>r \<le> n. \<forall>j < r. n - r \<le> unat (s + of_nat j - (d + of_nat r)))"

lemma bwd_okD:
  "bwd_ok d s n \<Longrightarrow> r \<le> n \<Longrightarrow> j < r \<Longrightarrow> n - r \<le> unat (s + of_nat j - (d + of_nat r))"
  by (simp add: bwd_ok_def)

definition bwd_st :: "mem \<Rightarrow> u64 \<Rightarrow> u64 \<Rightarrow> nat \<Rightarrow> mem \<times> u64 \<times> u64 \<times> nat \<Rightarrow> bool" where
  "bwd_st m0 d0 s0 n0 st \<longleftrightarrow>
     (\<exists>r \<le> n0. st = (blit m0 (d0 + of_nat r) (s0 + of_nat r) (n0 - r), d0 + of_nat r, s0 + of_nat r, r))"

lemma bwd_st_step:
  assumes ok: "bwd_ok d s n" and le: "c + r \<le> n"
  shows "blit (blit m (d + of_nat (c + r)) (s + of_nat (c + r)) (n - (c + r))) (d + of_nat r) (s + of_nat r) c
       = blit m (d + of_nat r) (s + of_nat r) (n - r)"
proof -
  have eqs: "x + of_nat (c + r) - of_nat c = x + of_nat r" for x :: u64 by simp
  have "n - (c + r) \<le> unat (s + of_nat (c + r) - of_nat c + of_nat i - (d + of_nat (c + r)))"
    if "i < c" for i
  proof -
    have "n - (c + r) \<le> unat (s + of_nat (r + i) - (d + of_nat (c + r)))"
      using le that by (intro bwd_okD [OF ok]) simp_all
    moreover have "s + of_nat (c + r) - of_nat c + of_nat i = s + of_nat (r + i)" by simp
    ultimately show ?thesis by metis
  qed
  moreover have "n - (c + r) + c \<le> 2 ^ 64" using ok le unfolding bwd_ok_def by linarith
  ultimately have "blit (blit m (d + of_nat (c + r)) (s + of_nat (c + r)) (n - (c + r)))
        (d + of_nat (c + r) - of_nat c) (s + of_nat (c + r) - of_nat c) c
      = blit m (d + of_nat (c + r) - of_nat c) (s + of_nat (c + r) - of_nat c) (n - (c + r) + c)"
    by (rule blit_prepend)
  moreover have "n - (c + r) + c = n - r" using le by simp
  ultimately show ?thesis unfolding eqs by metis
qed

lemma bwd_st_loop:
  assumes "bwd_ok d0 s0 n0" "bwd_st m0 d0 s0 n0 st"
    and "\<And>m r. r + c \<le> n0 \<Longrightarrow> body m (d0 + of_nat r) (s0 + of_nat r) =
           blit m (d0 + of_nat r) (s0 + of_nat r) c"
  shows "bwd_st m0 d0 s0 n0 (back_loop c g body st)"
  using assms(2,3)
proof (induction c g body st rule: back_loop.induct [case_names step])
  case (step c g body m d s n)
  show ?case
  proof (cases "0 < c \<and> c \<le> n \<and> g d")
    case True
    from step.prems(1) have st: "n \<le> n0" "m = blit m0 (d0 + of_nat n) (s0 + of_nat n) (n0 - n)"
        "d = d0 + of_nat n" "s = s0 + of_nat n" by (auto simp: bwd_st_def)
    obtain r where r: "n = c + r" using True le_Suc_ex by blast
    have eqs: "d - of_nat c = d0 + of_nat r" "s - of_nat c = s0 + of_nat r" "n - c = r"
      by (simp_all add: st(3,4) r)
    have "c + r \<le> n0" using st(1) r by simp
    then have "body m (d0 + of_nat r) (s0 + of_nat r) = blit m0 (d0 + of_nat r) (s0 + of_nat r) (n0 - r)"
      using bwd_st_step [OF assms(1), of c r m0] by (simp add: step.prems(2) st(2) r)
    then have "bwd_st m0 d0 s0 n0 (body m (d - of_nat c) (s - of_nat c), d - of_nat c, s - of_nat c, n - c)"
      using st(1) r unfolding bwd_st_def eqs by auto
    with step.IH [OF True] step.prems(2) True show ?thesis by (simp add: back_loop.simps [of c g body m])
  next
    case False
    with step.prems(1) show ?thesis by (subst back_loop.simps) auto
  qed
qed

lemma back_loop_drained: "snd (snd (snd (back_loop 1 (\<lambda>_. True) body st))) = 0"
proof (induction "snd (snd (snd st))" arbitrary: st)
  case 0
  then show ?case by (cases st) (simp add: back_loop.simps)
next
  case (Suc n)
  obtain m d s where "st = (m, d, s, Suc n)" using Suc.hyps(2) by (cases st) auto
  then show ?case using Suc.hyps(1) by (simp add: back_loop.simps [of _ _ _ m])
qed

lemma bwd_st_drained: "bwd_st m d s n st \<Longrightarrow> snd (snd (snd st)) = 0 \<Longrightarrow> fst st = blit m d s n"
  by (auto simp: bwd_st_def)

lemma bwd_ok_sub:
  assumes "bwd_ok d s n" "r + c \<le> n"
  shows "bwd_ok (d + of_nat r) (s + of_nat r) c"
proof -
  have "c - q \<le> unat (s + of_nat r + of_nat j - (d + of_nat r + of_nat q))" if "q \<le> c" "j < q" for q j
  proof -
    have "n - (r + q) \<le> unat (s + of_nat (r + j) - (d + of_nat (r + q)))"
      using that assms(2) by (intro bwd_okD [OF assms(1)]) simp_all
    moreover have "s + of_nat (r + j) - (d + of_nat (r + q)) =
        s + of_nat r + of_nat j - (d + of_nat r + of_nat q)" by simp
    moreover have "c - q \<le> n - (r + q)" using assms(2) by simp
    ultimately show ?thesis by (metis order_trans)
  qed
  moreover have "c \<le> 2 ^ 64" using assms by (simp add: bwd_ok_def)
  ultimately show ?thesis unfolding bwd_ok_def by blast
qed

lemma back8_fold_blit:
  assumes "bwd_ok d s (8 * n)" "j \<le> n"
  shows "fold (\<lambda>i m. copy8 m (d + of_nat (8 * i)) (s + of_nat (8 * i))) (rev [n - j..<n]) m =
         blit m (d + of_nat (8 * (n - j))) (s + of_nat (8 * (n - j))) (8 * j)"
  using assms(2)
proof (induction j)
  case (Suc j)
  define r where "r = n - Suc j"
  have r: "n - j = Suc r" "8 * j = 8 * n - (8 + 8 * r)" "8 * Suc j = 8 * n - 8 * r" "8 + 8 * r \<le> 8 * n"
    using Suc.prems by (auto simp: r_def)
  have up: "[r..<n] = r # [Suc r..<n]" using r(4) by (simp add: upt_rec)
  have IH: "fold (\<lambda>i m. copy8 m (d + of_nat (8 * i)) (s + of_nat (8 * i))) (rev [Suc r..<n]) m =
      blit m (d + of_nat (8 + 8 * r)) (s + of_nat (8 + 8 * r)) (8 * n - (8 + 8 * r))"
    using Suc.IH Suc.prems unfolding r by (simp add: r(1))
  show ?case
    using bwd_st_step [OF assms(1) r(4), of m]
    unfolding r_def [symmetric] up r(3) by (simp only: rev.simps fold_append fold.simps o_apply IH [unfolded copy8_blit] copy8_blit id_apply)
qed simp

lemma copy_backward_blit:
  assumes ok: "bwd_ok d s n"
  shows "copy_backward m d s n = blit m d s n"
proof -
  have b64: "back64 m (d + of_nat r) (s + of_nat r) = blit m (d + of_nat r) (s + of_nat r) 64"
    if "r + 64 \<le> n" for m r
    using back8_fold_blit [of "d + of_nat r" "s + of_nat r" 8 8 m] bwd_ok_sub [OF ok that]
    by (simp add: back64_def)
  have "bwd_st m d s n (m, d + of_nat n, s + of_nat n, n)" by (simp add: bwd_st_def)
  then have "bwd_st m d s n (back_loop 1 (\<lambda>_. True) copy1 (back_loop 8 (\<lambda>_. True) copy8
      (back_loop 64 (\<lambda>_. True) back64 (back_loop 1 misaligned copy1
        (m, d + of_nat n, s + of_nat n, n)))))"
    by (intro bwd_st_loop [OF ok] copy1_blit copy8_blit b64)
  then show ?thesis
    unfolding copy_backward_def by (rule bwd_st_drained) (rule back_loop_drained)
qed

section \<open>Filling\<close>

lemma spread8_byte: "i < 8 \<Longrightarrow> ucast (drop_bit (8 * i) (spread8 v)) = v"
proof (rule bit_word_eqI)
  fix j assume i: "i < 8" and "j < LENGTH(8)"
  then have j: "j < 8" by simp
  have b: "bit v k \<Longrightarrow> k < 8" for k using bit_imp_le_length [of v k] by simp
  have c: "i = 0 \<or> i = 1 \<or> i = 2 \<or> i = 3 \<or> i = 4 \<or> i = 5 \<or> i = 6 \<or> i = 7" using i by linarith
  have "bit (ucast (drop_bit (8 * i) (spread8 v)) :: u8) j \<longleftrightarrow> bit (spread8 v) (8 * i + j)"
    using j by (simp add: bit_unsigned_iff bit_drop_bit_eq)
  also have "\<dots> \<longleftrightarrow> bit v j"
    using c j
    by (elim disjE) (auto simp: spread8_def Let_def bit_or_iff bit_push_bit_iff bit_unsigned_iff dest: b)
  finally show "bit (ucast (drop_bit (8 * i) (spread8 v)) :: u8) j = bit v j" .
qed

lemma fill_append:
  assumes "k + c \<le> 2 ^ 64"
  shows "fill (fill m d v k) (d + of_nat k) v c = fill m d v (k + c)"
proof
  fix a
  define x where "x = a - (d + of_nat k)"
  have eqs: "a - d = x + of_nat k" "a - (d + of_nat k) = x" by (simp_all add: x_def)
  show "fill (fill m d v k) (d + of_nat k) v c a = fill m d v (k + c) a"
    unfolding fill_def eqs unat_add_less_iff [OF assms] by simp
qed

lemma store8_fill: "store8 m d (spread8 v) = fill m d v 8"
  by (auto simp: fun_eq_iff store8_apply fill_def spread8_byte)

lemma store8_fold_fill:
  "8 * j \<le> 2 ^ 64 \<Longrightarrow>
   fold (\<lambda>i m. store8 m (d + of_nat (8 * i)) (spread8 v)) [0..<j] m = fill m d v (8 * j)"
proof (induction j)
  case (Suc j)
  then show ?case using fill_append [of "8 * j" 8 m d v] by (simp add: store8_fill ac_simps)
qed simp

definition fill_st :: "mem \<Rightarrow> u64 \<Rightarrow> u8 \<Rightarrow> nat \<Rightarrow> mem \<times> u64 \<times> nat \<Rightarrow> bool" where
  "fill_st m0 d0 v n0 st \<longleftrightarrow> (\<exists>k \<le> n0. st = (fill m0 d0 v k, d0 + of_nat k, n0 - k))"

lemma fill_st_loop:
  assumes "n0 \<le> 2 ^ 64" "fill_st m0 d0 v n0 st" "\<And>m d. body m d = fill m d v c"
  shows "fill_st m0 d0 v n0 (fill_loop c g body st)"
  using assms(2,3)
proof (induction c g body st rule: fill_loop.induct [case_names step])
  case (step c g body m d n)
  show ?case
  proof (cases "0 < c \<and> c \<le> n \<and> g d")
    case True
    from step.prems(1) obtain k where k: "k \<le> n0" "m = fill m0 d0 v k" "d = d0 + of_nat k"
        "n = n0 - k" by (auto simp: fill_st_def)
    have le: "k + c \<le> n0" using True k(1,4) by linarith
    then have "fill m d v c = fill m0 d0 v (k + c)"
      using fill_append [of k c m0 d0 v] assms(1) by (simp add: k(2,3))
    then have "fill_st m0 d0 v n0 (body m d, d + of_nat c, n - c)"
      unfolding fill_st_def
      by (intro exI [of _ "k + c"]) (use le in \<open>simp add: k(3,4) step.prems(2) add.assoc\<close>)
    from step.IH [OF True this step.prems(2)] True show ?thesis
      by (simp add: fill_loop.simps [of c g body m])
  next
    case False
    with step.prems(1) show ?thesis by (subst fill_loop.simps) auto
  qed
qed

lemma fill_loop_drained: "snd (snd (fill_loop 1 (\<lambda>_. True) body st)) = 0"
proof (induction "snd (snd st)" arbitrary: st)
  case 0
  then show ?case by (cases st) (simp add: fill_loop.simps)
next
  case (Suc n)
  obtain m d where "st = (m, d, Suc n)" using Suc.hyps(2) by (cases st) auto
  then show ?case using Suc.hyps(1) by (simp add: fill_loop.simps [of _ _ _ m])
qed

lemma fill_st_drained: "fill_st m d v n st \<Longrightarrow> snd (snd st) = 0 \<Longrightarrow> fst st = fill m d v n"
  by (auto simp: fill_st_def)

lemma memset_fill:
  assumes "n \<le> 2 ^ 64"
  shows "memset m d c n = (d, fill m d (word_of_int c) n)"
proof -
  let ?v = "word_of_int c :: u8"
  have 1: "m(a := ?v) = fill m a ?v 1" for m a by (auto simp: fill_def fun_eq_iff unat_eq_0)
  have "fill_st m d ?v n (m, d, n)" unfolding fill_st_def by (intro exI [of _ 0]) simp
  then have "fill_st m d ?v n (fill_loop 1 (\<lambda>_. True) (\<lambda>m d. m(d := ?v))
      (fill_loop 8 (\<lambda>_. True) (\<lambda>m d. store8 m d (spread8 ?v))
        (fill_loop 64 (\<lambda>_. True) (\<lambda>m d. fold (\<lambda>i m. store8 m (d + of_nat (8 * i)) (spread8 ?v)) [0..<8] m)
          (fill_loop 1 misaligned (\<lambda>m d. m(d := ?v)) (m, d, n)))))" (is "fill_st m d ?v n ?st")
    using store8_fold_fill [of 8 _ ?v]
    by (intro fill_st_loop [OF assms] 1 store8_fill) simp_all
  then have "fst ?st = fill m d ?v n"
    by (rule fill_st_drained) (rule fill_loop_drained)
  then show ?thesis by (simp add: memset_def Let_def)
qed

section \<open>Copying between ranges of the address space\<close>

lemma fwd_ok_below:
  assumes "d \<le> s" "unat s + n \<le> 2 ^ 64"
  shows "fwd_ok d s n"
proof -
  have "k \<le> unat (s + of_nat j - d)" if "j < n" "k \<le> j" for j k
  proof -
    have s: "unat (s + of_nat j) = unat s + j" using assms that by (intro unat_add_offset) simp
    have le: "unat d \<le> unat s" using assms(1) by (simp add: word_le_nat_alt)
    then have "d \<le> s + of_nat j" by (simp add: word_le_nat_alt s)
    then have "unat (s + of_nat j - d) = unat s + j - unat d" by (simp add: unat_sub s)
    with le that show ?thesis by simp
  qed
  then show ?thesis using assms(2) by (simp add: fwd_ok_def)
qed

lemma unat_minus_of_nat:
  assumes "0 < t" "t \<le> 2 ^ 64"
  shows "unat (- of_nat t :: u64) = 2 ^ 64 - t"
proof -
  have e: "- of_nat t = (of_nat (2 ^ 64 - t) :: u64)" using assms by (simp add: of_nat_diff)
  show ?thesis unfolding e by (rule unat_of_nat_less) (use assms in simp)
qed

lemma bwd_ok_above:
  assumes "s < d" "unat d + n \<le> 2 ^ 64"
  shows "bwd_ok d s n"
proof -
  have "n - r \<le> unat (s + of_nat j - (d + of_nat r))" if "r \<le> n" "j < r" for r j
  proof -
    have lt: "unat s < unat d" using assms(1) by (simp add: word_less_nat_alt)
    define t where "t = unat d + r - (unat s + j)"
    have t: "0 < t" "t + (n - r) \<le> 2 ^ 64" using lt that assms(2) by (auto simp: t_def)
    have "of_nat t = d + of_nat r - (s + of_nat j)"
      using lt that by (simp add: t_def of_nat_diff)
    then have e: "s + of_nat j - (d + of_nat r) = - of_nat t" by simp
    have "unat (s + of_nat j - (d + of_nat r)) = 2 ^ 64 - t"
      unfolding e using t by (intro unat_minus_of_nat) simp_all
    with t show ?thesis by simp
  qed
  then show ?thesis using assms(2) by (simp add: bwd_ok_def)
qed

lemma fwd_ok_disjoint:
  assumes "unat s + n \<le> 2 ^ 64" "unat s + n \<le> unat d"
  shows "fwd_ok d s n"
proof -
  have "k \<le> unat (s + of_nat j - d)" if "j < n" "k \<le> j" for j k
  proof -
    define t where "t = unat d - (unat s + j)"
    have d: "unat d < 2 ^ 64" using unsigned_less [of d] by simp
    have t: "0 < t" "t \<le> unat d" using that assms d by (auto simp: t_def)
    have "of_nat t = d - (s + of_nat j)" using that assms by (simp add: t_def of_nat_diff)
    then have e: "s + of_nat j - d = - of_nat t" by simp
    have "unat (s + of_nat j - d) = 2 ^ 64 - t"
      unfolding e using t d by (intro unat_minus_of_nat) simp_all
    with that assms d show ?thesis by (simp add: t_def)
  qed
  then show ?thesis using assms(1) by (simp add: fwd_ok_def)
qed

lemma memmove_blit:
  assumes "unat d + n \<le> 2 ^ 64" "unat s + n \<le> 2 ^ 64"
  shows "memmove m d s n = (d, blit m d s n)"
proof (cases "d = s")
  case True
  then have "blit m d s n = m" by (simp add: blit_def fun_eq_iff)
  with True show ?thesis by (simp add: memmove_def)
next
  case False
  then have "d < s \<or> s < d" by auto
  then show ?thesis
    using assms False
    by (auto simp: memmove_def copy_forward_blit fwd_ok_below copy_backward_blit bwd_ok_above)
qed

lemma memcpy_blit:
  assumes "unat s + n \<le> 2 ^ 64" "d \<le> s \<or> unat s + n \<le> unat d"
  shows "memcpy m d s n = (d, blit m d s n)"
  using assms by (auto simp: memcpy_def copy_forward_blit fwd_ok_below fwd_ok_disjoint)

section \<open>Comparing\<close>

text \<open>The reference: the difference at the first index where the ranges differ.\<close>

definition first_diff :: "mem \<Rightarrow> u64 \<Rightarrow> u64 \<Rightarrow> nat \<Rightarrow> int" where
  "first_diff m a b n =
     (case find (\<lambda>i. m (a + of_nat i) \<noteq> m (b + of_nat i)) [0..<n] of
        Some i \<Rightarrow> byte_diff m (a + of_nat i) (b + of_nat i)
      | None \<Rightarrow> 0)"

lemma first_diff_0 [simp]: "first_diff m a b 0 = 0"
  by (simp add: first_diff_def)

lemma first_diff_at:
  assumes "i < n" "m (a + of_nat i) \<noteq> m (b + of_nat i)" "\<And>j. j < i \<Longrightarrow> m (a + of_nat j) = m (b + of_nat j)"
  shows "first_diff m a b n = byte_diff m (a + of_nat i) (b + of_nat i)"
proof -
  have "find (\<lambda>i. m (a + of_nat i) \<noteq> m (b + of_nat i)) [0..<n] = Some i"
    by (rule find_upt_eqI) (use assms in auto)
  then show ?thesis by (simp add: first_diff_def)
qed

lemma first_diff_skip:
  assumes eq: "\<And>j. j < c \<Longrightarrow> m (a + of_nat j) = m (b + of_nat j)" and "c \<le> n"
  shows "first_diff m (a + of_nat c) (b + of_nat c) (n - c) = first_diff m a b n"
proof (cases "\<exists>i<n. m (a + of_nat i) \<noteq> m (b + of_nat i)")
  case True
  define i where "i = (LEAST i. m (a + of_nat i) \<noteq> m (b + of_nat i))"
  from True have ne: "m (a + of_nat i) \<noteq> m (b + of_nat i)" and "i < n"
    unfolding i_def by (metis (mono_tags, lifting) LeastI, metis (mono_tags, lifting) Least_le le_less_trans)
  have below: "m (a + of_nat j) = m (b + of_nat j)" if "j < i" for j
    using that not_less_Least i_def by blast
  have "c \<le> i" using eq ne not_less by blast
  then obtain k where k: "i = c + k" using le_Suc_ex by blast
  have sh: "x + of_nat c + of_nat j = x + of_nat (c + j)" for x :: u64 and j by (simp add: add.assoc)
  have "first_diff m (a + of_nat c) (b + of_nat c) (n - c)
      = byte_diff m (a + of_nat c + of_nat k) (b + of_nat c + of_nat k)"
  proof (rule first_diff_at, unfold sh)
    show "k < n - c" using k \<open>i < n\<close> by simp
    show "m (a + of_nat (c + k)) \<noteq> m (b + of_nat (c + k))" using ne k by simp
    show "m (a + of_nat (c + j)) = m (b + of_nat (c + j))" if "j < k" for j
      using that k by (intro below) simp
  qed
  then show ?thesis using first_diff_at [OF \<open>i < n\<close> ne below] unfolding sh k by simp
next
  case False
  have sh: "x + of_nat c + of_nat j = x + of_nat (c + j)" for x :: u64 and j by (simp add: add.assoc)
  have "find (\<lambda>i. m (a + of_nat i) \<noteq> m (b + of_nat i)) [0..<n] = None"
    "find (\<lambda>i. m (a + of_nat c + of_nat i) \<noteq> m (b + of_nat c + of_nat i)) [0..<n - c] = None"
    unfolding sh using False by (auto simp: find_upt_None simp del: of_nat_add)
  then show ?thesis by (simp add: first_diff_def)
qed

lemma memcmp_bytes_spec:
  "case memcmp_bytes g m x y n of (r, x', y', n') \<Rightarrow>
     (case r of Some d \<Rightarrow> d = first_diff m x y n
      | None \<Rightarrow> first_diff m x y n = first_diff m x' y' n' \<and> ((\<forall>x y. g x y) \<longrightarrow> n' = 0))"
proof (induction g m x y n rule: memcmp_bytes.induct [case_names step])
  case (step g m x y n)
  consider "n \<noteq> 0" "g x y" "m x \<noteq> m y" | "n \<noteq> 0" "g x y" "m x = m y" | "n = 0 \<or> \<not> g x y" by metis
  then show ?case
  proof cases
    case 1
    then have "first_diff m x y n = byte_diff m x y" using first_diff_at [of 0 n m x y] by simp
    with 1 show ?thesis by (simp add: memcmp_bytes.simps)
  next
    case 2
    then have sk: "first_diff m (x + 1) (y + 1) (n - 1) = first_diff m x y n"
      using first_diff_skip [of 1 m x y n] by simp
    have st: "memcmp_bytes g m x y n = memcmp_bytes g m (x + 1) (y + 1) (n - 1)"
      using 2 by (subst memcmp_bytes.simps) simp
    have "n \<noteq> 0 \<and> g x y" "\<not> m x \<noteq> m y" using 2 by auto
    from step.IH [OF this] show ?thesis by (simp only: sk st)
  next
    case 3
    then have "memcmp_bytes g m x y n = (None, x, y, n)" by (subst memcmp_bytes.simps) auto
    with 3 show ?thesis by auto
  qed
qed

lemma memcmp_words_spec:
  "case memcmp_words m x y n of (r, x', y', n') \<Rightarrow>
     (case r of Some d \<Rightarrow> d = first_diff m x y n
      | None \<Rightarrow> first_diff m x y n = first_diff m x' y' n')"
proof (induction m x y n rule: memcmp_words.induct [case_names step])
  case (step m x y n)
  let ?f = "if load8 m x \<noteq> load8 m y
            then find (\<lambda>i. m (x + of_nat i) \<noteq> m (y + of_nat i)) [0..<8] else None"
  show ?case
  proof (cases "n \<ge> 8")
    case True
    show ?thesis
    proof (cases ?f)
      case None
      then have eq: "\<And>j. j < 8 \<Longrightarrow> m (x + of_nat j) = m (y + of_nat j)"
        by (auto simp: load8_eq_iff find_upt_None split: if_splits)
      have sk: "first_diff m (x + 8) (y + 8) (n - 8) = first_diff m x y n"
        using first_diff_skip [OF eq True] by simp
      have st: "memcmp_words m x y n = memcmp_words m (x + 8) (y + 8) (n - 8)"
        using True None by (subst memcmp_words.simps) simp
      show ?thesis using step.IH [OF True None] by (simp only: sk st)
    next
      case (Some i)
      then have f: "find (\<lambda>i. m (x + of_nat i) \<noteq> m (y + of_nat i)) [0..<8] = Some i"
        by (simp split: if_splits)
      have "first_diff m x y n = byte_diff m (x + of_nat i) (y + of_nat i)"
        using find_upt_SomeD [OF f] True by (intro first_diff_at) auto
      moreover have "memcmp_words m x y n = (Some (byte_diff m (x + of_nat i) (y + of_nat i)), x, y, n)"
        using True Some by (subst memcmp_words.simps) simp
      ultimately show ?thesis by simp
    qed
  next
    case False
    then show ?thesis by (simp add: memcmp_words.simps)
  qed
qed

lemma memcmp_first_diff: "memcmp m a b n = first_diff m a b n"
  using memcmp_bytes_spec [where g = "\<lambda>x y. misaligned x \<or> misaligned y" and m = m and x = a and y = b and n = n]
    memcmp_words_spec memcmp_bytes_spec [where g = "\<lambda>_ _. True"]
  unfolding memcmp_def by (fastforce split: prod.splits option.splits)

section \<open>NUL-terminated strings\<close>

definition cstr :: "mem \<Rightarrow> u64 \<Rightarrow> u8 list \<Rightarrow> bool" where
  "cstr m a xs \<longleftrightarrow> (\<forall>i < length xs. m (a + of_nat i) = xs ! i) \<and> 0 \<notin> set xs \<and> m (a + of_nat (length xs)) = 0"

lemma cstr_Nil [simp]: "cstr m a [] \<longleftrightarrow> m a = 0"
  by (simp add: cstr_def)

lemma cstr_Cons [simp]: "cstr m a (x # xs) \<longleftrightarrow> m a = x \<and> x \<noteq> 0 \<and> cstr m (a + 1) xs"
  by (auto simp: cstr_def nth_Cons All_less_Suc2 add.assoc add.commute [of 1])

lemma cstr_cong:
  assumes "cstr m a xs" "\<And>j. j \<le> length xs \<Longrightarrow> m' (a + of_nat j) = m (a + of_nat j)"
  shows "cstr m' a xs"
  using assms by (simp add: cstr_def)

lemma strlen_loop_cstr:
  "cstr m (s + n) xs \<Longrightarrow> strlen_loop m s n = Some (n + of_nat (length xs))"
proof (induction xs arbitrary: n)
  case Nil
  then show ?case by (subst strlen_loop.simps) simp
next
  case (Cons x xs)
  then show ?case
    using Cons.IH [of "n + 1"] by (subst strlen_loop.simps) (simp add: add.assoc)
qed

lemma strlen_cstr: "cstr m s xs \<Longrightarrow> strlen m s = Some (of_nat (length xs))"
  using strlen_loop_cstr [of m s 0 xs] by (simp add: strlen_def)

text \<open>The reference for \<open>strcmp\<close>: compare the strings as lists, the end counting as a zero byte.\<close>

fun list_diff :: "u8 list \<Rightarrow> u8 list \<Rightarrow> int" where
  "list_diff [] [] = 0"
| "list_diff [] (y # ys) = - uint y"
| "list_diff (x # xs) [] = uint x"
| "list_diff (x # xs) (y # ys) = (if x = y then list_diff xs ys else uint x - uint y)"

lemma strcmp_cstr:
  "cstr m a xs \<Longrightarrow> cstr m b ys \<Longrightarrow> strcmp m a b = Some (list_diff xs ys)"
proof (induction xs ys arbitrary: a b rule: list_diff.induct)
  case (4 x xs y ys)
  then show ?case by (subst strcmp.simps) (auto simp: byte_diff_def)
qed (subst strcmp.simps, auto simp: byte_diff_def)+

lemma list_diff_eq_0: "0 \<notin> set xs \<Longrightarrow> 0 \<notin> set ys \<Longrightarrow> list_diff xs ys = 0 \<longleftrightarrow> xs = ys"
  by (induction xs ys rule: list_diff.induct) (auto simp: uint_0_iff dest: unsigned_word_eqI)

lemma strcpy_loop_cstr:
  assumes "cstr m s xs" "length xs < 2 ^ 64"
    and "\<And>i j. i \<le> length xs \<Longrightarrow> j \<le> length xs \<Longrightarrow> d + of_nat i \<noteq> s + of_nat j"
  shows "strcpy_loop m d s = Some (blit m d s (Suc (length xs)))"
  using assms
proof (induction xs arbitrary: m d s)
  case Nil
  then have "m(d := m s) = blit m d s (Suc 0)" "m s = 0"
    using copy1_blit [of m d s] by (simp_all add: copy1_def)
  then show ?case by (subst strcpy_loop.simps) (simp add: Let_def, metis fun_upd_same)
next
  case (Cons x xs)
  let ?m = "blit m d s 1"
  have m1: "m(d := m s) = ?m" using copy1_blit [of m d s] by (simp add: copy1_def)
  have apart: "d + 1 + of_nat i \<noteq> s + 1 + of_nat j" if "i \<le> length xs" "j \<le> length xs" for i j
    using Cons.prems(3) [of "Suc i" "Suc j"] that by (simp add: ac_simps)
  have away: "s + 1 + of_nat j \<noteq> d" if "j \<le> length xs" for j
    using Cons.prems(3) [of 0 "Suc j"] that by (simp add: ac_simps)
  have "cstr m (s + 1) xs" using Cons.prems(1) by simp
  then have "cstr ?m (s + 1) xs"
    unfolding m1 [symmetric] by (rule cstr_cong) (use away in auto)
  then have "strcpy_loop ?m (d + 1) (s + 1) = Some (blit ?m (d + 1) (s + 1) (Suc (length xs)))"
    using Cons.prems(2) apart by (intro Cons.IH) simp_all
  moreover have "blit ?m (d + of_nat 1) (s + of_nat 1) (Suc (length xs)) = blit m d s (1 + Suc (length xs))"
  proof (rule blit_append)
    show "1 \<le> unat (s + of_nat 1 + of_nat i - d)" if "i < Suc (length xs)" for i
    proof -
      have "s + of_nat 1 + of_nat i - d \<noteq> 0" using away [of i] that by simp
      then have "unat (s + of_nat 1 + of_nat i - d) \<noteq> 0" by (simp only: unat_eq_0 not_False_eq_True)
      then show ?thesis by linarith
    qed
  qed (use Cons.prems(2) in simp)
  ultimately have "strcpy_loop (m(d := m s)) (d + 1) (s + 1) = Some (blit m d s (Suc (length (x # xs))))"
    unfolding m1 by simp
  then show ?case using Cons.prems(1) by (subst strcpy_loop.simps) simp
qed

lemma blit_cstr:
  assumes "cstr m s xs" "length xs < 2 ^ 64"
  shows "cstr (blit m d s (Suc (length xs))) d xs"
proof -
  have "blit m d s (Suc (length xs)) (d + of_nat i) = m (s + of_nat i)" if "i \<le> length xs" for i
    using that assms(2) by (simp add: blit_def unat_of_nat_less)
  with assms(1) show ?thesis by (simp add: cstr_def)
qed

lemma strncpy_copy_spec:
  assumes "cstr m s xs" "n < 2 ^ 64" "i \<le> length xs" "i \<le> n"
    and "\<And>i j. i < n \<Longrightarrow> j \<le> length xs \<Longrightarrow> d + of_nat i \<noteq> s + of_nat j"
  shows "strncpy_copy m d s n i =
     (\<lambda>a. if i \<le> unat (a - d) \<and> unat (a - d) < min n (length xs) then xs ! unat (a - d) else m a,
      min n (length xs))"
  using assms
proof (induction m d s n i rule: strncpy_copy.induct [case_names step])
  case (step m d s n i)
  have src: "m (s + of_nat i) = (if i < length xs then xs ! i else 0)" and nz: "0 \<notin> set xs"
    using step.prems(1,3) by (auto simp: cstr_def)
  show ?case
  proof (cases "i < n \<and> i < length xs")
    case True
    have nz': "m (s + of_nat i) \<noteq> 0" using True nz src nth_mem by metis
    define M where "M = m(d + of_nat i := m (s + of_nat i))"
    have eq: "a = d + of_nat i \<longleftrightarrow> unat (a - d) = i" for a
      using True step.prems(2) by (intro word_offset_iff) simp
    have "cstr M s xs"
      unfolding M_def by (rule cstr_cong [OF step.prems(1)]) (use step.prems(5) [of i] True in \<open>auto dest: sym\<close>)
    then have "cstr (m(d + of_nat i := m (s + of_nat i))) s xs" by (simp add: M_def)
    from step.IH [OF _ this, folded M_def] True nz' step.prems(2,5)
    have "strncpy_copy M d s n (i + 1) =
       (\<lambda>a. if i + 1 \<le> unat (a - d) \<and> unat (a - d) < min n (length xs) then xs ! unat (a - d) else M a,
        min n (length xs))" by simp
    moreover have "(if i + 1 \<le> unat (a - d) \<and> unat (a - d) < min n (length xs) then xs ! unat (a - d) else M a)
      = (if i \<le> unat (a - d) \<and> unat (a - d) < min n (length xs) then xs ! unat (a - d) else m a)" for a
      using True src eq [of a] by (auto simp: M_def Suc_le_eq le_less)
    ultimately show ?thesis using True nz' by (subst strncpy_copy.simps) (simp add: M_def [symmetric])
  next
    case False
    with src step.prems(3,4) show ?thesis
      by (subst strncpy_copy.simps) (auto simp: fun_eq_iff)
  qed
qed

lemma strncpy_spec:
  assumes "cstr m s xs" "n < 2 ^ 64"
    and "\<And>i j. i < n \<Longrightarrow> j \<le> length xs \<Longrightarrow> d + of_nat i \<noteq> s + of_nat j"
  shows "strncpy m d s n =
    (d, \<lambda>a. if unat (a - d) < n then (if unat (a - d) < length xs then xs ! unat (a - d) else 0) else m a)"
proof -
  let ?k = "min n (length xs)"
  have c: "strncpy_copy m d s n 0 =
      (\<lambda>a. if unat (a - d) < ?k then xs ! unat (a - d) else m a, ?k)"
    using strncpy_copy_spec [OF assms(1,2), of 0 d] assms(3) by simp
  show ?thesis
    unfolding strncpy_def c using assms(2)
    by (auto simp: fun_eq_iff fold_store [where f = "\<lambda>_. 0"])
qed

section \<open>Properties\<close>

text \<open>C38: \<open>memmove\<close> is a simultaneous copy for any two ranges that lie inside the address space,
  however they overlap and whatever their alignment: byte \<open>i\<close> of the destination is byte \<open>i\<close> of the
  source as it was before the call, and no other byte changes. \<open>memcpy\<close> has the same effect when the
  ranges do not overlap or the destination starts below the source.\<close>

theorem memmove_simultaneous:
  assumes "unat d + n \<le> 2 ^ 64" "unat s + n \<le> 2 ^ 64"
  shows "memmove m d s n = (d, \<lambda>a. if unat (a - d) < n then m (s + (a - d)) else m a) \<and>
         (d \<le> s \<or> unat s + n \<le> unat d \<longrightarrow> memcpy m d s n = memmove m d s n)"
  using assms by (simp add: memmove_blit memcpy_blit) (simp add: blit_def)

theorem memmove_simultaneous_witness:
  "snd (memmove (\<lambda>a. ucast a) 0x1003 0x1001 70) 0x1010 = 0x0E"
proof -
  have "memmove (\<lambda>a. ucast a) 0x1003 0x1001 70 =
      (0x1003, \<lambda>a. if unat (a - 0x1003) < 70 then ucast (0x1001 + (a - 0x1003)) else ucast a)"
    using memmove_simultaneous [of "0x1003" 70 "0x1001" "\<lambda>a. ucast a"] by simp
  then show ?thesis by simp
qed

text \<open>\<open>memcmp\<close>, which compares eight bytes at a time once both pointers are aligned, returns the
  difference of the first pair of bytes that differ, and 0 exactly when the ranges are equal.\<close>

theorem memcmp_lexicographic:
  "(memcmp m a b n = 0 \<longleftrightarrow> (\<forall>i < n. m (a + of_nat i) = m (b + of_nat i))) \<and>
   (\<forall>i < n. m (a + of_nat i) \<noteq> m (b + of_nat i) \<and> (\<forall>j < i. m (a + of_nat j) = m (b + of_nat j)) \<longrightarrow>
      memcmp m a b n = uint (m (a + of_nat i)) - uint (m (b + of_nat i)))"
proof -
  have 1: "memcmp m a b n = byte_diff m (a + of_nat i) (b + of_nat i)"
    if "i < n" "m (a + of_nat i) \<noteq> m (b + of_nat i)" "\<forall>j < i. m (a + of_nat j) = m (b + of_nat j)" for i
    using first_diff_at [of i n m a b] that by (simp add: memcmp_first_diff)
  have "memcmp m a b n = 0" if "\<forall>i < n. m (a + of_nat i) = m (b + of_nat i)"
    using that first_diff_skip [of n m a b n] by (simp add: memcmp_first_diff)
  moreover have "memcmp m a b n \<noteq> 0" if i: "i < n" "m (a + of_nat i) \<noteq> m (b + of_nat i)" for i
  proof -
    obtain k where "find (\<lambda>i. m (a + of_nat i) \<noteq> m (b + of_nat i)) [0..<n] = Some k"
      using find_upt_ex [where P = "\<lambda>i. m (a + of_nat i) \<noteq> m (b + of_nat i)", OF le0 i] .
    note k = find_upt_SomeD [OF this]
    have "memcmp m a b n = byte_diff m (a + of_nat k) (b + of_nat k)" using k by (intro 1) auto
    with k(3) show ?thesis by (auto simp: byte_diff_def dest: unsigned_word_eqI)
  qed
  ultimately show ?thesis using 1 unfolding byte_diff_def by blast
qed

theorem memcmp_lexicographic_witness:
  "memcmp (\<lambda>a. if a = 0x2011 then 7 else 1) 0x1000 0x2000 32 = -6"
proof -
  let ?m = "\<lambda>a :: u64. if a = 0x2011 then 7 else 1 :: u8"
  have "\<forall>j < 17. ?m (0x1000 + of_nat j) = ?m (0x2000 + of_nat j)"
    unfolding all_less_iff_list_all by code_simp
  then show ?thesis
    using memcmp_lexicographic [of ?m "0x1000" "0x2000" 32] by (auto dest: spec [of _ 17])
qed

text \<open>Copying a string whose source and destination areas do not overlap returns, leaves the same
  string at the destination, and the length and comparison routines agree: the copy has the length
  of the original and compares equal to it, and \<open>strcmp\<close> of two strings is 0 only for equal ones.\<close>

theorem strcpy_round_trip:
  assumes "cstr m s xs" "length xs < 2 ^ 64"
    and "\<forall>i \<le> length xs. \<forall>j \<le> length xs. d + of_nat i \<noteq> s + of_nat j"
  shows "\<exists>m'. strcpy m d s = Some (d, m') \<and> cstr m' d xs \<and> cstr m' s xs \<and>
           strlen m' d = Some (of_nat (length xs)) \<and> strcmp m' d s = Some 0 \<and>
           (\<forall>b ys. cstr m' b ys \<longrightarrow> (strcmp m' d b = Some 0 \<longleftrightarrow> xs = ys))"
proof -
  let ?m = "blit m d s (Suc (length xs))"
  have cp: "strcpy m d s = Some (d, ?m)"
    using strcpy_loop_cstr [OF assms(1,2), of d] assms(3) by (simp add: strcpy_def)
  have d: "cstr ?m d xs" by (rule blit_cstr [OF assms(1,2)])
  have "unat (s + of_nat j - d) \<ge> Suc (length xs)" if j: "j \<le> length xs" for j
  proof (rule ccontr)
    assume "\<not> ?thesis"
    then have "unat (s + of_nat j - d) \<le> length xs" by simp
    moreover have "d + of_nat (unat (s + of_nat j - d)) = s + of_nat j" by simp
    ultimately show False using assms(3) j by metis
  qed
  then have s: "cstr ?m s xs"
    by (intro cstr_cong [OF assms(1)] blit_outside)
  have nz: "0 \<notin> set xs" using assms(1) by (simp add: cstr_def)
  have "strcmp ?m d b = Some 0 \<longleftrightarrow> xs = ys" if "cstr ?m b ys" for b ys
    using strcmp_cstr [OF d that] list_diff_eq_0 [OF nz, of ys] that by (simp add: cstr_def)
  then show ?thesis using cp d s strlen_cstr [OF d] by blast
qed

theorem strcpy_round_trip_witness:
  "\<exists>m'. strcpy (\<lambda>a. if a = 0x1000 then 72 else if a = 0x1001 then 105 else 0) 0x2000 0x1000 = Some (0x2000, m')
     \<and> cstr m' 0x2000 [72, 105]"
proof -
  let ?m = "\<lambda>a :: u64. if a = 0x1000 then 72 else if a = 0x1001 then 105 else 0 :: u8"
  have "\<forall>i \<le> length [72, 105 :: u8]. \<forall>j \<le> length [72, 105 :: u8].
      0x2000 + of_nat i \<noteq> (0x1000 + of_nat j :: u64)"
    unfolding less_Suc_eq_le [symmetric] all_less_iff_list_all by code_simp
  then show ?thesis using strcpy_round_trip [of ?m "0x1000" "[72, 105]" "0x2000"] by auto
qed

end
