(* ===== verification/Heap.thy ===== *)
theory Heap
  imports Pmm Kstring
begin

text \<open>
  The kernel heap (\<^verbatim>\<open>src/kernel/memory/heap.c\<close>): one arena of 64 MiB, cut into blocks with a
  16-byte header, and an address-ordered free list that is searched first fit and coalesced on every
  free. The header fields \<open>size\<close> and \<open>next\<close> are stores indexed by the block's address, the payload
  bytes are a memory of the string library; address 0 is NULL. A link \<^verbatim>\<open>block_t **pp\<close> is
  named by the block whose \<open>next\<close> field it is, 0 standing for \<^verbatim>\<open>&free_head\<close>. The list walks are
  partial functions: a cyclic list would never end (\<open>None\<close>). All operations run under
  \<open>heap_lock\<close> and are atomic.
\<close>

section \<open>State\<close>

abbreviation (input) HEAP_FRAMES :: nat where "HEAP_FRAMES \<equiv> 16384"
abbreviation (input) HDR_SIZE :: u64 where "HDR_SIZE \<equiv> 16"
abbreviation (input) MIN_SPLIT :: u64 where "MIN_SPLIT \<equiv> 32"

definition ALIGN16 :: "u64 \<Rightarrow> u64" where
  "ALIGN16 x = (x + 15) AND NOT 15"

record heap =
  bsize :: "u64 \<Rightarrow> u64"
  bnext :: "u64 \<Rightarrow> u64"
  payload :: mem
  free_head :: u64
  arena :: u64
  arena_sz :: u64
  used_sz :: u64

section \<open>Operations\<close>

definition heap_init :: "pmm \<Rightarrow> heap \<Rightarrow> (pmm \<times> heap) option" where
  "heap_init p h =
     (let (phys, p') = pmm_alloc_contig HEAP_FRAMES p in
      if phys = 0 then None
      else let a = phys_to_virt p' phys; sz = of_nat HEAP_FRAMES * PAGE_SIZE
           in Some (p', h\<lparr>arena := a, arena_sz := sz, used_sz := 0, free_head := a,
                           bsize := (bsize h)(a := sz), bnext := (bnext h)(a := 0)\<rparr>))"

definition get_link :: "heap \<Rightarrow> u64 \<Rightarrow> u64" where
  "get_link h pp = (if pp = 0 then free_head h else bnext h pp)"

definition set_link :: "u64 \<Rightarrow> u64 \<Rightarrow> heap \<Rightarrow> heap" where
  "set_link pp v h = (if pp = 0 then h\<lparr>free_head := v\<rparr> else h\<lparr>bnext := (bnext h)(pp := v)\<rparr>)"

definition set_size :: "u64 \<Rightarrow> u64 \<Rightarrow> heap \<Rightarrow> heap" where
  "set_size b v h = h\<lparr>bsize := (bsize h)(b := v)\<rparr>"

text \<open>\<^verbatim>\<open>while (*pp && *pp < blk) pp = &(*pp)->next;\<close>\<close>

partial_function (option) insert_scan :: "heap \<Rightarrow> u64 \<Rightarrow> u64 \<Rightarrow> u64 option" where
  "insert_scan h blk pp =
     (let c = get_link h pp in
      if c \<noteq> 0 \<and> c < blk then insert_scan h blk c else Some pp)"

definition coalesce_next :: "u64 \<Rightarrow> heap \<Rightarrow> heap" where
  "coalesce_next blk h =
     (let n = bnext h blk in
      if n \<noteq> 0 \<and> blk + bsize h blk = n
      then set_link blk (bnext h n) (set_size blk (bsize h blk + bsize h n) h)
      else h)"

definition coalesce_prev :: "u64 \<Rightarrow> u64 \<Rightarrow> heap \<Rightarrow> heap" where
  "coalesce_prev prev blk h =
     (if prev \<noteq> 0 \<and> prev + bsize h prev = blk
      then set_link prev (bnext h blk) (set_size prev (bsize h prev + bsize h blk) h)
      else h)"

definition insert_free :: "u64 \<Rightarrow> heap \<Rightarrow> heap option" where
  "insert_free blk h =
     map_option (\<lambda>pp.
         let h1 = h\<lparr>bnext := (bnext h)(blk := get_link h pp)\<rparr>;
             h2 = set_link pp blk h1;
             h3 = coalesce_next blk h2
         in coalesce_prev pp blk h3)
       (insert_scan h blk 0)"

text \<open>The search of \<open>kmalloc\<close>: the link that leads to the first block that fits, and that block
  (0 if there is none).\<close>

partial_function (option) kmalloc_scan :: "heap \<Rightarrow> u64 \<Rightarrow> u64 \<Rightarrow> u64 \<Rightarrow> (u64 \<times> u64) option" where
  "kmalloc_scan h need pp b =
     (if b = 0 then Some (pp, 0)
      else if bsize h b < need then kmalloc_scan h need b (bnext h b)
      else Some (pp, b))"

definition kmalloc_take :: "u64 \<Rightarrow> u64 \<Rightarrow> u64 \<Rightarrow> heap \<Rightarrow> heap" where
  "kmalloc_take need pp b h =
     (let h1 = (if bsize h b - need \<ge> MIN_SPLIT
                then let rest = b + need;
                         h1 = set_size rest (bsize h b - need) h;
                         h2 = h1\<lparr>bnext := (bnext h1)(rest := bnext h1 b)\<rparr>
                     in set_link pp rest (set_size b need h2)
                else set_link pp (bnext h b) h)
      in h1\<lparr>used_sz := used_sz h1 + bsize h1 b\<rparr>)"

definition kmalloc :: "u64 \<Rightarrow> heap \<Rightarrow> (u64 \<times> heap) option" where
  "kmalloc sz h =
     (if sz = 0 then Some (0, h)
      else let need = ALIGN16 sz + HDR_SIZE in
        map_option (\<lambda>(pp, b). if b = 0 then (0, h) else (b + HDR_SIZE, kmalloc_take need pp b h))
          (kmalloc_scan h need 0 (free_head h)))"

definition kfree :: "u64 \<Rightarrow> heap \<Rightarrow> heap option" where
  "kfree ptr h =
     (if ptr = 0 then Some h
      else let blk = ptr - HDR_SIZE
           in insert_free blk (h\<lparr>used_sz := used_sz h - bsize h blk\<rparr>))"

definition kcalloc :: "u64 \<Rightarrow> u64 \<Rightarrow> heap \<Rightarrow> (u64 \<times> heap) option" where
  "kcalloc n sz h =
     (let total_sz = n * sz in
      map_option (\<lambda>(p, h'). if p \<noteq> 0
           then (p, h'\<lparr>payload := snd (memset (payload h') p 0 (unat total_sz))\<rparr>) else (p, h'))
        (kmalloc total_sz h))"

definition krealloc :: "u64 \<Rightarrow> u64 \<Rightarrow> heap \<Rightarrow> (u64 \<times> heap) option" where
  "krealloc ptr sz h =
     (if ptr = 0 then kmalloc sz h
      else if sz = 0 then map_option (\<lambda>h'. (0, h')) (kfree ptr h)
      else let old_payload = bsize h (ptr - HDR_SIZE) - HDR_SIZE in
        if old_payload \<ge> sz then Some (ptr, h)
        else case kmalloc sz h of
          None \<Rightarrow> None
        | Some (np, h1) \<Rightarrow>
            if np \<noteq> 0
            then map_option (\<lambda>h'. (np, h'))
                   (kfree ptr (h1\<lparr>payload := snd (memcpy (payload h1) np ptr (unat old_payload))\<rparr>))
            else Some (np, h1))"

definition heap_used :: "heap \<Rightarrow> u64" where
  "heap_used h = used_sz h"

definition heap_size :: "heap \<Rightarrow> u64" where
  "heap_size h = arena_sz h"

section \<open>The free list as a list\<close>

text \<open>\<open>seg h a xs t\<close>: following the links from \<open>a\<close> visits the blocks \<open>xs\<close> and then reaches \<open>t\<close>.\<close>

primrec seg :: "heap \<Rightarrow> u64 \<Rightarrow> u64 list \<Rightarrow> u64 \<Rightarrow> bool" where
  "seg h a [] t \<longleftrightarrow> a = t"
| "seg h a (x # xs) t \<longleftrightarrow> a = x \<and> x \<noteq> 0 \<and> seg h (bnext h x) xs t"

lemma seg_append [simp]: "seg h a (xs @ ys) t \<longleftrightarrow> (\<exists>m. seg h a xs m \<and> seg h m ys t)"
  by (induction xs arbitrary: a) auto

lemma seg_cong:
  "(\<And>x. x \<in> set xs \<Longrightarrow> bnext h x = bnext h' x) \<Longrightarrow> seg h a xs t = seg h' a xs t"
  by (induction xs arbitrary: a) auto

text \<open>The block a link belongs to, when the blocks before it are \<open>xs\<close>.\<close>

definition link_of :: "u64 list \<Rightarrow> u64" where
  "link_of xs = (if xs = [] then 0 else last xs)"

lemma link_of_simps [simp]: "link_of [] = 0" "link_of (xs @ [x]) = x"
  by (simp_all add: link_of_def)

lemma seg_nonzero: "seg h a xs t \<Longrightarrow> 0 \<notin> set xs"
  by (induction xs arbitrary: a) auto

lemma seg_get_link: "seg h (free_head h) xs t \<Longrightarrow> get_link h (link_of xs) = t"
  by (cases xs rule: rev_cases) (auto simp: get_link_def)

lemma seg_set_link:
  assumes "seg h (free_head h) xs t" "distinct xs"
  shows "seg (set_link (link_of xs) v h) (free_head (set_link (link_of xs) v h)) xs v"
proof (cases xs rule: rev_cases)
  case Nil
  then show ?thesis by (simp add: set_link_def)
next
  case (snoc ys y)
  with assms have y: "y \<noteq> 0" "y \<notin> set ys" "seg h (free_head h) ys y" by auto
  have "seg (h\<lparr>bnext := (bnext h)(y := v)\<rparr>) (free_head h) ys y = seg h (free_head h) ys y"
    by (rule seg_cong) (use y(2) in auto)
  with y snoc show ?thesis by (simp add: set_link_def)
qed

section \<open>Tilings\<close>

text \<open>The free blocks \<open>F\<close> and the allocated blocks \<open>al\<close> tile the arena \<open>[A, A + Z)\<close>: they are
  16-byte aligned, non-empty, inside the arena, pairwise disjoint, and together as long as the
  arena. \<open>coal\<close>: no free block ends where another one starts.\<close>

definition block_ok :: "nat \<Rightarrow> nat \<Rightarrow> (u64 \<Rightarrow> nat) \<Rightarrow> u64 \<Rightarrow> bool" where
  "block_ok A Z sz x \<longleftrightarrow> 16 dvd unat x \<and> 16 dvd sz x \<and> 0 < sz x \<and> A \<le> unat x \<and> unat x + sz x \<le> A + Z"

definition apart :: "(u64 \<Rightarrow> nat) \<Rightarrow> u64 \<Rightarrow> u64 \<Rightarrow> bool" where
  "apart sz x y \<longleftrightarrow> unat x + sz x \<le> unat y \<or> unat y + sz y \<le> unat x"

definition tiles :: "nat \<Rightarrow> nat \<Rightarrow> (u64 \<Rightarrow> nat) \<Rightarrow> u64 set \<Rightarrow> u64 set \<Rightarrow> bool" where
  "tiles A Z sz F al \<longleftrightarrow> finite F \<and> finite al \<and> F \<inter> al = {} \<and>
     (\<forall>x \<in> F \<union> al. block_ok A Z sz x) \<and>
     (\<forall>x \<in> F \<union> al. \<forall>y \<in> F \<union> al. x \<noteq> y \<longrightarrow> apart sz x y) \<and>
     sum sz al + sum sz F = Z"

definition coal :: "(u64 \<Rightarrow> nat) \<Rightarrow> u64 set \<Rightarrow> bool" where
  "coal sz F \<longleftrightarrow> (\<forall>x \<in> F. \<forall>y \<in> F. unat x + sz x \<noteq> unat y)"

lemma tilesD:
  assumes "tiles A Z sz F al"
  shows "finite F" "finite al" "F \<inter> al = {}" "x \<in> F \<or> x \<in> al \<Longrightarrow> block_ok A Z sz x"
    "x \<in> F \<or> x \<in> al \<Longrightarrow> y \<in> F \<or> y \<in> al \<Longrightarrow> x \<noteq> y \<Longrightarrow> apart sz x y" "sum sz al + sum sz F = Z"
  using assms by (auto simp: tiles_def)

lemma apart_sym: "apart sz x y \<Longrightarrow> apart sz y x"
  by (auto simp: apart_def)

lemma tiles_take:
  assumes t: "tiles A Z sz F al" and b: "b \<in> F"
  shows "tiles A Z sz (F - {b}) (insert b al)"
proof -
  have "b \<notin> al" "sum sz F = sz b + sum sz (F - {b})"
    using tilesD(1,3) [OF t] b by (auto simp: sum.remove)
  then show ?thesis using t b by (auto simp: tiles_def)
qed

text \<open>Cutting a block in two: the second part starts at \<open>r\<close>.\<close>

lemma tiles_split:
  assumes t: "tiles A Z sz F al" and b: "b \<in> al"
    and r: "unat r = unat b + n" "0 < n" "n < sz b" "16 dvd n"
  shows "tiles A Z (sz(b := n, r := sz b - n)) (insert r F) al" "r \<notin> F" "r \<notin> al"
proof -
  let ?sz = "sz(b := n, r := sz b - n)"
  note ok = tilesD(4) [OF t, of b] and disj = tilesD(5) [OF t]
  have rb: "r \<noteq> b" using r by auto
  have fresh: "r \<noteq> x" if "x \<in> F \<or> x \<in> al" for x
  proof
    assume "r = x"
    then have "apart sz b x" using that b rb by (intro disj) auto
    then show False using \<open>r = x\<close> r tilesD(4) [OF t that] by (auto simp: apart_def block_ok_def)
  qed
  then show nin: "r \<notin> F" "r \<notin> al" by blast+
  have blocks: "block_ok A Z ?sz x" if "x \<in> insert r F \<union> al" for x
    using that ok b r tilesD(4) [OF t, of x] by (auto simp: block_ok_def intro: dvd_diff_nat)
  have ap: "apart ?sz x y" if "x \<in> insert r F \<union> al" "y \<in> insert r F \<union> al" "x \<noteq> y" for x y
  proof -
    have one: "apart ?sz r z" "z \<noteq> b \<Longrightarrow> apart ?sz b z" if "z \<in> F \<or> z \<in> al" for z
    proof -
      have "z = b \<or> apart sz b z" using that b disj by blast
      moreover have "0 < sz z" using tilesD(4) [OF t that] by (simp add: block_ok_def)
      ultimately show "apart ?sz r z" "z \<noteq> b \<Longrightarrow> apart ?sz b z"
        using r fresh [OF that] rb by (auto simp: apart_def)
    qed
    consider "x = r" | "y = r" "x \<noteq> r" | "x = b" "y \<noteq> r" | "y = b" "x \<noteq> r" | "x \<notin> {r, b}" "y \<notin> {r, b}" by blast
    then show ?thesis
    proof cases
      case 1 then show ?thesis using one(1) that by blast
    next
      case 2 then show ?thesis using one(1) that apart_sym by blast
    next
      case 3 then show ?thesis using one(2) [of y] that by blast
    next
      case 4 then show ?thesis using one(2) [of x] that apart_sym by blast
    next
      case 5
      then have "apart sz x y" using that by (intro disj) auto
      with 5 show ?thesis by (simp add: apart_def)
    qed
  qed
  have bF: "b \<notin> F" using tilesD(3) [OF t] b by blast
  have "sum ?sz al = n + sum sz (al - {b})"
  proof -
    have "sum ?sz al = ?sz b + sum ?sz (al - {b})" using tilesD(2) [OF t] b by (simp add: sum.remove)
    moreover have "sum ?sz (al - {b}) = sum sz (al - {b})" using nin by (intro sum.cong) auto
    ultimately show ?thesis using rb by simp
  qed
  moreover have "sum ?sz (insert r F) = (sz b - n) + sum sz F"
  proof -
    have "sum ?sz F = sum sz F" using nin bF by (intro sum.cong) auto
    then show ?thesis using tilesD(1) [OF t] nin by simp
  qed
  moreover have "sum sz al = sz b + sum sz (al - {b})" using tilesD(2) [OF t] b by (simp add: sum.remove)
  ultimately have "sum ?sz al + sum ?sz (insert r F) = Z" using tilesD(6) [OF t] r by simp
  then show "tiles A Z ?sz (insert r F) al"
    using blocks ap nin tilesD(1-3) [OF t] unfolding tiles_def by auto
qed

lemma tiles_release:
  assumes t: "tiles A Z sz F al" and b: "b \<in> al"
  shows "tiles A Z sz (insert b F) (al - {b})"
proof -
  have "b \<notin> F" "sum sz al = sz b + sum sz (al - {b})"
    using tilesD(2,3) [OF t] b by (auto simp: sum.remove)
  then show ?thesis using t b by (auto simp: tiles_def)
qed

text \<open>Joining two adjacent free blocks.\<close>

lemma tiles_merge:
  assumes t: "tiles A Z sz F al" and xy: "x \<in> F" "y \<in> F" "unat x + sz x = unat y"
  shows "tiles A Z (sz(x := sz x + sz y)) (F - {y}) al"
proof -
  let ?sz = "sz(x := sz x + sz y)"
  note okx = tilesD(4) [OF t, of x] and oky = tilesD(4) [OF t, of y] and disj = tilesD(5) [OF t]
  have ne: "x \<noteq> y" using xy okx by (auto simp: block_ok_def)
  have blocks: "block_ok A Z ?sz z" if "z \<in> (F - {y}) \<union> al" for z
    using that okx oky xy tilesD(4) [OF t, of z] by (auto simp: block_ok_def)
  have one: "apart ?sz x z" if "z \<in> F \<or> z \<in> al" "z \<noteq> x" "z \<noteq> y" for z
  proof -
    have "apart sz x z" "apart sz y z" using that xy by (auto intro: disj)
    moreover have "0 < sz z" using tilesD(4) [OF t that(1)] by (simp add: block_ok_def)
    ultimately show ?thesis using xy that by (auto simp: apart_def)
  qed
  have ap: "apart ?sz u v" if "u \<in> (F - {y}) \<union> al" "v \<in> (F - {y}) \<union> al" "u \<noteq> v" for u v
  proof -
    have "y \<notin> al" using tilesD(3) [OF t] xy by blast
    then have uv: "u \<noteq> y" "v \<noteq> y" using that by auto
    consider "u = x" | "v = x" "u \<noteq> x" | "u \<noteq> x" "v \<noteq> x" by blast
    then show ?thesis
    proof cases
      case 1 then show ?thesis using one that uv by blast
    next
      case 2 then show ?thesis using one that uv apart_sym by blast
    next
      case 3
      then have "apart sz u v" using that by (intro disj) auto
      with 3 show ?thesis by (simp add: apart_def)
    qed
  qed
  have "sum ?sz al = sum sz al" using tilesD(3) [OF t] xy by (intro sum.cong) auto
  moreover have "sum ?sz (F - {y}) = sum sz F"
  proof -
    have fin: "finite (F - {y})" "x \<in> F - {y}" using tilesD(1) [OF t] xy ne by auto
    have "sum ?sz (F - {y}) = ?sz x + sum ?sz (F - {y} - {x})" by (rule sum.remove [OF fin])
    moreover have "sum ?sz (F - {y} - {x}) = sum sz (F - {y} - {x})" by (intro sum.cong) auto
    moreover have "sum sz (F - {y}) = sz x + sum sz (F - {y} - {x})" by (rule sum.remove [OF fin])
    moreover have "sum sz F = sz y + sum sz (F - {y})" using tilesD(1) [OF t] xy by (intro sum.remove)
    ultimately show ?thesis by simp
  qed
  ultimately show ?thesis
    using blocks ap tilesD(1-3,6) [OF t] unfolding tiles_def by auto
qed

lemma tiles_cong:
  assumes "\<And>x. x \<in> F \<union> al \<Longrightarrow> sz x = sz' x"
  shows "tiles A Z sz F al = tiles A Z sz' F al"
proof -
  have "block_ok A Z sz x = block_ok A Z sz' x" "\<And>y. y \<in> F \<union> al \<Longrightarrow> apart sz x y = apart sz' x y"
    if "x \<in> F \<union> al" for x
    using that assms by (auto simp: block_ok_def apart_def)
  moreover have "sum sz al = sum sz' al" "sum sz F = sum sz' F"
    using assms by (auto intro: sum.cong)
  ultimately show ?thesis unfolding tiles_def by auto
qed

text \<open>A coalesced tiling without allocated blocks is the one block that fills the arena.\<close>

lemma tiles_empty:
  assumes t: "tiles A Z sz F {}" and c: "coal sz F" and "0 < Z"
  shows "\<exists>x. F = {x} \<and> unat x = A \<and> sz x = Z"
proof -
  let ?I = "\<lambda>x. {unat x..<unat x + sz x}"
  have ok: "block_ok A Z sz x" if "x \<in> F" for x using tilesD(4) [OF t] that by simp
  have ap: "apart sz x y" if "x \<in> F" "y \<in> F" "x \<noteq> y" for x y using tilesD(5) [OF t] that by simp
  have "card (\<Union>x\<in>F. ?I x) = (\<Sum>x\<in>F. card (?I x))"
    using tilesD(1) [OF t] by (rule card_UN_disjoint) (use ap in \<open>force simp: apart_def\<close>)+
  then have "card (\<Union>x\<in>F. ?I x) = card {A..<A + Z}" using tilesD(6) [OF t] by simp
  moreover have "(\<Union>x\<in>F. ?I x) \<subseteq> {A..<A + Z}" using ok by (fastforce simp: block_ok_def)
  ultimately have U: "(\<Union>x\<in>F. ?I x) = {A..<A + Z}" by (intro card_subset_eq) auto
  then have "A \<in> (\<Union>x\<in>F. ?I x)" using \<open>0 < Z\<close> by simp
  then obtain x where x: "x \<in> F" "unat x \<le> A" by auto
  have start: "unat x = A" using x ok [of x] by (simp add: block_ok_def)
  have full: "sz x = Z"
  proof (rule ccontr)
    assume "sz x \<noteq> Z"
    then have "unat x + sz x \<in> {A..<A + Z}" using ok [OF x(1)] start by (auto simp: block_ok_def)
    then obtain y where y: "y \<in> F" "unat x + sz x \<in> ?I y" using U by blast
    then have "y \<noteq> x" by auto
    then have "apart sz x y" using ap x y by blast
    then have "unat x + sz x = unat y" using y by (auto simp: apart_def)
    then show False using c x y by (auto simp: coal_def)
  qed
  have "y = x" if "y \<in> F" for y
  proof (rule ccontr)
    assume "y \<noteq> x"
    then show False using ap [OF that x(1)] ok [OF that] full start by (auto simp: apart_def block_ok_def)
  qed
  then show ?thesis using x(1) start full by blast
qed

section \<open>The invariant\<close>

abbreviation (input) bsz :: "heap \<Rightarrow> u64 \<Rightarrow> nat" where
  "bsz h \<equiv> (\<lambda>x. unat (bsize h x))"

definition heap_inv :: "heap \<Rightarrow> u64 list \<Rightarrow> u64 set \<Rightarrow> bool" where
  "heap_inv h fl al \<longleftrightarrow>
     0 < unat (arena h) \<and> unat (arena h) + unat (arena_sz h) < 2 ^ 64 \<and>
     seg h (free_head h) fl 0 \<and> sorted_wrt (<) fl \<and>
     tiles (unat (arena h)) (unat (arena_sz h)) (bsz h) (set fl) al \<and>
     coal (bsz h) (set fl) \<and>
     used_sz h = of_nat (sum (bsz h) al)"

text \<open>The walks return, and stop where the list says.\<close>

lemma kmalloc_scan_seg:
  "seg h a ys 0 \<Longrightarrow> kmalloc_scan h need (link_of xs) a =
     Some (link_of (xs @ takeWhile (\<lambda>b. bsize h b < need) ys),
           case dropWhile (\<lambda>b. bsize h b < need) ys of [] \<Rightarrow> 0 | b # _ \<Rightarrow> b)"
proof (induction ys arbitrary: xs a)
  case Nil
  then show ?case by (subst kmalloc_scan.simps) simp
next
  case (Cons y ys)
  then show ?case
    using Cons.IH [of "bnext h y" "xs @ [y]"] by (subst kmalloc_scan.simps) simp
qed

lemma insert_scan_seg:
  "seg h (free_head h) (xs @ ys) 0 \<Longrightarrow>
   insert_scan h blk (link_of xs) = Some (link_of (xs @ takeWhile (\<lambda>b. b < blk) ys))"
proof (induction ys arbitrary: xs)
  case Nil
  then show ?case using seg_get_link [of h xs 0] by (subst insert_scan.simps) simp
next
  case (Cons y ys)
  then have "get_link h (link_of xs) = y" "y \<noteq> 0" using seg_get_link [of h xs y] by auto
  then show ?case
    using Cons.IH [of "xs @ [y]"] Cons.prems by (subst insert_scan.simps) (simp add: Let_def)
qed

lemma unat_end:
  assumes "block_ok A Z (bsz h) x" "A + Z < 2 ^ 64"
  shows "unat (x + bsize h x) = unat x + bsz h x" "x + bsize h x = y \<longleftrightarrow> unat x + bsz h x = unat y"
proof -
  have "unat x + bsz h x < 2 ^ 64" using assms by (simp add: block_ok_def)
  then show "unat (x + bsize h x) = unat x + bsz h x" by (simp add: unat_word_ariths)
  then show "x + bsize h x = y \<longleftrightarrow> unat x + bsz h x = unat y" by (metis word_unat_eq_iff)
qed

lemma ALIGN16_need:
  assumes "sz \<noteq> 0" "unat sz + 32 \<le> 2 ^ 64"
  shows "16 dvd unat (ALIGN16 sz + HDR_SIZE)" "unat sz + 16 \<le> unat (ALIGN16 sz + HDR_SIZE)"
    "unat (ALIGN16 sz + HDR_SIZE) < unat sz + 32"
proof -
  have s15: "unat (sz + 15) = unat sz + 15" using assms(2) by (simp add: unat_word_ariths)
  have al: "unat (ALIGN16 sz) = (unat sz + 15) div 16 * 16"
    unfolding ALIGN16_def using s15
    by (simp only: mask_literals(1) [where 'a = 64] unat_and_not_mask) (simp add: mask_literals(1) [symmetric])
  have "(unat sz + 15) div 16 * 16 + 16 < unat sz + 32" by presburger
  then have u: "unat (ALIGN16 sz + HDR_SIZE) = (unat sz + 15) div 16 * 16 + 16"
    using assms(2) by (simp add: unat_word_ariths al)
  show "16 dvd unat (ALIGN16 sz + HDR_SIZE)" unfolding u by simp
  show "unat sz + 16 \<le> unat (ALIGN16 sz + HDR_SIZE)" "unat (ALIGN16 sz + HDR_SIZE) < unat sz + 32"
    unfolding u by presburger+
qed

lemma set_link_simps [simp]:
  "bsize (set_link pp v h) = bsize h" "payload (set_link pp v h) = payload h"
  "arena (set_link pp v h) = arena h" "arena_sz (set_link pp v h) = arena_sz h"
  "used_sz (set_link pp v h) = used_sz h"
  by (simp_all add: set_link_def)

lemma set_size_simps [simp]:
  "bsize (set_size b v h) = (bsize h)(b := v)" "payload (set_size b v h) = payload h"
  "arena (set_size b v h) = arena h" "arena_sz (set_size b v h) = arena_sz h"
  "used_sz (set_size b v h) = used_sz h" "bnext (set_size b v h) = bnext h"
  "free_head (set_size b v h) = free_head h"
  by (simp_all add: set_size_def)

lemma seg_relink:
  assumes "seg h (free_head h) xs t" "seg h v ys 0" "distinct (xs @ ys)"
  shows "seg (set_link (link_of xs) v h) (free_head (set_link (link_of xs) v h)) (xs @ ys) 0"
proof -
  have "bnext (set_link (link_of xs) v h) y = bnext h y" if "y \<in> set ys" for y
    using that assms(3) by (cases xs rule: rev_cases) (auto simp: set_link_def)
  then have "seg (set_link (link_of xs) v h) v ys 0" using seg_cong assms(2) by metis
  with seg_set_link [OF assms(1)] assms(3) show ?thesis by auto
qed

lemma heap_invD:
  assumes "heap_inv h fl al"
  shows "0 < unat (arena h)" "unat (arena h) + unat (arena_sz h) < 2 ^ 64"
    "seg h (free_head h) fl 0" "sorted_wrt (<) fl" "distinct fl"
    "tiles (unat (arena h)) (unat (arena_sz h)) (bsz h) (set fl) al" "coal (bsz h) (set fl)"
    "used_sz h = of_nat (sum (bsz h) al)"
  using assms strict_sorted_iff by (auto simp: heap_inv_def)

text \<open>What \<open>kmalloc\<close> decides.\<close>

lemma kmalloc_cases:
  assumes "heap_inv h fl al" "sz \<noteq> 0"
  obtains (full) "\<And>b. b \<in> set fl \<Longrightarrow> bsize h b < ALIGN16 sz + HDR_SIZE" "kmalloc sz h = Some (0, h)"
  | (fit) xs b ys where "fl = xs @ b # ys" "\<And>x. x \<in> set xs \<Longrightarrow> bsize h x < ALIGN16 sz + HDR_SIZE"
      "ALIGN16 sz + HDR_SIZE \<le> bsize h b"
      "kmalloc sz h = Some (b + HDR_SIZE, kmalloc_take (ALIGN16 sz + HDR_SIZE) (link_of xs) b h)"
proof -
  let ?small = "\<lambda>b. bsize h b < ALIGN16 sz + HDR_SIZE"
  note seg = heap_invD(3) [OF assms(1)]
  note scan = kmalloc_scan_seg [OF seg, of "ALIGN16 sz + HDR_SIZE" "[]"]
  show ?thesis
  proof (cases "dropWhile ?small fl")
    case Nil
    then have "\<forall>b \<in> set fl. ?small b" by (simp add: dropWhile_eq_Nil_conv)
    moreover have "kmalloc sz h = Some (0, h)"
      using scan assms(2) unfolding Nil by (simp add: kmalloc_def Let_def)
    ultimately show ?thesis by (intro full) auto
  next
    case (Cons b ys)
    have fl: "fl = takeWhile ?small fl @ b # ys" using takeWhile_dropWhile_id [of ?small fl] Cons by simp
    have "\<not> ?small b" using hd_dropWhile [of ?small fl] Cons by simp
    moreover have "b \<noteq> 0" using seg_nonzero [OF seg] fl by (metis in_set_conv_decomp)
    moreover have "?small x" if "x \<in> set (takeWhile ?small fl)" for x using set_takeWhileD [OF that] by simp
    moreover have "kmalloc sz h = Some (b + HDR_SIZE,
        kmalloc_take (ALIGN16 sz + HDR_SIZE) (link_of (takeWhile ?small fl)) b h)"
      using scan assms(2) \<open>b \<noteq> 0\<close> unfolding Cons by (simp add: kmalloc_def Let_def)
    ultimately show ?thesis by (intro fit [OF fl]) (auto simp: not_less)
  qed
qed

lemma kmalloc_take_whole:
  assumes inv: "heap_inv h (xs @ b # ys) al" and nosplit: "\<not> bsize h b - need \<ge> MIN_SPLIT"
  shows "heap_inv (kmalloc_take need (link_of xs) b h) (xs @ ys) (insert b al)"
    "bsize (kmalloc_take need (link_of xs) b h) = bsize h"
proof -
  note D = heap_invD [OF inv]
  let ?h = "set_link (link_of xs) (bnext h b) h"
  have h': "kmalloc_take need (link_of xs) b h = ?h\<lparr>used_sz := used_sz h + bsize h b\<rparr>"
    using nosplit by (simp add: kmalloc_take_def Let_def)
  have "seg h (free_head h) xs b" "seg h (bnext h b) ys 0" using D(3) by auto
  then have seg: "seg ?h (free_head ?h) (xs @ ys) 0" using D(5) by (intro seg_relink) auto
  have set: "set (xs @ ys) = set (xs @ b # ys) - {b}" using D(5) by auto
  have t: "tiles (unat (arena h)) (unat (arena_sz h)) (bsz h) (set (xs @ ys)) (insert b al)"
    unfolding set by (rule tiles_take [OF D(6)]) simp
  have "b \<notin> al" "finite al" using tilesD(2,3) [OF D(6)] by auto
  then have used: "used_sz h + bsize h b = of_nat (sum (bsz h) (insert b al))" using D(8) by simp
  have cong: "seg (k\<lparr>used_sz := u\<rparr>) a zs t = seg k a zs t" for k u a zs t by (rule seg_cong) simp
  show "heap_inv (kmalloc_take need (link_of xs) b h) (xs @ ys) (insert b al)"
    unfolding h' heap_inv_def using D t seg used
    by (auto simp: cong coal_def sorted_wrt_append)
  show "bsize (kmalloc_take need (link_of xs) b h) = bsize h" by (simp add: h')
qed

lemma coal_split:
  assumes t: "tiles A Z sz F al" and c: "coal sz F" and b: "b \<in> F"
    and r: "unat r = unat b + n" "0 < n" "n < sz b"
  shows "coal (sz(b := n, r := sz b - n)) (insert r (F - {b}))"
proof -
  have "unat x + sz x \<noteq> unat r" if "x \<in> F - {b}" for x
    using tilesD(4) [OF t, of x] tilesD(5) [OF t, of x b] that b r by (auto simp: apart_def block_ok_def)
  moreover have "unat r + (sz b - n) \<noteq> unat y" if "y \<in> F" for y
    using c b r that by (auto simp: coal_def)
  ultimately show ?thesis using c r by (auto simp: coal_def)
qed

lemma kmalloc_take_split:
  assumes inv: "heap_inv h (xs @ b # ys) al" and need: "16 dvd unat need" "0 < unat need" "need \<le> bsize h b"
    and split: "bsize h b - need \<ge> MIN_SPLIT"
  shows "heap_inv (kmalloc_take need (link_of xs) b h) (xs @ (b + need) # ys) (insert b al)"
    "bsize (kmalloc_take need (link_of xs) b h) = (bsize h)(b + need := bsize h b - need, b := need)"
    "b + need \<notin> insert b al"
proof -
  note D = heap_invD [OF inv]
  let ?F = "set (xs @ b # ys)" and ?r = "b + need" and ?A = "unat (arena h)" and ?Z = "unat (arena_sz h)"
  let ?hm = "(set_size ?r (bsize h b - need) h)\<lparr>bnext := (bnext h)(?r := bnext h b)\<rparr>"
  let ?h = "set_link (link_of xs) ?r (set_size b need ?hm)"
  have ok: "block_ok ?A ?Z (bsz h) b" using tilesD(4) [OF D(6)] by simp
  have le: "unat need \<le> bsz h b" using need(3) by (simp add: word_le_nat_alt)
  have rest: "unat (bsize h b - need) = bsz h b - unat need" using need(3) by (rule unat_sub)
  then have lt: "unat need < bsz h b" using split by (auto simp: word_le_nat_alt)
  have ur: "unat ?r = unat b + unat need"
    using ok le D(2) by (simp add: unat_word_ariths block_ok_def)
  have "b \<in> ?F" "b \<in> insert b al" by simp_all
  note sp = tiles_split [OF tiles_take [OF D(6) this(1)] this(2) ur need(2) lt need(1)]
  have rb: "?r \<noteq> b" using ur need(2) by auto
  have set: "insert ?r (?F - {b}) = set (xs @ ?r # ys)" using D(5) by auto
  have rF: "?r \<notin> ?F" "?r \<notin> al" using sp(2,3) rb by auto
  have h': "kmalloc_take need (link_of xs) b h = ?h\<lparr>used_sz := used_sz h + need\<rparr>"
    using split rb by (simp add: kmalloc_take_def Let_def)
  then show bs: "bsize (kmalloc_take need (link_of xs) b h) = (bsize h)(?r := bsize h b - need, b := need)"
    by simp
  then have fn: "bsz (kmalloc_take need (link_of xs) b h) = (bsz h)(b := unat need, ?r := bsz h b - unat need)"
    using rb rest by (auto simp: fun_eq_iff)
  have seg0: "seg (set_size b need ?hm) (free_head h) xs b" "seg (set_size b need ?hm) ?r (?r # ys) 0"
  proof -
    have "?r \<noteq> 0" using ur ok D(1) by (auto simp: block_ok_def)
    moreover have "seg (set_size b need ?hm) a zs t = seg h a zs t" if "?r \<notin> set zs" for a zs t
      using that by (intro seg_cong) auto
    ultimately show "seg (set_size b need ?hm) (free_head h) xs b" "seg (set_size b need ?hm) ?r (?r # ys) 0"
      using D(3) rF by auto
  qed
  then have seg: "seg ?h (free_head ?h) (xs @ ?r # ys) 0"
    using D(5) rF by (intro seg_relink) auto
  have sorted: "sorted_wrt (<) (xs @ ?r # ys)"
  proof -
    have "x < ?r" if "x < b" for x using that ur by (simp add: word_less_nat_alt)
    moreover have "?r < y" if "y \<in> set ys" for y
    proof -
      have "y \<noteq> b" "b < y" using D(4,5) that by (auto simp: sorted_wrt_append)
      then have "apart (bsz h) b y" using tilesD(5) [OF D(6), of b y] that by simp
      with \<open>b < y\<close> show ?thesis using ur lt by (auto simp: apart_def word_less_nat_alt)
    qed
    ultimately show ?thesis using D(4) by (auto simp: sorted_wrt_append)
  qed
  show "?r \<notin> insert b al" using rF rb by simp
  have "finite al" "b \<notin> al" using tilesD(2,3) [OF D(6)] by auto
  moreover have "sum ((bsz h)(b := unat need, ?r := bsz h b - unat need)) al = sum (bsz h) al"
    using \<open>b \<notin> al\<close> rF by (intro sum.cong) auto
  ultimately have used: "used_sz h + need = of_nat (sum ((bsz h)(b := unat need, ?r := bsz h b - unat need)) (insert b al))"
    using D(8) rb by simp
  have coal: "coal ((bsz h)(b := unat need, ?r := bsz h b - unat need)) (set (xs @ ?r # ys))"
    using coal_split [OF D(6,7) _ ur need(2) lt] unfolding set by simp
  have cong: "seg (k\<lparr>used_sz := u\<rparr>) a zs t = seg k a zs t" for k u a zs t by (rule seg_cong) simp
  show "heap_inv (kmalloc_take need (link_of xs) b h) (xs @ ?r # ys) (insert b al)"
    unfolding heap_inv_def fn using D(1,2) seg sorted sp(1) [unfolded set] coal used
    by (simp add: h' cong)
qed

text \<open>Freeing: the invariant without \<open>coal\<close> holds throughout, each coalescing step keeps it, and
  after both steps the list is coalesced again.\<close>

definition heap_shape :: "heap \<Rightarrow> u64 list \<Rightarrow> u64 set \<Rightarrow> bool" where
  "heap_shape h fl al \<longleftrightarrow>
     0 < unat (arena h) \<and> unat (arena h) + unat (arena_sz h) < 2 ^ 64 \<and>
     seg h (free_head h) fl 0 \<and> sorted_wrt (<) fl \<and>
     tiles (unat (arena h)) (unat (arena_sz h)) (bsz h) (set fl) al \<and>
     used_sz h = of_nat (sum (bsz h) al)"

lemma heap_inv_shape: "heap_inv h fl al \<longleftrightarrow> heap_shape h fl al \<and> coal (bsz h) (set fl)"
  by (auto simp: heap_inv_def heap_shape_def)

lemma heap_shapeD:
  assumes "heap_shape h fl al"
  shows "0 < unat (arena h)" "unat (arena h) + unat (arena_sz h) < 2 ^ 64"
    "seg h (free_head h) fl 0" "sorted_wrt (<) fl" "distinct fl"
    "tiles (unat (arena h)) (unat (arena_sz h)) (bsz h) (set fl) al"
    "used_sz h = of_nat (sum (bsz h) al)"
  using assms strict_sorted_iff by (auto simp: heap_shape_def)

definition coal_but :: "u64 \<Rightarrow> (u64 \<Rightarrow> nat) \<Rightarrow> u64 set \<Rightarrow> bool" where
  "coal_but b sz F \<longleftrightarrow> (\<forall>x \<in> F. \<forall>y \<in> F. y \<noteq> b \<longrightarrow> unat x + sz x \<noteq> unat y)"

definition merge :: "u64 \<Rightarrow> u64 \<Rightarrow> heap \<Rightarrow> heap" where
  "merge x y h = set_link x (bnext h y) (set_size x (bsize h x + bsize h y) h)"

lemma merge_simps [simp]:
  "bsize (merge x y h) = (bsize h)(x := bsize h x + bsize h y)" "payload (merge x y h) = payload h"
  "arena (merge x y h) = arena h" "arena_sz (merge x y h) = arena_sz h" "used_sz (merge x y h) = used_sz h"
  by (simp_all add: merge_def)

lemma merge_shape:
  assumes inv: "heap_shape h (us @ x # y # vs) al" and adj: "unat x + bsz h x = unat y"
  shows "heap_shape (merge x y h) (us @ x # vs) al"
    "bsz (merge x y h) = (bsz h)(x := bsz h x + bsz h y)"
proof -
  note D = heap_shapeD [OF inv]
  have y: "block_ok (unat (arena h)) (unat (arena_sz h)) (bsz h) y" using tilesD(4) [OF D(6)] by simp
  then have "bsz h x + bsz h y < 2 ^ 64" using D(2) adj by (simp add: block_ok_def)
  then have "unat (bsize h x + bsize h y) = bsz h x + bsz h y" by (simp add: unat_word_ariths)
  then show fn: "bsz (merge x y h) = (bsz h)(x := bsz h x + bsz h y)" by (auto simp: fun_eq_iff)
  have set: "set (us @ x # y # vs) - {y} = set (us @ x # vs)" using D(5) by auto
  have t: "tiles (unat (arena h)) (unat (arena_sz h)) (bsz (merge x y h)) (set (us @ x # vs)) al"
    unfolding fn set [symmetric] by (rule tiles_merge [OF D(6) _ _ adj]) simp_all
  let ?h = "set_size x (bsize h x + bsize h y) h"
  have eq: "seg ?h a zs t = seg h a zs t" for a zs t by (rule seg_cong) simp
  have "seg ?h (free_head ?h) (us @ [x]) y" "seg ?h (bnext h y) vs 0" using D(3) by (auto simp: eq)
  then have "seg (merge x y h) (free_head (merge x y h)) ((us @ [x]) @ vs) 0"
    using seg_relink [of ?h "us @ [x]" y "bnext h y" vs] D(5) by (simp add: merge_def)
  moreover have "x \<notin> al" using tilesD(3) [OF D(6)] by auto
  then have "sum (bsz (merge x y h)) al = sum (bsz h) al" by (intro sum.cong) auto
  ultimately show "heap_shape (merge x y h) (us @ x # vs) al"
    using D t unfolding heap_shape_def by (auto simp: sorted_wrt_append)
qed

lemma coalesce_next_merge:
  "coalesce_next blk h = (if bnext h blk \<noteq> 0 \<and> blk + bsize h blk = bnext h blk
                          then merge blk (bnext h blk) h else h)"
  if "blk \<noteq> 0"
  using that by (simp add: coalesce_next_def merge_def Let_def)

lemma coalesce_prev_merge:
  "coalesce_prev p blk h = (if p \<noteq> 0 \<and> p + bsize h p = blk then merge p blk h else h)"
  by (simp add: coalesce_prev_def merge_def)

lemma coalesce_next_spec:
  assumes inv: "heap_shape h (xs @ blk # ys) al"
    and coal: "coal (bsz h) (set xs \<union> set ys)"
  obtains ws where "heap_shape (coalesce_next blk h) (xs @ blk # ws) al"
    "coal_but blk (bsz (coalesce_next blk h)) (set (xs @ blk # ws))"
    "\<And>x. x \<in> al \<Longrightarrow> bsize (coalesce_next blk h) x = bsize h x"
    "\<And>x. x \<in> set xs \<Longrightarrow> bsize (coalesce_next blk h) x = bsize h x"
    "payload (coalesce_next blk h) = payload h" "arena (coalesce_next blk h) = arena h"
    "arena_sz (coalesce_next blk h) = arena_sz h"
proof -
  note D = heap_shapeD [OF inv]
  have blk: "blk \<noteq> 0" using D(3) by auto
  have ok: "block_ok (unat (arena h)) (unat (arena_sz h)) (bsz h) x" if "x \<in> set (xs @ blk # ys)" for x
    using tilesD(4) [OF D(6)] that by blast
  note adj = unat_end(2) [OF ok [of blk] D(2), simplified]
  have nin: "blk \<notin> set xs" "blk \<notin> set ys" "blk \<notin> al" using D(5) tilesD(3) [OF D(6)] by auto
  have hd: "bnext h blk = (case ys of [] \<Rightarrow> 0 | y # _ \<Rightarrow> y)" using D(3) by (cases ys) auto
  show ?thesis
  proof (cases "bnext h blk \<noteq> 0 \<and> blk + bsize h blk = bnext h blk")
    case True
    then obtain y ws where ys: "ys = y # ws" "bnext h blk = y" using hd by (cases ys) auto
    have a: "unat blk + bsz h blk = unat y" using True adj ys(2) by blast
    have eq: "coalesce_next blk h = merge blk y h" using True ys by (simp add: coalesce_next_merge [OF blk])
    note m = merge_shape [OF inv [unfolded ys(1)] a]
    have "unat x + bsz (merge blk y h) x \<noteq> unat z"
      if "x \<in> set (xs @ blk # ws)" "z \<in> set (xs @ blk # ws)" "z \<noteq> blk" for x z
    proof (cases "x = blk")
      case True
      have "unat y + bsz h y \<noteq> unat z" using coal that ys by (auto simp: coal_def)
      then show ?thesis using True a fun_cong [OF m(2), of blk] by simp
    next
      case False
      then show ?thesis using coal that ys fun_cong [OF m(2), of x] by (auto simp: coal_def)
    qed
    then have "coal_but blk (bsz (merge blk y h)) (set (xs @ blk # ws))" unfolding coal_but_def by blast
    then show ?thesis using m(1) nin by (intro that [of ws]) (auto simp: eq)
  next
    case False
    then have eq: "coalesce_next blk h = h" by (auto simp: coalesce_next_merge [OF blk])
    have "unat x + bsz h x \<noteq> unat z"
      if "x \<in> set (xs @ blk # ys)" "z \<in> set (xs @ blk # ys)" "z \<noteq> blk" for x z
    proof (cases "x = blk")
      case x: True
      show ?thesis
      proof
        assume e: "unat x + bsz h x = unat z"
        have "z \<in> set ys"
        proof (rule ccontr)
          assume "z \<notin> set ys"
          then have "z < blk" using that D(4) by (auto simp: sorted_wrt_append)
          then show False using e x by (auto simp: word_less_nat_alt)
        qed
        then obtain y ws where ys: "ys = y # ws" by (cases ys) auto
        have "y \<noteq> z" using False hd ys e x adj D(3) by auto
        then have "y < z" using \<open>z \<in> set ys\<close> D(4) ys by (auto simp: sorted_wrt_append)
        moreover have "blk < y" using D(4) ys by (auto simp: sorted_wrt_append)
        moreover have "apart (bsz h) blk y" using tilesD(5) [OF D(6), of blk y] nin ys by auto
        ultimately show False using e x ok [of y] ys by (auto simp: apart_def word_less_nat_alt)
      qed
    next
      case False
      then show ?thesis using coal that by (auto simp: coal_def)
    qed
    then have "coal_but blk (bsz h) (set (xs @ blk # ys))" unfolding coal_but_def by blast
    then show ?thesis using inv by (intro that [of ys]) (auto simp: eq)
  qed
qed

lemma coalesce_prev_spec:
  assumes inv: "heap_shape h (xs @ blk # ws) al"
    and but: "coal_but blk (bsz h) (set (xs @ blk # ws))"
  obtains fl where "heap_inv (coalesce_prev (link_of xs) blk h) fl al"
    "\<And>x. x \<in> al \<Longrightarrow> bsize (coalesce_prev (link_of xs) blk h) x = bsize h x"
    "payload (coalesce_prev (link_of xs) blk h) = payload h"
    "arena (coalesce_prev (link_of xs) blk h) = arena h"
    "arena_sz (coalesce_prev (link_of xs) blk h) = arena_sz h"
proof -
  note D = heap_shapeD [OF inv]
  have coal: "unat x + bsz h x \<noteq> unat y"
    if "x \<in> set (xs @ blk # ws)" "y \<in> set (xs @ blk # ws)" "y \<noteq> blk" for x y
    using but that unfolding coal_but_def by blast
  have ok: "block_ok (unat (arena h)) (unat (arena_sz h)) (bsz h) x" if "x \<in> set (xs @ blk # ws)" for x
    using tilesD(4) [OF D(6)] that by blast
  let ?p = "link_of xs"
  show ?thesis
  proof (cases "?p \<noteq> 0 \<and> ?p + bsize h ?p = blk")
    case True
    then obtain us p where xs: "xs = us @ [p]" by (cases xs rule: rev_cases) auto
    then have p: "?p = p" by simp
    have a: "unat p + bsz h p = unat blk"
      using True unat_end(2) [OF ok [of p] D(2), of blk] p xs by simp
    have eq: "coalesce_prev ?p blk h = merge p blk h" using True p by (simp add: coalesce_prev_merge)
    have "heap_shape h (us @ p # blk # ws) al" using inv xs by simp
    note m = merge_shape [OF this a]
    have "unat x + bsz (merge p blk h) x \<noteq> unat y"
      if "x \<in> set (us @ p # ws)" "y \<in> set (us @ p # ws)" for x y
    proof -
      have y: "y \<noteq> blk" "y \<in> set (xs @ blk # ws)" using that(2) D(5) xs by auto
      have "unat blk + bsz h blk \<noteq> unat y" "unat x + bsz h x \<noteq> unat y"
        using coal [OF _ y(2,1)] that(1) xs by auto
      then show ?thesis using a fun_cong [OF m(2), of x] by auto
    qed
    then have "coal (bsz (merge p blk h)) (set (us @ p # ws))" by (simp only: coal_def Ball_def) blast
    moreover have "p \<notin> al" using tilesD(3) [OF D(6)] xs by auto
    ultimately show ?thesis using m(1) by (intro that [of "us @ p # ws"]) (auto simp: eq heap_inv_shape)
  next
    case False
    then have eq: "coalesce_prev ?p blk h = h" by (auto simp: coalesce_prev_merge)
    have "unat x + bsz h x \<noteq> unat blk" if x: "x \<in> set (xs @ blk # ws)" for x
    proof
      assume e: "unat x + bsz h x = unat blk"
      then have "x < blk" using ok [OF x] by (simp add: block_ok_def word_less_nat_alt)
      then have "x \<in> set xs" using x D(4) by (auto simp: sorted_wrt_append)
      then obtain us p where xs: "xs = us @ [p]" by (cases xs rule: rev_cases) auto
      have p: "p \<noteq> 0" "p < blk" using seg_nonzero [OF D(3)] D(4) xs by (auto simp: sorted_wrt_append)
      then have "x \<noteq> p" using False e unat_end(2) [OF ok [of p] D(2), of blk] xs by auto
      then have "x < p" "apart (bsz h) x p"
        using \<open>x \<in> set xs\<close> D(4) xs tilesD(5) [OF D(6), of x p] by (auto simp: sorted_wrt_append)
      then show False using e p ok [OF x] by (auto simp: apart_def word_less_nat_alt block_ok_def)
    qed
    then have "coal (bsz h) (set (xs @ blk # ws))" using coal unfolding coal_def by blast
    then show ?thesis using inv by (intro that [of "xs @ blk # ws"]) (auto simp: eq heap_inv_shape)
  qed
qed

lemma sorted_insert:
  assumes "sorted_wrt (<) fl" "blk \<notin> set fl"
  shows "sorted_wrt (<) (takeWhile (\<lambda>b. b < blk) fl @ blk # dropWhile (\<lambda>b. b < (blk :: u64)) fl)"
  using assms
proof (induction fl)
  case (Cons x fl)
  then have x: "\<And>y. y \<in> set fl \<Longrightarrow> x < y" "x \<noteq> blk"
    and IH: "sorted_wrt (<) (takeWhile (\<lambda>b. b < blk) fl @ blk # dropWhile (\<lambda>b. b < blk) fl)" by auto
  show ?case
  proof (cases "x < blk")
    case True
    then show ?thesis using x(1) IH by (auto dest: set_takeWhileD set_dropWhileD)
  next
    case False
    then have "blk < x" using x(2) by simp
    then show ?thesis using Cons.prems(1) x(1) less_trans by auto
  qed
qed simp

text \<open>The first half of \<open>insert_free\<close>: the block is linked in at its place.\<close>

definition link_in :: "u64 list \<Rightarrow> u64 \<Rightarrow> heap \<Rightarrow> heap" where
  "link_in xs blk h = set_link (link_of xs) blk (h\<lparr>bnext := (bnext h)(blk := get_link h (link_of xs))\<rparr>)"

lemma link_in_simps [simp]:
  "bsize (link_in xs blk h) = bsize h" "payload (link_in xs blk h) = payload h"
  "arena (link_in xs blk h) = arena h" "arena_sz (link_in xs blk h) = arena_sz h"
  "used_sz (link_in xs blk h) = used_sz h"
  by (simp_all add: link_in_def)

lemma link_in_seg:
  assumes "seg h (free_head h) (xs @ ys) 0" "distinct (xs @ ys)" "blk \<notin> set (xs @ ys)" "blk \<noteq> 0"
  shows "seg (link_in xs blk h) (free_head (link_in xs blk h)) (xs @ blk # ys) 0"
proof -
  let ?h = "h\<lparr>bnext := (bnext h)(blk := get_link h (link_of xs))\<rparr>"
  obtain m where m: "seg h (free_head h) xs m" "seg h m ys 0" using assms(1) by auto
  have cong: "seg ?h a zs t = seg h a zs t" if "blk \<notin> set zs" for a zs t
    using that by (intro seg_cong) auto
  have "seg ?h (free_head ?h) xs m" "seg ?h blk (blk # ys) 0"
    using m seg_get_link [OF m(1)] cong assms(3,4) by auto
  then show ?thesis unfolding link_in_def using assms(2,3) by (intro seg_relink) auto
qed

lemma link_in_shape:
  fixes blk :: u64
  assumes inv: "heap_inv h fl al" and blk: "blk \<in> al"
  defines "xs \<equiv> takeWhile (\<lambda>b. b < blk) fl" and "ys \<equiv> dropWhile (\<lambda>b. b < blk) fl"
    and "h0 \<equiv> h\<lparr>used_sz := used_sz h - bsize h blk\<rparr>"
  shows "heap_shape (link_in xs blk h0) (xs @ blk # ys) (al - {blk})"
    "insert_scan h0 blk 0 = Some (link_of xs)" "coal (bsz h) (set xs \<union> set ys)"
proof -
  note D = heap_invD [OF inv]
  have ok: "block_ok (unat (arena h)) (unat (arena_sz h)) (bsz h) blk" using tilesD(4) [OF D(6)] blk by simp
  have blk0: "blk \<noteq> 0" "blk \<notin> set fl" using ok D(1) tilesD(3) [OF D(6)] blk by (auto simp: block_ok_def)
  have fl: "xs @ ys = fl" by (simp add: xs_def ys_def)
  have seg0: "seg h0 (free_head h0) fl 0" using D(3) seg_cong [of fl h h0] by (simp add: h0_def)
  then show "insert_scan h0 blk 0 = Some (link_of xs)"
    using insert_scan_seg [of h0 "[]" fl blk] by (simp add: xs_def)
  have setfl: "set xs \<union> set ys = set fl" by (simp only: fl [symmetric] set_append)
  then show "coal (bsz h) (set xs \<union> set ys)" using D(7) by simp
  have seg: "seg (link_in xs blk h0) (free_head (link_in xs blk h0)) (xs @ blk # ys) 0"
    by (rule link_in_seg) (use seg0 D(5) blk0 fl in simp_all)
  have t: "tiles (unat (arena h)) (unat (arena_sz h)) (bsz h) (set (xs @ blk # ys)) (al - {blk})"
    using tiles_release [OF D(6) blk] setfl by simp
  have "sum (bsz h) al = bsz h blk + sum (bsz h) (al - {blk})"
    using tilesD(2) [OF D(6)] blk by (rule sum.remove)
  then have "used_sz h - bsize h blk = of_nat (sum (bsz h) (al - {blk}))" using D(8) by simp
  then show "heap_shape (link_in xs blk h0) (xs @ blk # ys) (al - {blk})"
    using D(1,2) seg sorted_insert [OF D(4) blk0(2)] t unfolding heap_shape_def
    by (simp add: h0_def xs_def ys_def)
qed

lemma kfree_spec:
  assumes inv: "heap_inv h fl al" and blk: "blk \<in> al"
  obtains h' fl' where "kfree (blk + HDR_SIZE) h = Some h'" "heap_inv h' fl' (al - {blk})"
    "\<And>x. x \<in> al - {blk} \<Longrightarrow> bsize h' x = bsize h x" "payload h' = payload h"
    "arena h' = arena h" "arena_sz h' = arena_sz h"
proof -
  note D = heap_invD [OF inv]
  have ok: "block_ok (unat (arena h)) (unat (arena_sz h)) (bsz h) blk" using tilesD(4) [OF D(6)] blk by simp
  then have "16 \<le> bsz h blk" by (auto simp: block_ok_def elim: dvd_imp_le)
  then have "unat (blk + 16) = unat blk + 16" using ok D(2) by (simp add: unat_word_ariths block_ok_def)
  then have nz: "blk + 16 \<noteq> 0" by auto
  define xs where "xs = takeWhile (\<lambda>b. b < blk) fl"
  define h0 where "h0 = h\<lparr>used_sz := used_sz h - bsize h blk\<rparr>"
  define h2 where "h2 = link_in xs blk h0"
  note L = link_in_shape [OF inv blk, folded xs_def h0_def, folded h2_def]
  have bs: "bsize h2 = bsize h" "payload h2 = payload h" "arena h2 = arena h" "arena_sz h2 = arena_sz h"
    by (simp_all add: h2_def h0_def)
  have res: "kfree (blk + HDR_SIZE) h = Some (coalesce_prev (link_of xs) blk (coalesce_next blk h2))"
    using nz L(2) by (simp add: kfree_def insert_free_def h0_def h2_def link_in_def Let_def)
  have c: "coal (bsz h2) (set xs \<union> set (dropWhile (\<lambda>b. b < blk) fl))" using L(3) by (simp add: bs)
  obtain ws where n:
    "heap_shape (coalesce_next blk h2) (xs @ blk # ws) (al - {blk})"
    "coal_but blk (bsz (coalesce_next blk h2)) (set (xs @ blk # ws))"
    "\<And>x. x \<in> al - {blk} \<Longrightarrow> bsize (coalesce_next blk h2) x = bsize h2 x"
    "payload (coalesce_next blk h2) = payload h2" "arena (coalesce_next blk h2) = arena h2"
    "arena_sz (coalesce_next blk h2) = arena_sz h2"
    using coalesce_next_spec [OF L(1) c] by metis
  obtain fl' where p: "heap_inv (coalesce_prev (link_of xs) blk (coalesce_next blk h2)) fl' (al - {blk})"
    "\<And>x. x \<in> al - {blk} \<Longrightarrow> bsize (coalesce_prev (link_of xs) blk (coalesce_next blk h2)) x =
       bsize (coalesce_next blk h2) x"
    "payload (coalesce_prev (link_of xs) blk (coalesce_next blk h2)) = payload h"
    "arena (coalesce_prev (link_of xs) blk (coalesce_next blk h2)) = arena h"
    "arena_sz (coalesce_prev (link_of xs) blk (coalesce_next blk h2)) = arena_sz h"
    using coalesce_prev_spec [OF n(1,2)] unfolding n(4-6) bs by metis
  show ?thesis by (rule that [OF res p(1)]) (simp_all add: p n(3) bs)
qed

lemma kmalloc_take_fields [simp]:
  "payload (kmalloc_take need pp b h) = payload h" "arena (kmalloc_take need pp b h) = arena h"
  "arena_sz (kmalloc_take need pp b h) = arena_sz h"
  by (simp_all add: kmalloc_take_def Let_def)

lemma kmalloc_take_spec:
  assumes inv: "heap_inv h (xs @ b # ys) al" and need: "16 dvd unat need" "0 < unat need" "need \<le> bsize h b"
  obtains fl where "heap_inv (kmalloc_take need (link_of xs) b h) fl (insert b al)"
    "need \<le> bsize (kmalloc_take need (link_of xs) b h) b"
    "\<And>x. x \<in> al \<Longrightarrow> bsize (kmalloc_take need (link_of xs) b h) x = bsize h x"
proof (cases "bsize h b - need \<ge> MIN_SPLIT")
  case True
  note T = kmalloc_take_split [OF inv need True]
  have "b \<notin> al" using tilesD(3) [OF heap_invD(6) [OF inv]] by auto
  then show ?thesis using T(2,3) by (intro that [OF T(1)]) auto
next
  case False
  note T = kmalloc_take_whole [OF inv False]
  show ?thesis using T(2) need(3) by (intro that [OF T(1)]) auto
qed

text \<open>\<open>kmalloc\<close> always returns; it is first fit; and a block it hands out is new and large enough.\<close>

lemma kmalloc_spec:
  assumes inv: "heap_inv h fl al" and sz: "sz \<noteq> 0" "unat sz + 32 \<le> 2 ^ 64"
  obtains (full) "kmalloc sz h = Some (0, h)" "find (\<lambda>b. ALIGN16 sz + HDR_SIZE \<le> bsize h b) fl = None"
  | (fit) b h' fl' where "kmalloc sz h = Some (b + HDR_SIZE, h')"
      "find (\<lambda>b. ALIGN16 sz + HDR_SIZE \<le> bsize h b) fl = Some b"
      "b + HDR_SIZE \<noteq> 0" "b \<notin> al" "heap_inv h' fl' (insert b al)" "unat sz + 16 \<le> bsz h' b"
      "\<And>x. x \<in> al \<Longrightarrow> bsize h' x = bsize h x" "payload h' = payload h" "arena h' = arena h"
      "arena_sz h' = arena_sz h"
proof -
  note need = ALIGN16_need [OF sz]
  show ?thesis
  proof (cases rule: kmalloc_cases [OF inv sz(1)])
    case 1
    then show ?thesis by (intro full) (auto simp: find_None_iff not_le)
  next
    case (2 xs b ys)
    have inv': "heap_inv h (xs @ b # ys) al" using inv 2(1) by simp
    note D = heap_invD [OF inv']
    have ok: "block_ok (unat (arena h)) (unat (arena_sz h)) (bsz h) b" using tilesD(4) [OF D(6)] by simp
    have "16 \<le> bsz h b" using ok by (auto simp: block_ok_def elim: dvd_imp_le)
    then have "unat (b + 16) = unat b + 16" using ok D(2) by (simp add: unat_word_ariths block_ok_def)
    then have nz: "b + 16 \<noteq> 0" by auto
    have find: "find (\<lambda>b. ALIGN16 sz + HDR_SIZE \<le> bsize h b) fl = Some b"
    proof -
      have "find (\<lambda>b. ALIGN16 sz + HDR_SIZE \<le> bsize h b) xs = None"
        using 2(2) by (auto simp: find_None_iff not_le)
      then show ?thesis using 2(1,3) by (simp add: find_append)
    qed
    have "b \<notin> al" using tilesD(3) [OF D(6)] by auto
    have pos: "0 < unat (ALIGN16 sz + HDR_SIZE)" using need(2) by simp
    obtain fl' where t: "heap_inv (kmalloc_take (ALIGN16 sz + HDR_SIZE) (link_of xs) b h) fl' (insert b al)"
      "ALIGN16 sz + HDR_SIZE \<le> bsize (kmalloc_take (ALIGN16 sz + HDR_SIZE) (link_of xs) b h) b"
      "\<And>x. x \<in> al \<Longrightarrow> bsize (kmalloc_take (ALIGN16 sz + HDR_SIZE) (link_of xs) b h) x = bsize h x"
      by (rule kmalloc_take_spec [OF inv' need(1) pos 2(3)]) blast
    have big: "unat sz + 16 \<le> bsz (kmalloc_take (ALIGN16 sz + HDR_SIZE) (link_of xs) b h) b"
      using t(2) need(2) by (simp add: word_le_nat_alt)
    show ?thesis
      by (rule fit [OF 2(4) find nz \<open>b \<notin> al\<close> t(1) big t(3)]) simp_all
  qed
qed

text \<open>The payload is not part of the allocator's own data.\<close>

lemma heap_inv_payload [simp]: "heap_inv (h\<lparr>payload := m\<rparr>) fl al = heap_inv h fl al"
proof -
  have "seg (h\<lparr>payload := m\<rparr>) (free_head h) fl 0 = seg h (free_head h) fl 0" by (rule seg_cong) simp
  then show ?thesis by (simp add: heap_inv_def)
qed

section \<open>Runs of the heap\<close>

text \<open>The boot hypotheses: a consistent frame allocator and a direct map that keeps 16-byte
  alignment and does not wrap over the managed memory.\<close>

definition direct_map_ok :: "pmm \<Rightarrow> bool" where
  "direct_map_ok p \<longleftrightarrow> pmm_inv p \<and> 16 dvd unat (hhdm p) \<and> unat (hhdm p) + 2 ^ 33 < 2 ^ 64"

lemma heap_init_inv:
  assumes "heap_init p h0 = Some (p', h)" "direct_map_ok p"
  shows "heap_inv h [arena h] {}"
proof -
  obtain phys where al: "pmm_alloc_contig 16384 p = (phys, p')" "phys \<noteq> 0"
    using assms(1) by (auto simp: heap_init_def Let_def split: prod.splits if_splits)
  have inv: "pmm_inv p" using assms(2) by (simp add: direct_map_ok_def)
  note spec = pmm_alloc_contig_spec [OF inv _ al(1)]
  have hh: "hhdm p' = hhdm p" using spec(5) by simp
  have h: "arena h = phys + hhdm p" "arena_sz h = 0x4000000" "used_sz h = 0" "free_head h = arena h"
    "bsize h (arena h) = 0x4000000" "bnext h (arena h) = 0"
    using assms(1) al by (auto simp: heap_init_def Let_def phys_to_virt_def hh)
  define f where "f = frame_of phys"
  have "phys = addr_of f" "f + 16384 \<le> 2097152"
    using spec(2) al(2) inv by (auto simp: free_run_def pmm_inv_def f_def)
  then have ph: "unat phys = f * 4096" "unat phys + 0x4000000 \<le> 2 ^ 33" by (simp_all add: unat_addr_of)
  then have ar: "unat (arena h) = unat phys + unat (hhdm p)"
    using assms(2) by (simp add: h(1) unat_word_ariths direct_map_ok_def)
  have "unat phys \<noteq> 0" using al(2) by (simp add: unat_eq_0)
  then have nz: "arena h \<noteq> 0" using ar by auto
  have "16 dvd unat (arena h)" unfolding ar using ph(1) assms(2) by (simp add: direct_map_ok_def)
  then have "tiles (unat (arena h)) (unat (arena_sz h)) (bsz h) {arena h} {}"
    by (simp add: tiles_def block_ok_def h(2,5))
  then show ?thesis
    using h nz ar ph assms(2) \<open>unat phys \<noteq> 0\<close> by (simp add: heap_inv_def coal_def direct_map_ok_def)
qed

text \<open>What the clients do: they allocate, free and resize their live blocks and write to them.
  \<open>live\<close> maps each live pointer to the size that was asked for. Requests stay below \<open>2 ^ 64 - 32\<close>, so
  that rounding up does not wrap.\<close>

inductive heap_run :: "heap \<Rightarrow> (u64 \<rightharpoonup> u64) \<Rightarrow> bool" where
  boot: "heap_init p h0 = Some (p', h) \<Longrightarrow> direct_map_ok p \<Longrightarrow> heap_run h Map.empty"
| malloc: "heap_run h live \<Longrightarrow> unat sz + 32 \<le> 2 ^ 64 \<Longrightarrow> kmalloc sz h = Some (p, h') \<Longrightarrow>
    heap_run h' (if p = 0 then live else live(p \<mapsto> sz))"
| calloc: "heap_run h live \<Longrightarrow> unat (n * sz) + 32 \<le> 2 ^ 64 \<Longrightarrow> kcalloc n sz h = Some (p, h') \<Longrightarrow>
    heap_run h' (if p = 0 then live else live(p \<mapsto> n * sz))"
| free: "heap_run h live \<Longrightarrow> p \<in> dom live \<Longrightarrow> kfree p h = Some h' \<Longrightarrow> heap_run h' (live(p := None))"
| realloc: "heap_run h live \<Longrightarrow> p \<in> dom live \<Longrightarrow> sz \<noteq> 0 \<Longrightarrow> unat sz + 32 \<le> 2 ^ 64 \<Longrightarrow>
    krealloc p sz h = Some (q, h') \<Longrightarrow>
    heap_run h' (if q = 0 then live else live(p := None, q \<mapsto> sz))"
| store: "heap_run h live \<Longrightarrow> heap_run (h\<lparr>payload := m\<rparr>) live"

text \<open>The invariant of a run: the live pointers are those of the allocated blocks, and each block
  holds what was asked for.\<close>

definition run_inv :: "heap \<Rightarrow> (u64 \<rightharpoonup> u64) \<Rightarrow> bool" where
  "run_inv h live \<longleftrightarrow> (\<exists>fl. heap_inv h fl ((\<lambda>p. p - HDR_SIZE) ` dom live)) \<and>
     (\<forall>p r. live p = Some r \<longrightarrow> p \<noteq> 0 \<and> unat r + 16 \<le> bsz h (p - HDR_SIZE))"

lemma run_inv_payload [simp]: "run_inv (h\<lparr>payload := m\<rparr>) live = run_inv h live"
  by (simp add: run_inv_def)

lemma hdr_inj: "x + HDR_SIZE = y + HDR_SIZE \<longleftrightarrow> x = y" "p - HDR_SIZE = q - HDR_SIZE \<longleftrightarrow> p = q"
  by simp_all

lemma run_inv_new:
  assumes "run_inv h live" "heap_inv h' fl' (insert b ((\<lambda>p. p - HDR_SIZE) ` dom live))"
    "unat r + 16 \<le> bsz h' b" "b + HDR_SIZE \<noteq> 0"
    "\<And>x. x \<in> (\<lambda>p. p - HDR_SIZE) ` dom live \<Longrightarrow> bsize h' x = bsize h x"
  shows "run_inv h' (live(b + HDR_SIZE \<mapsto> r))"
proof -
  have "(\<lambda>p. p - HDR_SIZE) ` dom (live(b + HDR_SIZE \<mapsto> r)) = insert b ((\<lambda>p. p - HDR_SIZE) ` dom live)"
    by (auto simp: image_iff)
  moreover have "unat s + 16 \<le> bsz h' (q - HDR_SIZE)" if "live q = Some s" for q s
    using assms(1) assms(5) [of "q - HDR_SIZE"] that by (force simp: run_inv_def)
  ultimately show ?thesis using assms by (auto simp: run_inv_def)
qed

lemma kmalloc_run:
  assumes "run_inv h live" "unat sz + 32 \<le> 2 ^ 64" "kmalloc sz h = Some (p, h')"
  shows "run_inv h' (if p = 0 then live else live(p \<mapsto> sz))"
proof (cases "sz = 0")
  case True
  then show ?thesis using assms by (simp add: kmalloc_def)
next
  case False
  obtain fl where inv: "heap_inv h fl ((\<lambda>p. p - HDR_SIZE) ` dom live)"
    using assms(1) by (auto simp: run_inv_def)
  show ?thesis
  proof (cases rule: kmalloc_spec [OF inv False assms(2)])
    case 1
    then show ?thesis using assms by simp
  next
    case (2 b h2 fl')
    have "run_inv h2 (live(b + HDR_SIZE \<mapsto> sz))"
      by (rule run_inv_new [OF assms(1) 2(5,6,3,7)])
    then show ?thesis using 2(1,3) assms(3) by simp
  qed
qed

lemma kfree_run:
  assumes "run_inv h live" "p \<in> dom live"
  obtains h' where "kfree p h = Some h'" "run_inv h' (live(p := None))" "payload h' = payload h"
proof -
  obtain fl where inv: "heap_inv h fl ((\<lambda>p. p - HDR_SIZE) ` dom live)"
    using assms(1) by (auto simp: run_inv_def)
  have "p - HDR_SIZE \<in> (\<lambda>p. p - HDR_SIZE) ` dom live" using assms(2) by blast
  from kfree_spec [OF inv this] obtain h' fl' where f: "kfree p h = Some h'"
    "heap_inv h' fl' ((\<lambda>p. p - HDR_SIZE) ` dom live - {p - HDR_SIZE})"
    "\<And>x. x \<in> (\<lambda>p. p - HDR_SIZE) ` dom live - {p - HDR_SIZE} \<Longrightarrow> bsize h' x = bsize h x"
    "payload h' = payload h" by (metis diff_add_cancel)
  have "(\<lambda>p. p - HDR_SIZE) ` dom (live(p := None)) = (\<lambda>p. p - HDR_SIZE) ` dom live - {p - HDR_SIZE}"
    by (auto simp: image_iff)
  moreover have "unat s + 16 \<le> bsz h' (q - HDR_SIZE) \<and> q \<noteq> 0" if "live q = Some s" "q \<noteq> p" for q s
    using assms(1) f(3) [of "q - HDR_SIZE"] that by (force simp: run_inv_def)
  ultimately have "run_inv h' (live(p := None))" using f(2) by (auto simp: run_inv_def)
  then show ?thesis using that f by blast
qed

lemma run_inv_live:
  assumes "run_inv h live" "live p = Some r"
  shows "block_ok (unat (arena h)) (unat (arena_sz h)) (bsz h) (p - HDR_SIZE)"
    "unat p = unat (p - HDR_SIZE) + 16" "unat (bsize h (p - HDR_SIZE) - HDR_SIZE) = bsz h (p - HDR_SIZE) - 16"
    "unat r + 16 \<le> bsz h (p - HDR_SIZE)" "unat (arena h) + unat (arena_sz h) < 2 ^ 64"
proof -
  obtain fl where inv: "heap_inv h fl ((\<lambda>p. p - HDR_SIZE) ` dom live)"
    using assms(1) by (auto simp: run_inv_def)
  note D = heap_invD [OF inv]
  show ok: "block_ok (unat (arena h)) (unat (arena_sz h)) (bsz h) (p - HDR_SIZE)"
    using tilesD(4) [OF D(6), of "p - HDR_SIZE"] assms(2) by blast
  show r: "unat r + 16 \<le> bsz h (p - HDR_SIZE)" using assms by (auto simp: run_inv_def)
  then show "unat (bsize h (p - HDR_SIZE) - HDR_SIZE) = bsz h (p - HDR_SIZE) - 16"
    by (subst unat_sub) (auto simp: word_le_nat_alt)
  show "unat p = unat (p - HDR_SIZE) + 16"
    using ok r D(2) unat_add_offset [of "p - HDR_SIZE" 16] by (simp add: block_ok_def)
  show "unat (arena h) + unat (arena_sz h) < 2 ^ 64" by (rule D(2))
qed

lemma run_inv_disjoint:
  assumes "run_inv h live" "live p = Some r" "live q = Some s" "p \<noteq> q"
  shows "apart (bsz h) (p - HDR_SIZE) (q - HDR_SIZE)"
proof -
  obtain fl where inv: "heap_inv h fl ((\<lambda>p. p - HDR_SIZE) ` dom live)"
    using assms(1) by (auto simp: run_inv_def)
  have "p - HDR_SIZE \<in> (\<lambda>p. p - HDR_SIZE) ` dom live" "q - HDR_SIZE \<in> (\<lambda>p. p - HDR_SIZE) ` dom live"
    using assms(2,3) by blast+
  with tilesD(5) [OF heap_invD(6) [OF inv], of "p - HDR_SIZE" "q - HDR_SIZE"] assms(4)
  show ?thesis by simp
qed

lemma krealloc_run:
  assumes run: "run_inv h live" and p: "live p = Some r" and sz: "sz \<noteq> 0" "unat sz + 32 \<le> 2 ^ 64"
  obtains (same) "krealloc p sz h = Some (p, h)" "run_inv h (live(p := None, p \<mapsto> sz))"
  | (full) "krealloc p sz h = Some (0, h)"
  | (moved) q h' where "krealloc p sz h = Some (q, h')" "q \<noteq> 0" "run_inv h' (live(p := None, q \<mapsto> sz))"
      "\<And>i. i < unat r \<Longrightarrow> payload h' (q + of_nat i) = payload h (p + of_nat i)"
proof -
  let ?old = "bsize h (p - HDR_SIZE) - HDR_SIZE"
  note L = run_inv_live [OF run p]
  have p0: "p \<noteq> 0" using run p by (auto simp: run_inv_def)
  show ?thesis
  proof (cases "?old \<ge> sz")
    case True
    then have "unat sz + 16 \<le> bsz h (p - HDR_SIZE)" using L(3,4) by (simp add: word_le_nat_alt)
    then have "run_inv h (live(p \<mapsto> sz))"
      using run p by (auto simp: run_inv_def insert_absorb domI)
    then show ?thesis using True p0 sz by (intro same) (simp_all add: krealloc_def)
  next
    case False
    obtain fl where inv: "heap_inv h fl ((\<lambda>p. p - HDR_SIZE) ` dom live)" using run by (auto simp: run_inv_def)
    show ?thesis
    proof (cases rule: kmalloc_spec [OF inv sz])
      case 1
      then show ?thesis using False p0 sz by (intro full) (simp add: krealloc_def)
    next
      case (2 b h1 fl')
      have ne: "p \<noteq> b + HDR_SIZE" using 2(4) p by (metis add_diff_cancel_right' domI image_eqI)
      have run1: "run_inv h1 (live(b + HDR_SIZE \<mapsto> sz))" by (rule run_inv_new [OF run 2(5,6,3,7)])
      have p1: "(live(b + HDR_SIZE \<mapsto> sz)) p = Some r" using ne p by simp
      then have pd: "p \<in> dom (live(b + HDR_SIZE \<mapsto> sz))" by blast
      note L1 = run_inv_live [OF run1 p1]
      have same: "bsize h1 (p - HDR_SIZE) = bsize h (p - HDR_SIZE)" using 2(7) p by blast
      have ap: "apart (bsz h1) b (p - HDR_SIZE)"
        using run_inv_disjoint [OF run1 _ p1, of "b + HDR_SIZE" sz] ne by simp
      have b16: "unat (b + 16) = unat b + 16" using run_inv_live(2) [OF run1, of "b + 16"] by simp
      have "b + 16 \<le> p \<or> unat p + unat ?old \<le> unat (b + 16)"
        using ap b16 L1(2,3,4) 2(6) by (auto simp: apart_def word_le_nat_alt same)
      moreover have "unat p + unat ?old \<le> 2 ^ 64"
        using L1(1,2,3,4,5) by (simp add: block_ok_def same)
      ultimately have cp: "memcpy (payload h1) (b + 16) p (unat ?old) = (b + 16, blit (payload h) (b + 16) p (unat ?old))"
        using memcpy_blit [of p "unat ?old" "b + 16" "payload h"] by (simp add: 2(8))
      let ?h2 = "h1\<lparr>payload := blit (payload h) (b + 16) p (unat ?old)\<rparr>"
      have "run_inv ?h2 (live(b + HDR_SIZE \<mapsto> sz))" using run1 by simp
      then obtain h' where f: "kfree p ?h2 = Some h'" "run_inv h' ((live(b + HDR_SIZE \<mapsto> sz))(p := None))"
        "payload h' = payload ?h2" using kfree_run [OF _ pd] by blast
      have "payload h' (b + 16 + of_nat i) = payload h (p + of_nat i)" if "i < unat r" for i
      proof -
        have "unat (of_nat i :: u64) = i" using that unat_less_64 [of r] by (intro unat_of_nat_less) simp
        moreover have "i < unat ?old" using that L(3,4) by linarith
        ultimately show ?thesis by (simp add: f(3) blit_def)
      qed
      moreover have "(live(b + HDR_SIZE \<mapsto> sz))(p := None) = live(p := None, b + HDR_SIZE \<mapsto> sz)"
        using ne by (simp add: fun_upd_twist)
      ultimately show ?thesis
        using False p0 sz f(1,2) 2(1,3) cp by (intro moved [of "b + 16" h']) (simp_all add: krealloc_def)
    qed
  qed
qed

lemma heap_run_inv: "heap_run h live \<Longrightarrow> run_inv h live"
proof (induction rule: heap_run.induct)
  case (boot p h0 p' h)
  then show ?case using heap_init_inv [OF boot] by (auto simp: run_inv_def)
next
  case (malloc h live sz p h')
  then show ?case by (intro kmalloc_run)
next
  case (calloc h live n sz p h')
  then obtain h1 where "kmalloc (n * sz) h = Some (p, h1)" "\<exists>m. h' = h1\<lparr>payload := m\<rparr>"
    by (auto simp: kcalloc_def Let_def split: if_splits) (metis heap.surjective heap.update_convs(3))+
  then show ?case using kmalloc_run [OF calloc.IH calloc.hyps(2)] by auto
next
  case (free h live p h')
  then show ?case by (metis kfree_run option.inject)
next
  case (realloc h live p sz q h')
  from realloc.hyps(2) obtain r where p: "live p = Some r" by blast
  have p0: "p \<noteq> 0" using realloc.IH p by (auto simp: run_inv_def)
  show ?case
  proof (cases rule: krealloc_run [OF realloc.IH p realloc.hyps(3,4)])
    case 1
    then have "q = p" "h' = h" using realloc.hyps(5) by simp_all
    then show ?thesis using 1(2) by (simp only: if_not_P [OF p0])
  next
    case 2
    then show ?thesis using realloc.hyps(5) realloc.IH by simp
  next
    case (3 q2 h2)
    then have "q = q2" "h' = h2" using realloc.hyps(5) by simp_all
    then show ?thesis using 3(3) by (simp only: if_not_P [OF 3(2)])
  qed
next
  case (store h live m)
  then show ?case by simp
qed

text \<open>The arena never changes.\<close>

lemma coalesce_arena [simp]:
  "arena_sz (coalesce_next b h) = arena_sz h" "arena_sz (coalesce_prev pp b h) = arena_sz h"
  by (simp_all add: coalesce_next_def coalesce_prev_def Let_def)

lemma kmalloc_arena: "kmalloc sz h = Some (p, h') \<Longrightarrow> arena_sz h' = arena_sz h"
  by (auto simp: kmalloc_def Let_def split: if_splits)

lemma kfree_arena: "kfree p h = Some h' \<Longrightarrow> arena_sz h' = arena_sz h"
  by (auto simp: kfree_def insert_free_def Let_def split: if_splits)

lemma krealloc_arena: "krealloc p sz h = Some (q, h') \<Longrightarrow> arena_sz h' = arena_sz h"
  by (auto simp: krealloc_def Let_def split: if_splits option.splits dest!: kmalloc_arena kfree_arena)

lemma heap_run_arena: "heap_run h live \<Longrightarrow> arena_sz h = 0x4000000"
proof (induction rule: heap_run.induct)
  case (boot p h0 p' h)
  then show ?case by (auto simp: heap_init_def Let_def split: prod.splits if_splits)
next
  case (calloc h live n sz p h')
  then show ?case by (auto simp: kcalloc_def Let_def split: if_splits dest: kmalloc_arena)
qed (auto dest: kmalloc_arena kfree_arena krealloc_arena)

section \<open>Properties\<close>

text \<open>A small machine for the witnesses: 128 MiB, only frame 0 in use.\<close>

definition example_pmm :: pmm where
  "example_pmm = \<lparr>bitmap = (\<lambda>i. if i = 0 then 1 else 0), total_frames = 32768, used_frames = 1,
                  hhdm = 0xFFFF800000000000, alloc_hint = 0, refcnt = None\<rparr>"

definition example_heap :: heap where
  "example_heap = \<lparr>bsize = (\<lambda>_. 0), bnext = (\<lambda>_. 0), payload = (\<lambda>_. 0), free_head = 0, arena = 0,
                   arena_sz = 0, used_sz = 0\<rparr>"

lemma example_pmm_ok: "direct_map_ok example_pmm"
proof -
  have bit: "bit_get (bitmap example_pmm) f \<longleftrightarrow> f = 0" for f
    by (auto simp: bit_get_iff example_pmm_def bit_1_iff div_eq_0_iff)
  have "{i. i < 32768 \<and> bit_get (bitmap example_pmm) i} = {0}" unfolding bit by auto
  then have "count_below 32768 (bit_get (bitmap example_pmm)) = 1" by (simp add: count_below_def)
  then show ?thesis using bit [of 0] by (simp add: direct_map_ok_def pmm_inv_def) (simp add: example_pmm_def)
qed

lemma example_boot:
  obtains p' h where "heap_init example_pmm example_heap = Some (p', h)"
proof -
  have bit: "bit_get (bitmap example_pmm) f \<longleftrightarrow> f = 0" for f
    by (auto simp: bit_get_iff example_pmm_def bit_1_iff div_eq_0_iff)
  obtain a s where al: "pmm_alloc_contig 16384 example_pmm = (a, s)" by fastforce
  have inv: "pmm_inv example_pmm" using example_pmm_ok by (simp add: direct_map_ok_def)
  have "free_run (bitmap example_pmm) (total_frames example_pmm) 16384 1"
    unfolding free_run_def bit by (simp add: example_pmm_def)
  then have "a \<noteq> 0" using pmm_alloc_contig_spec(3) [OF inv _ al] by auto
  then show ?thesis using al that by (auto simp: heap_init_def Let_def)
qed

lemma example_alloc:
  obtains h p where "heap_run h [p \<mapsto> 100]"
proof -
  obtain p' h where b: "heap_init example_pmm example_heap = Some (p', h)" by (rule example_boot)
  have run: "heap_run h Map.empty" by (rule heap_run.boot [OF b example_pmm_ok])
  have inv: "heap_inv h [arena h] {}" by (rule heap_init_inv [OF b example_pmm_ok])
  have "bsize h (arena h) = 0x4000000" using b by (auto simp: heap_init_def Let_def split: prod.splits if_splits)
  then have fits: "ALIGN16 100 + HDR_SIZE \<le> bsize h (arena h)" by (simp add: ALIGN16_def)
  show ?thesis
  proof (cases rule: kmalloc_spec [OF inv, of 100])
    case 3
    then show ?thesis using fits by simp
  next
    case (4 b h')
    have "heap_run h' (if b + HDR_SIZE = 0 then Map.empty else [b + HDR_SIZE \<mapsto> 100])"
      by (rule heap_run.malloc [OF run _ 4(1)]) simp
    then show ?thesis using that 4(3) by simp
  qed simp_all
qed

text \<open>C2: in every run of the heap the live allocations are pairwise disjoint byte ranges inside the
  arena, 16-byte aligned, each at least as long as the size that was asked for, and the usage
  counter stays within the arena.\<close>

theorem heap_live_disjoint:
  assumes "heap_run h live" "live p = Some r"
  shows "16 dvd unat p \<and> unat (arena h) < unat p \<and> unat p + unat r \<le> unat (arena h) + unat (arena_sz h) \<and>
         heap_used h \<le> heap_size h \<and>
         (\<forall>q s. live q = Some s \<longrightarrow> q \<noteq> p \<longrightarrow> unat p + unat r \<le> unat q \<or> unat q + unat s \<le> unat p)"
proof -
  note run = heap_run_inv [OF assms(1)]
  note L = run_inv_live [OF run assms(2)]
  obtain fl where inv: "heap_inv h fl ((\<lambda>p. p - HDR_SIZE) ` dom live)" using run by (auto simp: run_inv_def)
  note D = heap_invD [OF inv]
  have "sum (bsz h) ((\<lambda>p. p - HDR_SIZE) ` dom live) \<le> unat (arena_sz h)" using tilesD(6) [OF D(6)] by simp
  then have used: "heap_used h \<le> heap_size h"
    unfolding heap_used_def heap_size_def D(8) using unat_less_64 [of "arena_sz h"]
    by (simp add: word_le_nat_alt unat_of_nat_less del: of_nat_sum)
  have "unat p + unat r \<le> unat q \<or> unat q + unat s \<le> unat p" if "live q = Some s" "q \<noteq> p" for q s
    using run_inv_disjoint [OF run assms(2) that(1)] that(2) L run_inv_live [OF run that(1)]
    by (auto simp: apart_def)
  moreover have "16 dvd unat p" using L(1,2) by (simp add: block_ok_def)
  ultimately show ?thesis using L used by (auto simp: block_ok_def)
qed

theorem heap_live_disjoint_witness:
  "\<exists>h p. heap_run h [p \<mapsto> 100] \<and> unat p + 100 \<le> unat (arena h) + unat (arena_sz h)"
proof -
  obtain h p where run: "heap_run h [p \<mapsto> 100]" by (rule example_alloc)
  from heap_live_disjoint [OF run, of p 100] run show ?thesis by auto
qed

text \<open>C33: the allocator always answers: in every run \<open>kmalloc\<close> returns, with the first block of the
  free list that is large enough, or NULL exactly when there is none; and freeing or resizing a live
  pointer returns.\<close>

theorem kmalloc_first_fit:
  assumes "heap_run h live" "sz \<noteq> 0" "unat sz + 32 \<le> 2 ^ 64"
  shows "\<exists>fl p h'. seg h (free_head h) fl 0 \<and> kmalloc sz h = Some (p, h') \<and>
           (case find (\<lambda>b. ALIGN16 sz + HDR_SIZE \<le> bsize h b) fl of
              None \<Rightarrow> p = 0 \<and> h' = h | Some b \<Rightarrow> p = b + HDR_SIZE \<and> p \<noteq> 0) \<and>
           (\<forall>q \<in> dom live. kfree q h \<noteq> None \<and> krealloc q sz h \<noteq> None)"
proof -
  note run = heap_run_inv [OF assms(1)]
  obtain fl where inv: "heap_inv h fl ((\<lambda>p. p - HDR_SIZE) ` dom live)" using run by (auto simp: run_inv_def)
  have "kfree q h \<noteq> None" "krealloc q sz h \<noteq> None" if q: "q \<in> dom live" for q
  proof -
    from q obtain r where r: "live q = Some r" by blast
    show "kfree q h \<noteq> None" using kfree_run [OF run q] by auto
    show "krealloc q sz h \<noteq> None" by (cases rule: krealloc_run [OF run r assms(2,3)]) auto
  qed
  then show ?thesis
    by (cases rule: kmalloc_spec [OF inv assms(2,3)])
       (use heap_invD(3) [OF inv] in \<open>(intro exI [of _ fl], force)+\<close>)
qed

theorem kmalloc_first_fit_witness:
  "\<exists>h live p h'. heap_run h live \<and> kmalloc 4096 h = Some (p, h')"
proof -
  obtain h p where run: "heap_run h [p \<mapsto> 100]" by (rule example_alloc)
  from kmalloc_first_fit [OF run, of 4096] run show ?thesis by auto
qed

text \<open>C20: nothing is lost to fragmentation: when every allocation of a run has been freed, the free
  list is again the single block that fills the whole arena and the usage counter is 0.\<close>

theorem heap_drained:
  assumes "heap_run h live" "dom live = {}"
  shows "free_head h = arena h \<and> bsize h (arena h) = arena_sz h \<and> bnext h (arena h) = 0 \<and> heap_used h = 0"
proof -
  obtain fl where "heap_inv h fl ((\<lambda>p. p - HDR_SIZE) ` dom live)"
    using heap_run_inv [OF assms(1)] by (auto simp: run_inv_def)
  then have inv: "heap_inv h fl {}" using assms(2) by simp
  note D = heap_invD [OF inv]
  have pos: "0 < unat (arena_sz h)" using heap_run_arena [OF assms(1)] by simp
  obtain x where x: "set fl = {x}" "unat x = unat (arena h)" "bsz h x = unat (arena_sz h)"
    using tiles_empty [OF D(6,7) pos] by blast
  have "x = arena h" "bsize h x = arena_sz h" using x(2,3) by (simp_all add: word_unat_eq_iff)
  moreover have "fl = [x]" by (rule distinct_set_singleton [OF D(5) x(1)])
  ultimately show ?thesis using D(3,8) by (simp add: heap_used_def)
qed

theorem heap_drained_witness:
  "\<exists>h. heap_run h Map.empty \<and> free_head h = arena h \<and> heap_used h = 0"
proof -
  obtain p' h where "heap_init example_pmm example_heap = Some (p', h)" by (rule example_boot)
  then have run: "heap_run h Map.empty" by (rule heap_run.boot [OF _ example_pmm_ok])
  from heap_drained [OF this] run show ?thesis by auto
qed

end
