(* ===== verification/Spinlock.thy ===== *)
theory Spinlock
  imports Prelude
begin

text \<open>
  The ticket spinlock (\<^verbatim>\<open>src/kernel/hal/apic/spinlock.h\<close>) that every other component takes. The two
  counters are 32-bit words and wrap. Each CPU runs its own copy of the code; a step is one access
  to the shared lock (an atomic \<open>xadd\<close>, \<open>inc\<close> or \<open>cmpxchg\<close>, or one load), and the steps of the CPUs
  interleave freely. The lemmas show that the counters implement a first-in first-out queue of CPUs.
\<close>

section \<open>State and code\<close>

record spinlock =
  next_ticket :: u32
  serving_ticket :: u32

definition SPINLOCK_INIT :: spinlock where
  "SPINLOCK_INIT = \<lparr>next_ticket = 0, serving_ticket = 0\<rparr>"

text \<open>Where a CPU is in the lock code: outside, spinning with a ticket (and the spin count), holding
  the lock, stopped in the deadlock report, and the points of \<open>spinlock_try\<close> between its accesses:
  about to read \<open>next_ticket\<close>, about to read \<open>serving_ticket\<close>, about to compare and swap.\<close>

datatype lock_pc =
    Outside
  | Spinning u32 nat
  | Holding
  | Deadlock u32
  | TryNext nat
  | TryServing nat u32
  | TryCas nat u32

abbreviation (input) SPIN_LIMIT :: nat where "SPIN_LIMIT \<equiv> 10000000"

text \<open>\<open>spinlock_acquire\<close>: draw a ticket, then spin until it is served.\<close>

definition acquire_draw :: "spinlock \<Rightarrow> lock_pc \<times> spinlock" where
  "acquire_draw l = (Spinning (next_ticket l) 0, l\<lparr>next_ticket := next_ticket l + 1\<rparr>)"

definition acquire_spin :: "u32 \<Rightarrow> nat \<Rightarrow> spinlock \<Rightarrow> lock_pc" where
  "acquire_spin ticket spin l =
     (if serving_ticket l \<noteq> ticket then
        if spin + 1 > SPIN_LIMIT then Deadlock ticket else Spinning ticket (spin + 1)
      else Holding)"

definition spinlock_release :: "spinlock \<Rightarrow> spinlock" where
  "spinlock_release l = l\<lparr>serving_ticket := serving_ticket l + 1\<rparr>"

text \<open>\<open>spinlock_try\<close>: at most two rounds of sample, test and compare-and-swap.\<close>

definition try_read_next :: "nat \<Rightarrow> spinlock \<Rightarrow> lock_pc" where
  "try_read_next retry l = TryServing retry (next_ticket l)"

definition try_read_serving :: "nat \<Rightarrow> u32 \<Rightarrow> spinlock \<Rightarrow> lock_pc" where
  "try_read_serving retry nxt l = (if nxt \<noteq> serving_ticket l then Outside else TryCas retry nxt)"

definition try_cas :: "nat \<Rightarrow> u32 \<Rightarrow> spinlock \<Rightarrow> lock_pc \<times> spinlock" where
  "try_cas retry nxt l =
     (if next_ticket l = nxt then (Holding, l\<lparr>next_ticket := nxt + 1\<rparr>)
      else if retry + 1 < 2 then (TryNext (retry + 1), l)
      else (Outside, l))"

text \<open>The irqsave variants: the interrupt flag (bit 9 of rflags) is saved and cleared before the lock
  is taken, and set again after the release if it was set. \<open>spinlock_try_irqsave\<close> first peeks at the
  lock and leaves interrupts alone when it is taken.\<close>

definition irq_flag :: "u64 \<Rightarrow> bool" where
  "irq_flag rflags \<longleftrightarrow> rflags AND push_bit 9 1 \<noteq> 0"

definition irqsave :: "u64 \<Rightarrow> u64 \<times> u64" where
  "irqsave rflags = (rflags, rflags AND NOT (push_bit 9 1))"

definition irqrestore :: "u64 \<Rightarrow> u64 \<Rightarrow> u64" where
  "irqrestore saved rflags = (if irq_flag saved then rflags OR push_bit 9 1 else rflags)"

section \<open>All CPUs together\<close>

abbreviation (input) MAX_CPUS :: nat where "MAX_CPUS \<equiv> 64"

text \<open>\<open>age c\<close> counts the tickets drawn since CPU \<open>c\<close> last read \<open>next_ticket\<close> in \<open>spinlock_try\<close>. A
  compare-and-swap cannot tell apart two values \<open>2 ^ 32\<close> draws apart, so the relation assumes that no
  CPU stands still between its sample and its compare-and-swap for that many draws.\<close>

record locks =
  the_lock :: spinlock
  pc :: "nat \<Rightarrow> lock_pc"
  age :: "nat \<Rightarrow> nat"

definition drawn :: "(nat \<Rightarrow> nat) \<Rightarrow> nat \<Rightarrow> nat" where
  "drawn a = (\<lambda>c. a c + 1)"

inductive lock_step :: "locks \<Rightarrow> locks \<Rightarrow> bool" where
  draw: "c < MAX_CPUS \<Longrightarrow> pc s c = Outside \<Longrightarrow> acquire_draw (the_lock s) = (p, l) \<Longrightarrow>
    lock_step s (s\<lparr>the_lock := l, pc := (pc s)(c := p), age := drawn (age s)\<rparr>)"
| spin: "c < MAX_CPUS \<Longrightarrow> pc s c = Spinning t k \<Longrightarrow>
    lock_step s (s\<lparr>pc := (pc s)(c := acquire_spin t k (the_lock s))\<rparr>)"
| release: "c < MAX_CPUS \<Longrightarrow> pc s c = Holding \<Longrightarrow>
    lock_step s (s\<lparr>the_lock := spinlock_release (the_lock s), pc := (pc s)(c := Outside)\<rparr>)"
| try_start: "c < MAX_CPUS \<Longrightarrow> pc s c = Outside \<Longrightarrow> lock_step s (s\<lparr>pc := (pc s)(c := TryNext 0)\<rparr>)"
| try_next: "c < MAX_CPUS \<Longrightarrow> pc s c = TryNext r \<Longrightarrow>
    lock_step s (s\<lparr>pc := (pc s)(c := try_read_next r (the_lock s)), age := (age s)(c := 0)\<rparr>)"
| try_serving: "c < MAX_CPUS \<Longrightarrow> pc s c = TryServing r n \<Longrightarrow>
    lock_step s (s\<lparr>pc := (pc s)(c := try_read_serving r n (the_lock s))\<rparr>)"
| try_won: "c < MAX_CPUS \<Longrightarrow> pc s c = TryCas r n \<Longrightarrow> age s c < 2 ^ 32 \<Longrightarrow>
    try_cas r n (the_lock s) = (Holding, l) \<Longrightarrow>
    lock_step s (s\<lparr>the_lock := l, pc := (pc s)(c := Holding), age := drawn (age s)\<rparr>)"
| try_lost: "c < MAX_CPUS \<Longrightarrow> pc s c = TryCas r n \<Longrightarrow> try_cas r n (the_lock s) = (p, l) \<Longrightarrow>
    p \<noteq> Holding \<Longrightarrow> lock_step s (s\<lparr>the_lock := l, pc := (pc s)(c := p)\<rparr>)"

inductive_cases lock_stepE: "lock_step s t"

definition lock_start :: locks where
  "lock_start = \<lparr>the_lock = SPINLOCK_INIT, pc = (\<lambda>_. Outside), age = (\<lambda>_. 0)\<rparr>"

inductive lock_reach :: "locks \<Rightarrow> bool" where
  start: "lock_reach lock_start"
| step: "lock_reach s \<Longrightarrow> lock_step s t \<Longrightarrow> lock_reach t"

section \<open>The queue behind the tickets\<close>

text \<open>\<open>owns p t\<close>: a CPU at \<open>p\<close> has drawn ticket \<open>t\<close> and has not been let in yet.\<close>

definition owns :: "lock_pc \<Rightarrow> u32 \<Rightarrow> bool" where
  "owns p t \<longleftrightarrow> (\<exists>k. p = Spinning t k) \<or> p = Deadlock t"

definition ticketed :: "lock_pc \<Rightarrow> bool" where
  "ticketed p \<longleftrightarrow> p = Holding \<or> (\<exists>t. owns p t)"

definition lock_queue :: "locks \<Rightarrow> nat list \<Rightarrow> bool" where
  "lock_queue s q \<longleftrightarrow>
     distinct q \<and> set q = {c. ticketed (pc s c)} \<and> set q \<subseteq> {..<MAX_CPUS} \<and>
     next_ticket (the_lock s) = serving_ticket (the_lock s) + of_nat (length q) \<and>
     (\<forall>i < length q. owns (pc s (q ! i)) (serving_ticket (the_lock s) + of_nat i) \<or>
                     (i = 0 \<and> pc s (q ! i) = Holding))"

text \<open>What a sample in \<open>spinlock_try\<close> still says about the lock.\<close>

definition samples_ok :: "locks \<Rightarrow> nat list \<Rightarrow> bool" where
  "samples_ok s q \<longleftrightarrow>
     (\<forall>c r n. pc s c = TryServing r n \<longrightarrow> next_ticket (the_lock s) = n + of_nat (age s c)) \<and>
     (\<forall>c r n. pc s c = TryCas r n \<longrightarrow> next_ticket (the_lock s) = n + of_nat (age s c) \<and>
        (age s c = 0 \<longrightarrow> q = []))"

lemma lock_queue_length:
  assumes "lock_queue s q"
  shows "length q \<le> MAX_CPUS"
proof -
  have "set q \<subseteq> {..<MAX_CPUS}" and d: "distinct q" using assms by (auto simp: lock_queue_def)
  then have "card (set q) \<le> card {..<MAX_CPUS}" by (intro card_mono) auto
  then show ?thesis using distinct_card [OF d] by simp
qed

lemma ticketed_simps [simp]:
  "\<not> ticketed Outside" "ticketed (Spinning t k)" "ticketed Holding" "ticketed (Deadlock t)"
  "\<not> ticketed (TryNext r)" "\<not> ticketed (TryServing r n)" "\<not> ticketed (TryCas r n)"
  by (auto simp: ticketed_def owns_def)

lemma owns_simps [simp]:
  "owns (Spinning t k) u \<longleftrightarrow> u = t" "owns (Deadlock t) u \<longleftrightarrow> u = t" "\<not> owns Holding u" "\<not> owns Outside u"
  by (auto simp: owns_def)

text \<open>A ticket determines the place in the queue.\<close>

lemma ticket_index:
  assumes "lock_queue s q" "i < length q"
  shows "serving_ticket (the_lock s) + of_nat i = serving_ticket (the_lock s) \<longleftrightarrow> i = 0"
proof -
  have "i < 2 ^ 32" using lock_queue_length [OF assms(1)] assms(2) by simp
  then have "(of_nat i :: u32) = 0 \<longleftrightarrow> i = 0"
    by (intro of_nat_word_eq_0) simp
  then show ?thesis by simp
qed

lemma lock_queue_join:
  assumes q: "lock_queue s q" and c: "c < MAX_CPUS" "\<not> ticketed (pc s c)"
    and p: "p = Spinning (next_ticket (the_lock s)) 0 \<or> (p = Holding \<and> q = [])"
    and t: "next_ticket (the_lock t) = next_ticket (the_lock s) + 1"
      "serving_ticket (the_lock t) = serving_ticket (the_lock s)" "pc t = (pc s)(c := p)"
  shows "lock_queue t (q @ [c])"
proof -
  have nin: "c \<notin> set q" using q c by (auto simp: lock_queue_def)
  have "owns (pc t ((q @ [c]) ! i)) (serving_ticket (the_lock t) + of_nat i) \<or> (i = 0 \<and> pc t ((q @ [c]) ! i) = Holding)"
    if "i < length (q @ [c])" for i
  proof (cases "i < length q")
    case True
    then have "q ! i \<noteq> c" using nin nth_mem by metis
    with True q t show ?thesis by (simp add: nth_append lock_queue_def)
  next
    case False
    then have "i = length q" using that by simp
    with p q t show ?thesis by (auto simp: lock_queue_def nth_append)
  qed
  moreover have "set (q @ [c]) = {c. ticketed (pc t c)}" using q p t(3) by (auto simp: lock_queue_def)
  moreover have "ticketed p" using p by auto
  ultimately show ?thesis using q nin c t unfolding lock_queue_def by auto
qed

lemma lock_queue_leave:
  assumes q: "lock_queue s q" and c: "pc s c = Holding"
    and t: "the_lock t = spinlock_release (the_lock s)" "pc t = (pc s)(c := Outside)"
  obtains q' where "q = c # q'" "lock_queue t q'"
proof -
  have "c \<in> set q" using q c by (auto simp: lock_queue_def)
  then obtain i where i: "i < length q" "q ! i = c" by (auto simp: in_set_conv_nth)
  then have "i = 0" using q c by (fastforce simp: lock_queue_def)
  then obtain q' where q': "q = c # q'" using i by (cases q) auto
  have "owns (pc t (q' ! j)) (serving_ticket (the_lock t) + of_nat j)" if "j < length q'" for j
  proof -
    have "owns (pc s (q ! Suc j)) (serving_ticket (the_lock s) + of_nat (Suc j))"
      using q that q' unfolding lock_queue_def by fastforce
    moreover have "q' ! j \<noteq> c" using q q' that nth_mem by (fastforce simp: lock_queue_def)
    ultimately show ?thesis using q' t by (simp add: spinlock_release_def add.assoc)
  qed
  moreover have "set q' = {c. ticketed (pc t c)}" using q q' t(2) by (auto simp: lock_queue_def)
  ultimately have "lock_queue t q'" using q q' t(1) unfolding lock_queue_def spinlock_release_def by auto
  with q' show ?thesis by (rule that)
qed

lemma lock_queue_stay:
  assumes q: "lock_queue s q" and l: "the_lock t = the_lock s" and p: "pc t = (pc s)(c := p)"
    and same: "(\<exists>u. owns (pc s c) u \<and> (owns p u \<or> (u = serving_ticket (the_lock s) \<and> p = Holding)))
       \<or> (\<not> ticketed (pc s c) \<and> \<not> ticketed p)"
  shows "lock_queue t q"
proof -
  have tk: "ticketed (pc t d) = ticketed (pc s d)" for d
    using same p by (auto simp: ticketed_def)
  have "owns (pc t (q ! i)) (serving_ticket (the_lock t) + of_nat i) \<or> (i = 0 \<and> pc t (q ! i) = Holding)"
    if i: "i < length q" for i
  proof (cases "q ! i = c")
    case True
    then have "ticketed (pc s c)" using q i nth_mem by (fastforce simp: lock_queue_def)
    then obtain u where u: "owns (pc s c) u" "owns p u \<or> (u = serving_ticket (the_lock s) \<and> p = Holding)"
      using same by blast
    have "owns (pc s c) (serving_ticket (the_lock s) + of_nat i)"
      using q i True u(1) by (auto simp: lock_queue_def owns_def)
    then have "u = serving_ticket (the_lock s) + of_nat i" using u(1) by (auto simp: owns_def)
    with u(2) True p l ticket_index [OF q i] show ?thesis by auto
  next
    case False
    with q i p l show ?thesis by (simp add: lock_queue_def)
  qed
  then show ?thesis using q l tk unfolding lock_queue_def by auto
qed

lemma samples_frame:
  assumes "samples_ok s q" "next_ticket (the_lock t) = next_ticket (the_lock s)" "q = [] \<longrightarrow> q' = []"
    "\<And>d. pc t d \<noteq> pc s d \<Longrightarrow> \<forall>r n. pc t d \<noteq> TryServing r n \<and> pc t d \<noteq> TryCas r n" "age t = age s"
  shows "samples_ok t q'"
  using assms unfolding samples_ok_def by metis

lemma samples_draw:
  assumes "samples_ok s q" "next_ticket (the_lock t) = next_ticket (the_lock s) + 1"
    "\<And>d. pc t d \<noteq> pc s d \<Longrightarrow> \<forall>r n. pc t d \<noteq> TryServing r n \<and> pc t d \<noteq> TryCas r n"
    "age t = drawn (age s)"
  shows "samples_ok t q'"
proof -
  have "next_ticket (the_lock t) = n + of_nat (age t d)"
    if "pc t d = TryServing r n \<or> pc t d = TryCas r n" for d r n
  proof -
    have "next_ticket (the_lock s) = n + of_nat (age s d)"
      using assms(1,3) that unfolding samples_ok_def by metis
    with assms(2,4) show ?thesis by (simp add: drawn_def)
  qed
  then show ?thesis using assms(4) by (auto simp: samples_ok_def drawn_def)
qed

lemma lock_queue_stepE:
  assumes q: "lock_queue s q" and sm: "samples_ok s q" and st: "lock_step s t"
  obtains (stay) "lock_queue t q" "samples_ok t q"
  | (join) c where "lock_queue t (q @ [c])" "samples_ok t (q @ [c])"
  | (leave) c q' where "q = c # q'" "pc s c = Holding" "lock_queue t q'" "samples_ok t q'"
  using st
proof (cases rule: lock_stepE [consumes 1])
  case (1 c p l)
  then have "lock_queue t (q @ [c])"
    by (intro lock_queue_join [OF q, where c = c and p = p]) (auto simp: acquire_draw_def)
  moreover have "samples_ok t (q @ [c])"
    by (rule samples_draw [OF sm]) (use 1 in \<open>auto simp: acquire_draw_def split: if_splits\<close>)
  ultimately show ?thesis by (rule join)
next
  case (2 c u k)
  have "lock_queue t q"
    by (rule lock_queue_stay [OF q, where c = c and p = "acquire_spin u k (the_lock s)"])
       (use 2 in \<open>auto simp: acquire_spin_def\<close>)
  moreover have "samples_ok t q"
    by (rule samples_frame [OF sm]) (use 2 in \<open>auto simp: acquire_spin_def split: if_splits\<close>)
  ultimately show ?thesis by (rule stay)
next
  case (3 c)
  then obtain q' where q': "q = c # q'" "lock_queue t q'"
    using lock_queue_leave [OF q, of c t] by auto
  moreover have "samples_ok t q'"
    by (rule samples_frame [OF sm]) (use 3 q' in \<open>auto simp: spinlock_release_def split: if_splits\<close>)
  ultimately show ?thesis using leave 3 by blast
next
  case (4 c)
  have "lock_queue t q" by (rule lock_queue_stay [OF q, where c = c and p = "TryNext 0"]) (use 4 in auto)
  moreover have "samples_ok t q"
    by (rule samples_frame [OF sm]) (use 4 in \<open>auto split: if_splits\<close>)
  ultimately show ?thesis by (rule stay)
next
  case (5 c r)
  have "lock_queue t q"
    by (rule lock_queue_stay [OF q, where c = c and p = "try_read_next r (the_lock s)"])
       (use 5 in \<open>auto simp: try_read_next_def\<close>)
  moreover have "samples_ok t q" using sm 5 unfolding samples_ok_def by (auto simp: try_read_next_def)
  ultimately show ?thesis by (rule stay)
next
  case (6 c r n)
  have "lock_queue t q"
    by (rule lock_queue_stay [OF q, where c = c and p = "try_read_serving r n (the_lock s)"])
       (use 6 in \<open>auto simp: try_read_serving_def\<close>)
  moreover have "q = []" if "n = serving_ticket (the_lock s)" "age s c = 0"
  proof -
    have "(of_nat (length q) :: u32) = 0" using sm 6 that q by (auto simp: samples_ok_def lock_queue_def)
    then show ?thesis using of_nat_word_eq_0 [of "length q", where 'a = 32] lock_queue_length [OF q] by simp
  qed
  then have "samples_ok t q" using sm 6 unfolding samples_ok_def by (auto simp: try_read_serving_def; metis)
  ultimately show ?thesis by (rule stay)
next
  case (7 c r n l)
  have eq: "next_ticket (the_lock s) = n" "l = (the_lock s)\<lparr>next_ticket := n + 1\<rparr>"
    using 7 by (auto simp: try_cas_def split: if_splits)
  moreover have "next_ticket (the_lock s) = n + of_nat (age s c)"
    using sm 7 unfolding samples_ok_def by blast
  ultimately have "(of_nat (age s c) :: u32) = 0" by simp
  then have "age s c = 0" using of_nat_word_eq_0 [of "age s c", where 'a = 32] 7 by simp
  then have "q = []" using sm 7 unfolding samples_ok_def by blast
  have "lock_queue t (q @ [c])"
    by (rule lock_queue_join [OF q, where c = c and p = Holding]) (use 7 eq \<open>q = []\<close> in auto)
  moreover have "samples_ok t (q @ [c])"
    by (rule samples_draw [OF sm]) (use 7 eq in \<open>auto split: if_splits\<close>)
  ultimately show ?thesis by (rule join)
next
  case (8 c r n p l)
  have l: "l = the_lock s" "p = TryNext (r + 1) \<or> p = Outside"
    using 8 by (auto simp: try_cas_def split: if_splits)
  have "lock_queue t q" by (rule lock_queue_stay [OF q, where c = c and p = p]) (use 8 l in auto)
  moreover have "samples_ok t q" by (rule samples_frame [OF sm]) (use 8 l in \<open>auto split: if_splits\<close>)
  ultimately show ?thesis by (rule stay)
qed

lemma lock_reach_queue:
  assumes "lock_reach s"
  shows "\<exists>q. lock_queue s q \<and> samples_ok s q"
  using assms
proof (induction rule: lock_reach.induct)
  case start
  have "lock_queue lock_start []" "samples_ok lock_start []"
    by (simp_all add: lock_queue_def samples_ok_def lock_start_def SPINLOCK_INIT_def)
  then show ?case by blast
next
  case (step s t)
  then show ?case using lock_queue_stepE by metis
qed

section \<open>Properties\<close>

text \<open>C8: mutual exclusion. However the CPUs interleave, at most one of them holds the lock.\<close>

theorem spinlock_mutual_exclusion:
  assumes "lock_reach s" "pc s c = Holding" "pc s d = Holding"
  shows "c = d"
proof -
  obtain q where q: "lock_queue s q" using lock_reach_queue [OF assms(1)] by blast
  have "hd q = x" if "pc s x = Holding" for x
  proof -
    have "x \<in> set q" using q that by (auto simp: lock_queue_def)
    then obtain i where i: "i < length q" "q ! i = x" by (auto simp: in_set_conv_nth)
    then have "i = 0" using q that by (fastforce simp: lock_queue_def)
    with i show ?thesis by (cases q) auto
  qed
  with assms show ?thesis by metis
qed

theorem spinlock_mutual_exclusion_witness:
  "\<exists>s. lock_reach s \<and> pc s 5 = Holding \<and> (\<forall>d. pc s d = Holding \<longrightarrow> 5 = d)"
proof -
  let ?s1 = "lock_start\<lparr>the_lock := \<lparr>next_ticket = 1, serving_ticket = 0\<rparr>,
      pc := (\<lambda>_. Outside)(5 := Spinning 0 0), age := drawn (\<lambda>_. 0)\<rparr>"
  let ?s2 = "?s1\<lparr>pc := (pc ?s1)(5 := Holding)\<rparr>"
  have "lock_step lock_start ?s1"
    using lock_step.draw [of 5 lock_start "Spinning 0 0" "\<lparr>next_ticket = 1, serving_ticket = 0\<rparr>"]
    by (simp add: lock_start_def SPINLOCK_INIT_def acquire_draw_def)
  moreover have "lock_step ?s1 ?s2" using lock_step.spin [of 5 ?s1 0 0] by (simp add: acquire_spin_def)
  ultimately have "lock_reach ?s2" using lock_reach.intros by blast
  moreover have "pc ?s2 5 = Holding" by simp
  ultimately show ?thesis using spinlock_mutual_exclusion by metis
qed

text \<open>C19: the lock is a first-in first-out queue. In every reachable state the CPUs with tickets stand
  in a queue that a step only extends at the end (a new ticket) or shortens at the front (a release
  by the holder), and the CPU at the front holds the lock, or enters at its next look at
  \<open>serving_ticket\<close>, or has given up in the deadlock report.\<close>

theorem spinlock_fifo:
  assumes "lock_reach s"
  shows "\<exists>q. lock_queue s q \<and>
     (\<forall>t. lock_step s t \<longrightarrow> (\<exists>q'. lock_queue t q' \<and>
        (q' = q \<or> (\<exists>c. q' = q @ [c]) \<or> (\<exists>c. q = c # q' \<and> pc s c = Holding)))) \<and>
     (q \<noteq> [] \<longrightarrow> pc s (hd q) = Holding \<or> (\<exists>u. pc s (hd q) = Deadlock u) \<or>
        (\<exists>u k. pc s (hd q) = Spinning u k \<and> acquire_spin u k (the_lock s) = Holding))"
proof -
  obtain q where q: "lock_queue s q" "samples_ok s q" using lock_reach_queue [OF assms] by blast
  have "\<exists>q'. lock_queue t q' \<and> (q' = q \<or> (\<exists>c. q' = q @ [c]) \<or> (\<exists>c. q = c # q' \<and> pc s c = Holding))"
    if "lock_step s t" for t
    using lock_queue_stepE [OF q that] by metis
  moreover have "pc s (hd q) = Holding \<or> (\<exists>u. pc s (hd q) = Deadlock u) \<or>
        (\<exists>u k. pc s (hd q) = Spinning u k \<and> acquire_spin u k (the_lock s) = Holding)" if "q \<noteq> []"
  proof -
    have "owns (pc s (hd q)) (serving_ticket (the_lock s)) \<or> pc s (hd q) = Holding"
    proof -
      have "0 < length q" using that by simp
      then have "owns (pc s (q ! 0)) (serving_ticket (the_lock s) + of_nat 0) \<or> pc s (q ! 0) = Holding"
        using q(1) unfolding lock_queue_def by blast
      then show ?thesis using that by (simp add: hd_conv_nth)
    qed
    then show ?thesis by (auto simp: owns_def acquire_spin_def)
  qed
  ultimately show ?thesis using q(1) by blast
qed

theorem spinlock_fifo_witness: "lock_reach lock_start \<and> (\<exists>q. lock_queue lock_start q)"
  using spinlock_fifo [OF lock_reach.start] lock_reach.start by meson

end
