(* ===== verification/Ring.thy ===== *)
theory Ring
  imports Prelude
begin

text \<open>
  Circular buffers, as the kernel has several: the message queue of a port, the bytes of a pipe, the
  input queue and the kernel log. \<open>window\<close> is what such a buffer holds, oldest first; the lemmas say
  what storing and fetching at the indices do to it. The locale \<open>bounded_fifo\<close> is the interface its
  users rely on; the ports and the pipes interpret it.
\<close>

section \<open>The contents of a circular buffer\<close>

definition window :: "nat \<Rightarrow> 'a carray \<Rightarrow> nat \<Rightarrow> nat \<Rightarrow> 'a list" where
  "window N buf start n = map (\<lambda>i. buf ((start + i) mod N)) [0..<n]"

lemma length_window [simp]: "length (window N buf start n) = n"
  by (simp add: window_def)

lemma window_0 [simp]: "window N buf start 0 = []"
  by (simp add: window_def)

lemma window_Nil_iff [simp]: "window N buf start n = [] \<longleftrightarrow> n = 0"
  by (simp add: window_def)

lemma take_window: "take k (window N buf start n) = window N buf start (min k n)"
  by (auto simp: window_def take_map min_def)

lemma window_split: "k \<le> n \<Longrightarrow> window N buf start n = window N buf start k @ window N buf ((start + k) mod N) (n - k)"
  by (auto simp: window_def mod_simps add.assoc nth_append intro!: nth_equalityI)

lemma nth_window [simp]: "i < n \<Longrightarrow> window N buf start n ! i = buf ((start + i) mod N)"
  by (simp add: window_def)

lemma mod_add_inj:
  assumes "(start + i) mod N = (start + j) mod N" "i < N" "j < (N::nat)"
  shows "i = j"
proof -
  have "i = j" if le: "i \<le> j" and e: "(start + j) mod N = (start + i) mod N" and j: "j < N" for i j
  proof -
    have "N dvd j - i" using e le mod_eq_dvd_iff_nat [of "start + i" "start + j" N] by simp
    with j le show ?thesis by (cases "j - i = 0") (auto dest: dvd_imp_le)
  qed
  then show ?thesis using assms by (cases "i \<le> j") (metis nat_le_linear)+
qed

lemma window_put:
  assumes "n < N"
  shows "window N (buf((start + n) mod N := x)) start (Suc n) = window N buf start n @ [x]"
proof (rule nth_equalityI)
  fix i assume "i < length (window N (buf((start + n) mod N := x)) start (Suc n))"
  then consider "i < n" | "i = n" by fastforce
  then show "window N (buf((start + n) mod N := x)) start (Suc n) ! i = (window N buf start n @ [x]) ! i"
    using assms mod_add_inj [of start i N n] by cases (auto simp: nth_append)
qed simp

lemma window_get:
  assumes "0 < n" "start < N"
  shows "window N buf start n = buf start # window N buf ((start + 1) mod N) (n - 1)"
proof (rule nth_equalityI)
  fix i assume "i < length (window N buf start n)"
  then show "window N buf start n ! i = (buf start # window N buf ((start + 1) mod N) (n - 1)) ! i"
    using assms by (cases i) (auto simp: mod_simps)
qed (use assms in simp)

lemma mod_get: "0 < n \<Longrightarrow> ((start + 1) mod N + (n - 1)) mod N = (start + n) mod (N::nat)"
  by (cases n) (simp_all add: mod_simps)

lemma window_overwrite:
  assumes "start < N"
  shows "window N (buf(start := x)) ((start + 1) mod N) N = tl (window N buf start N) @ [x]"
proof -
  obtain m where m: "N = Suc m" using assms by (cases N) auto
  have e: "start = ((start + 1) mod N + m) mod N" using assms m by (simp add: mod_simps mod_if)
  have "window N (buf(start := x)) ((start + 1) mod N) N = window N buf ((start + 1) mod N) m @ [x]"
    using window_put [of m N buf "(start + 1) mod N" x] e m by simp
  with window_get [of N start N buf] assms m show ?thesis by simp
qed

section \<open>Bounded queues\<close>

text \<open>A run of puts (\<open>Some x\<close>) and gets (\<open>None\<close>); refused operations do nothing. The results are the
  elements accepted and the elements delivered, both in order.\<close>

primrec run_fifo :: "('a \<Rightarrow> 'q \<Rightarrow> 'q option) \<Rightarrow> ('q \<Rightarrow> ('a \<times> 'q) option) \<Rightarrow> 'a option list \<Rightarrow> 'q \<Rightarrow> 'a list \<times> 'a list \<times> 'q" where
  "run_fifo put get [] q = ([], [], q)"
| "run_fifo put get (e # es) q =
     (case e of
        Some x \<Rightarrow> (case put x q of
            Some q' \<Rightarrow> (case run_fifo put get es q' of (ins, outs, r) \<Rightarrow> (x # ins, outs, r))
          | None \<Rightarrow> run_fifo put get es q)
      | None \<Rightarrow> (case get q of
            Some (x, q') \<Rightarrow> (case run_fifo put get es q' of (ins, outs, r) \<Rightarrow> (ins, x # outs, r))
          | None \<Rightarrow> run_fifo put get es q))"

text \<open>\<open>put\<close> refuses an element when the queue is full, \<open>get\<close> refuses when it is empty.\<close>

locale bounded_fifo =
  fixes cap :: nat
    and invar :: "'q \<Rightarrow> bool"
    and contents :: "'q \<Rightarrow> 'a list"
    and put :: "'a \<Rightarrow> 'q \<Rightarrow> 'q option"
    and get :: "'q \<Rightarrow> ('a \<times> 'q) option"
  assumes bound: "invar q \<Longrightarrow> length (contents q) \<le> cap"
    and put_full: "invar q \<Longrightarrow> put x q = None \<longleftrightarrow> length (contents q) = cap"
    and put_contents: "invar q \<Longrightarrow> put x q = Some q' \<Longrightarrow> contents q' = contents q @ [x]"
    and put_invar: "invar q \<Longrightarrow> put x q = Some q' \<Longrightarrow> invar q'"
    and get_empty: "invar q \<Longrightarrow> get q = None \<longleftrightarrow> contents q = []"
    and get_contents: "invar q \<Longrightarrow> get q = Some (x, q') \<Longrightarrow> contents q = x # contents q'"
    and get_invar: "invar q \<Longrightarrow> get q = Some (x, q') \<Longrightarrow> invar q'"
begin

lemma run_fifo_order:
  "invar q \<Longrightarrow> run_fifo put get es q = (ins, outs, r) \<Longrightarrow> invar r \<and> contents q @ ins = outs @ contents r"
proof (induction es arbitrary: q ins outs)
  case (Cons e es)
  show ?case
  proof (cases e)
    case None
    show ?thesis
    proof (cases "get q")
      case (Some p)
      obtain x q' where p: "p = (x, q')" by fastforce
      with Cons.prems None Some obtain outs' where o: "run_fifo put get es q' = (ins, outs', r)" "outs = x # outs'"
        by (auto split: prod.splits)
      with Cons.IH [of q' ins outs'] get_invar [of q x q'] get_contents [of q x q'] Cons.prems(1) Some p
      show ?thesis by simp
    qed (use Cons None in simp)
  next
    case (Some x)
    show ?thesis
    proof (cases "put x q")
      case p: (Some q')
      with Cons.prems Some obtain ins' where o: "run_fifo put get es q' = (ins', outs, r)" "ins = x # ins'"
        by (auto split: prod.splits)
      with Cons.IH [of q' ins' outs] put_invar [of q x q'] put_contents [of q x q'] Cons.prems(1) p
      show ?thesis by simp
    qed (use Cons Some in simp)
  qed
qed simp

end

end
