(* ===== verification/Ipc.thy ===== *)
theory Ipc
  imports Ring
begin

text \<open>
  Ports and the nameserver (\<^verbatim>\<open>src/kernel/ipc/ipc.c\<close>, \<^verbatim>\<open>ipc.h\<close>, \<^verbatim>\<open>src/kernel/include/ipc.h\<close>).

  A port is a circular queue of 64 messages in a table of 64 slots. Each section under \<open>ipc_lock\<close> is
  one atomic operation. \<open>wakes\<close> holds the wait channels that a section decided to wake: the call of
  \<open>sched_wake_chan\<close> comes after the lock is released. The indices and the count of a queue are natural
  numbers: the invariant keeps them below 64 and at most 64, so that their 32-bit fields never wrap.
\<close>

section \<open>State\<close>

abbreviation (input) IPC_MAX_PORTS :: nat where "IPC_MAX_PORTS \<equiv> 64"
abbreviation (input) IPC_PORT_DEPTH :: nat where "IPC_PORT_DEPTH \<equiv> 64"
abbreviation (input) NS_MAX_IDS :: nat where "NS_MAX_IDS \<equiv> 16"
abbreviation (input) PORT_NULL :: u64 where "PORT_NULL \<equiv> 0"

record ipc_msg =
  msg_type :: u64
  msg_sender_pid :: u64
  msg_caps :: "u64 carray"
  msg_cap_count :: u32
  msg_payload_len :: u32
  msg_payload :: "u8 carray"

record port =
  pt_used :: bool
  pt_owner_pid :: u64
  pt_buf :: "ipc_msg carray"
  pt_head :: nat
  pt_tail :: nat
  pt_count :: nat
  pt_recv_waiters :: u32
  pt_send_waiters :: u32

text \<open>The addresses \<^verbatim>\<open>&p->recvq\<close> and \<^verbatim>\<open>&p->sendq\<close> are only used as identities.\<close>

datatype ipc_chan = Recvq nat | Sendq nat

record ipc =
  ports :: "port carray"
  ns_table :: "u64 carray"
  wakes :: "ipc_chan list"

record port_info =
  pi_handle :: nat
  pi_owner_pid :: u64
  pi_count :: nat
  pi_depth :: nat

section \<open>Operations\<close>

definition zero_msg :: ipc_msg where
  "zero_msg = \<lparr>msg_type = 0, msg_sender_pid = 0, msg_caps = (\<lambda>_. 0), msg_cap_count = 0, msg_payload_len = 0,
               msg_payload = (\<lambda>_. 0)\<rparr>"

definition zero_port :: port where
  "zero_port = \<lparr>pt_used = False, pt_owner_pid = 0, pt_buf = (\<lambda>_. zero_msg), pt_head = 0, pt_tail = 0,
                pt_count = 0, pt_recv_waiters = 0, pt_send_waiters = 0\<rparr>"

definition ipc_init :: "ipc \<Rightarrow> ipc" where
  "ipc_init s = s\<lparr>ports := (\<lambda>i. if i < IPC_MAX_PORTS then zero_port else ports s i)\<rparr>"

definition upd_port :: "nat \<Rightarrow> (port \<Rightarrow> port) \<Rightarrow> ipc \<Rightarrow> ipc" where
  "upd_port i f s = s\<lparr>ports := (ports s)(i := f (ports s i))\<rparr>"

definition port_wake :: "bool \<Rightarrow> ipc_chan \<Rightarrow> ipc \<Rightarrow> ipc" where
  "port_wake wake ch s = (if wake then s\<lparr>wakes := wakes s @ [ch]\<rparr> else s)"

text \<open>The first \<open>maxn\<close> used slots. A Boolean \<open>out\<close> tells whether the result pointer is not null.\<close>

definition ipc_port_list :: "bool \<Rightarrow> int \<Rightarrow> ipc \<Rightarrow> port_info list" where
  "ipc_port_list out maxn s =
     (if \<not> out \<or> maxn \<le> 0 then []
      else map (\<lambda>i. \<lparr>pi_handle = i, pi_owner_pid = pt_owner_pid (ports s i), pi_count = pt_count (ports s i),
                     pi_depth = IPC_PORT_DEPTH\<rparr>)
             (take (nat maxn) (filter (\<lambda>i. pt_used (ports s i)) [1..<IPC_MAX_PORTS])))"

definition port_get :: "u64 \<Rightarrow> ipc \<Rightarrow> nat option" where
  "port_get h s =
     (if h < 1 \<or> h \<ge> of_nat IPC_MAX_PORTS then None
      else if pt_used (ports s (unat h)) then Some (unat h) else None)"

definition port_create :: "u64 \<Rightarrow> ipc \<Rightarrow> u64 \<times> ipc" where
  "port_create owner s =
     (case find (\<lambda>i. \<not> pt_used (ports s i)) [1..<IPC_MAX_PORTS] of
        Some i \<Rightarrow> (of_nat i, upd_port i (\<lambda>p. p\<lparr>pt_used := True, pt_owner_pid := owner, pt_head := 0,
                                              pt_tail := 0, pt_count := 0\<rparr>) s)
      | None \<Rightarrow> (PORT_NULL, s))"

text \<open>The queue of a port.\<close>

definition port_put :: "ipc_msg \<Rightarrow> port \<Rightarrow> port option" where
  "port_put msg p =
     (if pt_count p \<ge> IPC_PORT_DEPTH then None
      else Some (p\<lparr>pt_buf := (pt_buf p)(pt_tail p := msg),
                   pt_tail := (pt_tail p + 1) mod IPC_PORT_DEPTH, pt_count := pt_count p + 1\<rparr>))"

definition port_take :: "port \<Rightarrow> (ipc_msg \<times> port) option" where
  "port_take p =
     (if pt_count p > 0
      then Some (pt_buf p (pt_head p),
                 p\<lparr>pt_head := (pt_head p + 1) mod IPC_PORT_DEPTH, pt_count := pt_count p - 1\<rparr>)
      else None)"

definition port_send :: "u64 \<Rightarrow> ipc_msg option \<Rightarrow> ipc \<Rightarrow> bool \<times> ipc" where
  "port_send h msg s =
     (case (port_get h s, msg) of
        (Some i, Some m) \<Rightarrow>
          (case port_put m (ports s i) of
             None \<Rightarrow> (False, s)
           | Some p \<Rightarrow> (True, port_wake (pt_recv_waiters p > 0) (Recvq i) (upd_port i (\<lambda>_. p) s)))
      | _ \<Rightarrow> (False, s))"

text \<open>One round of the loop of \<open>port_recv\<close>, up to the call of \<open>sched_block_on\<close>, and what it does after.\<close>

datatype recv_result = Recv_fail | Recv_got ipc_msg | Recv_block nat

definition port_recv_try :: "u64 \<Rightarrow> bool \<Rightarrow> bool \<Rightarrow> ipc \<Rightarrow> recv_result \<times> ipc" where
  "port_recv_try h out block s =
     (case port_get h s of
        None \<Rightarrow> (Recv_fail, s)
      | Some i \<Rightarrow>
          if \<not> out then (Recv_fail, s)
          else (case port_take (ports s i) of
             Some (m, p) \<Rightarrow> (Recv_got m, port_wake (pt_send_waiters p > 0) (Sendq i) (upd_port i (\<lambda>_. p) s))
           | None \<Rightarrow>
               if \<not> block then (Recv_fail, s)
               else (Recv_block i, upd_port i (\<lambda>p. p\<lparr>pt_recv_waiters := pt_recv_waiters p + 1\<rparr>) s)))"

definition port_recv_resume :: "u64 \<Rightarrow> ipc \<Rightarrow> ipc" where
  "port_recv_resume h s =
     (case port_get h s of
        None \<Rightarrow> s
      | Some i \<Rightarrow> if pt_recv_waiters (ports s i) \<noteq> 0
                  then upd_port i (\<lambda>p. p\<lparr>pt_recv_waiters := pt_recv_waiters p - 1\<rparr>) s else s)"

text \<open>The whole call. \<open>env k\<close> is what the rest of the system does while the receiver is blocked for the
  \<open>k\<close>-th time. \<open>None\<close>: the call does not return.\<close>

partial_function (option) port_recv ::
  "(nat \<Rightarrow> ipc \<Rightarrow> ipc) \<Rightarrow> nat \<Rightarrow> u64 \<Rightarrow> bool \<Rightarrow> bool \<Rightarrow> ipc \<Rightarrow> (ipc_msg option \<times> ipc) option" where
  "port_recv env k h out block s =
     (case port_recv_try h out block s of
        (Recv_fail, t) \<Rightarrow> Some (None, t)
      | (Recv_got m, t) \<Rightarrow> Some (Some m, t)
      | (Recv_block i, t) \<Rightarrow> port_recv env (Suc k) h out block (port_recv_resume h (env k t)))"

definition port_close :: "u64 \<Rightarrow> ipc \<Rightarrow> ipc" where
  "port_close h s =
     (case port_get h s of
        None \<Rightarrow> s
      | Some i \<Rightarrow>
          let p = ports s i
          in port_wake (pt_send_waiters p \<noteq> 0) (Sendq i)
               (port_wake (pt_recv_waiters p \<noteq> 0) (Recvq i) (upd_port i (\<lambda>_. zero_port) s)))"

definition ns_register :: "u32 \<Rightarrow> u64 \<Rightarrow> ipc \<Rightarrow> ipc" where
  "ns_register sid port s = (if unat sid < NS_MAX_IDS then s\<lparr>ns_table := (ns_table s)(unat sid := port)\<rparr> else s)"

definition ns_lookup :: "u32 \<Rightarrow> ipc \<Rightarrow> u64" where
  "ns_lookup sid s = (if unat sid < NS_MAX_IDS then ns_table s (unat sid) else PORT_NULL)"

section \<open>The queue of a port is a bounded FIFO\<close>

definition port_msgs :: "port \<Rightarrow> ipc_msg list" where
  "port_msgs p = window IPC_PORT_DEPTH (pt_buf p) (pt_head p) (pt_count p)"

definition port_ok :: "port \<Rightarrow> bool" where
  "port_ok p \<longleftrightarrow> pt_head p < IPC_PORT_DEPTH \<and> pt_count p \<le> IPC_PORT_DEPTH \<and>
     pt_tail p = (pt_head p + pt_count p) mod IPC_PORT_DEPTH"

interpretation port_queue: bounded_fifo 64 port_ok port_msgs port_put port_take
proof
  fix q q' :: port and x
  assume q: "port_ok q"
  show "length (port_msgs q) \<le> 64" using q by (simp add: port_msgs_def port_ok_def)
  show "port_put x q = None \<longleftrightarrow> length (port_msgs q) = 64"
    using q by (auto simp: port_put_def port_msgs_def port_ok_def)
  show "port_msgs q' = port_msgs q @ [x]" "port_ok q'" if "port_put x q = Some q'"
    using that q window_put [of "pt_count q" 64 "pt_buf q" "pt_head q" x]
    by (auto simp: port_put_def port_msgs_def port_ok_def mod_simps split: if_splits)
  show "port_take q = None \<longleftrightarrow> port_msgs q = []"
    by (auto simp: port_take_def port_msgs_def window_def)
  show "port_msgs q = x # port_msgs q'" "port_ok q'" if "port_take q = Some (x, q')"
    using that q window_get [of "pt_count q" "pt_head q" 64 "pt_buf q"] mod_get [of "pt_count q" "pt_head q" 64]
    by (auto simp: port_take_def port_msgs_def port_ok_def split: if_splits)
qed

section \<open>What the ports promise\<close>

text \<open>The abstract view: an open handle has the list of the messages it holds.\<close>

definition ipc_ok :: "ipc \<Rightarrow> bool" where
  "ipc_ok s \<longleftrightarrow> (\<forall>i < IPC_MAX_PORTS. port_ok (ports s i))"

definition ipc_abs :: "ipc \<Rightarrow> u64 \<Rightarrow> ipc_msg list option" where
  "ipc_abs s h = map_option (\<lambda>i. port_msgs (ports s i)) (port_get h s)"

definition spec_send :: "u64 \<Rightarrow> ipc_msg \<Rightarrow> (u64 \<Rightarrow> ipc_msg list option) \<Rightarrow> bool \<times> (u64 \<Rightarrow> ipc_msg list option)" where
  "spec_send h m A =
     (case A h of
        Some q \<Rightarrow> if length q < IPC_PORT_DEPTH then (True, A(h \<mapsto> q @ [m])) else (False, A)
      | None \<Rightarrow> (False, A))"

definition spec_recv :: "u64 \<Rightarrow> (u64 \<Rightarrow> ipc_msg list option) \<Rightarrow> ipc_msg option \<times> (u64 \<Rightarrow> ipc_msg list option)" where
  "spec_recv h A = (case A h of Some (m # q) \<Rightarrow> (Some m, A(h \<mapsto> q)) | _ \<Rightarrow> (None, A))"

definition spec_create :: "(u64 \<Rightarrow> ipc_msg list option) \<Rightarrow> u64 \<times> (u64 \<Rightarrow> ipc_msg list option)" where
  "spec_create A =
     (case find (\<lambda>i. A (of_nat i) = None) [1..<IPC_MAX_PORTS] of
        Some i \<Rightarrow> (of_nat i, A(of_nat i \<mapsto> [])) | None \<Rightarrow> (PORT_NULL, A))"

definition spec_close :: "u64 \<Rightarrow> (u64 \<Rightarrow> ipc_msg list option) \<Rightarrow> (u64 \<Rightarrow> ipc_msg list option)" where
  "spec_close h A = A(h := None)"

lemma port_get_Some: "port_get h s = Some i \<longleftrightarrow> 0 < i \<and> i < IPC_MAX_PORTS \<and> h = of_nat i \<and> pt_used (ports s i)"
proof
  assume "port_get h s = Some i"
  then show "0 < i \<and> i < IPC_MAX_PORTS \<and> h = of_nat i \<and> pt_used (ports s i)"
    by (auto simp: port_get_def word_le_nat_alt word_less_nat_alt not_less split: if_splits)
next
  assume "0 < i \<and> i < IPC_MAX_PORTS \<and> h = of_nat i \<and> pt_used (ports s i)"
  then show "port_get h s = Some i"
    by (auto simp: port_get_def word_le_nat_alt word_less_nat_alt unat_of_nat_less)
qed

lemma port_get_upd: "port_get h (upd_port i f s) =
    (if port_get h s = Some i \<and> \<not> pt_used (f (ports s i)) then None
     else if 0 < i \<and> i < IPC_MAX_PORTS \<and> h = of_nat i \<and> pt_used (f (ports s i)) then Some i else port_get h s)"
  by (auto simp: port_get_def upd_port_def word_le_nat_alt word_less_nat_alt not_less unat_of_nat_less)

lemma port_wake_simps [simp]: "ports (port_wake b c s) = ports s" "port_get h (port_wake b c s) = port_get h s"
  "ns_table (port_wake b c s) = ns_table s" "ipc_abs (port_wake b c s) = ipc_abs s" "ipc_ok (port_wake b c s) = ipc_ok s"
  by (auto simp: port_wake_def port_get_def ipc_abs_def ipc_ok_def fun_eq_iff)

lemma ports_upd [simp]: "ports (upd_port i f s) = (ports s)(i := f (ports s i))"
  by (simp add: upd_port_def)

lemma ipc_abs_upd:
  assumes "0 < i" "i < IPC_MAX_PORTS"
  shows "ipc_abs (upd_port i f s) =
    (ipc_abs s)(of_nat i := if pt_used (f (ports s i)) then Some (port_msgs (f (ports s i))) else None)"
proof
  fix h :: u64
  show "ipc_abs (upd_port i f s) h =
    ((ipc_abs s)(of_nat i := if pt_used (f (ports s i)) then Some (port_msgs (f (ports s i))) else None)) h"
  proof (cases "h = of_nat i")
    case True
    with assms show ?thesis by (auto simp: ipc_abs_def port_get_def word_le_nat_alt word_less_nat_alt unat_of_nat_less)
  next
    case False
    then have "unat h \<noteq> i" by auto
    with False show ?thesis by (simp add: ipc_abs_def port_get_def)
  qed
qed

lemma ipc_ok_upd: "ipc_ok s \<Longrightarrow> (i < IPC_MAX_PORTS \<Longrightarrow> port_ok (ports s i) \<Longrightarrow> port_ok (f (ports s i))) \<Longrightarrow> ipc_ok (upd_port i f s)"
  by (simp add: ipc_ok_def)

lemma zero_port_ok: "port_ok zero_port" "port_msgs zero_port = []"
  by (simp_all add: port_ok_def zero_port_def port_msgs_def)

lemma port_put_used: "port_put m p = Some q \<Longrightarrow> pt_used q = pt_used p"
  "port_take p = Some (m, q) \<Longrightarrow> pt_used q = pt_used p"
  by (auto simp: port_put_def port_take_def split: if_splits)

lemma port_send_refines:
  assumes "ipc_ok s" "port_send h (Some m) s = (b, t)"
  shows "ipc_ok t \<and> spec_send h m (ipc_abs s) = (b, ipc_abs t)"
proof (cases "port_get h s")
  case None
  with assms show ?thesis by (auto simp: port_send_def spec_send_def ipc_abs_def)
next
  case (Some i)
  then have i: "0 < i" "i < 64" "h = of_nat i" "pt_used (ports s i)" by (simp_all add: port_get_Some)
  have ok: "port_ok (ports s i)" using assms(1) i by (simp add: ipc_ok_def)
  have a: "ipc_abs s h = Some (port_msgs (ports s i))" using Some by (simp add: ipc_abs_def)
  show ?thesis
  proof (cases "port_put m (ports s i)")
    case None
    with assms Some have "t = s" "b = False" by (auto simp: port_send_def)
    with port_queue.put_full [OF ok] None a assms(1) show ?thesis by (simp add: spec_send_def)
  next
    case put: (Some q)
    have "b" "t = port_wake (pt_recv_waiters q > 0) (Recvq i) (upd_port i (\<lambda>_. q) s)"
      using assms Some put by (auto simp: port_send_def)
    moreover have "length (port_msgs (ports s i)) < 64"
      using port_queue.bound [OF ok] port_queue.put_full [OF ok, of m] put by simp
    moreover have "ipc_ok (upd_port i (\<lambda>_. q) s)"
      using assms(1) port_queue.put_invar [OF ok put] by (intro ipc_ok_upd)
    ultimately show ?thesis
      using a i(3,4) ipc_abs_upd [OF i(1,2)] port_queue.put_contents [OF ok put] port_put_used(1) [OF put]
      by (simp add: spec_send_def)
  qed
qed

lemma port_recv_refines:
  assumes "ipc_ok s" "port_recv_try h True False s = (r, t)"
  shows "ipc_ok t \<and> spec_recv h (ipc_abs s) = (case r of Recv_got m \<Rightarrow> Some m | _ \<Rightarrow> None, ipc_abs t)"
proof (cases "port_get h s")
  case None
  with assms show ?thesis by (auto simp: port_recv_try_def spec_recv_def ipc_abs_def)
next
  case (Some i)
  then have i: "0 < i" "i < 64" "h = of_nat i" "pt_used (ports s i)" by (simp_all add: port_get_Some)
  have ok: "port_ok (ports s i)" using assms(1) i by (simp add: ipc_ok_def)
  have a: "ipc_abs s h = Some (port_msgs (ports s i))" using Some by (simp add: ipc_abs_def)
  show ?thesis
  proof (cases "port_take (ports s i)")
    case None
    with assms Some have "t = s" "r = Recv_fail" by (auto simp: port_recv_try_def)
    with port_queue.get_empty [OF ok] None a assms(1) show ?thesis by (simp add: spec_recv_def)
  next
    case take: (Some mq)
    obtain m q where mq: "mq = (m, q)" by fastforce
    have r: "r = Recv_got m" "t = port_wake (pt_send_waiters q > 0) (Sendq i) (upd_port i (\<lambda>_. q) s)"
      using assms Some take mq by (auto simp: port_recv_try_def)
    moreover have "ipc_ok (upd_port i (\<lambda>_. q) s)"
      using assms(1) port_queue.get_invar [OF ok] take mq by (intro ipc_ok_upd) simp_all
    ultimately show ?thesis
      using a i(3,4) ipc_abs_upd [OF i(1,2)] port_queue.get_contents [OF ok] port_put_used(2) take mq
      by (simp add: spec_recv_def)
  qed
qed

lemma port_create_refines:
  assumes "ipc_ok s"
  shows "ipc_ok (snd (port_create owner s)) \<and>
    spec_create (ipc_abs s) = (fst (port_create owner s), ipc_abs (snd (port_create owner s)))"
proof -
  have "ipc_abs s (of_nat i) = None \<longleftrightarrow> \<not> pt_used (ports s i)" if "i \<in> set [1..<64]" for i
    using that by (auto simp: ipc_abs_def port_get_def word_le_nat_alt word_less_nat_alt unat_of_nat_less)
  then have f: "find (\<lambda>i. ipc_abs s (of_nat i) = None) [1..<64] = find (\<lambda>i. \<not> pt_used (ports s i)) [1..<64]"
    by (intro find_cong) auto
  show ?thesis
  proof (cases "find (\<lambda>i. \<not> pt_used (ports s i)) [1..<64]")
    case None
    with f assms show ?thesis by (simp add: spec_create_def port_create_def)
  next
    case (Some i)
    note i = find_upt_SomeD [OF Some]
    let ?f = "\<lambda>p. p\<lparr>pt_used := True, pt_owner_pid := owner, pt_head := 0, pt_tail := 0, pt_count := 0\<rparr>"
    have "port_ok (?f p)" "port_msgs (?f p) = []" for p by (simp_all add: port_ok_def port_msgs_def)
    with i f Some assms ipc_abs_upd [of i ?f s] show ?thesis
      by (simp add: spec_create_def port_create_def ipc_ok_upd)
  qed
qed

lemma port_close_refines:
  assumes "ipc_ok s"
  shows "ipc_ok (port_close h s) \<and> spec_close h (ipc_abs s) = ipc_abs (port_close h s)"
proof (cases "port_get h s")
  case None
  then have "(ipc_abs s)(h := None) = ipc_abs s" by (simp add: ipc_abs_def fun_upd_idem_iff)
  with None assms show ?thesis by (simp add: port_close_def spec_close_def)
next
  case (Some i)
  then have i: "0 < i" "i < 64" "h = of_nat i" by (simp_all add: port_get_Some)
  have "\<not> pt_used zero_port" by (simp add: zero_port_def)
  with Some i assms ipc_abs_upd [OF i(1,2)] zero_port_ok show ?thesis
    by (simp add: port_close_def spec_close_def Let_def ipc_ok_upd)
qed

section \<open>Receivers and wake-ups\<close>

text \<open>Up to 256 processes that receive from ports. A receiver is blocked on a channel between
  \<open>sched_block_on\<close> and the wake-up (or the backstop timeout), and then still counts as a waiter until it
  takes the lock again. \<open>deliver\<close> is the call of \<open>sched_wake_chan\<close> for a pending wake-up: it wakes every
  process that is blocked on the channel.\<close>

datatype rx_pc = Rx_idle | Rx_blocked nat | Rx_woken nat

record ipc_sys =
  ipc_st :: ipc
  rx :: "nat \<Rightarrow> rx_pc"

definition wake_rx :: "ipc_chan \<Rightarrow> rx_pc \<Rightarrow> rx_pc" where
  "wake_rx ch r = (case r of Rx_blocked i \<Rightarrow> if ch = Recvq i then Rx_woken i else r | _ \<Rightarrow> r)"

inductive ipc_step :: "ipc_sys \<Rightarrow> ipc_sys \<Rightarrow> bool" where
  create: "ipc_step S (S\<lparr>ipc_st := snd (port_create owner (ipc_st S))\<rparr>)"
| send: "ipc_step S (S\<lparr>ipc_st := snd (port_send h msg (ipc_st S))\<rparr>)"
| poll: "ipc_step S (S\<lparr>ipc_st := snd (port_recv_try h out False (ipc_st S))\<rparr>)"
| receive: "p < 256 \<Longrightarrow> rx S p = Rx_idle \<Longrightarrow> port_recv_try h out True (ipc_st S) = (r, t) \<Longrightarrow>
    ipc_step S (S\<lparr>ipc_st := t, rx := (rx S)(p := case r of Recv_block i \<Rightarrow> Rx_blocked i | _ \<Rightarrow> Rx_idle)\<rparr>)"
| deliver: "ch \<in> set (wakes (ipc_st S)) \<Longrightarrow>
    ipc_step S (S\<lparr>ipc_st := (ipc_st S)\<lparr>wakes := remove1 ch (wakes (ipc_st S))\<rparr>, rx := wake_rx ch \<circ> rx S\<rparr>)"
| timeout: "rx S p = Rx_blocked i \<Longrightarrow> ipc_step S (S\<lparr>rx := (rx S)(p := Rx_woken i)\<rparr>)"
| resume: "rx S p = Rx_woken i \<Longrightarrow>
    ipc_step S (S\<lparr>ipc_st := port_recv_resume (of_nat i) (ipc_st S), rx := (rx S)(p := Rx_idle)\<rparr>)"
| name: "ipc_step S (S\<lparr>ipc_st := ns_register sid h (ipc_st S)\<rparr>)"

inductive ipc_reach :: "ipc_sys \<Rightarrow> bool" where
  boot: "ipc_reach \<lparr>ipc_st = ipc_init \<lparr>ports = P, ns_table = (\<lambda>_. 0), wakes = []\<rparr>, rx = (\<lambda>_. Rx_idle)\<rparr>"
| step: "ipc_reach S \<Longrightarrow> ipc_step S T \<Longrightarrow> ipc_reach T"

definition waits_at :: "nat \<Rightarrow> rx_pc \<Rightarrow> bool" where
  "waits_at i r \<longleftrightarrow> r = Rx_blocked i \<or> r = Rx_woken i"

definition waiters :: "ipc_sys \<Rightarrow> nat \<Rightarrow> nat" where
  "waiters S i = count_below 256 (\<lambda>p. waits_at i (rx S p))"

text \<open>The invariant: the counter of a port counts its waiters, waiters exist for open ports only, and a
  receiver that is blocked on a port that holds messages has a wake-up pending.\<close>

definition ipc_sys_ok :: "ipc_sys \<Rightarrow> bool" where
  "ipc_sys_ok S \<longleftrightarrow>
     (\<forall>i < IPC_MAX_PORTS. unat (pt_recv_waiters (ports (ipc_st S) i)) = waiters S i) \<and>
     (\<forall>p i. waits_at i (rx S p) \<longrightarrow> p < 256 \<and> 0 < i \<and> i < IPC_MAX_PORTS \<and> pt_used (ports (ipc_st S) i)) \<and>
     (\<forall>p i. rx S p = Rx_blocked i \<longrightarrow> pt_count (ports (ipc_st S) i) = 0 \<or> Recvq i \<in> set (wakes (ipc_st S)))"

lemma waiters_le: "waiters S i \<le> 256"
  by (simp add: waiters_def count_below_le)

lemma waiters_cong: "(\<And>p. p < 256 \<Longrightarrow> waits_at i (rx S p) = waits_at i (rx T p)) \<Longrightarrow> waiters S i = waiters T i"
  unfolding waiters_def by (rule count_below_cong)

lemma waiters_pos: "p < 256 \<Longrightarrow> waits_at i (rx S p) \<Longrightarrow> 0 < waiters S i"
  unfolding waiters_def by (rule count_below_pos)

lemma sys_okI:
  assumes "\<And>i. i < IPC_MAX_PORTS \<Longrightarrow> unat (pt_recv_waiters (ports (ipc_st S) i)) = waiters S i"
    "\<And>p i. waits_at i (rx S p) \<Longrightarrow> p < 256 \<and> 0 < i \<and> i < IPC_MAX_PORTS \<and> pt_used (ports (ipc_st S) i)"
    "\<And>p i. rx S p = Rx_blocked i \<Longrightarrow> 0 < pt_count (ports (ipc_st S) i) \<Longrightarrow> Recvq i \<in> set (wakes (ipc_st S))"
  shows "ipc_sys_ok S"
  unfolding ipc_sys_ok_def using assms by (metis neq0_conv)

lemma sys_okD:
  assumes "ipc_sys_ok S"
  shows "i < IPC_MAX_PORTS \<Longrightarrow> unat (pt_recv_waiters (ports (ipc_st S) i)) = waiters S i"
    "waits_at i (rx S p) \<Longrightarrow> p < 256" "waits_at i (rx S p) \<Longrightarrow> 0 < i" "waits_at i (rx S p) \<Longrightarrow> i < IPC_MAX_PORTS"
    "waits_at i (rx S p) \<Longrightarrow> pt_used (ports (ipc_st S) i)"
    "rx S p = Rx_blocked i \<Longrightarrow> 0 < pt_count (ports (ipc_st S) i) \<Longrightarrow> Recvq i \<in> set (wakes (ipc_st S))"
  using assms unfolding ipc_sys_ok_def by (metis less_not_refl)+

text \<open>A step that leaves the receivers alone.\<close>

lemma sys_ok_frame:
  assumes ok: "ipc_sys_ok S" and t: "\<And>i. pt_recv_waiters (ports t i) = pt_recv_waiters (ports (ipc_st S) i)"
    "\<And>i. pt_used (ports (ipc_st S) i) \<Longrightarrow> pt_used (ports t i)" "set (wakes (ipc_st S)) \<subseteq> set (wakes t)"
    "\<And>i. pt_used (ports (ipc_st S) i) \<Longrightarrow> i < IPC_MAX_PORTS \<Longrightarrow> 0 < waiters S i \<Longrightarrow> 0 < pt_count (ports t i) \<Longrightarrow>
       0 < pt_count (ports (ipc_st S) i) \<or> Recvq i \<in> set (wakes t)"
  shows "ipc_sys_ok (S\<lparr>ipc_st := t\<rparr>)"
proof (rule sys_okI)
  have w: "waiters (S\<lparr>ipc_st := t\<rparr>) i = waiters S i" for i by (simp add: waiters_def)
  show "unat (pt_recv_waiters (ports (ipc_st (S\<lparr>ipc_st := t\<rparr>)) i)) = waiters (S\<lparr>ipc_st := t\<rparr>) i"
    if "i < IPC_MAX_PORTS" for i using sys_okD(1) [OF ok that] w t(1) by simp
  show "p < 256 \<and> 0 < i \<and> i < IPC_MAX_PORTS \<and> pt_used (ports (ipc_st (S\<lparr>ipc_st := t\<rparr>)) i)"
    if "waits_at i (rx (S\<lparr>ipc_st := t\<rparr>) p)" for p i using sys_okD(2-5) [OF ok] that t(2) by simp
  show "Recvq i \<in> set (wakes (ipc_st (S\<lparr>ipc_st := t\<rparr>)))"
    if "rx (S\<lparr>ipc_st := t\<rparr>) p = Rx_blocked i" "0 < pt_count (ports (ipc_st (S\<lparr>ipc_st := t\<rparr>)) i)" for p i
  proof -
    have b: "waits_at i (rx S p)" "rx S p = Rx_blocked i" using that(1) by (simp_all add: waits_at_def)
    have "0 < waiters S i" using waiters_pos sys_okD(2) [OF ok b(1)] b(1) by blast
    with t(4) [of i] sys_okD(4,5) [OF ok b(1)] that(2) sys_okD(6) [OF ok b(2)] t(3) show ?thesis by auto
  qed
qed

lemma port_recv_try_waiters:
  assumes "port_recv_try h out block s = (r, t)"
  shows "(\<nexists>i. r = Recv_block i) \<Longrightarrow> pt_recv_waiters (ports t i) = pt_recv_waiters (ports s i)"
    "pt_used (ports t i) = pt_used (ports s i)" "set (wakes s) \<subseteq> set (wakes t)"
    "pt_count (ports t i) \<le> pt_count (ports s i)"
    "r = Recv_block i \<Longrightarrow> t = upd_port i (\<lambda>p. p\<lparr>pt_recv_waiters := pt_recv_waiters p + 1\<rparr>) s \<and>
       pt_count (ports s i) = 0 \<and> port_get h s = Some i"
  using assms
  by (auto simp: port_recv_try_def port_take_def port_wake_def upd_port_def split: option.splits if_splits)

lemma send_ok:
  assumes ok: "ipc_sys_ok S"
  shows "ipc_sys_ok (S\<lparr>ipc_st := snd (port_send h msg (ipc_st S))\<rparr>)"
proof (rule sys_ok_frame [OF ok])
  fix i
  show "0 < pt_count (ports (ipc_st S) i) \<or> Recvq i \<in> set (wakes (snd (port_send h msg (ipc_st S))))"
    if "i < IPC_MAX_PORTS" "0 < waiters S i" "0 < pt_count (ports (snd (port_send h msg (ipc_st S))) i)"
  proof -
    have "0 < pt_recv_waiters (ports (ipc_st S) i)"
      using sys_okD(1) [OF ok that(1)] that(2) by (simp add: word_less_nat_alt)
    with that(3) show ?thesis
      by (auto simp: port_send_def port_put_def port_wake_def upd_port_def split: option.splits if_splits)
  qed
qed (auto simp: port_send_def port_put_def port_wake_def upd_port_def split: option.splits if_splits)

lemma waiters_set:
  assumes "p < 256" "\<not> waits_at i (rx S p)" "waits_at i r"
  shows "waiters (S\<lparr>ipc_st := t, rx := (rx S)(p := r)\<rparr>) i = waiters S i + 1"
  unfolding waiters_def by (rule count_below_insert [of p]) (use assms in auto)

lemma waiters_clear:
  assumes "p < 256" "waits_at i (rx S p)" "\<not> waits_at i r"
  shows "waiters S i = waiters (S\<lparr>ipc_st := t, rx := (rx S)(p := r)\<rparr>) i + 1"
  unfolding waiters_def by (rule count_below_remove [of p]) (use assms in auto)

lemma unat_inc: "unat (x::u32) < 2 ^ 32 - 1 \<Longrightarrow> unat (x + 1) = unat x + 1"
  by (subst unat_add_lem [THEN iffD1]) simp_all

lemma unat_dec: "0 < unat (x::u32) \<Longrightarrow> unat (x - 1) = unat x - 1"
  by (simp add: unat_minus_one unat_gt_0)

lemma block_ok:
  assumes ok: "ipc_sys_ok S" and p: "p < 256" "rx S p = Rx_idle"
    and r: "port_recv_try h out True (ipc_st S) = (Recv_block j, t)"
  shows "ipc_sys_ok (S\<lparr>ipc_st := t, rx := (rx S)(p := Rx_blocked j)\<rparr>)" (is "ipc_sys_ok ?T")
proof -
  have t: "t = upd_port j (\<lambda>p. p\<lparr>pt_recv_waiters := pt_recv_waiters p + 1\<rparr>) (ipc_st S)"
    "pt_count (ports (ipc_st S) j) = 0" "port_get h (ipc_st S) = Some j"
    using port_recv_try_waiters(5) [OF r refl] by auto
  then have j: "0 < j" "j < 64" "pt_used (ports (ipc_st S) j)" by (auto simp: port_get_Some)
  have np: "\<not> waits_at i (rx S p)" for i using p(2) by (simp add: waits_at_def)
  have w: "waiters ?T i = waiters S i" if "i \<noteq> j" for i
    by (rule waiters_cong) (use np that in \<open>auto simp: waits_at_def\<close>)
  have wj: "waiters ?T j = waiters S j + 1" by (rule waiters_set) (use p np in \<open>simp_all add: waits_at_def\<close>)
  show ?thesis
  proof (rule sys_okI)
    show "unat (pt_recv_waiters (ports (ipc_st ?T) i)) = waiters ?T i" if "i < 64" for i
      using sys_okD(1) [OF ok that] w wj unat_inc [of "pt_recv_waiters (ports (ipc_st S) j)"] waiters_le [of S j]
      by (cases "i = j") (auto simp: t(1))
    show "x < 256 \<and> 0 < i \<and> i < 64 \<and> pt_used (ports (ipc_st ?T) i)" if "waits_at i (rx ?T x)" for x i
      using that sys_okD(2-5) [OF ok] p(1) j by (auto simp: t(1) waits_at_def split: if_splits)
    show "Recvq i \<in> set (wakes (ipc_st ?T))" if "rx ?T x = Rx_blocked i" "0 < pt_count (ports (ipc_st ?T) i)" for x i
      using that sys_okD(6) [OF ok, of x i] t(2) by (auto simp: t(1) upd_port_def split: if_splits)
  qed
qed

lemma deliver_ok:
  assumes ok: "ipc_sys_ok S"
  shows "ipc_sys_ok (S\<lparr>ipc_st := (ipc_st S)\<lparr>wakes := remove1 ch (wakes (ipc_st S))\<rparr>, rx := wake_rx ch \<circ> rx S\<rparr>)"
    (is "ipc_sys_ok ?T")
proof (rule sys_okI)
  have wa: "waits_at i (wake_rx ch r) = waits_at i r" for i r by (auto simp: waits_at_def wake_rx_def split: rx_pc.splits)
  have w: "waiters ?T i = waiters S i" for i by (rule waiters_cong) (simp add: wa)
  show "unat (pt_recv_waiters (ports (ipc_st ?T) i)) = waiters ?T i" if "i < 64" for i
    using sys_okD(1) [OF ok that] w by simp
  show "x < 256 \<and> 0 < i \<and> i < 64 \<and> pt_used (ports (ipc_st ?T) i)" if "waits_at i (rx ?T x)" for x i
    using that sys_okD(2-5) [OF ok] by (simp add: wa)
  show "Recvq i \<in> set (wakes (ipc_st ?T))" if "rx ?T x = Rx_blocked i" "0 < pt_count (ports (ipc_st ?T) i)" for x i
  proof -
    have "rx S x = Rx_blocked i" "ch \<noteq> Recvq i"
      using that(1) by (auto simp: wake_rx_def split: rx_pc.splits if_splits)
    with sys_okD(6) [OF ok] that(2) show ?thesis by auto
  qed
qed

lemma resume_ok:
  assumes ok: "ipc_sys_ok S" and p: "rx S p = Rx_woken j"
  shows "ipc_sys_ok (S\<lparr>ipc_st := port_recv_resume (of_nat j) (ipc_st S), rx := (rx S)(p := Rx_idle)\<rparr>)"
    (is "ipc_sys_ok ?T")
proof -
  have wp: "waits_at j (rx S p)" using p by (simp add: waits_at_def)
  note j = sys_okD(2-5) [OF ok wp]
  have pos: "0 < unat (pt_recv_waiters (ports (ipc_st S) j))"
    using sys_okD(1) [OF ok j(3)] waiters_pos [OF j(1) wp] by simp
  have g: "port_get (of_nat j) (ipc_st S) = Some j" using j by (simp add: port_get_Some)
  have t: "port_recv_resume (of_nat j) (ipc_st S) =
      upd_port j (\<lambda>p. p\<lparr>pt_recv_waiters := pt_recv_waiters p - 1\<rparr>) (ipc_st S)"
    using g pos by (auto simp: port_recv_resume_def unat_gt_0)
  have w: "waiters ?T i = waiters S i" if "i \<noteq> j" for i
    by (rule waiters_cong) (use p that in \<open>auto simp: waits_at_def\<close>)
  have wj: "waiters S j = waiters ?T j + 1" by (rule waiters_clear) (use j wp in \<open>simp_all add: waits_at_def\<close>)
  show ?thesis
  proof (rule sys_okI)
    show "unat (pt_recv_waiters (ports (ipc_st ?T) i)) = waiters ?T i" if "i < 64" for i
      using sys_okD(1) [OF ok that] w wj unat_dec [OF pos] by (cases "i = j") (auto simp: t)
    show "x < 256 \<and> 0 < i \<and> i < 64 \<and> pt_used (ports (ipc_st ?T) i)" if "waits_at i (rx ?T x)" for x i
      using that sys_okD(2-5) [OF ok, of i x] by (auto simp: t waits_at_def split: if_splits)
    show "Recvq i \<in> set (wakes (ipc_st ?T))" if "rx ?T x = Rx_blocked i" "0 < pt_count (ports (ipc_st ?T) i)" for x i
      using that sys_okD(6) [OF ok, of x i] by (auto simp: t upd_port_def split: if_splits)
  qed
qed

lemma ipc_step_ok:
  assumes "ipc_step S T" "ipc_sys_ok S"
  shows "ipc_sys_ok T"
  using assms
proof cases
  case (create owner)
  show ?thesis unfolding create
    by (rule sys_ok_frame [OF assms(2)])
      (auto simp: port_create_def upd_port_def dest: find_upt_SomeD split: option.splits if_splits)
next
  case (poll h out)
  obtain r t where rt: "port_recv_try h out False (ipc_st S) = (r, t)" by fastforce
  then have "\<nexists>i. r = Recv_block i" by (auto simp: port_recv_try_def split: option.splits if_splits)
  with port_recv_try_waiters [OF rt] show ?thesis unfolding poll rt snd_conv
    by (intro sys_ok_frame [OF assms(2)]) (auto intro: less_le_trans)
next
  case (receive p h out r t)
  show ?thesis
  proof (cases "\<exists>j. r = Recv_block j")
    case True
    with block_ok [OF assms(2) receive(2,3)] receive show ?thesis by auto
  next
    case False
    then have "T = S\<lparr>ipc_st := t\<rparr>" using receive(1,3) by (auto simp: fun_upd_idem split: recv_result.splits)
    with port_recv_try_waiters [OF receive(4)] False show ?thesis
      by (auto intro!: sys_ok_frame [OF assms(2)] intro: less_le_trans)
  qed
next
  case (timeout p i)
  have w: "waiters T j = waiters S j" for j
    unfolding timeout by (rule waiters_cong) (use timeout(2) in \<open>auto simp: waits_at_def\<close>)
  show ?thesis
  proof (rule sys_okI)
    show "x < 256 \<and> 0 < j \<and> j < 64 \<and> pt_used (ports (ipc_st T) j)" if "waits_at j (rx T x)" for x j
      using that timeout sys_okD(2-5) [OF assms(2), of j x] by (auto simp: waits_at_def split: if_splits)
  qed (use timeout w sys_okD(1,6) [OF assms(2)] in \<open>auto split: if_splits\<close>)
next
  case (name sid h)
  show ?thesis unfolding name by (rule sys_ok_frame [OF assms(2)]) (auto simp: ns_register_def split: if_splits)
qed (use assms(2) send_ok deliver_ok resume_ok in auto)

lemma ipc_reach_ok: "ipc_reach S \<Longrightarrow> ipc_sys_ok S"
proof (induction rule: ipc_reach.induct)
  case (boot P)
  have "waiters \<lparr>ipc_st = s, rx = (\<lambda>_. Rx_idle)\<rparr> i = 0" for s i by (simp add: waiters_def waits_at_def count_below_def)
  then show ?case by (intro sys_okI) (auto simp: ipc_init_def zero_port_def waits_at_def)
qed (rule ipc_step_ok)

text \<open>The state after \<open>n\<close> rounds of a blocking receive.\<close>

primrec recv_state :: "(nat \<Rightarrow> ipc \<Rightarrow> ipc) \<Rightarrow> nat \<Rightarrow> u64 \<Rightarrow> ipc \<Rightarrow> nat \<Rightarrow> ipc" where
  "recv_state env k h s 0 = s"
| "recv_state env k h s (Suc n) =
     recv_state env (Suc k) h (port_recv_resume h (env k (snd (port_recv_try h True True s)))) n"

lemma port_recv_returns:
  assumes "\<forall>j < n. \<exists>i. port_get h (recv_state env k h s j) = Some i \<and> pt_count (ports (recv_state env k h s j) i) = 0"
    "port_get h (recv_state env k h s n) = Some i" "0 < pt_count (ports (recv_state env k h s n) i)"
  shows "\<exists>t. port_recv env k h True True s =
    Some (Some (pt_buf (ports (recv_state env k h s n) i) (pt_head (ports (recv_state env k h s n) i))), t)"
  using assms
proof (induction n arbitrary: k s)
  case 0
  then show ?case
    by (subst port_recv.simps) (auto simp: port_recv_try_def port_take_def)
next
  case (Suc n)
  let ?s = "port_recv_resume h (env k (snd (port_recv_try h True True s)))"
  obtain i0 where i0: "port_get h s = Some i0" "pt_count (ports s i0) = 0" using Suc.prems(1) by fastforce
  then obtain t where t: "port_recv_try h True True s = (Recv_block i0, t)"
    by (simp add: port_recv_try_def port_take_def)
  have "\<forall>j < n. \<exists>i. port_get h (recv_state env (Suc k) h ?s j) = Some i \<and>
      pt_count (ports (recv_state env (Suc k) h ?s j) i) = 0"
    using Suc.prems(1) by (metis Suc_less_eq recv_state.simps(2))
  from Suc.IH [OF this] Suc.prems(2,3) t show ?case by (subst port_recv.simps) simp
qed

section \<open>Properties\<close>

text \<open>C11: Ports are bounded FIFO queues. Creating, sending, receiving and closing do to the table of ports
  what the specification does to a map from open handles to lists of messages: a send appends to
  the queue of its own handle only and fails exactly when the handle is closed or 64 messages wait, a
  receive takes the oldest message, and the representation invariant is kept.\<close>

theorem ipc_refines:
  assumes "ipc_ok s"
  shows "(\<forall>h m. ipc_ok (snd (port_send h (Some m) s)) \<and>
       spec_send h m (ipc_abs s) = (fst (port_send h (Some m) s), ipc_abs (snd (port_send h (Some m) s)))) \<and>
     (\<forall>h. ipc_ok (snd (port_recv_try h True False s)) \<and>
       spec_recv h (ipc_abs s) = (case fst (port_recv_try h True False s) of Recv_got m \<Rightarrow> Some m | _ \<Rightarrow> None,
                                  ipc_abs (snd (port_recv_try h True False s)))) \<and>
     (\<forall>owner. ipc_ok (snd (port_create owner s)) \<and>
       spec_create (ipc_abs s) = (fst (port_create owner s), ipc_abs (snd (port_create owner s)))) \<and>
     (\<forall>h. ipc_ok (port_close h s) \<and> spec_close h (ipc_abs s) = ipc_abs (port_close h s))"
  using port_send_refines [OF assms] port_recv_refines [OF assms] port_create_refines [OF assms]
    port_close_refines [OF assms] by (metis prod.collapse)

definition ex_ipc :: ipc where
  "ex_ipc = snd (port_create 7 (ipc_init \<lparr>ports = (\<lambda>_. zero_port), ns_table = (\<lambda>_. 0), wakes = []\<rparr>))"

lemma ex_ipc_ok: "ipc_ok ex_ipc" "ipc_abs ex_ipc 1 = Some []"
proof -
  have "ipc_ok (ipc_init \<lparr>ports = (\<lambda>_. zero_port), ns_table = (\<lambda>_. 0), wakes = []\<rparr>)"
    by (simp add: ipc_ok_def ipc_init_def zero_port_ok)
  from port_create_refines [OF this, of 7] show "ipc_ok ex_ipc" by (simp add: ex_ipc_def)
  have "port_get 1 ex_ipc = Some 1 \<and> pt_count (ports ex_ipc 1) = 0" by code_simp
  then show "ipc_abs ex_ipc 1 = Some []" by (simp add: ipc_abs_def port_msgs_def)
qed

theorem ipc_refines_witness:
  "fst (port_send 1 (Some zero_msg) ex_ipc) \<and> ipc_abs (snd (port_send 1 (Some zero_msg) ex_ipc)) 1 = Some [zero_msg] \<and>
   \<not> fst (port_send 2 (Some zero_msg) ex_ipc)"
proof -
  have "port_get 2 ex_ipc = None" by code_simp
  then have "ipc_abs ex_ipc 2 = None" by (simp add: ipc_abs_def)
  moreover have "spec_send 1 zero_msg (ipc_abs ex_ipc) =
      (fst (port_send 1 (Some zero_msg) ex_ipc), ipc_abs (snd (port_send 1 (Some zero_msg) ex_ipc)))"
    "spec_send 2 zero_msg (ipc_abs ex_ipc) =
      (fst (port_send 2 (Some zero_msg) ex_ipc), ipc_abs (snd (port_send 2 (Some zero_msg) ex_ipc)))"
    using ipc_refines [OF ex_ipc_ok(1)] by blast+
  ultimately show ?thesis using ex_ipc_ok(2) by (simp add: spec_send_def) (metis fun_upd_same)
qed


definition ex_parked :: ipc_sys where
  "ex_parked = \<lparr>ipc_st = snd (port_recv_try 1 True True ex_ipc), rx = (\<lambda>_. Rx_idle)(5 := Rx_blocked 1)\<rparr>"

definition ex_sent :: ipc_sys where
  "ex_sent = ex_parked\<lparr>ipc_st := snd (port_send 1 (Some zero_msg) (ipc_st ex_parked))\<rparr>"

lemma ex_sent_reach: "ipc_reach ex_sent"
proof -
  let ?boot = "\<lparr>ipc_st = ipc_init \<lparr>ports = (\<lambda>_. zero_port), ns_table = (\<lambda>_. 0), wakes = []\<rparr>, rx = (\<lambda>_. Rx_idle)\<rparr>"
  have "ipc_reach (?boot\<lparr>ipc_st := snd (port_create 7 (ipc_st ?boot))\<rparr>)"
    by (rule ipc_reach.step [OF ipc_reach.boot ipc_step.create])
  then have 1: "ipc_reach \<lparr>ipc_st = ex_ipc, rx = (\<lambda>_. Rx_idle)\<rparr>" by (simp add: ex_ipc_def)
  have "port_get 1 ex_ipc = Some 1 \<and> pt_count (ports ex_ipc 1) = 0" by code_simp
  then obtain t where t: "port_recv_try 1 True True ex_ipc = (Recv_block 1, t)"
    by (simp add: port_recv_try_def port_take_def)
  have "ipc_step \<lparr>ipc_st = ex_ipc, rx = (\<lambda>_. Rx_idle)\<rparr> ex_parked"
    using ipc_step.receive [of 5 "\<lparr>ipc_st = ex_ipc, rx = (\<lambda>_. Rx_idle)\<rparr>" 1 True "Recv_block 1" t] t
    by (simp add: ex_parked_def)
  from ipc_reach.step [OF ipc_reach.step [OF 1 this] ipc_step.send] show ?thesis by (simp add: ex_sent_def)
qed


text \<open>A blocking receive returns. Whatever the rest of the system does while the receiver is blocked, when
  the port stays open and in some round of the loop it holds a message, the call returns the oldest
  message of the first such round.\<close>

theorem port_recv_liveness:
  assumes "\<forall>j < n. \<exists>i. port_get h (recv_state env 0 h s j) = Some i \<and> pt_count (ports (recv_state env 0 h s j) i) = 0"
    "port_get h (recv_state env 0 h s n) = Some i" "0 < pt_count (ports (recv_state env 0 h s n) i)"
    "port_ok (ports (recv_state env 0 h s n) i)"
  shows "\<exists>t. port_recv env 0 h True True s = Some (Some (hd (port_msgs (ports (recv_state env 0 h s n) i))), t)"
proof -
  have "hd (port_msgs p) = pt_buf p (pt_head p)" if "0 < pt_count p" "port_ok p" for p
    using that window_get [of "pt_count p" "pt_head p" 64 "pt_buf p"] by (simp add: port_msgs_def port_ok_def)
  with port_recv_returns [OF assms(1-3)] assms(3,4) show ?thesis by simp
qed

theorem port_recv_liveness_witness:
  "\<exists>m t. port_recv (\<lambda>_ s. snd (port_send 1 (Some zero_msg) s)) 0 1 True True ex_ipc = Some (Some m, t)"
proof -
  let ?env = "\<lambda>_ s. snd (port_send 1 (Some zero_msg) s)"
  have f: "port_get 1 (recv_state ?env 0 1 ex_ipc 0) = Some 1 \<and> pt_count (ports (recv_state ?env 0 1 ex_ipc 0) 1) = 0"
    "port_get 1 (recv_state ?env 0 1 ex_ipc 1) = Some 1 \<and> 0 < pt_count (ports (recv_state ?env 0 1 ex_ipc 1) 1) \<and>
     port_ok (ports (recv_state ?env 0 1 ex_ipc 1) 1)"
    by code_simp+
  then show ?thesis using port_recv_liveness [of 1 1 ?env ex_ipc 1] by auto
qed

end
