(* ===== verification/Pipe.thy ===== *)
theory Pipe
  imports Ring
begin

text \<open>
  Pipes (\<^verbatim>\<open>src/kernel/ipc/pipe.c\<close>): 16 byte streams with counted read and write ends, named by two file
  descriptors each. A section under \<open>pipe_lock\<close> is one atomic operation. \<open>pipe_read\<close> and \<open>pipe_write\<close>
  loop; between two rounds they release the lock, and \<open>env k\<close> is what the rest of the system does after
  round \<open>k\<close>. The positions are natural numbers below the buffer size.
\<close>

section \<open>State\<close>

abbreviation (input) PIPE_MAX :: nat where "PIPE_MAX \<equiv> 16"
abbreviation (input) PIPE_BUF_SIZE :: nat where "PIPE_BUF_SIZE \<equiv> 4096"
abbreviation (input) PIPE_FD_BASE :: int where "PIPE_FD_BASE \<equiv> 64"

record pipe =
  pp_used :: bool
  pp_creator_pid :: u32
  pp_read_refs :: u32
  pp_write_refs :: u32
  pp_buf :: "u8 carray"
  pp_read_pos :: nat
  pp_write_pos :: nat
  pp_data_bytes :: nat

type_synonym pipes = "pipe carray"

definition zero_pipe :: pipe where
  "zero_pipe = \<lparr>pp_used = False, pp_creator_pid = 0, pp_read_refs = 0, pp_write_refs = 0, pp_buf = (\<lambda>_. 0),
                pp_read_pos = 0, pp_write_pos = 0, pp_data_bytes = 0\<rparr>"

section \<open>Operations\<close>

definition pipe_lookup :: "int \<Rightarrow> pipes \<Rightarrow> nat option" where
  "pipe_lookup fd g =
     (if fd < PIPE_FD_BASE \<or> fd \<ge> PIPE_FD_BASE + int PIPE_MAX * 2 then None
      else let idx = nat ((fd - PIPE_FD_BASE) div 2)
           in if idx \<ge> PIPE_MAX then None else if \<not> pp_used (g idx) then None else Some idx)"

definition write_end :: "int \<Rightarrow> bool" where
  "write_end fd \<longleftrightarrow> (fd - PIPE_FD_BASE) mod 2 = 1"

definition pipe_alloc :: "u64 \<Rightarrow> pipes \<Rightarrow> nat option \<times> pipes" where
  "pipe_alloc pid g =
     (case find (\<lambda>i. \<not> pp_used (g i)) [0..<PIPE_MAX] of
        Some i \<Rightarrow> (Some i, g(i := zero_pipe\<lparr>pp_used := True, pp_creator_pid := ucast pid, pp_read_refs := 1,
                                          pp_write_refs := 1\<rparr>))
      | None \<Rightarrow> (None, g))"

text \<open>The pair of descriptors, or \<open>None\<close> for the result -1.\<close>

definition pipe_create :: "u64 \<Rightarrow> bool \<Rightarrow> pipes \<Rightarrow> (int \<times> int) option \<times> pipes" where
  "pipe_create pid pipefd g =
     (if \<not> pipefd then (None, g)
      else case pipe_alloc pid g of
        (Some i, g') \<Rightarrow> (Some (PIPE_FD_BASE + int i * 2, PIPE_FD_BASE + int i * 2 + 1), g')
      | (None, g') \<Rightarrow> (None, g'))"

definition inherit_one :: "u32 \<Rightarrow> pipe \<Rightarrow> pipe" where
  "inherit_one parent p =
     (if \<not> pp_used p \<or> pp_creator_pid p \<noteq> parent then p
      else p\<lparr>pp_read_refs := (if pp_read_refs p \<noteq> 0 then pp_read_refs p + 1 else pp_read_refs p),
             pp_write_refs := (if pp_write_refs p \<noteq> 0 then pp_write_refs p + 1 else pp_write_refs p)\<rparr>)"

definition pipe_fork_inherit :: "u32 \<Rightarrow> pipes \<Rightarrow> pipes" where
  "pipe_fork_inherit parent g = (\<lambda>i. if i < PIPE_MAX then inherit_one parent (g i) else g i)"

text \<open>The copy loops.\<close>

primrec read_bytes :: "nat \<Rightarrow> pipe \<Rightarrow> u8 list \<times> pipe" where
  "read_bytes 0 p = ([], p)"
| "read_bytes (Suc n) p =
     (case read_bytes n (p\<lparr>pp_read_pos := (pp_read_pos p + 1) mod PIPE_BUF_SIZE\<rparr>) of
        (bs, q) \<Rightarrow> (pp_buf p (pp_read_pos p) # bs, q))"

primrec write_bytes :: "u8 list \<Rightarrow> pipe \<Rightarrow> pipe" where
  "write_bytes [] p = p"
| "write_bytes (b # bs) p =
     write_bytes bs (p\<lparr>pp_buf := (pp_buf p)(pp_write_pos p := b),
                       pp_write_pos := (pp_write_pos p + 1) mod PIPE_BUF_SIZE\<rparr>)"

text \<open>One round of \<open>pipe_read\<close>: bytes delivered, end of file, or nothing to do yet.\<close>

datatype read_round = Read_bytes "u8 list" | Read_eof | Read_wait

definition pipe_read_round :: "nat \<Rightarrow> pipe \<Rightarrow> read_round \<times> pipe" where
  "pipe_read_round count p =
     (if \<not> pp_used p then (Read_eof, p)
      else if pp_data_bytes p > 0 then
        let to_read = min count (pp_data_bytes p);
            (bs, q) = read_bytes to_read p
        in (Read_bytes bs, q\<lparr>pp_data_bytes := pp_data_bytes q - to_read\<rparr>)
      else if pp_write_refs p = 0 then (Read_eof, p)
      else (Read_wait, p))"

partial_function (option) pipe_read_loop ::
  "(nat \<Rightarrow> pipes \<Rightarrow> pipes) \<Rightarrow> nat \<Rightarrow> nat \<Rightarrow> nat \<Rightarrow> pipes \<Rightarrow> (u8 list \<times> pipes) option" where
  "pipe_read_loop env k idx count g =
     (case pipe_read_round count (g idx) of
        (Read_bytes bs, p) \<Rightarrow> Some (bs, g(idx := p))
      | (Read_eof, p) \<Rightarrow> Some ([], g(idx := p))
      | (Read_wait, p) \<Rightarrow> pipe_read_loop env (Suc k) idx count (env k (g(idx := p))))"

text \<open>The return value and the bytes stored at \<open>buf\<close>.\<close>

definition pipe_read :: "(nat \<Rightarrow> pipes \<Rightarrow> pipes) \<Rightarrow> int \<Rightarrow> bool \<Rightarrow> nat \<Rightarrow> pipes \<Rightarrow> (int \<times> u8 list \<times> pipes) option" where
  "pipe_read env fd buf count g =
     (case pipe_lookup fd g of
        None \<Rightarrow> Some (-1, [], g)
      | Some idx \<Rightarrow>
          if write_end fd then Some (-1, [], g)
          else if \<not> buf \<or> count = 0 then Some (0, [], g)
          else map_option (\<lambda>(bs, g'). (int (length bs), bs, g')) (pipe_read_loop env 0 idx count g))"

text \<open>One round of \<open>pipe_write\<close> with \<open>src\<close> still to be written: the ends are closed, or a chunk goes in
  (which may be empty when the buffer is full: the writer yields).\<close>

definition pipe_write_round :: "u8 list \<Rightarrow> pipe \<Rightarrow> (nat \<times> pipe) option" where
  "pipe_write_round src p =
     (if \<not> pp_used p \<or> pp_read_refs p = 0 then None
      else if pp_data_bytes p < PIPE_BUF_SIZE then
        let chunk = min (length src) (PIPE_BUF_SIZE - pp_data_bytes p);
            q = write_bytes (take chunk src) p
        in Some (chunk, q\<lparr>pp_data_bytes := pp_data_bytes q + chunk\<rparr>)
      else Some (0, p))"

partial_function (option) pipe_write_loop ::
  "(nat \<Rightarrow> pipes \<Rightarrow> pipes) \<Rightarrow> nat \<Rightarrow> nat \<Rightarrow> nat \<Rightarrow> u8 list \<Rightarrow> pipes \<Rightarrow> (int \<times> pipes) option" where
  "pipe_write_loop env k idx written src g =
     (if written < length src then
        (case pipe_write_round (drop written src) (g idx) of
           None \<Rightarrow> Some (if written \<noteq> 0 then int written else -1, g)
         | Some (chunk, p) \<Rightarrow>
             pipe_write_loop env (Suc k) idx (written + chunk) src (env k (g(idx := p))))
      else Some (int written, g))"

definition pipe_write :: "(nat \<Rightarrow> pipes \<Rightarrow> pipes) \<Rightarrow> int \<Rightarrow> u8 list option \<Rightarrow> pipes \<Rightarrow> (int \<times> pipes) option" where
  "pipe_write env fd buf g =
     (case pipe_lookup fd g of
        None \<Rightarrow> Some (-1, g)
      | Some idx \<Rightarrow>
          if \<not> write_end fd then Some (-1, g)
          else case buf of
            None \<Rightarrow> Some (0, g)
          | Some src \<Rightarrow> if src = [] then Some (0, g) else pipe_write_loop env 0 idx 0 src g)"

definition close_end :: "bool \<Rightarrow> pipe \<Rightarrow> pipe" where
  "close_end wr p =
     (let q = (if \<not> wr then (if pp_read_refs p > 0 then p\<lparr>pp_read_refs := pp_read_refs p - 1\<rparr> else p)
               else (if pp_write_refs p > 0 then p\<lparr>pp_write_refs := pp_write_refs p - 1\<rparr> else p))
      in if pp_read_refs q = 0 \<and> pp_write_refs q = 0 then q\<lparr>pp_used := False\<rparr> else q)"

definition pipe_close :: "int \<Rightarrow> pipes \<Rightarrow> pipes" where
  "pipe_close fd g =
     (case pipe_lookup fd g of None \<Rightarrow> g | Some idx \<Rightarrow> g(idx := close_end (write_end fd) (g idx)))"

definition dup_end :: "bool \<Rightarrow> pipe \<Rightarrow> pipe" where
  "dup_end wr p = (if \<not> wr then p\<lparr>pp_read_refs := pp_read_refs p + 1\<rparr>
                   else p\<lparr>pp_write_refs := pp_write_refs p + 1\<rparr>)"

definition pipe_dup :: "int \<Rightarrow> int \<Rightarrow> pipes \<Rightarrow> int \<times> pipes" where
  "pipe_dup oldfd newfd g =
     (case pipe_lookup oldfd g of
        None \<Rightarrow> (-1, g)
      | Some idx \<Rightarrow> (oldfd, g(idx := dup_end (write_end oldfd) (g idx))))"

definition pipe_readable :: "int \<Rightarrow> pipes \<Rightarrow> bool" where
  "pipe_readable fd g =
     (case pipe_lookup fd g of
        None \<Rightarrow> False
      | Some idx \<Rightarrow> \<not> write_end fd \<and> (pp_data_bytes (g idx) > 0 \<or> \<not> pp_used (g idx)))"

definition pipe_writable :: "int \<Rightarrow> pipes \<Rightarrow> bool" where
  "pipe_writable fd g =
     (case pipe_lookup fd g of
        None \<Rightarrow> False
      | Some idx \<Rightarrow> write_end fd \<and> pp_data_bytes (g idx) < PIPE_BUF_SIZE)"

section \<open>The bytes of a pipe\<close>

definition pipe_data :: "pipe \<Rightarrow> u8 list" where
  "pipe_data p = window PIPE_BUF_SIZE (pp_buf p) (pp_read_pos p) (pp_data_bytes p)"

definition pipe_ok :: "pipe \<Rightarrow> bool" where
  "pipe_ok p \<longleftrightarrow> pp_read_pos p < PIPE_BUF_SIZE \<and> pp_data_bytes p \<le> PIPE_BUF_SIZE \<and>
     pp_write_pos p = (pp_read_pos p + pp_data_bytes p) mod PIPE_BUF_SIZE"

lemma read_bytes_window:
  "pp_read_pos p < PIPE_BUF_SIZE \<Longrightarrow> read_bytes n p =
     (window PIPE_BUF_SIZE (pp_buf p) (pp_read_pos p) n, p\<lparr>pp_read_pos := (pp_read_pos p + n) mod PIPE_BUF_SIZE\<rparr>)"
proof (induction n arbitrary: p)
  case (Suc n)
  let ?q = "p\<lparr>pp_read_pos := (pp_read_pos p + 1) mod PIPE_BUF_SIZE\<rparr>"
  have "read_bytes n ?q = (window PIPE_BUF_SIZE (pp_buf p) ((pp_read_pos p + 1) mod PIPE_BUF_SIZE) n,
      p\<lparr>pp_read_pos := ((pp_read_pos p + 1) mod PIPE_BUF_SIZE + n) mod PIPE_BUF_SIZE\<rparr>)"
    using Suc.IH [of ?q] by simp
  with window_get [of "Suc n" "pp_read_pos p" 4096 "pp_buf p"] Suc.prems show ?case
    by (simp add: mod_simps)
qed simp

lemma write_bytes_window:
  assumes "pp_write_pos p = (pp_read_pos p + n) mod PIPE_BUF_SIZE" "n + length bs \<le> PIPE_BUF_SIZE"
  shows "window PIPE_BUF_SIZE (pp_buf (write_bytes bs p)) (pp_read_pos p) (n + length bs) =
      window PIPE_BUF_SIZE (pp_buf p) (pp_read_pos p) n @ bs \<and>
    write_bytes bs p = p\<lparr>pp_buf := pp_buf (write_bytes bs p),
      pp_write_pos := (pp_read_pos p + n + length bs) mod PIPE_BUF_SIZE\<rparr>"
  using assms
proof (induction bs arbitrary: p n)
  case Nil
  then show ?case by (cases p) simp
next
  case (Cons b bs)
  let ?q = "p\<lparr>pp_buf := (pp_buf p)(pp_write_pos p := b), pp_write_pos := (pp_write_pos p + 1) mod PIPE_BUF_SIZE\<rparr>"
  have "pp_write_pos ?q = (pp_read_pos ?q + Suc n) mod PIPE_BUF_SIZE"
    using Cons.prems(1) by (simp add: mod_simps)
  from Cons.IH [OF this] Cons.prems window_put [of n 4096 "pp_buf p" "pp_read_pos p" b]
  show ?case by (auto simp: add_ac fun_upd_def)
qed

lemma read_round_data:
  assumes "pipe_ok p" "pipe_read_round count p = (r, q)"
  shows "pipe_ok q \<and> (case r of Read_bytes bs \<Rightarrow> bs = take count (pipe_data p) \<and> bs @ pipe_data q = pipe_data p
      \<and> (0 < count \<longrightarrow> bs \<noteq> [])
    | _ \<Rightarrow> q = p)"
proof (cases "pp_used p \<and> pp_data_bytes p > 0")
  case False
  with assms show ?thesis by (auto simp: pipe_read_round_def split: if_splits)
next
  case True
  let ?n = "min count (pp_data_bytes p)" and ?w = "window 4096 (pp_buf p)"
  have p: "pp_read_pos p < 4096" "pp_data_bytes p \<le> 4096"
    "pp_write_pos p = (pp_read_pos p + pp_data_bytes p) mod 4096" using assms(1) by (auto simp: pipe_ok_def)
  have rq: "r = Read_bytes (?w (pp_read_pos p) ?n)"
    "q = p\<lparr>pp_read_pos := (pp_read_pos p + ?n) mod 4096, pp_data_bytes := pp_data_bytes p - ?n\<rparr>"
    using assms(2) True read_bytes_window [OF p(1), of ?n] by (auto simp: pipe_read_round_def Let_def)
  have "((pp_read_pos p + ?n) mod 4096 + (pp_data_bytes p - ?n)) mod 4096 =
      (pp_read_pos p + ?n + (pp_data_bytes p - ?n)) mod 4096" by (rule mod_add_left_eq)
  then have "pipe_ok q" unfolding pipe_ok_def using p by (simp add: rq(2))
  moreover have "window 4096 (pp_buf p) (pp_read_pos p) ?n @ pipe_data q = pipe_data p"
    using window_split [of ?n "pp_data_bytes p" 4096 "pp_buf p" "pp_read_pos p"] by (simp add: rq(2) pipe_data_def)
  ultimately show ?thesis using rq(1) True by (auto simp: pipe_data_def take_window min_def)
qed

lemma write_round_data:
  assumes "pipe_ok p" "pipe_write_round src p = Some (n, q)"
  shows "pipe_ok q \<and> pipe_data q = pipe_data p @ take n src \<and> n \<le> length src \<and>
    pp_used q = pp_used p \<and> pp_read_refs q = pp_read_refs p \<and> pp_write_refs q = pp_write_refs p \<and>
    (src \<noteq> [] \<longrightarrow> pp_data_bytes p < PIPE_BUF_SIZE \<longrightarrow> 0 < n)"
proof (cases "pp_data_bytes p < PIPE_BUF_SIZE")
  case False
  with assms show ?thesis by (auto simp: pipe_write_round_def split: if_splits)
next
  case True
  let ?n = "min (length src) (4096 - pp_data_bytes p)" and ?b = "write_bytes (take n src) p"
  have n: "n = ?n" "q = ?b\<lparr>pp_data_bytes := pp_data_bytes ?b + n\<rparr>"
    using assms(2) True by (auto simp: pipe_write_round_def Let_def split: if_splits)
  have p: "pp_write_pos p = (pp_read_pos p + pp_data_bytes p) mod 4096" "pp_read_pos p < 4096"
    using assms(1) by (auto simp: pipe_ok_def)
  have l: "length (take n src) = n" "pp_data_bytes p + length (take n src) \<le> 4096" using n(1) True by auto
  from write_bytes_window [OF p(1) l(2)] obtain
    w: "window 4096 (pp_buf ?b) (pp_read_pos p) (pp_data_bytes p + n) = pipe_data p @ take n src"
    and b: "?b = p\<lparr>pp_buf := pp_buf ?b, pp_write_pos := (pp_read_pos p + pp_data_bytes p + n) mod 4096\<rparr>"
    unfolding l(1) pipe_data_def by blast
  have f: "pp_read_pos ?b = pp_read_pos p" "pp_data_bytes ?b = pp_data_bytes p"
    "pp_write_pos ?b = (pp_read_pos p + pp_data_bytes p + n) mod 4096" "pp_used ?b = pp_used p"
    "pp_read_refs ?b = pp_read_refs p" "pp_write_refs ?b = pp_write_refs p"
    by (subst b, simp)+
  have "pipe_data q = pipe_data p @ take n src" using w by (simp add: n(2) f pipe_data_def)
  moreover have "pipe_ok q" using p l by (simp add: n(2) f pipe_ok_def add.assoc)
  moreover have "n \<le> length src" "src \<noteq> [] \<longrightarrow> 0 < n" using n(1) True by auto
  ultimately show ?thesis by (simp add: n(2) f)
qed

text \<open>A byte at a time, a pipe with both ends open is a bounded queue.\<close>

definition pipe_put1 :: "u8 \<Rightarrow> pipe \<Rightarrow> pipe option" where
  "pipe_put1 b p = (case pipe_write_round [b] p of Some (Suc _, q) \<Rightarrow> Some q | _ \<Rightarrow> None)"

definition pipe_get1 :: "pipe \<Rightarrow> (u8 \<times> pipe) option" where
  "pipe_get1 p = (case pipe_read_round 1 p of (Read_bytes (b # _), q) \<Rightarrow> Some (b, q) | _ \<Rightarrow> None)"

definition pipe_open :: "pipe \<Rightarrow> bool" where
  "pipe_open p \<longleftrightarrow> pipe_ok p \<and> pp_used p \<and> pp_read_refs p \<noteq> 0"

lemma read_round_frame:
  "pipe_read_round n p = (r, q) \<Longrightarrow> pp_read_pos p < PIPE_BUF_SIZE \<Longrightarrow> pp_used q = pp_used p \<and>
     pp_read_refs q = pp_read_refs p \<and> pp_write_refs q = pp_write_refs p"
  by (auto simp: pipe_read_round_def read_bytes_window Let_def split: if_splits)

interpretation pipe_bytes: bounded_fifo 4096 pipe_open pipe_data pipe_put1 pipe_get1
proof
  fix p q :: pipe and b
  assume o: "pipe_open p"
  then have ok: "pipe_ok p" "pp_used p" "pp_read_refs p \<noteq> 0" by (auto simp: pipe_open_def)
  show "length (pipe_data p) \<le> 4096" using ok(1) by (simp add: pipe_ok_def pipe_data_def)
  have "pipe_write_round [b] p \<noteq> None" using ok(2,3) by (simp add: pipe_write_round_def Let_def)
  then obtain n r where w: "pipe_write_round [b] p = Some (n, r)" by auto
  note W = write_round_data [OF ok(1) w]
  have full: "n = 0 \<longleftrightarrow> length (pipe_data p) = 4096"
  proof (cases "pp_data_bytes p < 4096")
    case True
    with W show ?thesis by (simp add: pipe_data_def)
  next
    case False
    with w ok have "n = 0" "pp_data_bytes p = 4096" by (auto simp: pipe_write_round_def pipe_ok_def)
    then show ?thesis by (simp add: pipe_data_def)
  qed
  show "pipe_put1 b p = None \<longleftrightarrow> length (pipe_data p) = 4096"
    using full w by (auto simp: pipe_put1_def split: nat.splits)
  show "pipe_data q = pipe_data p @ [b]" "pipe_open q" if "pipe_put1 b p = Some q"
    using that w W ok by (auto simp: pipe_put1_def pipe_open_def split: nat.splits)
  obtain rr r' where g: "pipe_read_round 1 p = (rr, r')" by fastforce
  note G = read_round_data [OF ok(1) g]
  have e: "(\<exists>bs. rr = Read_bytes bs) \<longleftrightarrow> pipe_data p \<noteq> []"
    using g ok(2) by (auto simp: pipe_read_round_def pipe_data_def Let_def split: if_splits prod.splits)
  show "pipe_get1 p = None \<longleftrightarrow> pipe_data p = []"
    using e g G by (cases rr) (auto simp: pipe_get1_def split: list.splits)
  show "pipe_data p = b # pipe_data q" "pipe_open q" if "pipe_get1 p = Some (b, q)"
    using that g G ok read_round_frame [OF g] by (auto simp: pipe_get1_def pipe_open_def pipe_ok_def
        split: list.splits read_round.splits) (metis One_nat_def append_Cons append_Nil list.discI list.sel(3) take_Suc take_0)+
qed

text \<open>A run of rounds of readers and writers: the bytes accepted and the bytes delivered.\<close>

datatype pipe_ev = Ev_write "u8 list" | Ev_read nat

primrec pipe_run :: "pipe_ev list \<Rightarrow> pipe \<Rightarrow> u8 list \<times> u8 list \<times> pipe" where
  "pipe_run [] p = ([], [], p)"
| "pipe_run (e # es) p =
     (case e of
        Ev_write src \<Rightarrow> (case pipe_write_round src p of
            None \<Rightarrow> pipe_run es p
          | Some (n, q) \<Rightarrow> (case pipe_run es q of (acc, del, r) \<Rightarrow> (take n src @ acc, del, r)))
      | Ev_read count \<Rightarrow> (case pipe_read_round count p of
            (Read_bytes bs, q) \<Rightarrow> (case pipe_run es q of (acc, del, r) \<Rightarrow> (acc, bs @ del, r))
          | (_, q) \<Rightarrow> pipe_run es q))"

lemma pipe_run_stream:
  "pipe_ok p \<Longrightarrow> pipe_run es p = (acc, del, r) \<Longrightarrow> pipe_ok r \<and> pipe_data p @ acc = del @ pipe_data r"
proof (induction es arbitrary: p acc del)
  case (Cons e es)
  show ?case
  proof (cases e)
    case (Ev_write src)
    show ?thesis
    proof (cases "pipe_write_round src p")
      case None
      with Cons Ev_write show ?thesis by simp
    next
      case (Some nq)
      obtain n q where nq: "nq = (n, q)" by fastforce
      obtain acc' where a: "pipe_run es q = (acc', del, r)" "acc = take n src @ acc'"
        using Cons.prems(2) Ev_write Some nq by (auto split: prod.splits)
      have "pipe_ok q" "pipe_data q = pipe_data p @ take n src"
        using write_round_data [OF Cons.prems(1)] Some nq by auto
      with Cons.IH [OF _ a(1)] a(2) show ?thesis by simp
    qed
  next
    case (Ev_read count)
    obtain rr q where g: "pipe_read_round count p = (rr, q)" by fastforce
    note G = read_round_data [OF Cons.prems(1) g]
    show ?thesis
    proof (cases rr)
      case (Read_bytes bs)
      obtain del' where a: "pipe_run es q = (acc, del', r)" "del = bs @ del'"
        using Cons.prems(2) Ev_read g Read_bytes by (auto split: prod.splits)
      have "pipe_ok q" "bs @ pipe_data q = pipe_data p" using G Read_bytes by auto
      with Cons.IH [OF _ a(1)] a(2) show ?thesis by (metis append.assoc)
    qed (use Cons Ev_read g G in auto)
  qed
qed simp

definition pipe_ready :: "pipe \<Rightarrow> bool" where
  "pipe_ready p \<longleftrightarrow> pipe_open p \<and> pp_data_bytes p < PIPE_BUF_SIZE"

lemma pipe_write_loop_completes:
  assumes env: "\<And>k g. pipe_open (g idx) \<Longrightarrow> pipe_ready (env k g idx)"
  shows "pipe_ready (g idx) \<Longrightarrow> written \<le> length src \<Longrightarrow>
    \<exists>g'. pipe_write_loop env k idx written src g = Some (int (length src), g')"
proof (induction "length src - written" arbitrary: k written g rule: less_induct)
  case less
  show ?case
  proof (cases "written < length src")
    case False
    with less.prems show ?thesis by (subst pipe_write_loop.simps) simp
  next
    case True
    have p: "pipe_ok (g idx)" "pp_used (g idx)" "pp_read_refs (g idx) \<noteq> 0" "pp_data_bytes (g idx) < 4096"
      using less.prems(1) by (auto simp: pipe_ready_def pipe_open_def)
    have "pipe_write_round (drop written src) (g idx) \<noteq> None" using p by (simp add: pipe_write_round_def Let_def)
    then obtain n q where w: "pipe_write_round (drop written src) (g idx) = Some (n, q)" by auto
    note W = write_round_data [OF p(1) w]
    have n: "0 < n" "written + n \<le> length src" using W True p(4) by auto
    have "pipe_open q" using W p by (simp add: pipe_open_def)
    then have "pipe_ready (env k (g(idx := q)) idx)" using env [of "g(idx := q)" k] by simp
    with less.hyps [of "written + n"] n obtain g' where
      "pipe_write_loop env (Suc k) idx (written + n) src (env k (g(idx := q))) = Some (int (length src), g')"
      by fastforce
    with True w show ?thesis by (subst pipe_write_loop.simps) simp
  qed
qed

section \<open>Properties\<close>

text \<open>C16: A pipe is a byte stream. In any sequence of rounds of readers and writers, whatever amounts they
  ask for, the bytes delivered followed by the bytes still held are the bytes held before followed by
  the bytes accepted: none is lost, duplicated or reordered.\<close>

theorem pipe_stream:
  assumes "pipe_ok p" "pipe_run es p = (accepted, delivered, q)"
  shows "pipe_data p @ accepted = delivered @ pipe_data q \<and> length (pipe_data q) \<le> PIPE_BUF_SIZE"
  using pipe_run_stream [OF assms] by (simp add: pipe_ok_def pipe_data_def)

definition ex_pipe :: pipe where
  "ex_pipe = zero_pipe\<lparr>pp_used := True, pp_read_refs := 1, pp_write_refs := 1\<rparr>"

lemma ex_pipe_ok: "pipe_ok ex_pipe" "pipe_ready ex_pipe" "pipe_data ex_pipe = []"
  by (simp_all add: ex_pipe_def pipe_ok_def zero_pipe_def pipe_ready_def pipe_open_def pipe_data_def)

theorem pipe_stream_witness:
  "\<exists>q. pipe_run [Ev_write [1, 2, 3], Ev_read 2] ex_pipe = ([1, 2, 3], [1, 2], q) \<and> pipe_data q = [3]"
proof -
  have "fst (pipe_run [Ev_write [1, 2, 3], Ev_read 2] ex_pipe) = [1, 2, 3] \<and>
      fst (snd (pipe_run [Ev_write [1, 2, 3], Ev_read 2] ex_pipe)) = [1, 2]"
    by (simp add: ex_pipe_def zero_pipe_def pipe_write_round_def pipe_read_round_def Let_def numeral_2_eq_2)
  then obtain q where q: "pipe_run [Ev_write [1, 2, 3], Ev_read 2] ex_pipe = ([1, 2, 3], [1, 2], q)"
    by (metis prod.collapse)
  with pipe_stream [OF ex_pipe_ok(1) q] ex_pipe_ok(3) show ?thesis by simp
qed


definition ex_drain :: "nat \<Rightarrow> pipes \<Rightarrow> pipes" where
  "ex_drain k g = g(0 := snd (pipe_read_round 4096 (g 0)))"


text \<open>C39: The ends of a pipe. A write to a pipe without readers fails and changes nothing; a read from a pipe
  without writers delivers what is left and then reports the end of the file without blocking; reading
  the write end and writing the read end fail.\<close>

theorem pipe_ends:
  assumes "pipe_ok (g idx)" "pipe_lookup rfd g = Some idx" "\<not> write_end rfd" "pipe_lookup wfd g = Some idx"
    "write_end wfd" "0 < count" "src \<noteq> []"
  shows "(pp_read_refs (g idx) = 0 \<longrightarrow> pipe_write env wfd (Some src) g = Some (-1, g)) \<and>
    (pp_write_refs (g idx) = 0 \<longrightarrow> pipe_data (g idx) = [] \<longrightarrow> pipe_read env rfd True count g = Some (0, [], g)) \<and>
    (pipe_data (g idx) \<noteq> [] \<longrightarrow> (\<exists>g'. pipe_read env rfd True count g =
       Some (int (min count (length (pipe_data (g idx)))), take count (pipe_data (g idx)), g') \<and>
       pipe_data (g' idx) = drop count (pipe_data (g idx)))) \<and>
    pipe_read env wfd True count g = Some (-1, [], g) \<and> pipe_write env rfd (Some src) g = Some (-1, g)"
proof -
  have u: "pp_used (g idx)" using assms(2) by (auto simp: pipe_lookup_def Let_def split: if_splits)
  have "pipe_write_loop env 0 idx 0 src g = Some (-1, g)" if "pp_read_refs (g idx) = 0"
    using that assms(7) by (subst pipe_write_loop.simps) (simp add: pipe_write_round_def)
  moreover have "pipe_read_loop env 0 idx count g = Some ([], g)" if "pp_write_refs (g idx) = 0" "pipe_data (g idx) = []"
    using that u by (subst pipe_read_loop.simps) (simp add: pipe_read_round_def pipe_data_def)
  moreover have "\<exists>g'. pipe_read_loop env 0 idx count g = Some (take count (pipe_data (g idx)), g') \<and>
      pipe_data (g' idx) = drop count (pipe_data (g idx))" if ne: "pipe_data (g idx) \<noteq> []"
  proof -
    obtain r q where r: "pipe_read_round count (g idx) = (r, q)" by fastforce
    then obtain bs where bs: "r = Read_bytes bs"
      using ne u by (auto simp: pipe_read_round_def pipe_data_def Let_def split: if_splits prod.splits)
    then have "bs = take count (pipe_data (g idx))" "pipe_data q = drop count (pipe_data (g idx))"
      using read_round_data [OF assms(1) r] by (auto simp: append_eq_conv_conj) (metis append_take_drop_id same_append_eq)
    with r bs show ?thesis by (subst pipe_read_loop.simps) simp
  qed
  ultimately show ?thesis using assms by (auto simp: pipe_write_def pipe_read_def min.commute)
qed

theorem pipe_ends_witness:
  "pipe_read (\<lambda>_ g. g) 65 True 4 (\<lambda>_. ex_pipe) = Some (-1, [], \<lambda>_. ex_pipe) \<and>
   pipe_read (\<lambda>_ g. g) 64 True 4 (\<lambda>_. close_end True ex_pipe) = Some (0, [], \<lambda>_. close_end True ex_pipe)"
proof -
  have l: "pipe_lookup 65 (\<lambda>_. ex_pipe) = Some 0 \<and> pipe_lookup 64 (\<lambda>_. ex_pipe) = Some 0 \<and> write_end 65 \<and> \<not> write_end 64 \<and>
      pipe_lookup 65 (\<lambda>_. close_end True ex_pipe) = Some 0 \<and> pipe_lookup 64 (\<lambda>_. close_end True ex_pipe) = Some 0 \<and>
      pp_write_refs (close_end True ex_pipe) = 0 \<and> pp_data_bytes (close_end True ex_pipe) = 0 \<and>
      pipe_ok (close_end True ex_pipe)" by code_simp
  then have "pipe_data (close_end True ex_pipe) = []" by (simp add: pipe_data_def)
  with pipe_ends [of "\<lambda>_. ex_pipe" 0 64 65 4 "[1]" "\<lambda>_ g. g"] ex_pipe_ok(1) l
    pipe_ends [of "\<lambda>_. close_end True ex_pipe" 0 64 65 4 "[1]" "\<lambda>_ g. g"]
  show ?thesis by simp
qed

end
