(* ===== verification/Sched.thy ===== *)
theory Sched
  imports Prelude
begin

text \<open>
  The scheduler (\<^verbatim>\<open>src/kernel/sched/sched.c\<close>, \<^verbatim>\<open>sched.h\<close>, the context switch of
  \<^verbatim>\<open>src/kernel/arch/x86_64/context.S\<close>) and the posting of signals
  (\<^verbatim>\<open>proc_send_signal\<close> of \<^verbatim>\<open>src/kernel/proc/signal.c\<close>, which the exit path calls).

  Processes are named by their slot in the table \<^verbatim>\<open>procs[256]\<close>. A ready queue is the list of the
  slots its links visit; the invariant below shows that no slot is ever linked twice, so that the
  lists determine the \<^verbatim>\<open>next\<close> fields. \<open>stack_word\<close> holds the words of the kernel stacks that
  the scheduler itself writes, such as the overflow canary at the bottom. Each section between taking and releasing \<open>sched_lock\<close> is one
  atomic operation of the CPU that runs it. The window after the lock is released in the middle of a
  context switch is kept apart: \<open>in_switch\<close> is the process a CPU is leaving and whose context is not
  saved yet. Calls into the memory managers are recorded in \<open>calls\<close>, in order.
\<close>

section \<open>State\<close>

abbreviation (input) SCHED_MAX_PROCS :: nat where "SCHED_MAX_PROCS \<equiv> 256"
abbreviation (input) SCHED_NPRIO :: nat where "SCHED_NPRIO \<equiv> 3"
abbreviation (input) PRIO_NORMAL :: nat where "PRIO_NORMAL \<equiv> 1"
abbreviation (input) SCHED_STACK_SIZE :: u64 where "SCHED_STACK_SIZE \<equiv> 65536"
abbreviation (input) SCHED_WAIT_BACKSTOP_MS :: u64 where "SCHED_WAIT_BACKSTOP_MS \<equiv> 100"
abbreviation (input) XOS_NSIG :: int where "XOS_NSIG \<equiv> 32"
abbreviation (input) KSTACK_CANARY :: u64 where "KSTACK_CANARY \<equiv> 0x0BADF00DDEADBEEF"
abbreviation (input) PROC_CANARY :: u64 where "PROC_CANARY \<equiv> 0xDEADBEEFCAFEBABE"

datatype proc_state = PROC_DEAD | PROC_READY | PROC_RUNNING | PROC_BLOCKED

record fork_regs =
  fork_rbx :: u64
  fork_rbp :: u64
  fork_r12 :: u64
  fork_r13 :: u64
  fork_r14 :: u64
  fork_r15 :: u64
  fork_rflags :: u64
  fork_rdi :: u64
  fork_rsi :: u64
  fork_rdx :: u64
  fork_r8 :: u64
  fork_r9 :: u64
  fork_r10 :: u64

record ctx_regs =
  ctx_rbx :: u64
  ctx_rbp :: u64
  ctx_r12 :: u64
  ctx_r13 :: u64
  ctx_r14 :: u64
  ctx_r15 :: u64

record proc =
  p_pid :: u64
  p_state :: proc_state
  p_rsp :: u64
  p_rip :: u64
  p_pml4_phys :: u64
  p_pml4_virt :: u64
  p_kstack :: u64
  p_sleep_until :: u64
  p_ring3 :: bool
  p_parent_pid :: u64
  p_exit_code :: int
  p_reaped :: bool
  p_fork :: fork_regs
  p_name :: string
  p_sig_blocked :: u64
  p_sig_pending :: u64
  p_sig_handler :: "u64 carray"
  p_sig_mask :: "u64 carray"
  p_sig_flags :: "int carray"
  p_saved_rflags :: u64
  p_exiting :: bool
  p_saved_ret :: u64
  p_ctx :: ctx_regs
  p_canary :: u64
  p_no_preempt :: bool
  p_switching :: bool
  p_wait_chan :: u64
  p_priority :: u8
  p_tgid :: u64
  p_tid :: u64
  p_pml4_refcount :: int
  p_clear_tid_addr :: u64

text \<open>Per-CPU data. \<open>killing\<close> is the target of a \<open>proc_kill\<close> between its two locked sections.\<close>

record cpu_data =
  current_proc :: "nat option"
  idle_proc :: "nat option"
  need_resched :: bool
  cpu_rsp0 :: u64
  tss_rsp0 :: u64
  in_switch :: "nat option"
  killing :: "nat option"

text \<open>Calls into other components made while a process is torn down.\<close>

datatype sched_call =
    Clear_tid u64 u64          \<comment> \<open>store 0 at a user address of an address space\<close>
  | Load_kernel_cr3
  | Destroy_user u64
  | Free_frame u64
  | Kfree u64
  | Resched_ipi

record sched =
  procs :: "nat \<Rightarrow> proc"
  ready :: "nat \<Rightarrow> nat list"
  cpus :: "nat \<Rightarrow> cpu_data"
  cpu_count :: nat
  ticks :: u64
  ticks_hz :: u64
  stack_word :: "u64 \<Rightarrow> u64"
  calls :: "sched_call list"

definition upd_proc :: "nat \<Rightarrow> (proc \<Rightarrow> proc) \<Rightarrow> sched \<Rightarrow> sched" where
  "upd_proc i f s = s\<lparr>procs := (procs s)(i := f (procs s i))\<rparr>"

definition upd_cpu :: "nat \<Rightarrow> (cpu_data \<Rightarrow> cpu_data) \<Rightarrow> sched \<Rightarrow> sched" where
  "upd_cpu c f s = s\<lparr>cpus := (cpus s)(c := f (cpus s c))\<rparr>"

definition emit :: "sched_call \<Rightarrow> sched \<Rightarrow> sched" where
  "emit e s = s\<lparr>calls := calls s @ [e]\<rparr>"

text \<open>All linked slots, in the order the loops over the queues visit them.\<close>

definition linked :: "sched \<Rightarrow> nat list" where
  "linked s = ready s 0 @ ready s 1 @ ready s 2"

section \<open>Ready queues\<close>

definition ready_dequeue :: "nat \<Rightarrow> sched \<Rightarrow> sched" where
  "ready_dequeue p s =
     (case find (\<lambda>q. p \<in> set (ready s q)) [0..<SCHED_NPRIO] of
        Some q \<Rightarrow> s\<lparr>ready := (ready s)(q := remove1 p (ready s q))\<rparr>
      | None \<Rightarrow> s)"

definition queue_of :: "proc \<Rightarrow> nat" where
  "queue_of p = (if unat (p_priority p) \<ge> SCHED_NPRIO then PRIO_NORMAL else unat (p_priority p))"

definition ready_enqueue :: "nat \<Rightarrow> sched \<Rightarrow> sched" where
  "ready_enqueue p s =
     (let q = queue_of (procs s p) in
      if p \<in> set (ready s q) then s
      else s\<lparr>ready := (ready s)(q := ready s q @ [p])\<rparr>)"

text \<open>The loop that makes expired sleepers ready; it tells whether there was one.\<close>

definition expired :: "u64 \<Rightarrow> proc \<Rightarrow> bool" where
  "expired now p \<longleftrightarrow> p_state p = PROC_BLOCKED \<and> p_sleep_until p \<noteq> 0 \<and> now \<ge> p_sleep_until p"

definition wake_one :: "u64 \<Rightarrow> nat \<Rightarrow> sched \<times> bool \<Rightarrow> sched \<times> bool" where
  "wake_one now p = (\<lambda>(s, woke).
     if expired now (procs s p)
     then (upd_proc p (\<lambda>x. x\<lparr>p_state := PROC_READY, p_sleep_until := 0\<rparr>) s, True)
     else (s, woke))"

definition wake_expired :: "sched \<Rightarrow> sched \<times> bool" where
  "wake_expired s = fold (wake_one (ticks s)) (linked s) (s, False)"

text \<open>\<open>sched_wake_sleepers\<close> gives up when the lock is taken.\<close>

definition sched_wake_sleepers :: "nat \<Rightarrow> bool \<Rightarrow> sched \<Rightarrow> sched" where
  "sched_wake_sleepers c got_lock s =
     (if \<not> got_lock then s
      else let (s', woke) = wake_expired s
           in if woke then upd_cpu c (\<lambda>d. d\<lparr>need_resched := True\<rparr>) s' else s')"

section \<open>Process table\<close>

definition sched_proc_slot :: "int \<Rightarrow> nat option" where
  "sched_proc_slot idx = (if idx < 0 \<or> idx \<ge> 256 then None else Some (nat idx))"

definition proc_current :: "nat \<Rightarrow> sched \<Rightarrow> nat option" where
  "proc_current c s = current_proc (cpus s c)"

definition proc_set_current :: "nat \<Rightarrow> nat option \<Rightarrow> sched \<Rightarrow> sched" where
  "proc_set_current c p s = upd_cpu c (\<lambda>d. d\<lparr>current_proc := p\<rparr>) s"

definition proc_by_pid :: "u64 \<Rightarrow> sched \<Rightarrow> nat option" where
  "proc_by_pid pid s =
     find (\<lambda>i. p_tgid (procs s i) = pid \<and>
               (p_state (procs s i) \<noteq> PROC_DEAD \<or> \<not> p_reaped (procs s i))) [0..<SCHED_MAX_PROCS]"

definition sched_adopt_current :: "nat \<Rightarrow> nat \<Rightarrow> sched \<Rightarrow> sched" where
  "sched_adopt_current c p s =
     ready_dequeue p (proc_set_current c (Some p) (upd_proc p (\<lambda>x. x\<lparr>p_state := PROC_RUNNING\<rparr>) s))"

definition free_slot :: "proc \<Rightarrow> bool" where
  "free_slot p \<longleftrightarrow> p_state p = PROC_DEAD \<and> p_reaped p"

definition zero_fork_regs :: "fork_regs \<Rightarrow> fork_regs" where
  "zero_fork_regs r = r\<lparr>fork_rbx := 0, fork_rbp := 0, fork_r12 := 0, fork_r13 := 0, fork_r14 := 0,
                        fork_r15 := 0, fork_rflags := 0\<rparr>"

text \<open>What \<open>proc_create\<close> writes into slot \<open>i\<close>. The state stays \<open>PROC_DEAD\<close> with \<open>reaped = false\<close>, so that
  the slot is taken but not yet visible to the scheduler. Fields it does not mention keep the value
  of the previous process.\<close>

definition init_slot :: "nat \<Rightarrow> u64 \<Rightarrow> u64 \<Rightarrow> u64 \<Rightarrow> u64 \<Rightarrow> proc \<Rightarrow> proc" where
  "init_slot i entry phys virt kstack p =
     p\<lparr>p_pid := of_nat i, p_rip := entry, p_pml4_phys := phys, p_pml4_virt := virt,
       p_kstack := kstack, p_rsp := kstack + SCHED_STACK_SIZE - 8, p_sleep_until := 0,
       p_ring3 := False, p_parent_pid := 0, p_exit_code := 0, p_name := [],
       p_fork := zero_fork_regs (p_fork p), p_saved_rflags := 0,
       p_sig_blocked := 0, p_sig_pending := 0,
       p_sig_handler := (\<lambda>n. if n < 32 then 0 else p_sig_handler p n),
       p_sig_mask := (\<lambda>n. if n < 32 then 0 else p_sig_mask p n),
       p_sig_flags := (\<lambda>n. if n < 32 then 0 else p_sig_flags p n),
       p_reaped := False, p_exiting := False, p_canary := PROC_CANARY, p_no_preempt := False,
       p_switching := False, p_priority := of_nat PRIO_NORMAL, p_tgid := of_nat i, p_tid := of_nat i,
       p_pml4_refcount := 1, p_clear_tid_addr := 0\<rparr>"

definition proc_create :: "u64 \<Rightarrow> u64 \<Rightarrow> u64 \<Rightarrow> u64 \<Rightarrow> sched \<Rightarrow> nat option \<times> sched" where
  "proc_create entry phys virt kstack s =
     (case find (\<lambda>i. free_slot (procs s i)) [1..<SCHED_MAX_PROCS] of
        Some i \<Rightarrow>
          let s1 = upd_proc i (init_slot i entry phys virt kstack) s
          in (Some i, if kstack \<noteq> 0 then s1\<lparr>stack_word := (stack_word s1)(kstack := KSTACK_CANARY)\<rparr>
                      else s1)
      | None \<Rightarrow> (None, s))"

definition sched_notify_new_proc :: "bool \<Rightarrow> sched \<Rightarrow> sched" where
  "sched_notify_new_proc smp s = (if \<not> smp then s else emit Resched_ipi s)"

definition proc_make_ready :: "bool \<Rightarrow> nat \<Rightarrow> sched \<Rightarrow> sched" where
  "proc_make_ready smp p s =
     sched_notify_new_proc smp
       (ready_enqueue p (upd_proc p (\<lambda>x. x\<lparr>p_state := PROC_READY\<rparr>) s))"

definition proc_set_priority :: "nat \<Rightarrow> u8 \<Rightarrow> sched \<Rightarrow> sched" where
  "proc_set_priority p prio s =
     (if unat prio \<ge> SCHED_NPRIO then s
      else let x = procs s p;
               on_queue = (p_state x = PROC_READY \<or> p_state x = PROC_BLOCKED);
               s1 = (if on_queue \<and> p_priority x \<noteq> prio then ready_dequeue p s else s);
               s2 = upd_proc p (\<lambda>x. x\<lparr>p_priority := prio\<rparr>) s1
           in if on_queue then ready_enqueue p s2 else s2)"

section \<open>Posting a signal\<close>

abbreviation (input) XOS_SIG_DFL :: u64 where "XOS_SIG_DFL \<equiv> 0"
abbreviation (input) XOS_SIG_IGN :: u64 where "XOS_SIG_IGN \<equiv> 1"
abbreviation (input) XOS_SIGKILL :: int where "XOS_SIGKILL \<equiv> 9"
abbreviation (input) XOS_SIGTERM :: int where "XOS_SIGTERM \<equiv> 15"
abbreviation (input) XOS_SIGCHLD :: int where "XOS_SIGCHLD \<equiv> 20"
abbreviation (input) XOS_SIGSTOP :: int where "XOS_SIGSTOP \<equiv> 17"

definition XOS_SIGBIT :: "int \<Rightarrow> u64" where
  "XOS_SIGBIT sig = push_bit (nat sig) 1"

definition sig_default_ignore :: "int \<Rightarrow> bool" where
  "sig_default_ignore sig \<longleftrightarrow> sig = XOS_SIGCHLD \<or> sig = 16 \<or> sig = 28"

definition sig_uncatchable :: "int \<Rightarrow> bool" where
  "sig_uncatchable sig \<longleftrightarrow> sig = XOS_SIGKILL \<or> sig = XOS_SIGSTOP"

text \<open>What \<open>proc_send_signal\<close> decides for a live process: drop the signal, kill, or queue it.\<close>

datatype sig_verdict = Sig_drop | Sig_kill | Sig_queue

definition sig_verdict_for :: "proc \<Rightarrow> int \<Rightarrow> sig_verdict" where
  "sig_verdict_for p sig =
     (if sig = XOS_SIGKILL then Sig_kill
      else let handler = p_sig_handler p (nat sig) in
        if handler = XOS_SIG_IGN \<or> (handler = XOS_SIG_DFL \<and> sig_default_ignore sig) then Sig_drop
        else if handler = XOS_SIG_DFL then
          if sig = XOS_SIGTERM \<or> sig = 2 \<or> sig = 3 \<or> sig = 6 \<or> sig = 11 then Sig_kill else Sig_drop
        else if sig_uncatchable sig then Sig_kill
        else Sig_queue)"

text \<open>\<open>proc_send_signal\<close> calls \<open>proc_kill\<close>, which calls \<open>proc_exit\<close>, which posts a SIGCHLD: the function to
  kill with is an argument here, and the exit path, which only ever posts SIGCHLD, never reaches it.\<close>

definition send_signal_via :: "(u64 \<Rightarrow> sched \<Rightarrow> sched) \<Rightarrow> u64 \<Rightarrow> int \<Rightarrow> sched \<Rightarrow> int \<times> sched" where
  "send_signal_via kill pid sig s =
     (if sig \<le> 0 \<or> sig \<ge> XOS_NSIG then (-1, s)
      else case proc_by_pid pid s of
        None \<Rightarrow> (-1, s)
      | Some i \<Rightarrow>
          if p_state (procs s i) = PROC_DEAD then (-1, s)
          else case sig_verdict_for (procs s i) sig of
            Sig_drop \<Rightarrow> (0, s)
          | Sig_kill \<Rightarrow> (0, kill pid s)
          | Sig_queue \<Rightarrow>
              (0, upd_proc i (\<lambda>p. p\<lparr>p_sig_pending := p_sig_pending p OR XOS_SIGBIT sig\<rparr>) s))"

lemma sigchld_never_kills: "send_signal_via kill pid XOS_SIGCHLD s = send_signal_via kill' pid XOS_SIGCHLD s"
  by (auto simp: send_signal_via_def sig_verdict_for_def sig_default_ignore_def sig_uncatchable_def Let_def
      split: option.splits)

section \<open>Exit and kill\<close>

text \<open>The three parts of \<open>proc_exit\<close>: claim the exit under the lock, tear down without it, unlink under
  the lock. \<open>xlate\<close> is \<open>vmm_virt_to_phys\<close> on the address space of the process.\<close>

definition exit_claim :: "nat \<Rightarrow> sched \<Rightarrow> sched option" where
  "exit_claim p s =
     (if p_exiting (procs s p) then None
      else Some (upd_proc p (\<lambda>x. x\<lparr>p_exiting := True, p_state := PROC_DEAD, p_reaped := False\<rparr>) s))"

text \<open>\<open>sched_wake_chan\<close>: make every process that waits on the channel ready.\<close>

definition wake_chan_one :: "u64 \<Rightarrow> nat \<Rightarrow> sched \<times> bool \<Rightarrow> sched \<times> bool" where
  "wake_chan_one chan p = (\<lambda>(s, woke).
     if p_state (procs s p) = PROC_BLOCKED \<and> p_wait_chan (procs s p) = chan
     then (upd_proc p (\<lambda>x. x\<lparr>p_wait_chan := 0, p_sleep_until := 0, p_state := PROC_READY\<rparr>) s, True)
     else (s, woke))"

definition sched_wake_chan :: "nat \<Rightarrow> u64 \<Rightarrow> sched \<Rightarrow> sched" where
  "sched_wake_chan c chan s =
     (let (s', woke) = fold (wake_chan_one chan) (linked s) (s, False)
      in if woke then upd_cpu c (\<lambda>d. d\<lparr>need_resched := True\<rparr>) s' else s')"

definition exit_clear_tid :: "nat \<Rightarrow> (u64 \<Rightarrow> u64 \<Rightarrow> u64) \<Rightarrow> nat \<Rightarrow> sched \<Rightarrow> sched" where
  "exit_clear_tid c xlate p s =
     (let x = procs s p in
      if p_clear_tid_addr x \<noteq> 0 \<and> p_pml4_virt x \<noteq> 0 then
        if xlate (p_pml4_virt x) (p_clear_tid_addr x) \<noteq> 0
        then sched_wake_chan c (p_clear_tid_addr x)
               (emit (Clear_tid (p_pml4_virt x) (p_clear_tid_addr x)) s)
        else s
      else s)"

definition exit_notify_parent :: "nat \<Rightarrow> sched \<Rightarrow> sched" where
  "exit_notify_parent p s =
     (if p_parent_pid (procs s p) \<noteq> 0
      then snd (send_signal_via (\<lambda>_ s. s) (p_parent_pid (procs s p)) XOS_SIGCHLD s) else s)"

definition drop_space :: "proc \<Rightarrow> proc" where
  "drop_space x = x\<lparr>p_pml4_virt := 0, p_pml4_phys := 0\<rparr>"

definition exit_free_space :: "nat \<Rightarrow> nat \<Rightarrow> sched \<Rightarrow> sched" where
  "exit_free_space c p s =
     (let x = procs s p in
      if p_pml4_virt x = 0 then s
      else let remaining = p_pml4_refcount x - 1;
               s1 = upd_proc p (\<lambda>x. x\<lparr>p_pml4_refcount := remaining\<rparr>) s;
               s2 = (if proc_current c s = Some p then emit Load_kernel_cr3 s1 else s1);
               s3 = (if remaining \<le> 0
                     then emit (Free_frame (p_pml4_phys x)) (emit (Destroy_user (p_pml4_virt x)) s2)
                     else s2)
           in upd_proc p drop_space s3)"

definition exit_free_stack :: "nat \<Rightarrow> nat \<Rightarrow> sched \<Rightarrow> sched" where
  "exit_free_stack c p s =
     (if p_kstack (procs s p) \<noteq> 0 \<and> proc_current c s \<noteq> Some p
      then upd_proc p (\<lambda>x. x\<lparr>p_kstack := 0\<rparr>) (emit (Kfree (p_kstack (procs s p))) s)
      else s)"

definition exit_teardown :: "nat \<Rightarrow> (u64 \<Rightarrow> u64 \<Rightarrow> u64) \<Rightarrow> nat \<Rightarrow> sched \<Rightarrow> sched" where
  "exit_teardown c xlate p s =
     exit_free_stack c p (exit_free_space c p (exit_notify_parent p (exit_clear_tid c xlate p s)))"

definition exit_unlink :: "nat \<Rightarrow> sched \<Rightarrow> sched" where
  "exit_unlink p s = ready_dequeue p s"

definition proc_exit :: "nat \<Rightarrow> (u64 \<Rightarrow> u64 \<Rightarrow> u64) \<Rightarrow> nat \<Rightarrow> sched \<Rightarrow> sched" where
  "proc_exit c xlate p s =
     (case exit_claim p s of
        None \<Rightarrow> s
      | Some s1 \<Rightarrow> exit_unlink p (exit_teardown c xlate p s1))"

section \<open>Choosing the next process\<close>

definition pickable :: "proc \<Rightarrow> bool" where
  "pickable x \<longleftrightarrow> p_state x = PROC_READY \<and> \<not> p_switching x"

text \<open>The scan of the queues, from high to low priority: the queue and the slot found.\<close>

definition scan_queues :: "sched \<Rightarrow> (nat \<times> nat) option" where
  "scan_queues s =
     (case find (\<lambda>q. \<exists>p \<in> set (ready s q). pickable (procs s p)) [0..<SCHED_NPRIO] of
        Some q \<Rightarrow> map_option (\<lambda>p. (q, p)) (find (\<lambda>p. pickable (procs s p)) (ready s q))
      | None \<Rightarrow> None)"

text \<open>The recovery scan: ready, not linked and not live on any CPU.\<close>

definition stranded :: "sched \<Rightarrow> nat \<Rightarrow> bool" where
  "stranded s i \<longleftrightarrow> pickable (procs s i) \<and>
     (\<forall>c \<in> set [0..<cpu_count s]. current_proc (cpus s c) \<noteq> Some i) \<and> i \<notin> set (linked s)"

definition pick_next_ready :: "nat \<Rightarrow> sched \<Rightarrow> nat option \<times> sched" where
  "pick_next_ready c s0 =
     (let s = fst (wake_expired s0) in
      case scan_queues s of
        Some (q, p) \<Rightarrow> (Some p, s\<lparr>ready := (ready s)(q := remove1 p (ready s q))\<rparr>)
      | None \<Rightarrow>
          (case find (stranded s) [1..<SCHED_MAX_PROCS] of
             Some i \<Rightarrow> (Some i, s)
           | None \<Rightarrow> (current_proc (cpus s c), s)))"

section \<open>Yielding\<close>

text \<open>Hand the CPU from \<open>cur\<close> to \<open>nxt\<close>: up to the release of the lock. The context of \<open>cur\<close> is not
  saved yet; \<open>switch_done\<close> is the store in \<open>context_switch\<close> that says it is.\<close>

definition set_rsp0 :: "nat \<Rightarrow> nat \<Rightarrow> bool \<Rightarrow> sched \<Rightarrow> sched" where
  "set_rsp0 c nxt own s =
     upd_cpu c (\<lambda>d. d\<lparr>cpu_rsp0 := (if own then p_kstack (procs s nxt) + SCHED_STACK_SIZE else tss_rsp0 d)\<rparr>) s"

definition switch_to :: "nat \<Rightarrow> nat \<Rightarrow> nat \<Rightarrow> bool \<Rightarrow> u64 \<Rightarrow> sched \<Rightarrow> sched" where
  "switch_to c cur nxt own rflags s =
     (let s1 = upd_proc nxt (\<lambda>x. x\<lparr>p_state := PROC_RUNNING\<rparr>) s;
          s2 = set_rsp0 c nxt own (upd_cpu c (\<lambda>d. d\<lparr>current_proc := Some nxt\<rparr>) s1);
          s3 = upd_proc cur (\<lambda>x. x\<lparr>p_switching := True, p_saved_rflags := rflags\<rparr>) s2
      in upd_cpu c (\<lambda>d. d\<lparr>in_switch := Some cur\<rparr>) s3)"

definition switch_done :: "nat \<Rightarrow> sched \<Rightarrow> sched" where
  "switch_done c s =
     (case in_switch (cpus s c) of
        None \<Rightarrow> s
      | Some p \<Rightarrow> upd_cpu c (\<lambda>d. d\<lparr>in_switch := None\<rparr>) (upd_proc p (\<lambda>x. x\<lparr>p_switching := False\<rparr>) s))"

text \<open>The part of \<open>__sched_yield_locked\<close> after a process that was killed remotely has exited.\<close>

definition yield_pick :: "nat \<Rightarrow> u64 \<Rightarrow> nat \<Rightarrow> sched \<Rightarrow> sched" where
  "yield_pick c rflags cur s0 =
     (case pick_next_ready c s0 of
        (None, s) \<Rightarrow> s
      | (Some nxt, s) \<Rightarrow>
          let x = procs s cur in
          if nxt = cur \<and> p_state x = PROC_READY \<and> p_pid x \<noteq> 0 then
            upd_proc cur (\<lambda>x. x\<lparr>p_state := PROC_RUNNING\<rparr>) (ready_dequeue cur s)
          else if nxt = cur \<and> p_state x = PROC_RUNNING then s
          else if p_pid (procs s nxt) = 0 \<or> nxt = cur then
            if p_pid x \<noteq> 0 \<and> p_state x \<noteq> PROC_RUNNING \<and> p_state x \<noteq> PROC_READY then
              (case idle_proc (cpus s c) of
                 None \<Rightarrow> s
               | Some idle \<Rightarrow>
                   if idle = cur then s
                   else switch_to c cur idle (p_kstack (procs s idle) \<noteq> 0) rflags s)
            else s
          else
            let s1 = (if p_state x = PROC_RUNNING \<and> p_pid x \<noteq> 0
                      then ready_enqueue cur (upd_proc cur (\<lambda>x. x\<lparr>p_state := PROC_READY\<rparr>) s) else s)
            in switch_to c cur nxt (p_ring3 (procs s nxt)) rflags s1)"

definition sched_yield_locked :: "nat \<Rightarrow> (u64 \<Rightarrow> u64 \<Rightarrow> u64) \<Rightarrow> u64 \<Rightarrow> sched \<Rightarrow> sched" where
  "sched_yield_locked c xlate rflags s =
     (case current_proc (cpus s c) of
        None \<Rightarrow> s
      | Some cur \<Rightarrow>
          let s1 = (if p_state (procs s cur) = PROC_DEAD \<and> p_pid (procs s cur) \<noteq> 0
                    then proc_exit c xlate cur s else s)
          in yield_pick c rflags cur s1)"

definition sched_yield :: "nat \<Rightarrow> (u64 \<Rightarrow> u64 \<Rightarrow> u64) \<Rightarrow> u64 \<Rightarrow> sched \<Rightarrow> sched" where
  "sched_yield c xlate rflags s = sched_yield_locked c xlate rflags s"

definition sched_yield_try :: "nat \<Rightarrow> (u64 \<Rightarrow> u64 \<Rightarrow> u64) \<Rightarrow> bool \<Rightarrow> u64 \<Rightarrow> sched \<Rightarrow> bool \<times> sched" where
  "sched_yield_try c xlate got_lock rflags s =
     (if \<not> got_lock then (False, s) else (True, sched_yield_locked c xlate rflags s))"

definition sched_check_resched :: "nat \<Rightarrow> (u64 \<Rightarrow> u64 \<Rightarrow> u64) \<Rightarrow> u64 \<Rightarrow> sched \<Rightarrow> sched" where
  "sched_check_resched c xlate rflags s =
     (if \<not> need_resched (cpus s c) then s
      else case proc_current c s of
        Some cur \<Rightarrow>
          if p_no_preempt (procs s cur) then s
          else sched_yield c xlate rflags (upd_cpu c (\<lambda>d. d\<lparr>need_resched := False\<rparr>) s)
      | None \<Rightarrow> sched_yield c xlate rflags (upd_cpu c (\<lambda>d. d\<lparr>need_resched := False\<rparr>) s))"

text \<open>One round of the idle loop: consume the flag and yield, or halt until the next interrupt.\<close>

definition sched_idle_round :: "nat \<Rightarrow> (u64 \<Rightarrow> u64 \<Rightarrow> u64) \<Rightarrow> u64 \<Rightarrow> sched \<Rightarrow> sched" where
  "sched_idle_round c xlate rflags s =
     (if need_resched (cpus s c)
      then sched_yield c xlate rflags (upd_cpu c (\<lambda>d. d\<lparr>need_resched := False\<rparr>) s) else s)"

section \<open>Sleeping, waiting, killing\<close>

definition ms_to_ticks :: "u64 \<Rightarrow> u64 \<Rightarrow> u64" where
  "ms_to_ticks ms hz = (let t = (ms * hz + 999) div 1000 in if t = 0 then 1 else t)"

text \<open>\<open>proc_sleep\<close> of a process; the idle process busy-waits in the timer instead and changes nothing.\<close>

definition mark_blocked :: "nat \<Rightarrow> u64 \<Rightarrow> sched \<Rightarrow> sched" where
  "mark_blocked cur until s =
     ready_enqueue cur (upd_proc cur (\<lambda>x. x\<lparr>p_sleep_until := until, p_state := PROC_BLOCKED\<rparr>) s)"

definition proc_sleep :: "nat \<Rightarrow> (u64 \<Rightarrow> u64 \<Rightarrow> u64) \<Rightarrow> u64 \<Rightarrow> u64 \<Rightarrow> sched \<Rightarrow> sched" where
  "proc_sleep c xlate rflags ms s =
     (case proc_current c s of
        None \<Rightarrow> s
      | Some cur \<Rightarrow>
          if p_pid (procs s cur) = 0 then s
          else sched_yield_locked c xlate rflags
                 (mark_blocked cur (ticks s + ms_to_ticks ms (ticks_hz s)) s))"

text \<open>\<open>sched_block_on\<close> up to the switch. The caller's lock is released after the process is marked
  blocked and before \<open>sched_lock\<close> is. When the process runs again it clears its channel
  (\<open>block_return\<close>).\<close>

definition sched_block_on :: "nat \<Rightarrow> (u64 \<Rightarrow> u64 \<Rightarrow> u64) \<Rightarrow> u64 \<Rightarrow> u64 \<Rightarrow> u64 \<Rightarrow> sched \<Rightarrow> sched" where
  "sched_block_on c xlate rflags chan timeout_ms s =
     (let timeout = (if timeout_ms = 0 then SCHED_WAIT_BACKSTOP_MS else timeout_ms) in
      case current_proc (cpus s c) of
        None \<Rightarrow> s
      | Some cur \<Rightarrow>
          if p_pid (procs s cur) = 0 then s
          else sched_yield_locked c xlate rflags
                 (mark_blocked cur (ticks s + ms_to_ticks timeout (ticks_hz s))
                   (upd_proc cur (\<lambda>x. x\<lparr>p_wait_chan := chan\<rparr>) s)))"

definition block_return :: "nat \<Rightarrow> sched \<Rightarrow> sched" where
  "block_return cur s = upd_proc cur (\<lambda>x. x\<lparr>p_wait_chan := 0\<rparr>) s"

text \<open>\<open>proc_kill\<close>. \<open>kill_locked\<close> is its locked section for a target that is not the caller: a target that
  runs elsewhere is marked dead and its CPU told; any other target is unlinked and then exits.\<close>

datatype kill_path = Kill_nothing | Kill_self | Kill_remote | Kill_here

definition kill_path_for :: "nat \<Rightarrow> nat \<Rightarrow> sched \<Rightarrow> kill_path" where
  "kill_path_for c p s =
     (if p_pid (procs s p) = 0 \<or> p_exiting (procs s p) then Kill_nothing
      else if proc_current c s = Some p then Kill_self
      else if p_state (procs s p) = PROC_RUNNING then Kill_remote
      else Kill_here)"

definition kill_remote :: "bool \<Rightarrow> nat \<Rightarrow> sched \<Rightarrow> sched" where
  "kill_remote smp p s =
     (let s1 = upd_proc p (\<lambda>x. x\<lparr>p_state := PROC_DEAD, p_exiting := False, p_reaped := False\<rparr>) s
      in if smp then emit Resched_ipi s1 else s1)"

definition kill_unlink :: "nat \<Rightarrow> nat \<Rightarrow> sched \<Rightarrow> sched" where
  "kill_unlink c p s = upd_cpu c (\<lambda>d. d\<lparr>killing := Some p\<rparr>) (ready_dequeue p s)"

definition kill_finish :: "nat \<Rightarrow> sched \<Rightarrow> sched" where
  "kill_finish c s = upd_cpu c (\<lambda>d. d\<lparr>killing := None\<rparr>) s"

definition proc_kill :: "nat \<Rightarrow> (u64 \<Rightarrow> u64 \<Rightarrow> u64) \<Rightarrow> bool \<Rightarrow> u64 \<Rightarrow> u64 \<Rightarrow> sched \<Rightarrow> sched" where
  "proc_kill c xlate smp rflags pid s =
     (case proc_by_pid pid s of
        None \<Rightarrow> s
      | Some p \<Rightarrow>
          (case kill_path_for c p s of
             Kill_nothing \<Rightarrow> s
           | Kill_self \<Rightarrow> sched_yield c xlate rflags (proc_exit c xlate p s)
           | Kill_remote \<Rightarrow> kill_remote smp p s
           | Kill_here \<Rightarrow> kill_finish c (proc_exit c xlate p (kill_unlink c p s))))"

definition proc_send_signal :: "nat \<Rightarrow> (u64 \<Rightarrow> u64 \<Rightarrow> u64) \<Rightarrow> bool \<Rightarrow> u64 \<Rightarrow> u64 \<Rightarrow> int \<Rightarrow> sched \<Rightarrow> int \<times> sched" where
  "proc_send_signal c xlate smp rflags = send_signal_via (proc_kill c xlate smp rflags)"

section \<open>Initialisation and self-checks\<close>

definition zero_proc :: proc where
  "zero_proc =
     \<lparr>p_pid = 0, p_state = PROC_DEAD, p_rsp = 0, p_rip = 0, p_pml4_phys = 0, p_pml4_virt = 0,
      p_kstack = 0, p_sleep_until = 0, p_ring3 = False, p_parent_pid = 0, p_exit_code = 0,
      p_reaped = False,
      p_fork = \<lparr>fork_rbx = 0, fork_rbp = 0, fork_r12 = 0, fork_r13 = 0, fork_r14 = 0, fork_r15 = 0,
                fork_rflags = 0, fork_rdi = 0, fork_rsi = 0, fork_rdx = 0, fork_r8 = 0, fork_r9 = 0,
                fork_r10 = 0\<rparr>,
      p_name = [], p_sig_blocked = 0, p_sig_pending = 0, p_sig_handler = (\<lambda>_. 0),
      p_sig_mask = (\<lambda>_. 0), p_sig_flags = (\<lambda>_. 0), p_saved_rflags = 0, p_exiting = False,
      p_saved_ret = 0,
      p_ctx = \<lparr>ctx_rbx = 0, ctx_rbp = 0, ctx_r12 = 0, ctx_r13 = 0, ctx_r14 = 0, ctx_r15 = 0\<rparr>,
      p_canary = 0, p_no_preempt = False, p_switching = False, p_wait_chan = 0, p_priority = 0,
      p_tgid = 0, p_tid = 0, p_pml4_refcount = 0, p_clear_tid_addr = 0\<rparr>"

definition sched_early_init :: "sched \<Rightarrow> sched" where
  "sched_early_init s =
     s\<lparr>procs := (\<lambda>i. if i < SCHED_MAX_PROCS then zero_proc\<lparr>p_reaped := True\<rparr> else procs s i)\<rparr>"

text \<open>The fields both idle processes set: the one of the boot CPU in slot 0 and the one of an
  application processor in a free slot. \<open>loop\<close> is the address of \<open>idle_loop\<close>.\<close>

definition init_idle :: "u64 \<Rightarrow> u64 \<Rightarrow> u64 \<Rightarrow> u64 \<Rightarrow> proc \<Rightarrow> proc" where
  "init_idle cr3 kpml4 kstack loop p =
     p\<lparr>p_pid := 0, p_state := PROC_RUNNING, p_pml4_phys := cr3, p_pml4_virt := kpml4,
       p_ring3 := False, p_kstack := kstack, p_canary := PROC_CANARY,
       p_rsp := kstack + SCHED_STACK_SIZE - 8, p_saved_ret := loop, p_rip := loop\<rparr>"

definition sched_init :: "nat \<Rightarrow> u64 \<Rightarrow> u64 \<Rightarrow> u64 \<Rightarrow> u64 \<Rightarrow> sched \<Rightarrow> sched" where
  "sched_init c cr3 kpml4 kstack loop s =
     (let s1 = upd_proc 0 (init_idle cr3 kpml4 kstack loop) s;
          s2 = s1\<lparr>stack_word := (stack_word s1)(kstack := KSTACK_CANARY,
                 kstack + SCHED_STACK_SIZE - 8 := 0)\<rparr>;
          s3 = upd_cpu c (\<lambda>d. d\<lparr>current_proc := Some 0, idle_proc := Some 0\<rparr>) s2
      in s3\<lparr>ready := (\<lambda>q. if q < SCHED_NPRIO then [] else ready s3 q)\<rparr>)"

definition sched_init_ap :: "nat \<Rightarrow> u64 \<Rightarrow> u64 \<Rightarrow> u64 \<Rightarrow> u64 \<Rightarrow> sched \<Rightarrow> sched" where
  "sched_init_ap c cr3 kpml4 kstack loop s =
     (case find (\<lambda>i. free_slot (procs s i)) [1..<SCHED_MAX_PROCS] of
        None \<Rightarrow> s
      | Some i \<Rightarrow>
          let s1 = upd_proc i (\<lambda>p. (init_idle cr3 kpml4 kstack loop p)\<lparr>p_reaped := True\<rparr>) s;
              s2 = s1\<lparr>stack_word := (stack_word s1)(kstack := KSTACK_CANARY,
                     kstack + SCHED_STACK_SIZE - 32 := 0xCAFEBABEDEADC0DE,
                     kstack + SCHED_STACK_SIZE - 8 := 0)\<rparr>
          in upd_cpu c (\<lambda>d. d\<lparr>current_proc := Some i, idle_proc := Some i,
                              cpu_rsp0 := kstack + SCHED_STACK_SIZE\<rparr>) s2)"

text \<open>\<open>sched_check_canaries\<close>: the slot whose check halts the machine, if any.\<close>

definition canary_bad :: "sched \<Rightarrow> nat \<Rightarrow> bool" where
  "canary_bad s i \<longleftrightarrow> p_state (procs s i) \<noteq> PROC_DEAD \<and> p_kstack (procs s i) \<noteq> 0 \<and>
     (stack_word s (p_kstack (procs s i)) \<noteq> KSTACK_CANARY \<or> p_canary (procs s i) \<noteq> PROC_CANARY)"

definition sched_check_canaries :: "sched \<Rightarrow> nat option" where
  "sched_check_canaries s = find (canary_bad s) [0..<SCHED_MAX_PROCS]"

section \<open>The register context\<close>

text \<open>The machine state \<open>context_switch\<close> saves and loads: the callee-saved registers, the stack
  pointer, the return address on top of the stack, and CR3. The return address is popped before the
  jump, so the stack pointer comes back 8 bytes higher than it was saved.\<close>

record machine =
  m_regs :: ctx_regs
  m_rsp :: u64
  m_ret :: u64
  m_cr3 :: u64
  m_rsp0 :: u64

definition context_save :: "machine \<Rightarrow> proc \<Rightarrow> proc" where
  "context_save m p = p\<lparr>p_rip := m_ret m, p_saved_ret := m_ret m, p_ctx := m_regs m, p_rsp := m_rsp m,
                        p_switching := False\<rparr>"

text \<open>\<open>None\<close>: \<open>saved_ret\<close> is not in the upper half and \<open>context_switch_panic\<close> halts.\<close>

definition context_load :: "u64 \<Rightarrow> u64 \<Rightarrow> proc \<Rightarrow> machine \<Rightarrow> machine option" where
  "context_load from_phys tss p m =
     (if drop_bit 32 (p_saved_ret p) \<noteq> 0xFFFFFFFF then None
      else Some \<lparr>m_regs = p_ctx p, m_rsp = p_rsp p + 8, m_ret = p_saved_ret p,
                 m_cr3 = (if p_pml4_phys p \<noteq> 0 \<and> p_pml4_phys p \<noteq> from_phys then p_pml4_phys p else m_cr3 m),
                 m_rsp0 = (if p_ring3 p \<or> p_kstack p \<noteq> 0 then p_kstack p + SCHED_STACK_SIZE else tss)\<rparr>)"

section \<open>Frame facts\<close>

lemma upd_proc_simps [simp]:
  "procs (upd_proc i f s) = (procs s)(i := f (procs s i))" "ready (upd_proc i f s) = ready s"
  "cpus (upd_proc i f s) = cpus s" "cpu_count (upd_proc i f s) = cpu_count s" "ticks (upd_proc i f s) = ticks s"
  "ticks_hz (upd_proc i f s) = ticks_hz s" "linked (upd_proc i f s) = linked s"
  by (simp_all add: upd_proc_def linked_def)

lemma upd_cpu_simps [simp]:
  "procs (upd_cpu c g s) = procs s" "ready (upd_cpu c g s) = ready s"
  "cpus (upd_cpu c g s) = (cpus s)(c := g (cpus s c))" "cpu_count (upd_cpu c g s) = cpu_count s"
  "ticks (upd_cpu c g s) = ticks s" "ticks_hz (upd_cpu c g s) = ticks_hz s" "linked (upd_cpu c g s) = linked s"
  by (simp_all add: upd_cpu_def linked_def)

lemma emit_simps [simp]:
  "procs (emit e s) = procs s" "ready (emit e s) = ready s" "cpus (emit e s) = cpus s"
  "cpu_count (emit e s) = cpu_count s" "ticks (emit e s) = ticks s" "ticks_hz (emit e s) = ticks_hz s"
  "linked (emit e s) = linked s"
  by (simp_all add: emit_def linked_def)

lemma less_3: "(q::nat) < 3 \<longleftrightarrow> q = 0 \<or> q = 1 \<or> q = 2"
  by auto

lemma in_linked: "p \<in> set (linked s) \<longleftrightarrow> (\<exists>q<3. p \<in> set (ready s q))"
  by (auto simp: linked_def less_3)

lemma linked_upd: "q < 3 \<Longrightarrow> linked (s\<lparr>ready := (ready s)(q := xs)\<rparr>) =
    (if q = 0 then xs @ ready s 1 @ ready s 2 else if q = 1 then ready s 0 @ xs @ ready s 2
     else ready s 0 @ ready s 1 @ xs)"
  by (auto simp: linked_def less_3)

lemma ready_dequeue_fields [simp]:
  "procs (ready_dequeue p s) = procs s" "cpus (ready_dequeue p s) = cpus s"
  "cpu_count (ready_dequeue p s) = cpu_count s" "ticks (ready_dequeue p s) = ticks s"
  "ticks_hz (ready_dequeue p s) = ticks_hz s"
  by (simp_all add: ready_dequeue_def split: option.splits)

lemma ready_enqueue_fields [simp]:
  "procs (ready_enqueue p s) = procs s" "cpus (ready_enqueue p s) = cpus s"
  "cpu_count (ready_enqueue p s) = cpu_count s" "ticks (ready_enqueue p s) = ticks s"
  "ticks_hz (ready_enqueue p s) = ticks_hz s"
  by (simp_all add: ready_enqueue_def Let_def)

lemma queue_of_less [simp]: "queue_of x < 3"
  by (simp add: queue_of_def)

lemma remove_linked:
  assumes "distinct (linked s)" "q < 3" "p \<in> set (ready s q)"
  shows "distinct (linked (s\<lparr>ready := (ready s)(q := remove1 p (ready s q))\<rparr>))"
    "set (linked (s\<lparr>ready := (ready s)(q := remove1 p (ready s q))\<rparr>)) = set (linked s) - {p}"
proof -
  have d: "distinct (ready s q)" using assms(1,2) by (auto simp: linked_def less_3)
  show "distinct (linked (s\<lparr>ready := (ready s)(q := remove1 p (ready s q))\<rparr>))"
    using assms d unfolding linked_upd [OF assms(2)]
    by (auto simp: linked_def less_3 dest: notin_set_remove1)
  show "set (linked (s\<lparr>ready := (ready s)(q := remove1 p (ready s q))\<rparr>)) = set (linked s) - {p}"
    using assms d unfolding linked_upd [OF assms(2)]
    by (auto simp: linked_def less_3)
qed

lemma ready_dequeue_linked:
  assumes "distinct (linked s)"
  shows "distinct (linked (ready_dequeue p s))" "set (linked (ready_dequeue p s)) = set (linked s) - {p}"
    "set (ready (ready_dequeue p s) q) \<subseteq> set (ready s q)"
proof -
  have "distinct (linked (ready_dequeue p s)) \<and> set (linked (ready_dequeue p s)) = set (linked s) - {p}
      \<and> set (ready (ready_dequeue p s) q) \<subseteq> set (ready s q)"
  proof (cases "find (\<lambda>q. p \<in> set (ready s q)) [0..<3]")
    case None
    then have "p \<notin> set (linked s)" by (auto simp: find_upt_None in_linked)
    with None assms show ?thesis by (simp add: ready_dequeue_def)
  next
    case (Some r)
    note r = find_upt_SomeD [OF Some]
    then show ?thesis
      using remove_linked [OF assms r(2,3)] Some set_remove1_subset [of p "ready s r"]
      by (auto simp: ready_dequeue_def)
  qed
  then show "distinct (linked (ready_dequeue p s))" "set (linked (ready_dequeue p s)) = set (linked s) - {p}"
    "set (ready (ready_dequeue p s) q) \<subseteq> set (ready s q)" by blast+
qed

lemma ready_enqueue_linked:
  assumes "distinct (linked s)" "p \<notin> set (linked s)"
  shows "distinct (linked (ready_enqueue p s))" "set (linked (ready_enqueue p s)) = insert p (set (linked s))"
    "ready (ready_enqueue p s) = (ready s)(queue_of (procs s p) := ready s (queue_of (procs s p)) @ [p])"
proof -
  let ?q = "queue_of (procs s p)"
  have q: "?q < 3" by simp
  have nin: "p \<notin> set (ready s ?q)" using assms(2) q in_linked by blast
  then have e: "ready_enqueue p s = s\<lparr>ready := (ready s)(?q := ready s ?q @ [p])\<rparr>"
    by (simp add: ready_enqueue_def Let_def)
  show "ready (ready_enqueue p s) = (ready s)(?q := ready s ?q @ [p])" by (simp add: e)
  show "distinct (linked (ready_enqueue p s))" "set (linked (ready_enqueue p s)) = insert p (set (linked s))"
    using assms q unfolding e linked_upd [OF q] by (auto simp: linked_def less_3)
qed

section \<open>The invariant\<close>

text \<open>A CPU is on the kernel stack of the process it runs, and of the process it is leaving.\<close>

definition on_cpu :: "sched \<Rightarrow> nat \<Rightarrow> nat \<Rightarrow> bool" where
  "on_cpu s c p \<longleftrightarrow> current_proc (cpus s c) = Some p \<or> in_switch (cpus s c) = Some p"

text \<open>The invariant, up to a set of exempt processes: a process that has just marked itself blocked is
  linked while its CPU still runs it, until the yield that follows.\<close>

definition queues_ok :: "sched \<Rightarrow> bool" where
  "queues_ok s \<longleftrightarrow>
     distinct (linked s) \<and>
     (\<forall>p \<in> set (linked s). 0 < p \<and> p < SCHED_MAX_PROCS \<and> p_pid (procs s p) \<noteq> 0 \<and>
        p_state (procs s p) \<noteq> PROC_RUNNING) \<and>
     (\<forall>q < 3. \<forall>p \<in> set (ready s q). p_state (procs s p) \<noteq> PROC_DEAD \<longrightarrow> queue_of (procs s p) = q)"

definition cpus_ok :: "sched \<Rightarrow> bool" where
  "cpus_ok s \<longleftrightarrow>
     (\<forall>p. p_switching (procs s p) \<longleftrightarrow> (\<exists>c < cpu_count s. in_switch (cpus s c) = Some p)) \<and>
     (\<forall>c < cpu_count s. \<forall>d < cpu_count s. \<forall>p. on_cpu s c p \<longrightarrow> on_cpu s d p \<longrightarrow> c = d) \<and>
     (\<forall>c < cpu_count s. \<exists>i. idle_proc (cpus s c) = Some i \<and> i < SCHED_MAX_PROCS \<and>
        p_pid (procs s i) = 0 \<and> p_state (procs s i) = PROC_RUNNING) \<and>
     (\<forall>c < cpu_count s. \<forall>d < cpu_count s. idle_proc (cpus s c) = idle_proc (cpus s d) \<longrightarrow> c = d) \<and>
     (\<forall>c < cpu_count s. \<forall>p. on_cpu s c p \<longrightarrow> p < SCHED_MAX_PROCS \<and>
        (p_pid (procs s p) = 0 \<longrightarrow> idle_proc (cpus s c) = Some p)) \<and>
     (\<forall>c < cpu_count s. current_proc (cpus s c) \<noteq> None)"

definition live_ok :: "nat set \<Rightarrow> sched \<Rightarrow> bool" where
  "live_ok ex s \<longleftrightarrow>
     (\<forall>c < cpu_count s. \<forall>p. current_proc (cpus s c) = Some p \<longrightarrow> p \<notin> ex \<longrightarrow>
        p \<notin> set (linked s) \<and> (p_state (procs s p) = PROC_RUNNING \<or> p_state (procs s p) = PROC_DEAD))"

definition table_ok :: "sched \<Rightarrow> bool" where
  "table_ok s \<longleftrightarrow>
     (\<forall>p < SCHED_MAX_PROCS. p_pid (procs s p) = 0 \<longrightarrow>
        p_state (procs s p) = PROC_DEAD \<or> p_state (procs s p) = PROC_RUNNING) \<and>
     (\<forall>p < SCHED_MAX_PROCS. free_slot (procs s p) \<longrightarrow>
        p \<notin> set (linked s) \<and> (\<forall>c < cpu_count s. \<not> on_cpu s c p)) \<and>
     (\<forall>p < SCHED_MAX_PROCS. p_state (procs s p) = PROC_BLOCKED \<longrightarrow>
        p \<in> set (linked s) \<or> (\<exists>c < cpu_count s. killing (cpus s c) = Some p)) \<and>
     p_pid (procs s 0) = 0"

definition sched_inv_ex :: "nat set \<Rightarrow> sched \<Rightarrow> bool" where
  "sched_inv_ex ex s \<longleftrightarrow> queues_ok s \<and> cpus_ok s \<and> live_ok ex s \<and> table_ok s"

abbreviation sched_inv :: "sched \<Rightarrow> bool" where
  "sched_inv \<equiv> sched_inv_ex {}"

lemma queues_okD:
  assumes "queues_ok s"
  shows "distinct (linked s)" "p \<in> set (linked s) \<Longrightarrow> 0 < p" "p \<in> set (linked s) \<Longrightarrow> p < SCHED_MAX_PROCS"
    "p \<in> set (linked s) \<Longrightarrow> p_pid (procs s p) \<noteq> 0"
    "q < 3 \<Longrightarrow> p \<in> set (ready s q) \<Longrightarrow> p_state (procs s p) \<noteq> PROC_DEAD \<Longrightarrow> queue_of (procs s p) = q"
    "p \<in> set (linked s) \<Longrightarrow> p_state (procs s p) \<noteq> PROC_RUNNING"
  using assms unfolding queues_ok_def by blast+

lemma cpus_okD:
  assumes "cpus_ok s"
  shows "p_switching (procs s p) \<longleftrightarrow> (\<exists>c < cpu_count s. in_switch (cpus s c) = Some p)"
    "c < cpu_count s \<Longrightarrow> d < cpu_count s \<Longrightarrow> on_cpu s c p \<Longrightarrow> on_cpu s d p \<Longrightarrow> c = d"
    "c < cpu_count s \<Longrightarrow> \<exists>i. idle_proc (cpus s c) = Some i \<and> i < SCHED_MAX_PROCS \<and>
        p_pid (procs s i) = 0 \<and> p_state (procs s i) = PROC_RUNNING"
    "c < cpu_count s \<Longrightarrow> d < cpu_count s \<Longrightarrow> idle_proc (cpus s c) = idle_proc (cpus s d) \<Longrightarrow> c = d"
    "c < cpu_count s \<Longrightarrow> on_cpu s c p \<Longrightarrow> p < SCHED_MAX_PROCS"
    "c < cpu_count s \<Longrightarrow> on_cpu s c p \<Longrightarrow> p_pid (procs s p) = 0 \<Longrightarrow> idle_proc (cpus s c) = Some p"
    "c < cpu_count s \<Longrightarrow> current_proc (cpus s c) \<noteq> None"
  using assms unfolding cpus_ok_def by blast+

lemma live_okD:
  assumes "live_ok ex s" "c < cpu_count s" "current_proc (cpus s c) = Some p" "p \<notin> ex"
  shows "p \<notin> set (linked s)" "p_state (procs s p) = PROC_RUNNING \<or> p_state (procs s p) = PROC_DEAD"
  using assms unfolding live_ok_def by blast+

lemma table_okD:
  assumes "table_ok s" "p < SCHED_MAX_PROCS"
  shows "p_pid (procs s p) = 0 \<Longrightarrow> p_state (procs s p) = PROC_DEAD \<or> p_state (procs s p) = PROC_RUNNING"
    "free_slot (procs s p) \<Longrightarrow> p \<notin> set (linked s)"
    "free_slot (procs s p) \<Longrightarrow> c < cpu_count s \<Longrightarrow> \<not> on_cpu s c p"
    "p_state (procs s p) = PROC_BLOCKED \<Longrightarrow>
        p \<in> set (linked s) \<or> (\<exists>c < cpu_count s. killing (cpus s c) = Some p)"
  using assms unfolding table_ok_def by blast+

lemma slot_0: "table_ok s \<Longrightarrow> p_pid (procs s 0) = 0"
  by (simp add: table_ok_def)

lemma sched_inv_parts: "sched_inv_ex ex s \<Longrightarrow> queues_ok s" "sched_inv_ex ex s \<Longrightarrow> cpus_ok s"
  "sched_inv_ex ex s \<Longrightarrow> live_ok ex s" "sched_inv_ex ex s \<Longrightarrow> table_ok s"
  by (simp_all add: sched_inv_ex_def)

lemma sched_inv_mono: "sched_inv_ex ex s \<Longrightarrow> ex \<subseteq> ex' \<Longrightarrow> sched_inv_ex ex' s"
  unfolding sched_inv_ex_def live_ok_def by blast

text \<open>What the invariant looks at.\<close>

definition proc_view :: "proc \<Rightarrow> u64 \<times> proc_state \<times> bool \<times> bool \<times> nat" where
  "proc_view p = (p_pid p, p_state p, p_switching p, p_reaped p, queue_of p)"

definition cpu_view :: "cpu_data \<Rightarrow> nat option \<times> nat option \<times> nat option \<times> nat option" where
  "cpu_view d = (current_proc d, idle_proc d, in_switch d, killing d)"

lemma sched_inv_cong:
  assumes "ready t = ready s" "cpu_count t = cpu_count s" "\<And>p. proc_view (procs t p) = proc_view (procs s p)"
    "\<And>c. cpu_view (cpus t c) = cpu_view (cpus s c)"
  shows "sched_inv_ex ex t = sched_inv_ex ex s"
proof -
  have p: "p_pid (procs t p) = p_pid (procs s p)" "p_state (procs t p) = p_state (procs s p)"
    "p_switching (procs t p) = p_switching (procs s p)" "p_reaped (procs t p) = p_reaped (procs s p)"
    "queue_of (procs t p) = queue_of (procs s p)" for p
    using assms(3) [of p] by (simp_all add: proc_view_def)
  have c: "current_proc (cpus t c) = current_proc (cpus s c)" "idle_proc (cpus t c) = idle_proc (cpus s c)"
    "in_switch (cpus t c) = in_switch (cpus s c)" "killing (cpus t c) = killing (cpus s c)" for c
    using assms(4) [of c] by (simp_all add: cpu_view_def)
  have l: "linked t = linked s" by (simp add: linked_def assms(1))
  show ?thesis
    unfolding sched_inv_ex_def queues_ok_def cpus_ok_def live_ok_def table_ok_def on_cpu_def free_slot_def
      p c l assms(1,2) ..
qed

text \<open>Waking: some linked blocked processes become ready.\<close>

definition woken :: "sched \<Rightarrow> sched \<Rightarrow> bool" where
  "woken s t \<longleftrightarrow> ready t = ready s \<and> cpu_count t = cpu_count s \<and>
     (\<forall>c. cpu_view (cpus t c) = cpu_view (cpus s c)) \<and>
     (\<forall>p. p_pid (procs t p) = p_pid (procs s p) \<and> p_switching (procs t p) = p_switching (procs s p) \<and>
          p_reaped (procs t p) = p_reaped (procs s p) \<and> queue_of (procs t p) = queue_of (procs s p)) \<and>
     (\<forall>p. p_state (procs t p) = p_state (procs s p) \<or>
        (p \<in> set (linked s) \<and> p_state (procs s p) = PROC_BLOCKED \<and> p_state (procs t p) = PROC_READY))"

lemma queue_of_simps [simp]: "queue_of (x\<lparr>p_state := v\<rparr>) = queue_of x" "queue_of (x\<lparr>p_sleep_until := u\<rparr>) = queue_of x"
  "queue_of (x\<lparr>p_wait_chan := w\<rparr>) = queue_of x" "queue_of (x\<lparr>p_switching := b\<rparr>) = queue_of x"
  "queue_of (x\<lparr>p_saved_rflags := r\<rparr>) = queue_of x" "queue_of (x\<lparr>p_exiting := b\<rparr>) = queue_of x"
  "queue_of (x\<lparr>p_reaped := b\<rparr>) = queue_of x"
  by (simp_all add: queue_of_def)

lemma woken_inv:
  assumes inv: "sched_inv_ex ex s" and w: "woken s t"
  shows "sched_inv_ex ex t"
proof -
  have c: "current_proc (cpus t c) = current_proc (cpus s c)" "idle_proc (cpus t c) = idle_proc (cpus s c)"
    "in_switch (cpus t c) = in_switch (cpus s c)" "killing (cpus t c) = killing (cpus s c)" for c
    using w by (simp_all add: cpu_view_def woken_def)
  have n: "cpu_count t = cpu_count s" and r: "ready t = ready s" using w by (auto simp: woken_def)
  then have l: "linked t = linked s" by (simp add: linked_def)
  have p: "p_pid (procs t p) = p_pid (procs s p)" "p_switching (procs t p) = p_switching (procs s p)"
    "p_reaped (procs t p) = p_reaped (procs s p)" "queue_of (procs t p) = queue_of (procs s p)" for p
    using w unfolding woken_def by blast+
  have st: "p_state (procs t p) = p_state (procs s p) \<or>
      (p \<in> set (linked s) \<and> p_state (procs s p) = PROC_BLOCKED \<and> p_state (procs t p) = PROC_READY)" for p
    using w unfolding woken_def by blast
  have on: "on_cpu t = on_cpu s" by (simp add: on_cpu_def fun_eq_iff c)
  have dead: "p_state (procs t p) = PROC_DEAD \<longleftrightarrow> p_state (procs s p) = PROC_DEAD"
    "p_state (procs t p) = PROC_RUNNING \<longleftrightarrow> p_state (procs s p) = PROC_RUNNING" for p using st [of p] by auto
  have blk: "p_state (procs t p) = PROC_BLOCKED \<Longrightarrow> p_state (procs s p) = PROC_BLOCKED" for p
    using st [of p] by auto
  have q: "queues_ok t" using sched_inv_parts(1) [OF inv]
    unfolding queues_ok_def l r n c p dead .
  have u: "cpus_ok t" using sched_inv_parts(2) [OF inv]
    unfolding cpus_ok_def n c p dead on .
  have v: "live_ok ex t" using sched_inv_parts(3) [OF inv]
    unfolding live_ok_def l n c dead .
  have "table_ok t" using sched_inv_parts(4) [OF inv] blk
    unfolding table_ok_def free_slot_def l n c p dead on by blast
  with q u v show ?thesis by (simp add: sched_inv_ex_def)
qed

lemma woken_trans: "woken s t \<Longrightarrow> woken t u \<Longrightarrow> woken s u"
  by (auto simp: woken_def linked_def) metis+

lemma woken_refl [simp]: "woken s s"
  by (simp add: woken_def)

lemma fold_woken:
  assumes "\<And>p a. p \<in> set ps \<Longrightarrow> linked (fst a) = linked s \<Longrightarrow> woken (fst a) (fst (f p a))"
  shows "linked (fst a) = linked s \<Longrightarrow> woken (fst a) (fst (fold f ps a))"
  using assms
proof (induction ps arbitrary: a)
  case (Cons p ps)
  have 1: "woken (fst a) (fst (f p a))" using Cons.prems by simp
  then have "linked (fst (f p a)) = linked s" using Cons.prems(1) by (simp add: woken_def linked_def)
  then have "woken (fst (f p a)) (fst (fold f ps (f p a)))" using Cons.prems(2) by (intro Cons.IH) auto
  with 1 show ?case using woken_trans by auto
qed simp

lemma wake_one_woken: "p \<in> set (linked (fst a)) \<Longrightarrow> woken (fst a) (fst (wake_one now p a))"
  by (cases a) (auto simp: wake_one_def woken_def expired_def)

lemma wake_chan_one_woken: "p \<in> set (linked (fst a)) \<Longrightarrow> woken (fst a) (fst (wake_chan_one chan p a))"
  by (cases a) (auto simp: wake_chan_one_def woken_def)

lemma wake_expired_woken: "woken s (fst (wake_expired s))"
  unfolding wake_expired_def
  using fold_woken [of "linked s" s "wake_one (ticks s)" "(s, False)"] wake_one_woken by simp

lemma woken_cpu: "woken s t \<Longrightarrow> (\<And>d. cpu_view (g d) = cpu_view d) \<Longrightarrow> woken s (upd_cpu c g t)"
  by (auto simp: woken_def)

lemma sched_wake_chan_woken: "woken s (sched_wake_chan c chan s)"
proof -
  have "woken s (fst (fold (wake_chan_one chan) (linked s) (s, False)))"
    using fold_woken [of "linked s" s "wake_chan_one chan" "(s, False)"] wake_chan_one_woken by simp
  then show ?thesis
    by (auto simp: sched_wake_chan_def cpu_view_def intro: woken_cpu split: prod.splits)
qed

lemma sched_wake_sleepers_woken: "woken s (sched_wake_sleepers c b s)"
  using wake_expired_woken [of s]
  by (auto simp: sched_wake_sleepers_def cpu_view_def intro: woken_cpu split: prod.splits)

text \<open>A process is linked and no longer running: it may still be run by the CPU that links it.\<close>

lemma link_inv:
  assumes inv: "sched_inv_ex ex s" and cur256: "cur < SCHED_MAX_PROCS"
    and pid: "p_pid (procs s cur) \<noteq> 0" and nl: "cur \<notin> set (linked s)"
    and f: "p_pid (f (procs s cur)) = p_pid (procs s cur)"
      "p_switching (f (procs s cur)) = p_switching (procs s cur)"
      "p_state (f (procs s cur)) = PROC_READY \<or> p_state (f (procs s cur)) = PROC_BLOCKED"
  shows "sched_inv_ex (insert cur ex) (ready_enqueue cur (upd_proc cur f s))"
    "cur \<in> set (linked (ready_enqueue cur (upd_proc cur f s)))"
proof -
  let ?t = "ready_enqueue cur (upd_proc cur f s)"
  note Q = queues_okD [OF sched_inv_parts(1) [OF inv]] and C = cpus_okD [OF sched_inv_parts(2) [OF inv]]
    and L = live_okD [OF sched_inv_parts(3) [OF inv]] and T = table_okD [OF sched_inv_parts(4) [OF inv]]
  have cur: "cur < 256" "0 < cur"
    using cur256 slot_0 [OF sched_inv_parts(4) [OF inv]] pid by (auto intro: gr0I)
  have d: "distinct (linked (upd_proc cur f s))" "cur \<notin> set (linked (upd_proc cur f s))"
    using Q(1) nl by simp_all
  note E = ready_enqueue_linked [OF d]
  show "cur \<in> set (linked ?t)" using E(2) by simp
  have on_eq: "on_cpu ?t = on_cpu s" by (simp add: on_cpu_def fun_eq_iff)
  have notd: "p_state (f (procs s cur)) \<noteq> PROC_DEAD" "p_state (f (procs s cur)) \<noteq> PROC_RUNNING"
    using f(3) by auto
  have nq: "q < 3 \<Longrightarrow> cur \<notin> set (ready s q)" for q using nl in_linked by blast
  have "queues_ok ?t"
    unfolding queues_ok_def using E Q nq pid f(1) notd cur by (auto split: if_splits)
  moreover have "cpus_ok ?t"
    unfolding cpus_ok_def on_eq
  proof (intro conjI allI impI)
    fix d assume d: "d < cpu_count ?t"
    then obtain i where "idle_proc (cpus s d) = Some i" "i < 256" "p_pid (procs s i) = 0"
      "p_state (procs s i) = PROC_RUNNING" using C(3) [of d] by auto
    moreover from this pid have "i \<noteq> cur" by auto
    ultimately show "\<exists>i. idle_proc (cpus ?t d) = Some i \<and> i < 256 \<and> p_pid (procs ?t i) = 0 \<and>
        p_state (procs ?t i) = PROC_RUNNING" by simp
  qed (use C f pid in \<open>auto split: if_splits\<close>)
  moreover have "live_ok (insert cur ex) ?t"
    unfolding live_ok_def using L E(2) by auto
  moreover have "table_ok ?t"
    unfolding table_ok_def using T slot_0 [OF sched_inv_parts(4) [OF inv]] E(2) on_eq f pid notd cur
    by (auto simp: free_slot_def split: if_splits)
  ultimately show "sched_inv_ex (insert cur ex) ?t" by (simp add: sched_inv_ex_def)
qed

lemma dequeue_inv:
  assumes inv: "sched_inv_ex ex s" and p: "p_state (procs s p) \<noteq> PROC_BLOCKED"
  shows "sched_inv_ex ex (ready_dequeue p s)"
proof -
  let ?t = "ready_dequeue p s"
  note Q = queues_okD [OF sched_inv_parts(1) [OF inv]] and T = table_okD [OF sched_inv_parts(4) [OF inv]]
  note E = ready_dequeue_linked [OF Q(1), of p]
  have on_eq: "on_cpu ?t = on_cpu s" by (simp add: on_cpu_def fun_eq_iff)
  have sub: "x \<in> set (ready ?t q) \<Longrightarrow> x \<in> set (ready s q)" for x q using E(3) by blast
  have "queues_ok ?t" unfolding queues_ok_def using E(1,2) Q sub by auto
  moreover have "cpus_ok ?t" using sched_inv_parts(2) [OF inv] unfolding cpus_ok_def on_eq by simp
  moreover have "live_ok ex ?t" using sched_inv_parts(3) [OF inv] unfolding live_ok_def using E(2) by auto
  moreover have "table_ok ?t"
    unfolding table_ok_def using T slot_0 [OF sched_inv_parts(4) [OF inv]] E(2) on_eq p by simp blast
  ultimately show ?thesis by (simp add: sched_inv_ex_def)
qed

lemma switch_to_view:
  assumes "nxt \<noteq> cur"
  shows "procs (switch_to c cur nxt own r s) =
      (procs s)(nxt := (procs s nxt)\<lparr>p_state := PROC_RUNNING\<rparr>,
                cur := (procs s cur)\<lparr>p_switching := True, p_saved_rflags := r\<rparr>)"
    "linked (switch_to c cur nxt own r s) = linked s" "ready (switch_to c cur nxt own r s) = ready s"
    "cpu_count (switch_to c cur nxt own r s) = cpu_count s"
    "d \<noteq> c \<Longrightarrow> cpus (switch_to c cur nxt own r s) d = cpus s d"
    "current_proc (cpus (switch_to c cur nxt own r s) c) = Some nxt"
    "in_switch (cpus (switch_to c cur nxt own r s) c) = Some cur"
    "idle_proc (cpus (switch_to c cur nxt own r s) d) = idle_proc (cpus s d)"
    "killing (cpus (switch_to c cur nxt own r s) d) = killing (cpus s d)"
  using assms by (auto simp: switch_to_def set_rsp0_def Let_def)

text \<open>The switch itself. The process that is left keeps the CPU until its context is saved, and may be
  linked and no longer running.\<close>

lemma switch_to_inv:
  assumes inv: "sched_inv_ex {cur} s" and c: "c < cpu_count s" "current_proc (cpus s c) = Some cur"
      "in_switch (cpus s c) = None"
    and nxt: "nxt \<noteq> cur" "nxt < SCHED_MAX_PROCS" "\<And>d. d < cpu_count s \<Longrightarrow> \<not> on_cpu s d nxt"
      "nxt \<notin> set (linked s)" "p_pid (procs s nxt) = 0 \<Longrightarrow> idle_proc (cpus s c) = Some nxt"
  shows "sched_inv (switch_to c cur nxt own r s)"
proof -
  let ?t = "switch_to c cur nxt own r s"
  note Q = queues_okD [OF sched_inv_parts(1) [OF inv]] and C = cpus_okD [OF sched_inv_parts(2) [OF inv]]
    and L = live_okD [OF sched_inv_parts(3) [OF inv]] and T = table_okD [OF sched_inv_parts(4) [OF inv]]
  note V = switch_to_view [OF nxt(1), where r = r and s = s and c = c and own = own]
  have on: "on_cpu s c cur" using c by (simp add: on_cpu_def)
  have on': "on_cpu ?t d p \<longleftrightarrow> (if d = c then p = nxt \<or> p = cur else on_cpu s d p)" for d p
    using V(5-7) by (auto simp: on_cpu_def)
  have cur_c: "d < cpu_count s \<Longrightarrow> on_cpu s d cur \<Longrightarrow> d = c" for d using C(2) [OF _ c(1) _ on] by blast
  have sw: "in_switch (cpus ?t d) = (if d = c then Some cur else in_switch (cpus s d))" for d
    using V(5,7) by simp
  have cp: "current_proc (cpus ?t d) = (if d = c then Some nxt else current_proc (cpus s d))" for d
    using V(5,6) by simp
  have nsw: "p_switching (procs s p) \<longleftrightarrow> (\<exists>d < cpu_count s. d \<noteq> c \<and> in_switch (cpus s d) = Some p)" for p
    using C(1) [of p] c(3) by auto
  have nq: "q < 3 \<Longrightarrow> nxt \<notin> set (ready s q)" for q using nxt(4) in_linked by blast
  have "queues_ok ?t" unfolding queues_ok_def V using Q nxt(4) nq by (auto split: if_splits)
  moreover have "cpus_ok ?t"
    unfolding cpus_ok_def V(4,8)
  proof (intro conjI allI impI)
    show "p_switching (procs ?t p) \<longleftrightarrow> (\<exists>d < cpu_count s. in_switch (cpus ?t d) = Some p)" for p
      using nsw [of p] c(1) by (auto simp: V(1) sw)
    show "d = e" if "d < cpu_count s" "e < cpu_count s" "on_cpu ?t d p" "on_cpu ?t e p" for d e p
      using that C(2) nxt(3) cur_c by (auto simp: on' split: if_splits)
    show "\<exists>i. idle_proc (cpus s d) = Some i \<and> i < 256 \<and> p_pid (procs ?t i) = 0 \<and>
        p_state (procs ?t i) = PROC_RUNNING" if "d < cpu_count s" for d
      using C(3) [OF that] by (auto simp: V(1))
    show "d = e" if "d < cpu_count s" "e < cpu_count s" "idle_proc (cpus s d) = idle_proc (cpus s e)" for d e
      using C(4) that .
    show "p < 256" if "d < cpu_count s" "on_cpu ?t d p" for d p
      using that C(5) on c nxt(2) by (auto simp: on' split: if_splits)
    show "idle_proc (cpus s d) = Some p" if "d < cpu_count s" "on_cpu ?t d p" "p_pid (procs ?t p) = 0" for d p
      using that C(6) on nxt(5) nxt(1) by (auto simp: on' V(1) split: if_splits)
    show "current_proc (cpus ?t d) \<noteq> None" if "d < cpu_count s" for d
      using C(7) [OF that] by (simp add: cp)
  qed
  moreover have "live_ok {} ?t"
    unfolding live_ok_def
  proof (intro allI impI)
    fix d p assume "d < cpu_count ?t" and p: "current_proc (cpus ?t d) = Some p"
    then have d: "d < cpu_count s" by (simp add: V(4))
    show "p \<notin> set (linked ?t) \<and> (p_state (procs ?t p) = PROC_RUNNING \<or> p_state (procs ?t p) = PROC_DEAD)"
    proof (cases "d = c")
      case True
      with p have "p = nxt" by (simp add: cp)
      with nxt(1,4) show ?thesis by (simp only: V(1,2)) simp
    next
      case False
      with p have "current_proc (cpus s d) = Some p" by (simp add: cp)
      moreover from this False cur_c [OF d] have "p \<noteq> cur" by (auto simp: on_cpu_def)
      ultimately show ?thesis using L [OF d] by (simp add: V)
    qed
  qed
  moreover have "table_ok ?t"
    unfolding table_ok_def V(2,4,9)
  proof (intro conjI allI impI)
    fix p :: nat assume p: "p < 256"
    show "p_state (procs ?t p) = PROC_DEAD \<or> p_state (procs ?t p) = PROC_RUNNING" if "p_pid (procs ?t p) = 0"
      using that T(1) [OF p] by (auto simp: V(1) split: if_splits)
    have fr: "free_slot (procs s p) \<and> p \<noteq> cur \<and> p \<noteq> nxt" if "free_slot (procs ?t p)"
      using that T(3) [OF p _ c(1)] on nxt(1) by (auto simp: V(1) free_slot_def split: if_splits)
    show "p \<notin> set (linked s)" if "free_slot (procs ?t p)" using fr [OF that] T(2) [OF p] by simp
    show "\<not> on_cpu ?t d p" if "free_slot (procs ?t p)" "d < cpu_count s" for d
      using fr [OF that(1)] T(3) [OF p _ that(2)] by (simp add: on')
    show "p \<in> set (linked s) \<or> (\<exists>d < cpu_count s. killing (cpus s d) = Some p)"
      if "p_state (procs ?t p) = PROC_BLOCKED"
      using that T(4) [OF p] by (auto simp: V(1) split: if_splits)
  next
    show "p_pid (procs ?t 0) = 0"
      using slot_0 [OF sched_inv_parts(4) [OF inv]] by (simp add: V(1))
  qed
  ultimately show ?thesis by (simp add: sched_inv_ex_def)
qed

lemma run_again_inv:
  assumes inv: "sched_inv_ex {cur} s" and c: "c < cpu_count s" "current_proc (cpus s c) = Some cur"
    and cur: "cur \<notin> set (linked s)"
  shows "sched_inv (upd_proc cur (\<lambda>x. x\<lparr>p_state := PROC_RUNNING\<rparr>) s)"
proof -
  let ?t = "upd_proc cur (\<lambda>x. x\<lparr>p_state := PROC_RUNNING\<rparr>) s"
  note Q = queues_okD [OF sched_inv_parts(1) [OF inv]] and C = cpus_okD [OF sched_inv_parts(2) [OF inv]]
    and L = live_okD [OF sched_inv_parts(3) [OF inv]] and T = table_okD [OF sched_inv_parts(4) [OF inv]]
  have on_eq: "on_cpu ?t = on_cpu s" by (simp add: on_cpu_def fun_eq_iff)
  have nq: "q < 3 \<Longrightarrow> cur \<notin> set (ready s q)" for q using cur in_linked by blast
  have "queues_ok ?t" unfolding queues_ok_def using Q nq cur by (auto split: if_splits)
  moreover have "\<exists>i. idle_proc (cpus s d) = Some i \<and> i < 256 \<and> p_pid (procs ?t i) = 0 \<and>
      p_state (procs ?t i) = PROC_RUNNING" if "d < cpu_count s" for d using C(3) [OF that] by auto
  then have "cpus_ok ?t" using sched_inv_parts(2) [OF inv] unfolding cpus_ok_def on_eq by simp
  moreover have "live_ok {} ?t" unfolding live_ok_def using L cur by auto
  moreover have "table_ok ?t" unfolding table_ok_def on_eq
    using T slot_0 [OF sched_inv_parts(4) [OF inv]] by (auto simp: free_slot_def split: if_splits)
  ultimately show ?thesis by (simp add: sched_inv_ex_def)
qed

lemma scan_queues_Some:
  assumes "scan_queues s = Some (q, p)"
  shows "q < 3" "p \<in> set (ready s q)" "pickable (procs s p)"
    "\<And>r x. r < q \<Longrightarrow> x \<in> set (ready s r) \<Longrightarrow> \<not> pickable (procs s x)"
proof -
  obtain r where r: "find (\<lambda>q. \<exists>p \<in> set (ready s q). pickable (procs s p)) [0..<3] = Some r"
    "find (\<lambda>p. pickable (procs s p)) (ready s r) = Some p" "r = q"
    using assms by (auto simp: scan_queues_def split: option.splits)
  show "q < 3" "\<And>r x. r < q \<Longrightarrow> x \<in> set (ready s r) \<Longrightarrow> \<not> pickable (procs s x)"
    using find_upt_SomeD [OF r(1)] r(3) by auto
  show "p \<in> set (ready s q)" "pickable (procs s p)"
    using r(2,3) by (auto simp: find_Some_iff)
qed

lemma dequeue_scan:
  assumes "distinct (linked s)" "q < 3" "p \<in> set (ready s q)"
  shows "s\<lparr>ready := (ready s)(q := remove1 p (ready s q))\<rparr> = ready_dequeue p s"
proof -
  have u: "r = q" if "r < 3" "p \<in> set (ready s r)" for r
    using assms that by (auto simp: linked_def less_3)
  have "find (\<lambda>q. p \<in> set (ready s q)) [0..<3] \<noteq> None" using assms(2,3) by (auto simp: find_None_iff)
  then obtain r where r: "find (\<lambda>q. p \<in> set (ready s q)) [0..<3] = Some r" by auto
  with find_upt_SomeD [OF this] u have "r = q" by simp
  with r show ?thesis by (simp add: ready_dequeue_def)
qed

text \<open>The three outcomes of \<open>pick_next_ready\<close>.\<close>

lemma pick_cases [consumes 1, case_names queue rescue stay]:
  assumes "pick_next_ready c s0 = (nxt, s)"
  obtains
    (queue) q p w where "w = fst (wake_expired s0)" "scan_queues w = Some (q, p)" "nxt = Some p"
      "s = w\<lparr>ready := (ready w)(q := remove1 p (ready w q))\<rparr>"
  | (rescue) p where "s = fst (wake_expired s0)" "0 < p" "p < SCHED_MAX_PROCS" "stranded s p" "nxt = Some p"
      "scan_queues s = None"
  | (stay) "s = fst (wake_expired s0)" "nxt = current_proc (cpus s c)" "scan_queues s = None"
proof -
  let ?w = "fst (wake_expired s0)"
  show thesis
  proof (cases "scan_queues ?w")
    case (Some qp)
    with assms show ?thesis by (cases qp) (auto simp: pick_next_ready_def Let_def intro: queue)
  next
    case scan: None
    show ?thesis
    proof (cases "find (stranded ?w) [1..<256]")
      case None
      with scan assms have "s = ?w" "nxt = current_proc (cpus ?w c)" by (auto simp: pick_next_ready_def Let_def)
      with scan show ?thesis by (intro stay) simp_all
    next
      case (Some i)
      with scan assms have "s = ?w" "nxt = Some i" by (simp_all add: pick_next_ready_def Let_def)
      with find_upt_SomeD [OF Some] scan show ?thesis by (intro rescue) simp_all
    qed
  qed
qed

lemma switch_away_inv:
  assumes inv: "sched_inv_ex ex s" and ex: "ex \<subseteq> {cur}" "ex \<noteq> {} \<Longrightarrow> p_state (procs s cur) \<noteq> PROC_RUNNING"
    and c: "c < cpu_count s" "current_proc (cpus s c) = Some cur" "in_switch (cpus s c) = None"
    and nxt: "nxt \<noteq> cur" "nxt < SCHED_MAX_PROCS" "\<And>d. d < cpu_count s \<Longrightarrow> \<not> on_cpu s d nxt"
      "nxt \<notin> set (linked s)" "p_pid (procs s nxt) \<noteq> 0"
  shows "sched_inv (switch_to c cur nxt own r
     (if p_state (procs s cur) = PROC_RUNNING \<and> p_pid (procs s cur) \<noteq> 0
      then ready_enqueue cur (upd_proc cur (\<lambda>x. x\<lparr>p_state := PROC_READY\<rparr>) s) else s))"
proof (cases "p_state (procs s cur) = PROC_RUNNING \<and> p_pid (procs s cur) \<noteq> 0")
  case True
  let ?f = "\<lambda>x. x\<lparr>p_state := PROC_READY\<rparr>" and ?s1 = "ready_enqueue cur (upd_proc cur (\<lambda>x. x\<lparr>p_state := PROC_READY\<rparr>) s)"
  have e: "ex = {}" using ex True by blast
  have nl: "cur \<notin> set (linked s)" using live_okD(1) [OF sched_inv_parts(3) [OF inv] c(1,2)] e by simp
  have d: "distinct (linked (upd_proc cur ?f s))" "cur \<notin> set (linked (upd_proc cur ?f s))"
    using queues_okD(1) [OF sched_inv_parts(1) [OF inv]] nl by simp_all
  have i: "sched_inv_ex {cur} ?s1"
    using link_inv(1) [OF inv _ _ nl, of ?f] cpus_okD(5) [OF sched_inv_parts(2) [OF inv] c(1)] c(2) True e
    by (simp add: on_cpu_def)
  have "sched_inv (switch_to c cur nxt own r ?s1)"
    by (rule switch_to_inv [OF i])
      (use c nxt ready_enqueue_linked(2) [OF d] in \<open>auto simp: on_cpu_def split: if_splits\<close>)
  with True show ?thesis by simp
next
  case False
  have "sched_inv (switch_to c cur nxt own r s)"
    by (rule switch_to_inv [OF sched_inv_mono [OF inv ex(1)] c nxt(1-4)]) (use nxt in auto)
  then show ?thesis unfolding if_not_P [OF False] .
qed

lemma switch_idle_inv:
  assumes inv: "sched_inv_ex ex s" and ex: "ex \<subseteq> {cur}"
    and c: "c < cpu_count s" "current_proc (cpus s c) = Some cur" "in_switch (cpus s c) = None"
    and idle: "idle_proc (cpus s c) = Some i" "i \<noteq> cur"
  shows "sched_inv (switch_to c cur i own r s)"
proof -
  note Q = queues_okD [OF sched_inv_parts(1) [OF inv]] and C = cpus_okD [OF sched_inv_parts(2) [OF inv]]
  have i: "i < 256" "p_pid (procs s i) = 0" using C(3) [OF c(1)] idle by auto
  have dc: "d = c" if "d < cpu_count s" "on_cpu s d i" for d
    using C(4) [OF that(1) c(1)] C(6) [OF that i(2)] idle by simp
  have off: "\<not> on_cpu s d i" if "d < cpu_count s" for d
  proof
    assume "on_cpu s d i"
    with dc [OF that] have "on_cpu s c i" by simp
    with c idle(2) show False by (simp add: on_cpu_def)
  qed
  show ?thesis
    by (rule switch_to_inv [OF sched_inv_mono [OF inv ex] c idle(2) i(1) off])
      (use Q(4) i(2) idle(1) in auto)
qed

text \<open>A process that can be picked is on no CPU, the caller apart.\<close>

lemma pickable_off_cpu:
  assumes inv: "sched_inv_ex ex s" and ex: "ex \<subseteq> {cur}" and p: "pickable (procs s p)" "p \<noteq> cur"
    and d: "d < cpu_count s"
  shows "\<not> on_cpu s d p"
proof
  assume "on_cpu s d p"
  moreover have "in_switch (cpus s d) \<noteq> Some p"
    using cpus_okD(1) [OF sched_inv_parts(2) [OF inv]] p(1) d by (auto simp: pickable_def)
  ultimately have "current_proc (cpus s d) = Some p" by (simp add: on_cpu_def)
  then have "p_state (procs s p) = PROC_RUNNING \<or> p_state (procs s p) = PROC_DEAD"
    using live_okD(2) [OF sched_inv_parts(3) [OF inv] d] ex p(2) by blast
  with p(1) show False by (simp add: pickable_def)
qed

text \<open>Yielding. \<open>ex\<close> is empty for a plain yield; for a process that has just marked itself blocked it
  is that process, which is linked then.\<close>

definition yield_pre :: "nat set \<Rightarrow> nat \<Rightarrow> nat \<Rightarrow> sched \<Rightarrow> bool" where
  "yield_pre ex c cur s \<longleftrightarrow> sched_inv_ex ex s \<and> c < cpu_count s \<and> current_proc (cpus s c) = Some cur \<and>
     in_switch (cpus s c) = None \<and> ex \<subseteq> {cur} \<and>
     (ex \<noteq> {} \<longrightarrow> cur \<in> set (linked s) \<and> p_state (procs s cur) \<noteq> PROC_RUNNING \<and> p_state (procs s cur) \<noteq> PROC_DEAD)"

lemma yield_pre_woken:
  assumes "yield_pre ex c cur s" "woken s w"
  shows "yield_pre ex c cur w"
proof -
  have l: "linked w = linked s" using assms(2) by (simp add: woken_def linked_def)
  have "p_state (procs w cur) = p_state (procs s cur) \<or> p_state (procs w cur) = PROC_READY"
    using assms(2) unfolding woken_def by blast
  moreover have "cpu_view (cpus w c) = cpu_view (cpus s c)" "cpu_count w = cpu_count s"
    using assms(2) by (auto simp: woken_def)
  moreover have "sched_inv_ex ex w" using woken_inv assms by (auto simp: yield_pre_def)
  ultimately show ?thesis using assms(1) by (auto simp: yield_pre_def l cpu_view_def)
qed

lemma yield_queue_inv:
  assumes pre: "yield_pre ex c cur w" and scan: "scan_queues w = Some (q, p)"
    and pick: "pick_next_ready c s0 = (Some p, ready_dequeue p w)"
  shows "sched_inv (yield_pick c rflags cur s0)"
proof -
  have inv: "sched_inv_ex ex w" and c: "c < cpu_count w" "current_proc (cpus w c) = Some cur"
      "in_switch (cpus w c) = None" and ex: "ex \<subseteq> {cur}"
      "ex \<noteq> {} \<Longrightarrow> p_state (procs w cur) \<noteq> PROC_RUNNING"
    using pre by (auto simp: yield_pre_def)
  note Q = queues_okD [OF sched_inv_parts(1) [OF inv]]
  note S = scan_queues_Some [OF scan]
  have lp: "p \<in> set (linked w)" using S(1,2) in_linked by blast
  have st: "p_state (procs w p) = PROC_READY" using S(3) by (simp add: pickable_def)
  let ?s = "ready_dequeue p w"
  have iu: "sched_inv_ex ex ?s" using dequeue_inv [OF inv, of p] st by simp
  have nl: "p \<notin> set (linked ?s)" using ready_dequeue_linked(2) [OF Q(1), of p] by simp
  have cs: "c < cpu_count ?s" "current_proc (cpus ?s c) = Some cur" "in_switch (cpus ?s c) = None" using c by auto
  show ?thesis
  proof (cases "p = cur")
    case True
    have n2: "cur \<notin> set (linked (ready_dequeue cur ?s))"
      using nl True ready_dequeue_linked(2) [OF queues_okD(1) [OF sched_inv_parts(1) [OF iu]], of p] by simp
    have "sched_inv_ex {cur} (ready_dequeue cur ?s)"
      using dequeue_inv [OF sched_inv_mono [OF iu ex(1)], of cur] st True by simp
    from run_again_inv [OF this _ _ n2] c pick st Q(4) [OF lp] True show ?thesis
      by (auto simp: yield_pick_def Let_def)
  next
    case False
    have "sched_inv (switch_to c cur p (p_ring3 (procs ?s p)) rflags
      (if p_state (procs ?s cur) = PROC_RUNNING \<and> p_pid (procs ?s cur) \<noteq> 0
       then ready_enqueue cur (upd_proc cur (\<lambda>x. x\<lparr>p_state := PROC_READY\<rparr>) ?s) else ?s))"
      by (rule switch_away_inv [OF iu ex(1) _ cs False])
        (use ex(2) Q(3,4) [OF lp] nl pickable_off_cpu [OF inv ex(1) S(3) False] in \<open>auto simp: on_cpu_def\<close>)
    with pick False Q(4) [OF lp] show ?thesis by (simp add: yield_pick_def Let_def)
  qed
qed

lemma yield_stay_inv:
  assumes pre: "yield_pre ex c cur w" and scan: "scan_queues w = None"
    and pick: "pick_next_ready c s0 = (Some cur, w)"
  shows "sched_inv (yield_pick c rflags cur s0)"
proof -
  have inv: "sched_inv_ex ex w" and c: "c < cpu_count w" "current_proc (cpus w c) = Some cur"
      "in_switch (cpus w c) = None" and ex: "ex \<subseteq> {cur}"
    using pre by (auto simp: yield_pre_def)
  note Q = queues_okD [OF sched_inv_parts(1) [OF inv]]
  obtain i where i: "idle_proc (cpus w c) = Some i" "p_pid (procs w i) = 0"
    using cpus_okD(3) [OF sched_inv_parts(2) [OF inv] c(1)] by blast
  have inv0: "sched_inv w" if "p_pid (procs w cur) = 0 \<or> p_state (procs w cur) = PROC_RUNNING"
  proof -
    have "ex = {}" using pre that Q(4) by (auto simp: yield_pre_def)
    with inv show ?thesis by simp
  qed
  consider (ready) "p_state (procs w cur) = PROC_READY" "p_pid (procs w cur) \<noteq> 0"
    | (run) "p_state (procs w cur) = PROC_RUNNING \<or> p_pid (procs w cur) = 0"
    | (off) "p_state (procs w cur) \<noteq> PROC_READY" "p_state (procs w cur) \<noteq> PROC_RUNNING" "p_pid (procs w cur) \<noteq> 0"
    by blast
  then show ?thesis
  proof cases
    case ready
    have n2: "cur \<notin> set (linked (ready_dequeue cur w))" using ready_dequeue_linked(2) [OF Q(1)] by simp
    have "sched_inv_ex {cur} (ready_dequeue cur w)"
      using dequeue_inv [OF sched_inv_mono [OF inv ex(1)], of cur] ready by simp
    from run_again_inv [OF this _ _ n2] c pick ready show ?thesis by (auto simp: yield_pick_def Let_def)
  next
    case run
    with inv0 pick show ?thesis by (auto simp: yield_pick_def Let_def)
  next
    case off
    then have "i \<noteq> cur" using i by auto
    with switch_idle_inv [OF inv ex c i(1)] pick off i(1) show ?thesis by (simp add: yield_pick_def Let_def)
  qed
qed

lemma yield_pick_inv:
  assumes pre: "yield_pre ex c cur s0"
  shows "sched_inv (yield_pick c rflags cur s0)"
proof -
  let ?w = "fst (wake_expired s0)"
  have w: "yield_pre ex c cur ?w" using yield_pre_woken [OF pre wake_expired_woken] .
  then have inv: "sched_inv_ex ex ?w" by (simp add: yield_pre_def)
  obtain nxt s where pick: "pick_next_ready c s0 = (nxt, s)" by fastforce
  then show ?thesis
  proof (cases rule: pick_cases)
    case (queue q p u)
    note S = scan_queues_Some [OF queue(2)]
    have "s = ready_dequeue p u"
      using dequeue_scan [OF _ S(1,2)] queue queues_okD(1) [OF sched_inv_parts(1) [OF inv]] by simp
    with yield_queue_inv [OF _ queue(2)] w pick queue show ?thesis by simp
  next
    case (rescue p)
    have ex: "ex \<subseteq> {cur}" "ex \<noteq> {} \<Longrightarrow> p_state (procs ?w cur) \<noteq> PROC_RUNNING"
      and c: "c < cpu_count ?w" "current_proc (cpus ?w c) = Some cur" "in_switch (cpus ?w c) = None"
      using w by (auto simp: yield_pre_def)
    have p: "pickable (procs ?w p)" "p \<notin> set (linked ?w)" "p \<noteq> cur"
      using rescue c by (auto simp: stranded_def)
    have pid: "p_pid (procs ?w p) \<noteq> 0"
      using table_okD(1) [OF sched_inv_parts(4) [OF inv] rescue(3)] p(1) by (auto simp: pickable_def)
    from switch_away_inv [OF inv ex c p(3) rescue(3) pickable_off_cpu [OF inv ex(1) p(1,3)] p(2) pid]
    show ?thesis using pick rescue(1,5) p(3) pid by (simp add: yield_pick_def Let_def)
  next
    case stay
    then show ?thesis using yield_stay_inv [OF w] pick w by (simp add: yield_pre_def)
  qed
qed

lemma live_restrict:
  "sched_inv_ex (insert p ex) s \<Longrightarrow> (\<And>c. c < cpu_count s \<Longrightarrow> current_proc (cpus s c) \<noteq> Some p) \<Longrightarrow>
   sched_inv_ex ex s"
  unfolding sched_inv_ex_def live_ok_def by blast

lemma not_on_cpuD: "\<not> on_cpu s c p \<Longrightarrow> current_proc (cpus s c) \<noteq> Some p"
  by (simp add: on_cpu_def)

text \<open>A process that is linked nowhere and on no CPU is linked.\<close>

lemma link_off_cpu_inv:
  assumes inv: "sched_inv_ex ex s" and p: "p < SCHED_MAX_PROCS" "p_pid (procs s p) \<noteq> 0" "p \<notin> set (linked s)"
      "\<And>c. c < cpu_count s \<Longrightarrow> current_proc (cpus s c) \<noteq> Some p"
    and f: "p_pid (f (procs s p)) = p_pid (procs s p)"
      "p_switching (f (procs s p)) = p_switching (procs s p)"
      "p_state (f (procs s p)) = PROC_READY \<or> p_state (f (procs s p)) = PROC_BLOCKED"
  shows "sched_inv_ex ex (ready_enqueue p (upd_proc p f s))"
  by (rule live_restrict [OF link_inv(1) [where f = f, OF inv p(1-3) f]]) (use p(4) in simp)

text \<open>A process is marked dead where it is.\<close>

lemma mark_dead_inv:
  assumes inv: "sched_inv_ex ex s" and pid: "p_pid (procs s p) \<noteq> 0"
    and f: "p_pid (f (procs s p)) = p_pid (procs s p)"
      "p_switching (f (procs s p)) = p_switching (procs s p)" "p_state (f (procs s p)) = PROC_DEAD"
      "\<not> p_reaped (f (procs s p))"
  shows "sched_inv_ex ex (upd_proc p f s)"
proof -
  let ?t = "upd_proc p f s"
  note Q = queues_okD [OF sched_inv_parts(1) [OF inv]] and C = cpus_okD [OF sched_inv_parts(2) [OF inv]]
    and T = table_okD [OF sched_inv_parts(4) [OF inv]]
  have on_eq: "on_cpu ?t = on_cpu s" by (simp add: on_cpu_def fun_eq_iff)
  have "queues_ok ?t" unfolding queues_ok_def using Q f by (auto split: if_splits)
  moreover have "\<exists>i. idle_proc (cpus s d) = Some i \<and> i < 256 \<and> p_pid (procs ?t i) = 0 \<and>
      p_state (procs ?t i) = PROC_RUNNING" if "d < cpu_count s" for d
  proof -
    obtain i where "idle_proc (cpus s d) = Some i" "i < 256" "p_pid (procs s i) = 0"
      "p_state (procs s i) = PROC_RUNNING" using C(3) [OF \<open>d < cpu_count s\<close>] by auto
    moreover from this pid have "i \<noteq> p" by auto
    ultimately show ?thesis by simp
  qed
  then have "cpus_ok ?t" using sched_inv_parts(2) [OF inv] f unfolding cpus_ok_def on_eq by simp
  moreover have "live_ok ex ?t" using sched_inv_parts(3) [OF inv] f unfolding live_ok_def by auto
  moreover have "table_ok ?t" unfolding table_ok_def on_eq
    using T slot_0 [OF sched_inv_parts(4) [OF inv]] f pid by (auto simp: free_slot_def split: if_splits)
  ultimately show ?thesis by (simp add: sched_inv_ex_def)
qed

text \<open>A slot that is linked nowhere and on no CPU is rewritten and stays dead.\<close>

lemma dead_slot_inv:
  assumes inv: "sched_inv_ex ex s" and p: "0 < p" "p \<notin> set (linked s)"
      "\<And>c. c < cpu_count s \<Longrightarrow> \<not> on_cpu s c p" "p_state (procs s p) = PROC_DEAD"
    and f: "\<not> p_switching (f (procs s p))" "p_state (f (procs s p)) = PROC_DEAD"
  shows "sched_inv_ex ex (upd_proc p f s)"
proof -
  let ?t = "upd_proc p f s"
  note Q = queues_okD [OF sched_inv_parts(1) [OF inv]] and C = cpus_okD [OF sched_inv_parts(2) [OF inv]]
    and T = table_okD [OF sched_inv_parts(4) [OF inv]]
  have on_eq: "on_cpu ?t = on_cpu s" by (simp add: on_cpu_def fun_eq_iff)
  have nq: "q < 3 \<Longrightarrow> p \<notin> set (ready s q)" for q using p(2) in_linked by blast
  have sw: "\<not> p_switching (procs s p)" using C(1) [of p] p(3) by (auto simp: on_cpu_def)
  have "queues_ok ?t" unfolding queues_ok_def using Q nq p(2) by (auto split: if_splits)
  moreover have "cpus_ok ?t"
    unfolding cpus_ok_def on_eq
  proof (intro conjI allI impI)
    show "\<exists>i. idle_proc (cpus ?t d) = Some i \<and> i < 256 \<and> p_pid (procs ?t i) = 0 \<and>
        p_state (procs ?t i) = PROC_RUNNING" if "d < cpu_count ?t" for d
    proof -
      obtain i where "idle_proc (cpus s d) = Some i" "i < 256" "p_pid (procs s i) = 0"
        "p_state (procs s i) = PROC_RUNNING" using C(3) [of d] \<open>d < cpu_count ?t\<close> by auto
      moreover from this p(4) have "i \<noteq> p" by auto
      ultimately show ?thesis by simp
    qed
    show "p_switching (procs ?t x) \<longleftrightarrow> (\<exists>c < cpu_count ?t. in_switch (cpus ?t c) = Some x)" for x
      using C(1) [of x] sw f(1) by auto
    show "x < 256" if "c < cpu_count ?t" "on_cpu s c x" for c x using C(5) that by simp
    show "idle_proc (cpus ?t c) = Some x" if "c < cpu_count ?t" "on_cpu s c x" "p_pid (procs ?t x) = 0" for c x
      using C(6) that p(3) by (auto split: if_splits)
  qed (use C(2,4,7) in auto)
  moreover have "live_ok ex ?t"
    using sched_inv_parts(3) [OF inv] f p(3) unfolding live_ok_def on_cpu_def by auto
  moreover have "table_ok ?t" unfolding table_ok_def on_eq
    using T slot_0 [OF sched_inv_parts(4) [OF inv]] f p by (auto split: if_splits)
  ultimately show ?thesis by (simp add: sched_inv_ex_def)
qed

lemma table_okI:
  assumes "\<And>p. p < SCHED_MAX_PROCS \<Longrightarrow> p_pid (procs s p) = 0 \<Longrightarrow>
      p_state (procs s p) = PROC_DEAD \<or> p_state (procs s p) = PROC_RUNNING"
    "\<And>p. p < SCHED_MAX_PROCS \<Longrightarrow> free_slot (procs s p) \<Longrightarrow> p \<notin> set (linked s)"
    "\<And>p c. p < SCHED_MAX_PROCS \<Longrightarrow> free_slot (procs s p) \<Longrightarrow> c < cpu_count s \<Longrightarrow> \<not> on_cpu s c p"
    "\<And>p. p < SCHED_MAX_PROCS \<Longrightarrow> p_state (procs s p) = PROC_BLOCKED \<Longrightarrow>
      p \<in> set (linked s) \<or> (\<exists>c < cpu_count s. killing (cpus s c) = Some p)"
    "p_pid (procs s 0) = 0"
  shows "table_ok s"
  using assms unfolding table_ok_def by blast

lemma ready_dequeue_unlinked: "p \<notin> set (linked s) \<Longrightarrow> ready_dequeue p s = s"
  by (auto simp: ready_dequeue_def in_linked dest: find_upt_SomeD split: option.splits)

lemma switch_done_inv:
  assumes inv: "sched_inv_ex ex s" and c: "c < cpu_count s"
  shows "sched_inv_ex ex (switch_done c s)"
proof (cases "in_switch (cpus s c)")
  case None
  with inv show ?thesis by (simp add: switch_done_def)
next
  case (Some p)
  let ?t = "upd_cpu c (\<lambda>d. d\<lparr>in_switch := None\<rparr>) (upd_proc p (\<lambda>x. x\<lparr>p_switching := False\<rparr>) s)"
  note Q = queues_okD [OF sched_inv_parts(1) [OF inv]] and C = cpus_okD [OF sched_inv_parts(2) [OF inv]]
    and T = table_okD [OF sched_inv_parts(4) [OF inv]]
  have on: "on_cpu ?t d x \<Longrightarrow> on_cpu s d x" for d x by (auto simp: on_cpu_def split: if_splits)
  have u: "in_switch (cpus s d) \<noteq> Some p" if "d < cpu_count s" "d \<noteq> c" for d
    using C(2) [OF that(1) c, of p] that(2) Some by (auto simp: on_cpu_def)
  have "queues_ok ?t" using sched_inv_parts(1) [OF inv] unfolding queues_ok_def by (auto split: if_splits)
  moreover have "cpus_ok ?t"
    unfolding cpus_ok_def
  proof (intro conjI allI impI)
    show "p_switching (procs ?t x) \<longleftrightarrow> (\<exists>d < cpu_count ?t. in_switch (cpus ?t d) = Some x)" for x
    proof -
      have e: "in_switch (cpus ?t d) = Some x \<longleftrightarrow> in_switch (cpus s d) = Some x \<and> x \<noteq> p" if "d < cpu_count s" for d
        using u [OF that] Some by auto
      have "p_switching (procs ?t x) \<longleftrightarrow> p_switching (procs s x) \<and> x \<noteq> p" "cpu_count ?t = cpu_count s" by simp_all
      with C(1) [of x] e show ?thesis by metis
    qed
    show "d = e" if "d < cpu_count ?t" "e < cpu_count ?t" "on_cpu ?t d x" "on_cpu ?t e x" for d e x
      using C(2) [OF _ _ on on] that by auto
    show "\<exists>i. idle_proc (cpus ?t d) = Some i \<and> i < 256 \<and> p_pid (procs ?t i) = 0 \<and>
        p_state (procs ?t i) = PROC_RUNNING" if "d < cpu_count ?t" for d
      using C(3) [of d] that by auto
    show "x < 256" if "d < cpu_count ?t" "on_cpu ?t d x" for d x using C(5) [OF _ on] that by simp
    show "idle_proc (cpus ?t d) = Some x" if "d < cpu_count ?t" "on_cpu ?t d x" "p_pid (procs ?t x) = 0" for d x
      using C(6) [OF _ on] that by (auto split: if_splits)
  qed (use C(4,7) in \<open>auto split: if_splits\<close>)
  moreover have "live_ok ex ?t" using sched_inv_parts(3) [OF inv] unfolding live_ok_def by (auto split: if_splits)
  moreover have "table_ok ?t"
  proof (rule table_okI)
    have k: "killing (cpus ?t d) = killing (cpus s d)" "cpu_count ?t = cpu_count s"
      "p_state (procs ?t x) = p_state (procs s x)" "free_slot (procs ?t x) = free_slot (procs s x)"
      "p_pid (procs ?t x) = p_pid (procs s x)" "linked ?t = linked s" for d x
      by (simp_all add: free_slot_def)
    show "\<not> on_cpu ?t d x" if "x < 256" "free_slot (procs ?t x)" "d < cpu_count ?t" for d x
      using T(3) on that unfolding k by blast
    show "x \<in> set (linked ?t) \<or> (\<exists>d < cpu_count ?t. killing (cpus ?t d) = Some x)"
      if "x < 256" "p_state (procs ?t x) = PROC_BLOCKED" for x
      using T(4) that unfolding k by blast
    show "x \<notin> set (linked ?t)" if "x < 256" "free_slot (procs ?t x)" for x
      using T(2) that unfolding k by blast
  qed (use T(1) slot_0 [OF sched_inv_parts(4) [OF inv]] in \<open>auto split: if_splits\<close>)
  ultimately show ?thesis by (simp add: sched_inv_ex_def switch_done_def Some)
qed

lemma adopt_inv:
  assumes inv: "sched_inv s" and c: "c < cpu_count s" and p: "0 < p" "p < SCHED_MAX_PROCS" "p_pid (procs s p) \<noteq> 0"
      "p \<notin> set (linked s)" "\<And>d. d < cpu_count s \<Longrightarrow> \<not> on_cpu s d p"
  shows "sched_inv (sched_adopt_current c p s)"
proof -
  let ?t = "proc_set_current c (Some p) (upd_proc p (\<lambda>x. x\<lparr>p_state := PROC_RUNNING\<rparr>) s)"
  note Q = queues_okD [OF sched_inv_parts(1) [OF inv]] and C = cpus_okD [OF sched_inv_parts(2) [OF inv]]
    and L = live_okD [OF sched_inv_parts(3) [OF inv]] and T = table_okD [OF sched_inv_parts(4) [OF inv]]
  have nq: "q < 3 \<Longrightarrow> p \<notin> set (ready s q)" for q using p(4) in_linked by blast
  have on: "on_cpu ?t d x \<Longrightarrow> on_cpu s d x \<or> d = c \<and> x = p" for d x
    by (auto simp: on_cpu_def proc_set_current_def split: if_splits)
  have "queues_ok ?t" unfolding queues_ok_def proc_set_current_def using Q nq p(4) by (auto split: if_splits)
  moreover have "cpus_ok ?t"
    unfolding cpus_ok_def
  proof (intro conjI allI impI)
    show "p_switching (procs ?t x) \<longleftrightarrow> (\<exists>d < cpu_count ?t. in_switch (cpus ?t d) = Some x)" for x
      using C(1) [of x] by (auto simp: proc_set_current_def)
    show "d = e" if "d < cpu_count ?t" "e < cpu_count ?t" "on_cpu ?t d x" "on_cpu ?t e x" for d e x
      using C(2) [of d e x] on [OF that(3)] on [OF that(4)] that(1,2) p(5) by (auto simp: proc_set_current_def)
    show "\<exists>i. idle_proc (cpus ?t d) = Some i \<and> i < 256 \<and> p_pid (procs ?t i) = 0 \<and>
        p_state (procs ?t i) = PROC_RUNNING" if "d < cpu_count ?t" for d
      using C(3) [of d] that by (auto simp: proc_set_current_def)
    show "x < 256" if "d < cpu_count ?t" "on_cpu ?t d x" for d x
      using C(5) [of d x] on [OF that(2)] that(1) p(2) by (auto simp: proc_set_current_def)
    show "idle_proc (cpus ?t d) = Some x" if "d < cpu_count ?t" "on_cpu ?t d x" "p_pid (procs ?t x) = 0" for d x
      using C(6) [of d x] on [OF that(2)] that(1,3) p(3) by (auto simp: proc_set_current_def split: if_splits)
  qed (use C(4,7) in \<open>auto simp: proc_set_current_def split: if_splits\<close>)
  moreover have "live_ok {} ?t" unfolding live_ok_def using L p(4) by (auto simp: proc_set_current_def)
  moreover have "table_ok ?t"
  proof (rule table_okI)
    have k: "killing (cpus ?t d) = killing (cpus s d)" for d by (simp add: proc_set_current_def)
    have fr: "free_slot (procs s x) \<and> x \<noteq> p" if "free_slot (procs ?t x)" for x
      using that by (auto simp: free_slot_def proc_set_current_def split: if_splits)
    show "x \<notin> set (linked ?t)" if "x < 256" "free_slot (procs ?t x)" for x
      using fr [OF that(2)] T(2) that by (simp add: proc_set_current_def)
    show "\<not> on_cpu ?t d x" if "x < 256" "free_slot (procs ?t x)" "d < cpu_count ?t" for d x
      using fr [OF that(2)] T(3) [of x d] on [of d x] that by (auto simp: proc_set_current_def)
    show "x \<in> set (linked ?t) \<or> (\<exists>d < cpu_count ?t. killing (cpus ?t d) = Some x)"
      if "x < 256" "p_state (procs ?t x) = PROC_BLOCKED" for x
      using T(4) [of x] that unfolding k by (auto simp: proc_set_current_def split: if_splits)
  qed (use T(1) slot_0 [OF sched_inv_parts(4) [OF inv]] in \<open>auto simp: proc_set_current_def split: if_splits\<close>)
  moreover have "sched_adopt_current c p s = ?t"
    using ready_dequeue_unlinked [of p ?t] p(4) by (simp add: sched_adopt_current_def proc_set_current_def)
  ultimately show ?thesis by (simp add: sched_inv_ex_def)
qed

lemma proc_same: "p_state x = st \<Longrightarrow> x\<lparr>p_state := st\<rparr> = x" "p_priority x = prio \<Longrightarrow> x\<lparr>p_priority := prio\<rparr> = x"
  by (cases x; simp)+

lemma upd_proc_cong: "f (procs s p) = g (procs s p) \<Longrightarrow> upd_proc p f s = upd_proc p g s"
  by (simp add: upd_proc_def)

lemma upd_proc_triv: "f (procs s p) = procs s p \<Longrightarrow> upd_proc p f s = s"
  by (cases s) (simp add: upd_proc_def)

lemma upd_proc_comp: "upd_proc p f (upd_proc p g s) = upd_proc p (\<lambda>x. f (g x)) s"
  by (simp add: upd_proc_def)

text \<open>Changing only \<open>killing\<close>.\<close>

lemma killing_inv:
  assumes inv: "sched_inv_ex ex s"
    and k: "\<And>p. p < SCHED_MAX_PROCS \<Longrightarrow> p_state (procs s p) = PROC_BLOCKED \<Longrightarrow> p \<notin> set (linked s) \<Longrightarrow>
      \<exists>d < cpu_count s. (if d = c then v else killing (cpus s d)) = Some p"
  shows "sched_inv_ex ex (upd_cpu c (\<lambda>d. d\<lparr>killing := v\<rparr>) s)"
proof -
  let ?t = "upd_cpu c (\<lambda>d. d\<lparr>killing := v\<rparr>) s"
  have on: "on_cpu ?t = on_cpu s" by (simp add: on_cpu_def fun_eq_iff)
  have e: "current_proc (cpus ?t d) = current_proc (cpus s d)" "idle_proc (cpus ?t d) = idle_proc (cpus s d)"
    "in_switch (cpus ?t d) = in_switch (cpus s d)"
    "killing (cpus ?t d) = (if d = c then v else killing (cpus s d))" for d
    by simp_all
  note T = table_okD [OF sched_inv_parts(4) [OF inv]]
  have "queues_ok ?t" using sched_inv_parts(1) [OF inv] by (simp add: queues_ok_def)
  moreover have "cpus_ok ?t" using sched_inv_parts(2) [OF inv] unfolding cpus_ok_def on e by simp
  moreover have "live_ok ex ?t" using sched_inv_parts(3) [OF inv] unfolding live_ok_def e by simp
  moreover have "table_ok ?t"
  proof (rule table_okI)
    show "p \<in> set (linked ?t) \<or> (\<exists>d < cpu_count ?t. killing (cpus ?t d) = Some p)"
      if "p < 256" "p_state (procs ?t p) = PROC_BLOCKED" for p
    proof -
      have "p \<in> set (linked s) \<or> (\<exists>d < cpu_count s. (if d = c then v else killing (cpus s d)) = Some p)"
        using k [of p] that by (simp only: upd_cpu_simps) blast
      then show ?thesis unfolding e by simp
    qed
  qed (use T slot_0 [OF sched_inv_parts(4) [OF inv]] in \<open>simp_all add: on\<close>)
  ultimately show ?thesis by (simp add: sched_inv_ex_def)
qed

text \<open>Unlinking a blocked process needs a CPU that is killing it.\<close>

lemma kill_unlink_inv:
  assumes inv: "sched_inv_ex ex s" and c: "c < cpu_count s" "killing (cpus s c) = None"
  shows "sched_inv_ex ex (kill_unlink c p s)"
proof -
  let ?u = "upd_cpu c (\<lambda>d. d\<lparr>killing := Some p\<rparr>) s"
  note T = table_okD [OF sched_inv_parts(4) [OF inv]]
  have iu: "sched_inv_ex ex ?u"
  proof (rule killing_inv [OF inv])
    fix x assume x: "x < 256" "p_state (procs s x) = PROC_BLOCKED" "x \<notin> set (linked s)"
    then obtain d where d: "d < cpu_count s" "killing (cpus s d) = Some x" using T(4) by blast
    with c show "\<exists>d < cpu_count s. (if d = c then Some p else killing (cpus s d)) = Some x"
      by (intro exI [of _ d]) auto
  qed
  note Q = queues_okD [OF sched_inv_parts(1) [OF iu]] and Tu = table_okD [OF sched_inv_parts(4) [OF iu]]
  note E = ready_dequeue_linked [OF Q(1), of p]
  let ?t = "ready_dequeue p ?u"
  have sub: "x \<in> set (ready ?t q) \<Longrightarrow> x \<in> set (ready ?u q)" for x q using E(3) by blast
  have on: "on_cpu ?t = on_cpu ?u" by (simp add: on_cpu_def fun_eq_iff)
  have "queues_ok ?t" unfolding queues_ok_def using E(1,2) Q sub by auto
  moreover have "cpus_ok ?t" using sched_inv_parts(2) [OF iu] unfolding cpus_ok_def on by simp
  moreover have "live_ok ex ?t" using sched_inv_parts(3) [OF iu] unfolding live_ok_def using E(2) by auto
  moreover have "table_ok ?t"
  proof (rule table_okI)
    show "x \<in> set (linked ?t) \<or> (\<exists>d < cpu_count ?t. killing (cpus ?t d) = Some x)"
      if "x < 256" "p_state (procs ?t x) = PROC_BLOCKED" for x
    proof (cases "x = p")
      case True
      with c show ?thesis by auto
    next
      case False
      with Tu(4) [of x] that E(2) show ?thesis by simp
    qed
  qed (use Tu(1-3) E(2) slot_0 [OF sched_inv_parts(4) [OF iu]] in \<open>auto simp: on\<close>)
  moreover have "?t = kill_unlink c p s"
    by (auto simp: kill_unlink_def ready_dequeue_def upd_cpu_def split: option.splits)
  ultimately show ?thesis by (simp add: sched_inv_ex_def)
qed

lemma kill_finish_inv:
  assumes inv: "sched_inv_ex ex s" and p: "\<And>p. killing (cpus s c) = Some p \<Longrightarrow> p_state (procs s p) \<noteq> PROC_BLOCKED"
  shows "sched_inv_ex ex (kill_finish c s)"
  unfolding kill_finish_def
proof (rule killing_inv [OF inv])
  fix x assume x: "x < 256" "p_state (procs s x) = PROC_BLOCKED" "x \<notin> set (linked s)"
  then obtain d where d: "d < cpu_count s" "killing (cpus s d) = Some x"
    using table_okD(4) [OF sched_inv_parts(4) [OF inv]] by blast
  with p x show "\<exists>d < cpu_count s. (if d = c then None else killing (cpus s d)) = Some x"
    by (intro exI [of _ d]) auto
qed

text \<open>Relinking a process under a new priority.\<close>

lemma relink_inv:
  assumes inv: "sched_inv s" and p: "p < SCHED_MAX_PROCS"
    "p_state (procs s p) = PROC_READY \<or> p_state (procs s p) = PROC_BLOCKED"
  shows "sched_inv (ready_enqueue p (upd_proc p (\<lambda>x. x\<lparr>p_priority := prio\<rparr>) (ready_dequeue p s)))"
proof -
  let ?f = "\<lambda>x. x\<lparr>p_priority := prio\<rparr>"
  note Q = queues_okD [OF sched_inv_parts(1) [OF inv]]
  have cur: "current_proc (cpus s c) \<noteq> Some p" if "c < cpu_count s" for c
    using live_okD(2) [OF sched_inv_parts(3) [OF inv] that, of p] p(2) by auto
  have pid: "p_pid (procs s p) \<noteq> 0" using table_okD(1) [OF sched_inv_parts(4) [OF inv] p(1)] p(2) by auto
  have nl: "p \<notin> set (linked (ready_dequeue p s))" using ready_dequeue_linked(2) [OF Q(1), of p] by simp
  show ?thesis
  proof (cases "p_state (procs s p) = PROC_BLOCKED \<and> p \<in> set (linked s)")
    case True
    let ?w = "upd_proc p (\<lambda>x. x\<lparr>p_state := PROC_READY\<rparr>) s"
    let ?g = "\<lambda>x. x\<lparr>p_priority := prio, p_state := PROC_BLOCKED\<rparr>"
    have "woken s ?w" using True by (auto simp: woken_def)
    from dequeue_inv [OF woken_inv [OF inv this], of p] have iw: "sched_inv (ready_dequeue p ?w)" by simp
    have eq: "ready_dequeue p ?w = upd_proc p (\<lambda>x. x\<lparr>p_state := PROC_READY\<rparr>) (ready_dequeue p s)"
      by (auto simp: ready_dequeue_def upd_proc_def split: option.splits)
    have "sched_inv (ready_enqueue p (upd_proc p ?g (ready_dequeue p ?w)))"
      by (rule link_off_cpu_inv [OF iw p(1)]) (use pid cur nl in \<open>auto simp: eq\<close>)
    moreover have "upd_proc p ?g (ready_dequeue p ?w) = upd_proc p ?f (ready_dequeue p s)"
      unfolding eq upd_proc_comp by (rule upd_proc_cong) (use True in \<open>cases "procs s p", simp\<close>)
    ultimately show ?thesis by simp
  next
    case False
    have "sched_inv (ready_dequeue p s)"
      using False p(2) dequeue_inv [OF inv, of p] inv ready_dequeue_unlinked [of p s] by auto
    from link_off_cpu_inv [OF this p(1), of ?f] show ?thesis using pid cur nl p(2) by simp
  qed
qed

lemma proc_set_priority_inv:
  assumes inv: "sched_inv s" and p: "p < SCHED_MAX_PROCS"
  shows "sched_inv (proc_set_priority p prio s)"
proof -
  let ?f = "\<lambda>x. x\<lparr>p_priority := prio\<rparr>"
  consider "unat prio \<ge> 3" | (off) "unat prio < 3" "p_state (procs s p) = PROC_RUNNING \<or> p_state (procs s p) = PROC_DEAD"
    | (on) "unat prio < 3" "p_state (procs s p) = PROC_READY \<or> p_state (procs s p) = PROC_BLOCKED"
    by (cases "p_state (procs s p)"; cases "unat prio < 3") (simp_all add: not_less)
  then show ?thesis
  proof cases
    case off
    note Q = queues_okD [OF sched_inv_parts(1) [OF inv]]
    have on: "on_cpu (upd_proc p ?f s) = on_cpu s" by (simp add: on_cpu_def fun_eq_iff)
    have e: "p_state (procs (upd_proc p ?f s) x) = p_state (procs s x)" "p_pid (procs (upd_proc p ?f s) x) = p_pid (procs s x)"
      "p_switching (procs (upd_proc p ?f s) x) = p_switching (procs s x)" for x by simp_all
    have "x = p \<Longrightarrow> q < 3 \<Longrightarrow> x \<in> set (ready s q) \<Longrightarrow> p_state (procs s p) = PROC_DEAD" for x q
      using off(2) Q(6) [of p] in_linked by blast
    then have "queues_ok (upd_proc p ?f s)"
      unfolding queues_ok_def using Q by (auto split: if_splits)
    moreover have "cpus_ok (upd_proc p ?f s)"
      using sched_inv_parts(2) [OF inv] unfolding cpus_ok_def on e by simp
    moreover have "live_ok {} (upd_proc p ?f s)"
      using sched_inv_parts(3) [OF inv] unfolding live_ok_def by simp
    moreover have "table_ok (upd_proc p ?f s)"
      using sched_inv_parts(4) [OF inv] unfolding table_ok_def on free_slot_def by simp
    ultimately show ?thesis using off by (auto simp: proc_set_priority_def Let_def sched_inv_ex_def)
  next
    case on
    show ?thesis
    proof (cases "p_priority (procs s p) = prio")
      case True
      then have "upd_proc p ?f s = s" by (intro upd_proc_triv proc_same(2))
      moreover have "sched_inv (ready_enqueue p s)"
      proof (cases "p \<in> set (linked s)")
        case True
        then have "p \<in> set (ready s (queue_of (procs s p)))"
          using queues_okD(5) [OF sched_inv_parts(1) [OF inv]] on(2) in_linked [of p s] by auto
        then show ?thesis using inv by (simp add: ready_enqueue_def)
      next
        case False
        with relink_inv [OF inv p on(2), of prio] ready_dequeue_unlinked [OF False]
          \<open>upd_proc p ?f s = s\<close> show ?thesis by simp
      qed
      ultimately show ?thesis using on True by (auto simp: proc_set_priority_def Let_def)
    next
      case False
      with relink_inv [OF inv p on(2), of prio] on show ?thesis by (auto simp: proc_set_priority_def Let_def)
    qed
  qed (use inv in \<open>simp add: proc_set_priority_def\<close>)
qed

section \<open>The scheduler as a transition system\<close>

text \<open>The state at power-on, and after \<open>sched_early_init\<close> and \<open>sched_init\<close> on the boot CPU.
  \<open>cpu_count\<close> counts the CPUs that have joined: a CPU that is still starting has no current process.\<close>

definition zero_cpu :: cpu_data where
  "zero_cpu = \<lparr>current_proc = None, idle_proc = None, need_resched = False, cpu_rsp0 = 0, tss_rsp0 = 0,
               in_switch = None, killing = None\<rparr>"

definition sched_bss :: "u64 \<Rightarrow> sched" where
  "sched_bss hz = \<lparr>procs = (\<lambda>_. zero_proc), ready = (\<lambda>_. []), cpus = (\<lambda>_. zero_cpu), cpu_count = 1,
                   ticks = 0, ticks_hz = hz, stack_word = (\<lambda>_. 0), calls = []\<rparr>"

definition sched_boot :: "u64 \<Rightarrow> u64 \<Rightarrow> u64 \<Rightarrow> u64 \<Rightarrow> u64 \<Rightarrow> sched" where
  "sched_boot hz cr3 kpml4 kstack loop = sched_init 0 cr3 kpml4 kstack loop (sched_early_init (sched_bss hz))"

text \<open>\<open>cur\<close> runs on CPU \<open>c\<close> and the switch to it is complete.\<close>

definition runs :: "sched \<Rightarrow> nat \<Rightarrow> nat \<Rightarrow> bool" where
  "runs s c cur \<longleftrightarrow> c < cpu_count s \<and> current_proc (cpus s c) = Some cur \<and> in_switch (cpus s c) = None"

text \<open>A slot that is linked nowhere and on no CPU.\<close>

definition detached :: "sched \<Rightarrow> nat \<Rightarrow> bool" where
  "detached s p \<longleftrightarrow> 0 < p \<and> p < SCHED_MAX_PROCS \<and> p \<notin> set (linked s) \<and>
     (\<forall>c \<in> set [0..<cpu_count s]. \<not> on_cpu s c p)"

text \<open>One atomic section of one CPU. The guards of \<open>make_ready\<close>, \<open>adopt\<close> and \<open>reap\<close> are what their
  callers rely on: a process that is made ready or adopted has just been created, and a zombie is
  reaped once its CPU has left it.\<close>

inductive sched_step :: "sched \<Rightarrow> sched \<Rightarrow> bool" where
  yield: "runs s c cur \<Longrightarrow> sched_step s (yield_pick c rflags cur s)"
| sleep: "runs s c cur \<Longrightarrow> p_pid (procs s cur) \<noteq> 0 \<Longrightarrow>
    sched_step s (yield_pick c rflags cur (mark_blocked cur until s))"
| block: "runs s c cur \<Longrightarrow> p_pid (procs s cur) \<noteq> 0 \<Longrightarrow>
    sched_step s (yield_pick c rflags cur
      (mark_blocked cur until (upd_proc cur (\<lambda>x. x\<lparr>p_wait_chan := chan\<rparr>) s)))"
| unblock: "sched_step s (block_return cur s)"
| saved: "c < cpu_count s \<Longrightarrow> sched_step s (switch_done c s)"
| wake: "sched_step s (sched_wake_chan c chan s)"
| expire: "sched_step s (sched_wake_sleepers c got_lock s)"
| tick: "sched_step s (s\<lparr>ticks := t\<rparr>)"
| create: "sched_step s (snd (proc_create entry phys virt kstack s))"
| make_ready: "detached s p \<Longrightarrow> p_pid (procs s p) \<noteq> 0 \<Longrightarrow> sched_step s (proc_make_ready smp p s)"
| adopt: "detached s p \<Longrightarrow> p_pid (procs s p) \<noteq> 0 \<Longrightarrow> c < cpu_count s \<Longrightarrow> sched_step s (sched_adopt_current c p s)"
| prio: "p < SCHED_MAX_PROCS \<Longrightarrow> sched_step s (proc_set_priority p pr s)"
| claim: "p_pid (procs s p) \<noteq> 0 \<Longrightarrow> exit_claim p s = Some t \<Longrightarrow> sched_step s t"
| teardown: "sched_step s (exit_teardown c xlate p s)"
| unlink: "p_state (procs s p) = PROC_DEAD \<Longrightarrow> sched_step s (exit_unlink p s)"
| remote: "p_pid (procs s p) \<noteq> 0 \<Longrightarrow> sched_step s (kill_remote smp p s)"
| target: "c < cpu_count s \<Longrightarrow> killing (cpus s c) = None \<Longrightarrow> sched_step s (kill_unlink c p s)"
| killed: "(\<And>p. killing (cpus s c) = Some p \<Longrightarrow> p_state (procs s p) \<noteq> PROC_BLOCKED) \<Longrightarrow>
    sched_step s (kill_finish c s)"
| reap: "detached s p \<Longrightarrow> p_state (procs s p) = PROC_DEAD \<Longrightarrow>
    sched_step s (upd_proc p (\<lambda>x. x\<lparr>p_reaped := True\<rparr>) s)"
| join: "cpus s (cpu_count s) = zero_cpu \<Longrightarrow> find (\<lambda>i. free_slot (procs s i)) [1..<SCHED_MAX_PROCS] \<noteq> None \<Longrightarrow>
    sched_step s (sched_init_ap (cpu_count s) cr3 kpml4 kstack loop (s\<lparr>cpu_count := Suc (cpu_count s)\<rparr>))"

inductive sched_reach :: "sched \<Rightarrow> bool" where
  boot: "sched_reach (sched_boot hz cr3 kpml4 kstack loop)"
| step: "sched_reach s \<Longrightarrow> sched_step s t \<Longrightarrow> sched_reach t"

lemma sched_boot_inv: "sched_inv (sched_boot hz cr3 kpml4 kstack loop)"
  by (auto simp: sched_boot_def sched_init_def sched_early_init_def sched_bss_def init_idle_def zero_proc_def
      zero_cpu_def upd_proc_def upd_cpu_def Let_def sched_inv_ex_def queues_ok_def cpus_ok_def live_ok_def
      table_ok_def linked_def on_cpu_def free_slot_def)

lemma detachedD:
  assumes "detached s p"
  shows "0 < p" "p < SCHED_MAX_PROCS" "p \<notin> set (linked s)" "\<And>c. c < cpu_count s \<Longrightarrow> \<not> on_cpu s c p"
    "\<And>c. c < cpu_count s \<Longrightarrow> current_proc (cpus s c) \<noteq> Some p"
  using assms by (auto simp: detached_def on_cpu_def)

lemma free_detached:
  assumes "sched_inv_ex ex s" "find (\<lambda>i. free_slot (procs s i)) [1..<SCHED_MAX_PROCS] = Some i"
  shows "detached s i" "free_slot (procs s i)"
  using find_upt_SomeD [OF assms(2)] table_okD(2,3) [OF sched_inv_parts(4) [OF assms(1)], of i]
  by (auto simp: detached_def)

lemma woken_upd: "woken s t \<Longrightarrow> (\<And>x. proc_view (f x) = proc_view x) \<Longrightarrow> woken s (upd_proc p f t)"
  by (auto simp: woken_def proc_view_def)

lemma woken_emit: "woken s t \<Longrightarrow> woken s (emit e t)"
  by (simp add: woken_def)

lemma send_signal_woken: "woken s (snd (send_signal_via (\<lambda>_ s. s) pid sig s))"
  by (auto simp: send_signal_via_def proc_view_def queue_of_def intro!: woken_upd split: option.splits sig_verdict.splits)

lemma exit_teardown_woken: "woken s (exit_teardown c xlate p s)"
proof -
  have 1: "woken s (exit_clear_tid c xlate p s)" for s
    by (auto simp: exit_clear_tid_def Let_def intro: woken_trans [OF woken_emit [OF woken_refl] sched_wake_chan_woken])
  have 2: "woken s (exit_notify_parent p s)" for s
    by (simp add: exit_notify_parent_def send_signal_woken)
  have 3: "woken s (exit_free_space c p s)" for s
    by (auto simp: exit_free_space_def Let_def drop_space_def proc_view_def queue_of_def intro!: woken_upd woken_emit)
  have 4: "woken s (exit_free_stack c p s)" for s
    by (auto simp: exit_free_stack_def proc_view_def queue_of_def intro!: woken_upd woken_emit)
  show ?thesis unfolding exit_teardown_def by (intro woken_trans [OF woken_trans [OF woken_trans [OF 1 2] 3] 4])
qed

lemma join_inv:
  assumes inv: "sched_inv s" and n: "cpus s (cpu_count s) = zero_cpu"
    and i: "find (\<lambda>i. free_slot (procs s i)) [1..<SCHED_MAX_PROCS] = Some i"
  shows "sched_inv (sched_init_ap (cpu_count s) cr3 kpml4 kstack loop (s\<lparr>cpu_count := Suc (cpu_count s)\<rparr>))"
    (is "sched_inv ?t")
proof -
  let ?c = "cpu_count s"
  note Q = queues_okD [OF sched_inv_parts(1) [OF inv]] and C = cpus_okD [OF sched_inv_parts(2) [OF inv]]
    and L = live_okD [OF sched_inv_parts(3) [OF inv]] and T = table_okD [OF sched_inv_parts(4) [OF inv]]
  note D = detachedD [OF free_detached(1) [OF inv i]]
  have fr: "p_state (procs s i) = PROC_DEAD" using free_detached(2) [OF inv i] by (simp add: free_slot_def)
  have sw: "\<not> p_switching (procs s i)" using C(1) [of i] D(4) by (auto simp: on_cpu_def)
  have V: "procs ?t x = (if x = i then (init_idle cr3 kpml4 kstack loop (procs s i))\<lparr>p_reaped := True\<rparr> else procs s x)"
    "ready ?t = ready s" "linked ?t = linked s" "cpu_count ?t = Suc ?c"
    "cpu_view (cpus ?t d) = (if d = ?c then (Some i, Some i, None, None) else cpu_view (cpus s d))" for x d
    using i n by (auto simp: sched_init_ap_def Let_def upd_cpu_def upd_proc_def linked_def cpu_view_def zero_cpu_def)
  have W: "current_proc (cpus ?t d) = (if d = ?c then Some i else current_proc (cpus s d))"
    "idle_proc (cpus ?t d) = (if d = ?c then Some i else idle_proc (cpus s d))"
    "in_switch (cpus ?t d) = (if d = ?c then None else in_switch (cpus s d))"
    "killing (cpus ?t d) = (if d = ?c then None else killing (cpus s d))" for d
    using V(5) [of d] by (auto simp: cpu_view_def split: if_splits)
  have P: "p_pid (procs ?t x) = (if x = i then 0 else p_pid (procs s x))"
    "p_state (procs ?t x) = (if x = i then PROC_RUNNING else p_state (procs s x))"
    "p_switching (procs ?t x) = p_switching (procs s x)" for x
    by (auto simp: V(1) init_idle_def)
  have on: "on_cpu ?t d x \<longleftrightarrow> (if d = ?c then x = i else on_cpu s d x)" for d x
    by (auto simp: on_cpu_def W)
  have nq: "q < 3 \<Longrightarrow> i \<notin> set (ready s q)" for q using D(3) in_linked by blast
  have idle: "idle_proc (cpus s d) \<noteq> Some i" if "d < ?c" for d using C(3) [OF that] fr by auto
  have "queues_ok ?t" unfolding queues_ok_def V(2,3) using Q nq D(3) by (auto simp: P V(1))
  moreover have "cpus_ok ?t"
    unfolding cpus_ok_def V(4)
  proof (intro conjI allI impI)
    show "p_switching (procs ?t x) \<longleftrightarrow> (\<exists>d < Suc ?c. in_switch (cpus ?t d) = Some x)" for x
    proof -
      have "(\<exists>d < Suc ?c. in_switch (cpus ?t d) = Some x) \<longleftrightarrow> (\<exists>d < ?c. in_switch (cpus s d) = Some x)"
        by (metis W(3) less_Suc_eq less_irrefl option.distinct(1))
      then show ?thesis using C(1) [of x] by (simp add: P)
    qed
    show "d = e" if "d < Suc ?c" "e < Suc ?c" "on_cpu ?t d x" "on_cpu ?t e x" for d e x
      using that C(2) [of d e x] D(4) by (auto simp: on less_Suc_eq split: if_splits)
    show "\<exists>j. idle_proc (cpus ?t d) = Some j \<and> j < 256 \<and> p_pid (procs ?t j) = 0 \<and>
        p_state (procs ?t j) = PROC_RUNNING" if "d < Suc ?c" for d
      using that C(3) [of d] D(2) by (auto simp: W P less_Suc_eq)
    show "d = e" if "d < Suc ?c" "e < Suc ?c" "idle_proc (cpus ?t d) = idle_proc (cpus ?t e)" for d e
      using that C(4) [of d e] idle by (auto simp: W less_Suc_eq split: if_splits)
    show "x < 256" if "d < Suc ?c" "on_cpu ?t d x" for d x
      using that C(5) [of d x] D(2) by (auto simp: on less_Suc_eq split: if_splits)
    show "idle_proc (cpus ?t d) = Some x" if "d < Suc ?c" "on_cpu ?t d x" "p_pid (procs ?t x) = 0" for d x
      using that C(6) [of d x] D(4) by (auto simp: on W P less_Suc_eq split: if_splits)
    show "current_proc (cpus ?t d) \<noteq> None" if "d < Suc ?c" for d
      using that C(7) [of d] by (auto simp: W less_Suc_eq)
  qed
  moreover have "live_ok {} ?t"
    unfolding live_ok_def V(3,4) using L D(3,5) by (auto simp: W P less_Suc_eq)
  moreover have "table_ok ?t"
  proof (rule table_okI)
    show "p_state (procs ?t x) = PROC_DEAD \<or> p_state (procs ?t x) = PROC_RUNNING"
      if "x < 256" "p_pid (procs ?t x) = 0" for x using T(1) [OF that(1)] that(2) by (auto simp: P)
    have f: "free_slot (procs s x) \<and> x \<noteq> i" if "free_slot (procs ?t x)" for x
      using that by (auto simp: free_slot_def V(1) init_idle_def split: if_splits)
    show "x \<notin> set (linked ?t)" if "x < 256" "free_slot (procs ?t x)" for x
      using T(2) f that unfolding V(3) by blast
    show "\<not> on_cpu ?t d x" if "x < 256" "free_slot (procs ?t x)" "d < cpu_count ?t" for d x
      using T(3) [of x d] f [OF that(2)] that unfolding V(4) on by (auto simp: less_Suc_eq)
    show "x \<in> set (linked ?t) \<or> (\<exists>d < cpu_count ?t. killing (cpus ?t d) = Some x)"
      if "x < 256" "p_state (procs ?t x) = PROC_BLOCKED" for x
    proof -
      have "x \<noteq> i" "p_state (procs s x) = PROC_BLOCKED" using that(2) by (auto simp: P split: if_splits)
      with T(4) [OF that(1)] show ?thesis unfolding V(3,4) by (metis W(4) less_Suc_eq less_irrefl)
    qed
  qed (use slot_0 [OF sched_inv_parts(4) [OF inv]] D(1) in \<open>simp add: P\<close>)
  ultimately show ?thesis by (simp add: sched_inv_ex_def)
qed

lemma block_pre:
  assumes "sched_inv s" "runs s c cur" "p_pid (procs s cur) \<noteq> 0"
    and f: "p_pid (f (procs s cur)) = p_pid (procs s cur)"
      "p_switching (f (procs s cur)) = p_switching (procs s cur)" "p_state (f (procs s cur)) = PROC_BLOCKED"
  shows "yield_pre {cur} c cur (ready_enqueue cur (upd_proc cur f s))"
proof -
  have c: "c < cpu_count s" "current_proc (cpus s c) = Some cur" "in_switch (cpus s c) = None"
    using assms(2) by (auto simp: runs_def)
  have l: "cur \<notin> set (linked s)" using live_okD(1) [OF sched_inv_parts(3) [OF assms(1)] c(1,2)] by simp
  have "cur < 256" using cpus_okD(5) [OF sched_inv_parts(2) [OF assms(1)] c(1)] c(2) by (simp add: on_cpu_def)
  from link_inv [where f = f, OF assms(1) this assms(3) l f(1,2)] f(3) c show ?thesis
    by (simp add: yield_pre_def)
qed

lemma emit_inv [simp]: "sched_inv_ex ex (emit e s) = sched_inv_ex ex s"
  by (rule sched_inv_cong) simp_all

lemma proc_create_inv:
  assumes inv: "sched_inv_ex ex s"
  shows "sched_inv_ex ex (snd (proc_create entry phys virt kstack s))"
proof (cases "find (\<lambda>i. free_slot (procs s i)) [1..<256]")
  case None
  with inv show ?thesis by (simp add: proc_create_def)
next
  case (Some i)
  note D = detachedD [OF free_detached(1) [OF inv Some]]
  have "sched_inv_ex ex (upd_proc i (init_slot i entry phys virt kstack) s)"
    by (rule dead_slot_inv [OF inv D(1,3,4)])
      (use free_detached(2) [OF inv Some] in \<open>simp_all add: init_slot_def free_slot_def\<close>)
  moreover have "sched_inv_ex ex (t\<lparr>stack_word := w\<rparr>) = sched_inv_ex ex t" for t w
    by (rule sched_inv_cong) simp_all
  ultimately show ?thesis using Some by (auto simp: proc_create_def Let_def)
qed

lemma sched_step_inv:
  assumes "sched_step s t" "sched_inv s"
  shows "sched_inv t"
  using assms
proof cases
  case (yield c cur rflags)
  then show ?thesis using yield_pick_inv [of "{}" c cur s] assms(2) by (auto simp: runs_def yield_pre_def)
next
  case (sleep c cur rflags until)
  let ?f = "\<lambda>x. x\<lparr>p_sleep_until := until, p_state := PROC_BLOCKED\<rparr>"
  show ?thesis using block_pre [of s c cur ?f] yield_pick_inv sleep assms(2) by (simp add: mark_blocked_def)
next
  case (block c cur rflags until chan)
  let ?f = "\<lambda>x. x\<lparr>p_wait_chan := chan, p_sleep_until := until, p_state := PROC_BLOCKED\<rparr>"
  show ?thesis
    using block_pre [of s c cur ?f] yield_pick_inv block assms(2) by (simp add: mark_blocked_def upd_proc_comp)
next
  case (unblock cur)
  have "woken s t" unfolding unblock block_return_def
    by (intro woken_upd woken_refl) (simp add: proc_view_def)
  then show ?thesis using woken_inv assms(2) by blast
next
  case (create entry phys virt kstack)
  show ?thesis unfolding create by (rule proc_create_inv [OF assms(2)])
next
  case (make_ready p smp)
  then show ?thesis
    using link_off_cpu_inv [of "{}" s p "\<lambda>x. x\<lparr>p_state := PROC_READY\<rparr>"] detachedD [OF make_ready(2)] assms(2)
    by (simp add: proc_make_ready_def sched_notify_new_proc_def emit_inv)
next
  case (claim p)
  then show ?thesis
    using mark_dead_inv [OF assms(2), of p "\<lambda>x. x\<lparr>p_exiting := True, p_state := PROC_DEAD, p_reaped := False\<rparr>"]
    by (simp add: exit_claim_def split: if_splits)
next
  case (remote p smp)
  then show ?thesis
    using mark_dead_inv [OF assms(2), of p "\<lambda>x. x\<lparr>p_state := PROC_DEAD, p_exiting := False, p_reaped := False\<rparr>"]
    by (simp add: kill_remote_def Let_def emit_inv)
next
  case (reap p)
  have "\<not> p_switching (procs s p)"
    using cpus_okD(1) [OF sched_inv_parts(2) [OF assms(2)]] detachedD(4) [OF reap(2)] by (auto simp: on_cpu_def)
  then show ?thesis unfolding reap(1)
    by (intro dead_slot_inv [OF assms(2) detachedD(1,3,4) [OF reap(2)]]) (simp_all add: reap(3))
next
  case (adopt p c)
  show ?thesis unfolding adopt(1)
    by (rule adopt_inv [OF assms(2) adopt(4) detachedD(1,2) [OF adopt(2)] adopt(3) detachedD(3,4) [OF adopt(2)]])
next
  case (tick u)
  then show ?thesis using sched_inv_cong [of t s] assms(2) by simp
qed (use assms(2) in \<open>auto intro: switch_done_inv woken_inv [OF _ sched_wake_chan_woken]
       woken_inv [OF _ sched_wake_sleepers_woken] woken_inv [OF _ exit_teardown_woken]
       proc_set_priority_inv kill_unlink_inv kill_finish_inv dequeue_inv join_inv simp: exit_unlink_def\<close>)

lemma sched_reach_inv: "sched_reach s \<Longrightarrow> sched_inv s"
  by (induction rule: sched_reach.induct) (auto intro: sched_boot_inv sched_step_inv)

section \<open>The operations as sequences of steps\<close>

lemma runs_view: "cpu_view (cpus t c) = cpu_view (cpus s c) \<Longrightarrow> cpu_count t = cpu_count s \<Longrightarrow> runs t c p = runs s c p"
  by (simp add: runs_def cpu_view_def)

lemma proc_sleep_step:
  assumes "runs s c cur" "p_pid (procs s cur) \<noteq> 0"
  shows "sched_step s (proc_sleep c xlate rflags ms s)"
proof -
  let ?u = "ticks s + ms_to_ticks ms (ticks_hz s)"
  have "current_proc (cpus s c) = Some cur" using assms by (simp add: runs_def)
  then have "proc_sleep c xlate rflags ms s = yield_pick c rflags cur (mark_blocked cur ?u s)"
    using assms(2) by (simp add: proc_sleep_def proc_current_def sched_yield_locked_def mark_blocked_def Let_def)
  then show ?thesis using sched_step.sleep [OF assms] by simp
qed

lemma sched_block_on_step:
  assumes "runs s c cur" "p_pid (procs s cur) \<noteq> 0"
  shows "sched_step s (sched_block_on c xlate rflags chan timeout s)"
proof -
  let ?u = "ticks s + ms_to_ticks (if timeout = 0 then SCHED_WAIT_BACKSTOP_MS else timeout) (ticks_hz s)"
  have "current_proc (cpus s c) = Some cur" using assms by (simp add: runs_def)
  then have "sched_block_on c xlate rflags chan timeout s =
      yield_pick c rflags cur (mark_blocked cur ?u (upd_proc cur (\<lambda>x. x\<lparr>p_wait_chan := chan\<rparr>) s))"
    using assms(2) by (simp add: sched_block_on_def sched_yield_locked_def mark_blocked_def Let_def)
  then show ?thesis using sched_step.block [OF assms] by simp
qed

lemma exit_cpus: "cpu_view (cpus (exit_unlink p (exit_teardown c xlate p s)) d) = cpu_view (cpus s d)"
  "cpu_count (exit_unlink p (exit_teardown c xlate p s)) = cpu_count s"
  using exit_teardown_woken [of s c xlate p] by (simp_all add: exit_unlink_def woken_def)

lemma teardown_dead: "p_state (procs s p) = PROC_DEAD \<Longrightarrow> p_state (procs (exit_teardown c xlate q s) p) = PROC_DEAD"
  using exit_teardown_woken [of s c xlate q] unfolding woken_def by (metis proc_state.distinct(5))

lemma proc_exit_steps:
  assumes "p_pid (procs s p) \<noteq> 0"
  shows "sched_step\<^sup>*\<^sup>* s (proc_exit c xlate p s)" "cpu_view (cpus (proc_exit c xlate p s) d) = cpu_view (cpus s d)"
    "cpu_count (proc_exit c xlate p s) = cpu_count s"
    "\<not> p_exiting (procs s p) \<Longrightarrow> p_state (procs (proc_exit c xlate p s) p) = PROC_DEAD"
proof -
  have "sched_step\<^sup>*\<^sup>* s (proc_exit c xlate p s) \<and> cpu_view (cpus (proc_exit c xlate p s) d) = cpu_view (cpus s d) \<and>
    cpu_count (proc_exit c xlate p s) = cpu_count s \<and>
    (\<not> p_exiting (procs s p) \<longrightarrow> p_state (procs (proc_exit c xlate p s) p) = PROC_DEAD)"
  proof (cases "exit_claim p s")
    case None
    then show ?thesis by (auto simp: proc_exit_def exit_claim_def split: if_splits)
  next
    case (Some t)
    then have t: "cpus t = cpus s" "cpu_count t = cpu_count s" "p_state (procs t p) = PROC_DEAD"
      by (auto simp: exit_claim_def split: if_splits)
    have "sched_step s t" using assms Some by (rule sched_step.claim)
    moreover have "sched_step t (exit_teardown c xlate p t)" by (rule sched_step.teardown)
    moreover have d: "p_state (procs (exit_teardown c xlate p t) p) = PROC_DEAD" using t(3) by (rule teardown_dead)
    then have "sched_step (exit_teardown c xlate p t) (exit_unlink p (exit_teardown c xlate p t))"
      by (rule sched_step.unlink)
    ultimately have "sched_step\<^sup>*\<^sup>* s (exit_unlink p (exit_teardown c xlate p t))" by (meson converse_rtranclp_into_rtranclp r_into_rtranclp)
    with Some t exit_cpus d show ?thesis by (simp add: proc_exit_def exit_unlink_def)
  qed
  then show "sched_step\<^sup>*\<^sup>* s (proc_exit c xlate p s)" "cpu_view (cpus (proc_exit c xlate p s) d) = cpu_view (cpus s d)"
    "cpu_count (proc_exit c xlate p s) = cpu_count s"
    "\<not> p_exiting (procs s p) \<Longrightarrow> p_state (procs (proc_exit c xlate p s) p) = PROC_DEAD" by blast+
qed

lemma sched_yield_steps:
  assumes "runs s c cur"
  shows "sched_step\<^sup>*\<^sup>* s (sched_yield c xlate rflags s)"
proof -
  have cur: "current_proc (cpus s c) = Some cur" using assms by (simp add: runs_def)
  show ?thesis
  proof (cases "p_state (procs s cur) = PROC_DEAD \<and> p_pid (procs s cur) \<noteq> 0")
    case True
    let ?s = "proc_exit c xlate cur s"
    have "runs ?s c cur"
      using assms runs_view [OF proc_exit_steps(2,3)] True by blast
    then have "sched_step ?s (yield_pick c rflags cur ?s)" by (rule sched_step.yield)
    with proc_exit_steps(1) [of s cur c xlate] True cur show ?thesis
      by (simp add: sched_yield_def sched_yield_locked_def)
  next
    case False
    with sched_step.yield [OF assms] cur show ?thesis
      by (auto simp: sched_yield_def sched_yield_locked_def Let_def)
  qed
qed

lemma proc_kill_steps:
  assumes run: "runs s c cur" and k: "killing (cpus s c) = None"
  shows "sched_step\<^sup>*\<^sup>* s (proc_kill c xlate smp rflags pid s)"
proof (cases "proc_by_pid pid s")
  case None
  then show ?thesis by (simp add: proc_kill_def)
next
  case (Some p)
  have c: "c < cpu_count s" "current_proc (cpus s c) = Some cur" using run by (auto simp: runs_def)
  show ?thesis
  proof (cases "kill_path_for c p s")
    case Kill_nothing
    with Some show ?thesis by (simp add: proc_kill_def)
  next
    case Kill_self
    then have "p = cur" and pid: "p_pid (procs s p) \<noteq> 0"
      using c by (auto simp: kill_path_for_def proc_current_def split: if_splits)
    with run have "runs (proc_exit c xlate p s) c cur" using runs_view [OF proc_exit_steps(2,3)] by blast
    from rtranclp_trans [OF proc_exit_steps(1) [OF pid] sched_yield_steps [OF this]] Some Kill_self
    show ?thesis by (simp add: proc_kill_def)
  next
    case Kill_remote
    then have "p_pid (procs s p) \<noteq> 0" by (auto simp: kill_path_for_def split: if_splits)
    with sched_step.remote Some Kill_remote show ?thesis by (auto simp: proc_kill_def)
  next
    case Kill_here
    then have pid: "p_pid (procs s p) \<noteq> 0" "\<not> p_exiting (procs s p)"
      by (auto simp: kill_path_for_def split: if_splits)
    let ?u = "kill_unlink c p s" and ?v = "proc_exit c xlate p (kill_unlink c p s)"
    have u: "p_pid (procs ?u p) \<noteq> 0" "\<not> p_exiting (procs ?u p)" "killing (cpus ?u c) = Some p"
      using pid by (simp_all add: kill_unlink_def)
    have "sched_step s ?u" using c(1) k by (rule sched_step.target)
    moreover have "sched_step\<^sup>*\<^sup>* ?u ?v" using u(1) by (rule proc_exit_steps(1))
    moreover have "sched_step ?v (kill_finish c ?v)"
    proof (rule sched_step.killed)
      fix q assume "killing (cpus ?v c) = Some q"
      with proc_exit_steps(2) [OF u(1), of c xlate c] u(3) have "q = p" by (simp add: cpu_view_def)
      with proc_exit_steps(4) [OF u(1,2)] show "p_state (procs ?v q) \<noteq> PROC_BLOCKED" by simp
    qed
    ultimately have "sched_step\<^sup>*\<^sup>* s (kill_finish c ?v)"
      by (meson converse_rtranclp_into_rtranclp rtranclp.rtrancl_into_rtrancl)
    with Some Kill_here show ?thesis by (simp add: proc_kill_def)
  qed
qed

lemma sched_reach_steps: "sched_step\<^sup>*\<^sup>* s t \<Longrightarrow> sched_reach s \<Longrightarrow> sched_reach t"
  by (induction rule: rtranclp_induct) (auto intro: sched_reach.step)

section \<open>Waking and choosing\<close>

definition waits_on :: "u64 \<Rightarrow> proc \<Rightarrow> bool" where
  "waits_on chan x \<longleftrightarrow> p_state x = PROC_BLOCKED \<and> p_wait_chan x = chan"

definition awake :: "proc \<Rightarrow> proc" where
  "awake x = x\<lparr>p_wait_chan := 0, p_sleep_until := 0, p_state := PROC_READY\<rparr>"

lemma fold_wake_chan:
  "distinct ps \<Longrightarrow> procs (fst (fold (wake_chan_one chan) ps a)) =
     (\<lambda>p. if p \<in> set ps \<and> waits_on chan (procs (fst a) p) then awake (procs (fst a) p) else procs (fst a) p)
   \<and> (snd (fold (wake_chan_one chan) ps a) \<longleftrightarrow> snd a \<or> (\<exists>p \<in> set ps. waits_on chan (procs (fst a) p)))"
proof (induction ps arbitrary: a)
  case (Cons x ps)
  have 1: "procs (fst (wake_chan_one chan x a)) = (procs (fst a))(x :=
      if waits_on chan (procs (fst a) x) then awake (procs (fst a) x) else procs (fst a) x)"
    "snd (wake_chan_one chan x a) \<longleftrightarrow> snd a \<or> waits_on chan (procs (fst a) x)"
    by (cases a; auto simp: wake_chan_one_def waits_on_def awake_def)+
  from Cons.IH [of "wake_chan_one chan x a"] Cons.prems show ?case
    unfolding fold_simps comp_def 1 by (auto simp: fun_eq_iff)
qed simp

lemma sched_wake_chan_procs:
  assumes "distinct (linked s)"
  shows "procs (sched_wake_chan c chan s) p =
     (if p \<in> set (linked s) \<and> waits_on chan (procs s p) then awake (procs s p) else procs s p)"
  using fold_wake_chan [OF assms, of chan "(s, False)"]
  by (auto simp: sched_wake_chan_def split: prod.splits)

lemma yield_queue_result:
  assumes inv: "sched_inv s" and run: "runs s c cur"
    and scan: "scan_queues (fst (wake_expired s)) = Some (q, p)"
  shows "current_proc (cpus (yield_pick c rflags cur s) c) = Some p"
    "p_state (procs (yield_pick c rflags cur s) p) = PROC_RUNNING"
proof -
  let ?w = "fst (wake_expired s)"
  have iw: "sched_inv ?w" using woken_inv [OF inv wake_expired_woken] .
  note Q = queues_okD [OF sched_inv_parts(1) [OF iw]] and S = scan_queues_Some [OF scan]
  have lp: "p \<in> set (linked ?w)" using S(1,2) in_linked by blast
  have c: "c < cpu_count ?w" "current_proc (cpus ?w c) = Some cur"
    using run wake_expired_woken [of s] by (auto simp: woken_def cpu_view_def runs_def)
  have ne: "p \<noteq> cur" using live_okD(1) [OF sched_inv_parts(3) [OF iw] c] lp by auto
  have "pick_next_ready c s = (Some p, ready_dequeue p ?w)"
    using scan dequeue_scan [OF Q(1) S(1,2)] by (simp add: pick_next_ready_def Let_def)
  then have "yield_pick c rflags cur s = switch_to c cur p (p_ring3 (procs ?w p)) rflags
      (if p_state (procs ?w cur) = PROC_RUNNING \<and> p_pid (procs ?w cur) \<noteq> 0
       then ready_enqueue cur (upd_proc cur (\<lambda>x. x\<lparr>p_state := PROC_READY\<rparr>) (ready_dequeue p ?w))
       else ready_dequeue p ?w)"
    using ne Q(4) [OF lp] by (simp add: yield_pick_def Let_def)
  then show "current_proc (cpus (yield_pick c rflags cur s) c) = Some p"
    "p_state (procs (yield_pick c rflags cur s) p) = PROC_RUNNING"
    using switch_to_view(1,6) [OF ne] ne by simp_all
qed

lemma scan_queues_None: "scan_queues s = None \<longleftrightarrow> (\<forall>p \<in> set (linked s). \<not> pickable (procs s p))"
proof
  assume "scan_queues s = None"
  then have "find (\<lambda>q. \<exists>p \<in> set (ready s q). pickable (procs s p)) [0..<3] = None"
    by (auto simp: scan_queues_def find_None_iff dest!: find_upt_SomeD split: option.splits)
  then show "\<forall>p \<in> set (linked s). \<not> pickable (procs s p)" by (auto simp: find_None_iff in_linked)
next
  assume "\<forall>p \<in> set (linked s). \<not> pickable (procs s p)"
  then have "find (\<lambda>q. \<exists>p \<in> set (ready s q). pickable (procs s p)) [0..<3] = None"
    unfolding find_None_iff by (auto simp: in_linked)
  then show "scan_queues s = None" by (simp add: scan_queues_def)
qed

lemma fold_wake_one:
  "distinct ps \<Longrightarrow> procs (fst (fold (wake_one now) ps a)) =
     (\<lambda>p. if p \<in> set ps \<and> expired now (procs (fst a) p)
          then (procs (fst a) p)\<lparr>p_state := PROC_READY, p_sleep_until := 0\<rparr> else procs (fst a) p)"
proof (induction ps arbitrary: a)
  case (Cons x ps)
  have 1: "procs (fst (wake_one now x a)) = (procs (fst a))(x :=
      if expired now (procs (fst a) x) then (procs (fst a) x)\<lparr>p_state := PROC_READY, p_sleep_until := 0\<rparr>
      else procs (fst a) x)"
    by (cases a) (auto simp: wake_one_def)
  from Cons.IH [of "wake_one now x a"] Cons.prems show ?case
    unfolding fold_simps comp_def 1 by (auto simp: fun_eq_iff)
qed simp

text \<open>A blocked process that yields leaves its CPU and stays blocked.\<close>

lemma yield_blocked_result:
  assumes pre: "yield_pre {cur} c cur s" and st: "p_state (procs s cur) = PROC_BLOCKED" "\<not> expired (ticks s) (procs s cur)"
  shows "\<exists>nxt. nxt \<noteq> cur \<and> current_proc (cpus (yield_pick c rflags cur s) c) = Some nxt \<and>
     in_switch (cpus (yield_pick c rflags cur s) c) = Some cur \<and>
     procs (yield_pick c rflags cur s) cur = (procs s cur)\<lparr>p_switching := True, p_saved_rflags := rflags\<rparr> \<and>
     (\<forall>d. killing (cpus (yield_pick c rflags cur s) d) = killing (cpus s d)) \<and>
     cpu_count (yield_pick c rflags cur s) = cpu_count s"
proof -
  let ?w = "fst (wake_expired s)"
  have wk: "woken s ?w" by (rule wake_expired_woken)
  have w: "yield_pre {cur} c cur ?w" using yield_pre_woken [OF pre wk] .
  then have inv: "sched_inv_ex {cur} ?w" and lc: "cur \<in> set (linked ?w)"
    and c: "c < cpu_count ?w" "current_proc (cpus ?w c) = Some cur"
    by (auto simp: yield_pre_def)
  have d: "distinct (linked s)" using pre queues_okD(1) [OF sched_inv_parts(1)] by (auto simp: yield_pre_def)
  have pc: "procs ?w cur = procs s cur"
    using fold_wake_one [OF d, of "ticks s" "(s, False)"] st(2) by (simp add: wake_expired_def)
  have pid: "p_pid (procs ?w cur) \<noteq> 0" using queues_okD(4) [OF sched_inv_parts(1) [OF inv] lc] .
  have np: "\<not> pickable (procs ?w cur)" using st(1) pc by (simp add: pickable_def)
  have k: "killing (cpus ?w d) = killing (cpus s d)" "cpu_count ?w = cpu_count s" for d
    using wk by (auto simp: woken_def cpu_view_def)
  have res: ?thesis if "nxt \<noteq> cur" "yield_pick c rflags cur s = switch_to c cur nxt own rflags t"
      "procs t = procs ?w" "cpus t = cpus ?w" "cpu_count t = cpu_count ?w" for nxt own t
    using switch_to_view(1,4,6,7,9) [OF that(1), of c own rflags t] that pc k
    by (intro exI [of _ nxt]) simp
  obtain nxt t where pick: "pick_next_ready c s = (nxt, t)" by fastforce
  then show ?thesis
  proof (cases rule: pick_cases)
    case (queue q p u)
    note S = scan_queues_Some [OF queue(2)]
    have t: "t = ready_dequeue p ?w"
      using dequeue_scan [OF _ S(1,2)] queue queues_okD(1) [OF sched_inv_parts(1) [OF inv]] by simp
    have p: "p \<noteq> cur" "p_pid (procs ?w p) \<noteq> 0"
      using S(1-3) np queue(1) in_linked [of p ?w] queues_okD(4) [OF sched_inv_parts(1) [OF inv], of p] by auto
    show ?thesis
      by (rule res [of p "p_ring3 (procs ?w p)" t]) (use pick queue(3) t p st(1) pc in \<open>auto simp: yield_pick_def Let_def\<close>)
  next
    case (rescue p)
    have p: "p \<noteq> cur" "pickable (procs ?w p)" using rescue c by (auto simp: stranded_def)
    have pp: "p_pid (procs ?w p) \<noteq> 0"
      using table_okD(1) [OF sched_inv_parts(4) [OF inv] rescue(3)] p(2) by (auto simp: pickable_def)
    show ?thesis
      by (rule res [of p "p_ring3 (procs ?w p)" t]) (use pick rescue p pp st(1) pc in \<open>auto simp: yield_pick_def Let_def\<close>)
  next
    case stay
    obtain i where i: "idle_proc (cpus ?w c) = Some i" "p_pid (procs ?w i) = 0"
      using cpus_okD(3) [OF sched_inv_parts(2) [OF inv] c(1)] by blast
    with pid have "i \<noteq> cur" by auto
    then show ?thesis
      by (intro res [of i "p_kstack (procs ?w i) \<noteq> 0" t]) (use pick stay c i pid st(1) pc in \<open>auto simp: yield_pick_def Let_def\<close>)
  qed
qed

text \<open>The deadline of a wait is not reached when the process blocks, unless the tick counter wraps.\<close>

definition deadline :: "u64 \<Rightarrow> sched \<Rightarrow> u64" where
  "deadline timeout_ms s =
     ticks s + ms_to_ticks (if timeout_ms = 0 then SCHED_WAIT_BACKSTOP_MS else timeout_ms) (ticks_hz s)"

lemma sched_block_on_result:
  fixes chan rflags :: u64 and xlate :: "u64 \<Rightarrow> u64 \<Rightarrow> u64"
  assumes inv: "sched_inv s" and run: "runs s c cur" and pid: "p_pid (procs s cur) \<noteq> 0"
    and dl: "ticks s < deadline timeout_ms s"
  defines "t \<equiv> sched_block_on c xlate rflags chan timeout_ms s"
  shows "\<exists>nxt. nxt \<noteq> cur \<and> current_proc (cpus t c) = Some nxt"
    "procs t cur = (procs s cur)\<lparr>p_state := PROC_BLOCKED, p_wait_chan := chan, p_sleep_until := deadline timeout_ms s,
                                 p_switching := True, p_saved_rflags := rflags\<rparr>"
    "killing (cpus t d) = killing (cpus s d)" "cpu_count t = cpu_count s"
proof -
  let ?f = "\<lambda>x. x\<lparr>p_wait_chan := chan, p_sleep_until := deadline timeout_ms s, p_state := PROC_BLOCKED\<rparr>"
  let ?m = "ready_enqueue cur (upd_proc cur ?f s)"
  have pre: "yield_pre {cur} c cur ?m" by (rule block_pre [OF inv run pid]) simp_all
  have "t = yield_pick c rflags cur ?m"
    using run pid
    by (simp add: t_def sched_block_on_def runs_def sched_yield_locked_def mark_blocked_def upd_proc_comp
        deadline_def Let_def)
  moreover have "\<not> expired (ticks ?m) (procs ?m cur)" using dl by (simp add: expired_def not_le)
  note yield_blocked_result [OF pre _ this, of rflags]
  ultimately show "\<exists>nxt. nxt \<noteq> cur \<and> current_proc (cpus t c) = Some nxt"
    "procs t cur = (procs s cur)\<lparr>p_state := PROC_BLOCKED, p_wait_chan := chan, p_sleep_until := deadline timeout_ms s,
                                 p_switching := True, p_saved_rflags := rflags\<rparr>"
    "killing (cpus t d) = killing (cpus s d)" "cpu_count t = cpu_count s"
    by auto
qed

section \<open>A machine with two CPUs\<close>

text \<open>After boot a second CPU joins and the first adopts process 1, which then sleeps.\<close>

definition ex_boot :: sched where "ex_boot = sched_boot 100 4096 8192 0x10000 0x500"

definition ex_create :: sched where "ex_create = snd (proc_create 0x400000 0x3000 0x4000 0x20000 ex_boot)"

definition ex_join :: sched where
  "ex_join = sched_init_ap 1 4096 8192 0x30000 0x500 (ex_create\<lparr>cpu_count := 2\<rparr>)"

definition ex_adopt :: sched where "ex_adopt = sched_adopt_current 0 1 ex_join"

definition ex_wait :: sched where "ex_wait = sched_block_on 0 (\<lambda>_ _. 0) 0x202 77 0 ex_adopt"

lemmas ex_sched_defs = ex_boot_def ex_create_def ex_join_def ex_adopt_def ex_wait_def

lemma ex_boot_reach: "sched_reach ex_boot"
  unfolding ex_boot_def by (rule sched_reach.boot)

lemma ex_create_reach: "sched_reach ex_create"
  unfolding ex_create_def by (intro sched_reach.step [OF ex_boot_reach] sched_step.create)

definition ex_ready :: sched where "ex_ready = proc_make_ready False 1 ex_create"

lemma ex_ready_facts: "detached ex_create 1 \<and> p_pid (procs ex_create 1) \<noteq> 0"
  by code_simp

lemma ex_ready_values: "runs ex_ready 0 0 \<and> linked ex_ready = [1] \<and> pickable (procs (fst (wake_expired ex_ready)) 1)"
  by code_simp

lemma ex_ready_reach: "sched_reach ex_ready"
  unfolding ex_ready_def using ex_ready_facts
  by (intro sched_reach.step [OF ex_create_reach] sched_step.make_ready) auto

lemma ex_join_facts: "cpu_count ex_create = 1 \<and> cpus ex_create 1 = zero_cpu \<and>
    find (\<lambda>i. free_slot (procs ex_create i)) [1..<256] \<noteq> None"
  by code_simp

lemma ex_join_reach: "sched_reach ex_join"
proof -
  have "sched_step ex_create (sched_init_ap (cpu_count ex_create) 4096 8192 0x30000 0x500
      (ex_create\<lparr>cpu_count := Suc (cpu_count ex_create)\<rparr>))"
    using ex_join_facts by (intro sched_step.join) auto
  moreover have "cpu_count ex_create = 1" using ex_join_facts by simp
  ultimately have "sched_step ex_create ex_join" by (simp add: ex_join_def numeral_2_eq_2)
  then show ?thesis by (rule sched_reach.step [OF ex_create_reach])
qed

lemma ex_adopt_facts: "detached ex_join 1 \<and> p_pid (procs ex_join 1) \<noteq> 0 \<and> 0 < cpu_count ex_join"
  by code_simp

lemma ex_adopt_reach: "sched_reach ex_adopt"
  unfolding ex_adopt_def
  using ex_adopt_facts by (intro sched_reach.step [OF ex_join_reach] sched_step.adopt) auto

lemma ex_wait_facts: "runs ex_adopt 0 1 \<and> p_pid (procs ex_adopt 1) \<noteq> 0"
  by code_simp

lemma ex_wait_reach: "sched_reach ex_wait"
  unfolding ex_wait_def using ex_wait_facts
  by (intro sched_reach.step [OF ex_adopt_reach] sched_block_on_step) auto

lemma ex_adopt_ticks: "ticks ex_adopt = 0" "ticks_hz ex_adopt = 100"
  by code_simp+

lemma ex_wait_values: "cpu_count ex_adopt = 2" "queue_of (procs ex_adopt 1) = 1"
    "killing (cpus ex_adopt 0) = None" "killing (cpus ex_adopt 1) = None"
    "ticks ex_adopt < deadline 0 ex_adopt"
  by (code_simp, code_simp, code_simp, code_simp) (simp add: deadline_def ex_adopt_ticks ms_to_ticks_def Let_def)

lemma ex_wait_blocked: "waits_on 77 (procs ex_wait 1)" "queue_of (procs ex_wait 1) = 1"
    "\<forall>d < cpu_count ex_wait. killing (cpus ex_wait d) \<noteq> Some 1"
  using sched_block_on_result [OF sched_reach_inv [OF ex_adopt_reach], where c = 0 and cur = 1 and timeout_ms = 0
      and xlate = "\<lambda>_ _. 0" and rflags = "0x202" and chan = 77]
    ex_wait_facts ex_wait_values
  by (auto simp: ex_wait_def waits_on_def less_2_cases_iff)

section \<open>Properties\<close>





text \<open>No wake-up is lost. \<open>sched_wake_chan\<close> in a reachable state makes ready every process that is
  blocked on the channel, unless a CPU is about to kill it, and changes no other process.\<close>

theorem sched_wake_chan_wakes:
  assumes "sched_reach s" "p < SCHED_MAX_PROCS" "\<forall>d < cpu_count s. killing (cpus s d) \<noteq> Some p"
  shows "procs (sched_wake_chan c chan s) p = (if waits_on chan (procs s p) then awake (procs s p) else procs s p)"
proof -
  have inv: "sched_inv s" using sched_reach_inv [OF assms(1)] .
  have "p \<in> set (linked s)" if "p_state (procs s p) = PROC_BLOCKED"
    using table_okD(4) [OF sched_inv_parts(4) [OF inv] assms(2) that] assms(3) by blast
  then show ?thesis
    using sched_wake_chan_procs [OF queues_okD(1) [OF sched_inv_parts(1) [OF inv]]] by (auto simp: waits_on_def)
qed

theorem sched_wake_chan_wakes_witness:
  "procs (sched_wake_chan 1 77 ex_wait) 1 = awake (procs ex_wait 1) \<and>
   procs (sched_wake_chan 1 78 ex_wait) 1 = procs ex_wait 1"
  using sched_wake_chan_wakes [OF ex_wait_reach _ ex_wait_blocked(3)] ex_wait_blocked(1)
  by (simp add: waits_on_def)

text \<open>A process that blocks leaves the CPU. \<open>sched_block_on\<close>, called by a process in a reachable state
  with a deadline that does not wrap, leaves the process blocked on the channel with that deadline,
  and the CPU runs some other process.\<close>

theorem sched_block_on_blocks:
  assumes "sched_reach s" "runs s c cur" "p_pid (procs s cur) \<noteq> 0" "ticks s < deadline timeout_ms s"
  shows "sched_reach (sched_block_on c xlate rflags chan timeout_ms s) \<and>
    waits_on chan (procs (sched_block_on c xlate rflags chan timeout_ms s) cur) \<and>
    p_sleep_until (procs (sched_block_on c xlate rflags chan timeout_ms s) cur) = deadline timeout_ms s \<and>
    (\<exists>nxt. nxt \<noteq> cur \<and> current_proc (cpus (sched_block_on c xlate rflags chan timeout_ms s) c) = Some nxt)"
  using sched_reach.step [OF assms(1) sched_block_on_step [OF assms(2,3)]]
    sched_block_on_result [OF sched_reach_inv [OF assms(1)] assms(2-4)]
  by (simp add: waits_on_def)

theorem sched_block_on_blocks_witness: "waits_on 5 (procs (sched_block_on 0 (\<lambda>_ _. 0) 0x202 5 0 ex_adopt) 1)"
  using sched_block_on_blocks [OF ex_adopt_reach, where c = 0 and cur = 1 and timeout_ms = 0
      and xlate = "\<lambda>_ _. 0" and rflags = "0x202" and chan = 5] ex_wait_facts ex_wait_values(5) by simp

text \<open>C32: The highest priority runs. When a process yields in a reachable state and some linked process is
  ready with its context saved, then the CPU runs such a process afterwards, and none in a queue of
  higher priority, nor earlier in the same queue, could have been chosen.\<close>

theorem sched_yield_priority:
  assumes "sched_reach s" "runs s c cur" "\<exists>p \<in> set (linked s). pickable (procs (fst (wake_expired s)) p)"
  shows "\<exists>q p xs ys. q < 3 \<and> ready (fst (wake_expired s)) q = xs @ p # ys \<and> pickable (procs (fst (wake_expired s)) p) \<and>
    (\<forall>x \<in> set xs. \<not> pickable (procs (fst (wake_expired s)) x)) \<and>
    (\<forall>r < q. \<forall>x \<in> set (ready s r). \<not> pickable (procs (fst (wake_expired s)) x)) \<and>
    current_proc (cpus (yield_pick c rflags cur s) c) = Some p \<and>
    p_state (procs (yield_pick c rflags cur s) p) = PROC_RUNNING"
proof -
  let ?w = "fst (wake_expired s)"
  have r: "ready ?w = ready s" "linked ?w = linked s"
    using wake_expired_woken [of s] by (simp_all add: woken_def linked_def)
  obtain q p where scan: "scan_queues ?w = Some (q, p)" using assms(3) scan_queues_None [of ?w] r by fastforce
  note S = scan_queues_Some [OF scan]
  have "find (\<lambda>p. pickable (procs ?w p)) (ready ?w q) = Some p"
    using scan by (auto simp: scan_queues_def split: option.splits)
  then obtain i where i: "i < length (ready ?w q)" "ready ?w q ! i = p" "\<forall>j < i. \<not> pickable (procs ?w (ready ?w q ! j))"
    by (auto simp: find_Some_iff)
  then have "ready ?w q = take i (ready ?w q) @ p # drop (Suc i) (ready ?w q)" using id_take_nth_drop by blast
  moreover have "\<forall>x \<in> set (take i (ready ?w q)). \<not> pickable (procs ?w x)"
    using i(1,3) by (auto simp: in_set_conv_nth)
  ultimately show ?thesis
    using S yield_queue_result [OF sched_reach_inv [OF assms(1)] assms(2) scan] unfolding r by blast
qed

theorem sched_yield_priority_witness:
  "runs ex_ready 0 0 \<and> (\<exists>p. pickable (procs (fst (wake_expired ex_ready)) p) \<and>
     current_proc (cpus (yield_pick 0 0x202 0 ex_ready) 0) = Some p)"
  using sched_yield_priority [OF ex_ready_reach, where c = 0 and cur = 0 and rflags = "0x202"] ex_ready_values by fastforce

text \<open>A context switch brings a process back where it left. When the context of a process was saved
  at a return address in the upper half, loading it restores the callee-saved registers, the return
  address and the stack as the return pops it, and selects its address space and kernel stack.\<close>

theorem context_round_trip:
  assumes "drop_bit 32 (m_ret m) = 0xFFFFFFFF" "p_pml4_phys p \<noteq> 0"
  shows "context_load from_phys tss (context_save m p) m' =
     Some \<lparr>m_regs = m_regs m, m_rsp = m_rsp m + 8, m_ret = m_ret m,
           m_cr3 = (if p_pml4_phys p = from_phys then m_cr3 m' else p_pml4_phys p),
           m_rsp0 = (if p_ring3 p \<or> p_kstack p \<noteq> 0 then p_kstack p + SCHED_STACK_SIZE else tss)\<rparr>"
  using assms by (simp add: context_load_def context_save_def)

theorem context_round_trip_witness:
  "context_load 0x1000 0 (context_save \<lparr>m_regs = \<lparr>ctx_rbx = 1, ctx_rbp = 2, ctx_r12 = 3, ctx_r13 = 4, ctx_r14 = 5, ctx_r15 = 6\<rparr>,
      m_rsp = 0xFFFF800000010000, m_ret = 0xFFFFFFFF80001000, m_cr3 = 0x1000, m_rsp0 = 0\<rparr> (zero_proc\<lparr>p_pml4_phys := 0x2000\<rparr>))
     \<lparr>m_regs = \<lparr>ctx_rbx = 0, ctx_rbp = 0, ctx_r12 = 0, ctx_r13 = 0, ctx_r14 = 0, ctx_r15 = 0\<rparr>,
      m_rsp = 0, m_ret = 0, m_cr3 = 0x1000, m_rsp0 = 0\<rparr> =
   Some \<lparr>m_regs = \<lparr>ctx_rbx = 1, ctx_rbp = 2, ctx_r12 = 3, ctx_r13 = 4, ctx_r14 = 5, ctx_r15 = 6\<rparr>,
         m_rsp = 0xFFFF800000010008, m_ret = 0xFFFFFFFF80001000, m_cr3 = 0x2000, m_rsp0 = 0\<rparr>"
  using context_round_trip [where from_phys = "0x1000" and tss = 0 and m = "\<lparr>m_regs = \<lparr>ctx_rbx = 1, ctx_rbp = 2, ctx_r12 = 3, ctx_r13 = 4, ctx_r14 = 5, ctx_r15 = 6\<rparr>,
      m_rsp = 0xFFFF800000010000, m_ret = 0xFFFFFFFF80001000, m_cr3 = 0x1000, m_rsp0 = 0\<rparr>" and p = "zero_proc\<lparr>p_pml4_phys := 0x2000\<rparr>"]
  by (simp add: zero_proc_def drop_bit_eq_div)

end
