(* ===== verification/Futex.thy ===== *)
theory Futex
  imports Sched
begin

text \<open>
  Futexes (\<^verbatim>\<open>src/kernel/ipc/futex.c\<close>): a table of waiters on top of the wait channels of the scheduler.
  \<open>xlate\<close> is \<open>vmm_virt_to_phys\<close> and \<open>read32\<close> reads a word of physical memory through the direct map.
  \<open>FUTEX_WAIT\<close> is split at the call of \<open>sched_block_on\<close>: \<open>futex_wait\<close> up to and including the call, and
  \<open>futex_wait_done\<close> after the process runs again.
\<close>

section \<open>Definitions\<close>

abbreviation (input) FUTEX_MAX_WAITERS :: nat where "FUTEX_MAX_WAITERS \<equiv> 256"

record futex_waiter =
  fw_proc :: "nat option"
  fw_uaddr :: u64

record futex_sys =
  futex_waiters :: "futex_waiter carray"
  fx_sched :: sched

definition futex_resolve :: "(u64 \<Rightarrow> u64 \<Rightarrow> u64) \<Rightarrow> proc \<Rightarrow> u64 \<Rightarrow> u64 option" where
  "futex_resolve xlate p uaddr =
     (if p_pml4_virt p = 0 then None
      else if uaddr AND 3 \<noteq> 0 then None
      else let pa = xlate (p_pml4_virt p) uaddr in if pa = 0 then None else Some pa)"

text \<open>The results of a call that does not block, and the slot of a call that does.\<close>

datatype futex_result = Fx_ret int | Fx_blocked nat

definition futex_wait ::
  "nat \<Rightarrow> (u64 \<Rightarrow> u64 \<Rightarrow> u64) \<Rightarrow> (u64 \<Rightarrow> u32) \<Rightarrow> u64 \<Rightarrow> nat \<Rightarrow> u64 \<Rightarrow> u64 \<Rightarrow> u32 \<Rightarrow> u64 \<Rightarrow> futex_sys \<Rightarrow> futex_result \<times> futex_sys" where
  "futex_wait c xlate read32 rflags cur kaddr uaddr val timeout_ns S =
     (if read32 kaddr \<noteq> val then (Fx_ret (-11), S)
      else case find (\<lambda>i. fw_proc (futex_waiters S i) = None) [0..<FUTEX_MAX_WAITERS] of
        None \<Rightarrow> (Fx_ret (-12), S)
      | Some slot \<Rightarrow>
          let timeout_ms = (if timeout_ns \<noteq> 0 then timeout_ns div 1000000 else 0)
          in (Fx_blocked slot,
              S\<lparr>futex_waiters := (futex_waiters S)(slot := \<lparr>fw_proc = Some cur, fw_uaddr = uaddr\<rparr>),
                fx_sched := sched_block_on c xlate rflags uaddr timeout_ms (fx_sched S)\<rparr>))"

definition futex_wait_done :: "nat \<Rightarrow> futex_sys \<Rightarrow> int \<times> futex_sys" where
  "futex_wait_done cur S =
     (let S1 = S\<lparr>fx_sched := block_return cur (fx_sched S)\<rparr>
      in case find (\<lambda>i. fw_proc (futex_waiters S i) = Some cur) [0..<FUTEX_MAX_WAITERS] of
           Some i \<Rightarrow> (0, S1\<lparr>futex_waiters := (futex_waiters S)(i := (futex_waiters S i)\<lparr>fw_proc := None\<rparr>)\<rparr>)
         | None \<Rightarrow> (0, S1))"

text \<open>The loop of \<open>FUTEX_WAKE\<close> over the slots still to be visited.\<close>

definition waits_for :: "u64 \<Rightarrow> futex_waiter \<Rightarrow> bool" where
  "waits_for uaddr w \<longleftrightarrow> fw_proc w \<noteq> None \<and> fw_uaddr w = uaddr"

fun futex_wake_loop :: "nat \<Rightarrow> u64 \<Rightarrow> int \<Rightarrow> nat list \<Rightarrow> int \<Rightarrow> futex_sys \<Rightarrow> int \<times> futex_sys" where
  "futex_wake_loop c uaddr val [] nwoken S = (nwoken, S)"
| "futex_wake_loop c uaddr val (i # is) nwoken S =
     (if \<not> nwoken < val then (nwoken, S)
      else if waits_for uaddr (futex_waiters S i) then
        futex_wake_loop c uaddr val is (nwoken + 1)
          (S\<lparr>futex_waiters := (futex_waiters S)(i := (futex_waiters S i)\<lparr>fw_proc := None\<rparr>),
             fx_sched := sched_wake_chan c uaddr (fx_sched S)\<rparr>)
      else futex_wake_loop c uaddr val is nwoken S)"

definition futex_wake :: "nat \<Rightarrow> u64 \<Rightarrow> u32 \<Rightarrow> futex_sys \<Rightarrow> int \<times> futex_sys" where
  "futex_wake c uaddr val S = futex_wake_loop c uaddr (sint val) [0..<FUTEX_MAX_WAITERS] 0 S"

definition sys_futex_impl ::
  "nat \<Rightarrow> (u64 \<Rightarrow> u64 \<Rightarrow> u64) \<Rightarrow> (u64 \<Rightarrow> u32) \<Rightarrow> u64 \<Rightarrow> u64 \<Rightarrow> int \<Rightarrow> u32 \<Rightarrow> u64 \<Rightarrow> futex_sys \<Rightarrow> futex_result \<times> futex_sys" where
  "sys_futex_impl c xlate read32 rflags uaddr op val timeout_ns S =
     (case proc_current c (fx_sched S) of
        None \<Rightarrow> (Fx_ret (-1), S)
      | Some cur \<Rightarrow>
          (case futex_resolve xlate (procs (fx_sched S) cur) uaddr of
             None \<Rightarrow> (Fx_ret (-1), S)
           | Some kaddr \<Rightarrow>
               if op = 0 then futex_wait c xlate read32 rflags cur kaddr uaddr val timeout_ns S
               else if op = 1 then (case futex_wake c uaddr val S of (n, T) \<Rightarrow> (Fx_ret n, T))
               else (Fx_ret (-38), S)))"

section \<open>Waking\<close>

definition waiting_slots :: "u64 \<Rightarrow> futex_sys \<Rightarrow> nat list" where
  "waiting_slots uaddr S = filter (\<lambda>i. waits_for uaddr (futex_waiters S i)) [0..<FUTEX_MAX_WAITERS]"

lemma futex_wake_loop_spec:
  assumes "distinct is" "futex_wake_loop c uaddr val is nwoken S = (n, T)" "0 \<le> nwoken"
  shows "\<exists>k. k = min (nat (val - nwoken)) (length (filter (\<lambda>i. waits_for uaddr (futex_waiters S i)) is)) \<and>
    n = nwoken + int k \<and> fx_sched T = (sched_wake_chan c uaddr ^^ k) (fx_sched S) \<and>
    futex_waiters T = (\<lambda>i. if i \<in> set (take k (filter (\<lambda>i. waits_for uaddr (futex_waiters S i)) is))
      then (futex_waiters S i)\<lparr>fw_proc := None\<rparr> else futex_waiters S i)"
  using assms
proof (induction "is" arbitrary: nwoken S)
  case (Cons i "is")
  show ?case
  proof (cases "nwoken < val")
    case False
    with Cons.prems show ?thesis by simp
  next
    case lt: True
    show ?thesis
    proof (cases "waits_for uaddr (futex_waiters S i)")
      case False
      with Cons.IH [of nwoken S] Cons.prems lt show ?thesis by simp
    next
      case True
      let ?S = "S\<lparr>futex_waiters := (futex_waiters S)(i := (futex_waiters S i)\<lparr>fw_proc := None\<rparr>),
             fx_sched := sched_wake_chan c uaddr (fx_sched S)\<rparr>"
      have f: "filter (\<lambda>j. waits_for uaddr (futex_waiters ?S j)) is = filter (\<lambda>j. waits_for uaddr (futex_waiters S j)) is"
        using Cons.prems(1) by (intro filter_cong) auto
      have run: "futex_wake_loop c uaddr val is (nwoken + 1) ?S = (n, T)" using Cons.prems(2) lt True by simp
      let ?f = "filter (\<lambda>j. waits_for uaddr (futex_waiters S j)) is"
      obtain k where k: "k = min (nat (val - (nwoken + 1))) (length ?f)" "n = nwoken + 1 + int k"
        "fx_sched T = (sched_wake_chan c uaddr ^^ k) (fx_sched ?S)"
        "futex_waiters T = (\<lambda>j. if j \<in> set (take k ?f)
          then (futex_waiters ?S j)\<lparr>fw_proc := None\<rparr> else futex_waiters ?S j)"
        using Cons.IH [OF _ run] Cons.prems(1,3) unfolding f by auto
      have ni: "i \<notin> set (take k ?f)" using Cons.prems(1) by (auto dest: in_set_takeD)
      have "filter (\<lambda>j. waits_for uaddr (futex_waiters S j)) (i # is) = i # ?f" using True by simp
      moreover have "Suc k = min (nat (val - nwoken)) (length (i # ?f))" using k(1) lt by (auto simp: min_def)
      moreover have "n = nwoken + int (Suc k)" using k(2) by simp
      moreover have "fx_sched T = (sched_wake_chan c uaddr ^^ Suc k) (fx_sched S)" using k(3) by (simp add: funpow_swap1)
      moreover have "futex_waiters T = (\<lambda>j. if j \<in> set (take (Suc k) (i # ?f))
          then (futex_waiters S j)\<lparr>fw_proc := None\<rparr> else futex_waiters S j)"
        unfolding k(4) using ni by (intro ext) simp
      ultimately show ?thesis by metis
    qed
  qed
qed simp

lemma awake_not_waiting: "\<not> waits_on ch (awake x)"
  by (simp add: waits_on_def awake_def)

lemma wake_iter:
  assumes "sched_reach s" "p < SCHED_MAX_PROCS" "\<And>d. d < cpu_count s \<Longrightarrow> killing (cpus s d) \<noteq> Some p"
  shows "sched_reach ((sched_wake_chan c ch ^^ k) s) \<and>
    (procs ((sched_wake_chan c ch ^^ k) s) p =
      (if 0 < k \<and> waits_on ch (procs s p) then awake (procs s p) else procs s p))"
proof (induction k)
  case (Suc k)
  let ?t = "(sched_wake_chan c ch ^^ k) s"
  have r: "sched_reach ?t" using Suc by simp
  have cv: "cpu_view (cpus ((sched_wake_chan c ch ^^ j) s) d) = cpu_view (cpus s d) \<and>
      cpu_count ((sched_wake_chan c ch ^^ j) s) = cpu_count s" for j d
    by (induction j) (use sched_wake_chan_woken in \<open>auto simp: woken_def\<close>)
  then have k: "killing (cpus ?t d) \<noteq> Some p" if "d < cpu_count ?t" for d
    using assms(3) that by (auto simp: cpu_view_def)
  have inv: "sched_inv ?t" using sched_reach_inv [OF r] .
  have "p \<in> set (linked ?t)" if "p_state (procs ?t p) = PROC_BLOCKED"
    using table_okD(4) [OF sched_inv_parts(4) [OF inv] assms(2) that] k by blast
  then have "procs (sched_wake_chan c ch ?t) p = (if waits_on ch (procs ?t p) then awake (procs ?t p) else procs ?t p)"
    using sched_wake_chan_procs [OF queues_okD(1) [OF sched_inv_parts(1) [OF inv]]] by (auto simp: waits_on_def)
  with Suc sched_reach.step [OF r sched_step.wake] awake_not_waiting show ?case by auto
qed (use assms in simp)

lemma futex_wake_result:
  assumes "futex_wake c uaddr val S = (n, T)"
  defines "k \<equiv> min (nat (sint val)) (length (waiting_slots uaddr S))"
  shows "n = int k" "fx_sched T = (sched_wake_chan c uaddr ^^ k) (fx_sched S)"
    "waiting_slots uaddr T = drop k (waiting_slots uaddr S)"
proof -
  let ?W = "waiting_slots uaddr S"
  have "distinct [0..<(256::nat)]" by simp
  from futex_wake_loop_spec [OF this assms(1) [unfolded futex_wake_def], folded waiting_slots_def]
  show "n = int k" "fx_sched T = (sched_wake_chan c uaddr ^^ k) (fx_sched S)" by (simp_all add: k_def)
  from futex_wake_loop_spec [OF \<open>distinct [0..<256]\<close> assms(1) [unfolded futex_wake_def], folded waiting_slots_def]
  have t: "futex_waiters T = (\<lambda>i. if i \<in> set (take k ?W) then (futex_waiters S i)\<lparr>fw_proc := None\<rparr> else futex_waiters S i)"
    by (simp add: k_def)
  have d: "distinct (take k ?W @ drop k ?W)" by (simp add: waiting_slots_def)
  have "waiting_slots uaddr T = filter (\<lambda>i. i \<notin> set (take k ?W)) ?W"
    by (auto simp: waiting_slots_def t waits_for_def intro: filter_cong)
  also have "\<dots> = filter (\<lambda>i. i \<notin> set (take k ?W)) (take k ?W @ drop k ?W)" by simp
  also have "\<dots> = drop k ?W" using d by (simp only: filter_append distinct_append) (auto simp: filter_id_conv)
  finally show "waiting_slots uaddr T = drop k ?W" .
qed

section \<open>Properties\<close>


definition ex_futex :: futex_sys where
  "ex_futex = \<lparr>futex_waiters = (\<lambda>_. \<lparr>fw_proc = None, fw_uaddr = 0\<rparr>)(0 := \<lparr>fw_proc = Some 1, fw_uaddr = 77\<rparr>),
               fx_sched = ex_wait\<rparr>"


end
