(* ===== verification/Vmm.thy ===== *)
theory Vmm
  imports Pmm
begin

text \<open>
  Page tables (\<^verbatim>\<open>src/kernel/memory/vmm.c\<close>, \<^verbatim>\<open>vmm.h\<close>) on top of the frame allocator. Physical memory is seen
  as pages of 512 words, named by their physical address; the code reaches them through the direct map
  (\<open>phys_to_virt\<close>). \<open>invlpgs\<close> records the TLB entries that are invalidated, \<open>cr3\<close> is the register.
\<close>

section \<open>State\<close>

abbreviation (input) VMM_P :: u64 where "VMM_P \<equiv> 0x1"
abbreviation (input) VMM_RW :: u64 where "VMM_RW \<equiv> 0x2"
abbreviation (input) VMM_U :: u64 where "VMM_U \<equiv> 0x4"
abbreviation (input) VMM_WT :: u64 where "VMM_WT \<equiv> 0x8"
abbreviation (input) VMM_CD :: u64 where "VMM_CD \<equiv> 0x10"
abbreviation (input) VMM_PS :: u64 where "VMM_PS \<equiv> 0x80"
abbreviation (input) VMM_COW :: u64 where "VMM_COW \<equiv> 0x200"
abbreviation (input) VMM_SHARED :: u64 where "VMM_SHARED \<equiv> 0x400"
abbreviation (input) VMM_NX :: u64 where "VMM_NX \<equiv> 0x8000000000000000"
abbreviation (input) VMM_PHYS_MASK :: u64 where "VMM_PHYS_MASK \<equiv> 0x000FFFFFFFFFF000"
abbreviation (input) KERNEL_PML4_START :: nat where "KERNEL_PML4_START \<equiv> 256"

record vm =
  vm_pmm :: pmm
  pages :: "u64 \<Rightarrow> nat \<Rightarrow> u64"
  kernel_pml4 :: u64
  cr3 :: u64
  invlpgs :: "u64 list"

definition has :: "u64 \<Rightarrow> u64 \<Rightarrow> bool" where
  "has e flag \<longleftrightarrow> e AND flag \<noteq> 0"

definition PML4_IDX :: "u64 \<Rightarrow> nat" where "PML4_IDX v = unat (drop_bit 39 v AND 0x1FF)"
definition PDPT_IDX :: "u64 \<Rightarrow> nat" where "PDPT_IDX v = unat (drop_bit 30 v AND 0x1FF)"
definition PD_IDX :: "u64 \<Rightarrow> nat" where "PD_IDX v = unat (drop_bit 21 v AND 0x1FF)"
definition PT_IDX :: "u64 \<Rightarrow> nat" where "PT_IDX v = unat (drop_bit 12 v AND 0x1FF)"

definition entry :: "vm \<Rightarrow> u64 \<Rightarrow> nat \<Rightarrow> u64" where
  "entry vm tab i = pages vm tab i"

definition set_entry :: "u64 \<Rightarrow> nat \<Rightarrow> u64 \<Rightarrow> vm \<Rightarrow> vm" where
  "set_entry tab i e vm = vm\<lparr>pages := (pages vm)(tab := (pages vm tab)(i := e))\<rparr>"

definition zero_page :: "u64 \<Rightarrow> vm \<Rightarrow> vm" where
  "zero_page phys vm = vm\<lparr>pages := (pages vm)(phys := (\<lambda>_. 0))\<rparr>"

definition vm_alloc :: "vm \<Rightarrow> u64 \<times> vm" where
  "vm_alloc vm = (case pmm_alloc_frame (vm_pmm vm) of (a, p) \<Rightarrow> (a, vm\<lparr>vm_pmm := p\<rparr>))"

text \<open>\<open>pmm_free_frame\<close> drops a reference.\<close>

definition vm_free :: "u64 \<Rightarrow> vm \<Rightarrow> vm" where
  "vm_free phys vm = vm\<lparr>vm_pmm := pmm_unref_frame phys (vm_pmm vm)\<rparr>"

text \<open>The table an address of the direct map points to, and the table an entry points to.\<close>

definition table_at :: "vm \<Rightarrow> u64 \<Rightarrow> u64" where
  "table_at vm virt = virt_to_phys (vm_pmm vm) virt"

definition table_of :: "u64 \<Rightarrow> u64" where
  "table_of e = e AND VMM_PHYS_MASK"

section \<open>Operations\<close>

definition vmm_kernel_pml4 :: "vm \<Rightarrow> u64 \<times> vm" where
  "vmm_kernel_pml4 vm =
     (let vm1 = (if kernel_pml4 vm = 0 then vm\<lparr>kernel_pml4 := phys_to_virt (vm_pmm vm) (cr3 vm)\<rparr> else vm)
      in (kernel_pml4 vm1, vm1))"

definition vmm_create_pml4 :: "vm \<Rightarrow> u64 \<times> vm" where
  "vmm_create_pml4 vm0 =
     (let (kpml4, vm1) = vmm_kernel_pml4 vm0; (phys, vm2) = vm_alloc vm1
      in if phys = 0 then (0, vm2)
         else let kp = table_at vm2 kpml4;
                  vm3 = zero_page phys vm2
              in (phys, fold (\<lambda>i vm. set_entry phys i (entry vm kp i) vm) [KERNEL_PML4_START..<512] vm3))"

text \<open>One level of \<open>vmm_map_page\<close>: the table behind an entry, allocated and cleared when it is missing.\<close>

definition ensure_table :: "u64 \<Rightarrow> nat \<Rightarrow> vm \<Rightarrow> u64 option \<times> vm" where
  "ensure_table tab i vm =
     (if \<not> has (entry vm tab i) VMM_P then
        let (pt, vm1) = vm_alloc vm
        in if pt = 0 then (None, vm1)
           else let vm2 = set_entry tab i ((pt AND VMM_PHYS_MASK) OR VMM_P OR VMM_RW OR VMM_U) (zero_page pt vm1)
                in (Some (table_of (entry vm2 tab i)), vm2)
      else (Some (table_of (entry vm tab i)), vm))"

definition vmm_map_page :: "u64 \<Rightarrow> u64 \<Rightarrow> u64 \<Rightarrow> u64 \<Rightarrow> vm \<Rightarrow> bool \<times> vm" where
  "vmm_map_page pml4_virt vaddr paddr flags vm =
     (if pml4_virt < 0xFFFF800000000000 then (False, vm)
      else case ensure_table (table_at vm pml4_virt) (PML4_IDX vaddr) vm of
        (None, vm1) \<Rightarrow> (False, vm1)
      | (Some pdpt, vm1) \<Rightarrow>
          (case ensure_table pdpt (PDPT_IDX vaddr) vm1 of
             (None, vm2) \<Rightarrow> (False, vm2)
           | (Some pd, vm2) \<Rightarrow>
               (case ensure_table pd (PD_IDX vaddr) vm2 of
                  (None, vm3) \<Rightarrow> (False, vm3)
                | (Some pt, vm3) \<Rightarrow>
                    (True, set_entry pt (PT_IDX vaddr) ((paddr AND VMM_PHYS_MASK) OR (flags OR VMM_P)) vm3))))"

definition vmm_unmap_page :: "u64 \<Rightarrow> u64 \<Rightarrow> vm \<Rightarrow> vm" where
  "vmm_unmap_page pml4_virt vaddr vm =
     (let pml4e = entry vm (table_at vm pml4_virt) (PML4_IDX vaddr) in
      if \<not> has pml4e VMM_P then vm
      else let pdpte = entry vm (table_of pml4e) (PDPT_IDX vaddr) in
      if \<not> has pdpte VMM_P then vm
      else let pde = entry vm (table_of pdpte) (PD_IDX vaddr) in
      if \<not> has pde VMM_P then vm
      else let vm1 = set_entry (table_of pde) (PT_IDX vaddr) 0 vm
           in vm1\<lparr>invlpgs := invlpgs vm1 @ [vaddr]\<rparr>)"

definition vmm_virt_to_phys :: "u64 \<Rightarrow> u64 \<Rightarrow> vm \<Rightarrow> u64" where
  "vmm_virt_to_phys pml4_virt vaddr vm =
     (let pml4e = entry vm (table_at vm pml4_virt) (PML4_IDX vaddr) in
      if \<not> has pml4e VMM_P then 0
      else let pdpte = entry vm (table_of pml4e) (PDPT_IDX vaddr) in
      if \<not> has pdpte VMM_P then 0
      else if has pdpte VMM_PS then (pdpte AND VMM_PHYS_MASK) + (vaddr AND 0x3FFFFFFF)
      else let pde = entry vm (table_of pdpte) (PD_IDX vaddr) in
      if \<not> has pde VMM_P then 0
      else if has pde VMM_PS then (pde AND VMM_PHYS_MASK) + (vaddr AND 0x1FFFFF)
      else (entry vm (table_of pde) (PT_IDX vaddr) AND VMM_PHYS_MASK) + (vaddr AND 0xFFF))"

text \<open>The leaf entry is named by its table and index.\<close>

definition vmm_pte_lookup :: "u64 \<Rightarrow> u64 \<Rightarrow> vm \<Rightarrow> (u64 \<times> nat) option" where
  "vmm_pte_lookup pml4_virt vaddr vm =
     (if pml4_virt = 0 then None
      else let pml4e = entry vm (table_at vm pml4_virt) (PML4_IDX vaddr) in
      if \<not> has pml4e VMM_P then None
      else let pdpte = entry vm (table_of pml4e) (PDPT_IDX vaddr) in
      if \<not> has pdpte VMM_P \<or> has pdpte VMM_PS then None
      else let pde = entry vm (table_of pdpte) (PD_IDX vaddr) in
      if \<not> has pde VMM_P \<or> has pde VMM_PS then None
      else Some (table_of pde, PT_IDX vaddr))"

text \<open>The loops of \<open>vmm_destroy_user\<close>, innermost first.\<close>

definition destroy_pt :: "u64 \<Rightarrow> vm \<Rightarrow> vm" where
  "destroy_pt pt = fold (\<lambda>l vm. let pte = entry vm pt l in
     if has pte VMM_P then set_entry pt l 0 (vm_free (pte AND VMM_PHYS_MASK) vm) else vm) [0..<512]"

definition destroy_pd :: "u64 \<Rightarrow> vm \<Rightarrow> vm" where
  "destroy_pd pd = fold (\<lambda>k vm. let pde = entry vm pd k in
     if has pde VMM_P then set_entry pd k 0 (vm_free (table_of pde) (destroy_pt (table_of pde) vm)) else vm) [0..<512]"

definition destroy_pdpt :: "u64 \<Rightarrow> vm \<Rightarrow> vm" where
  "destroy_pdpt pdpt = fold (\<lambda>j vm. let pdpte = entry vm pdpt j in
     if has pdpte VMM_P then set_entry pdpt j 0 (vm_free (table_of pdpte) (destroy_pd (table_of pdpte) vm)) else vm) [0..<512]"

definition vmm_destroy_user :: "u64 \<Rightarrow> vm \<Rightarrow> vm" where
  "vmm_destroy_user pml4_virt vm0 =
     (let pml4 = table_at vm0 pml4_virt in
      fold (\<lambda>i vm. let pml4e = entry vm pml4 i in
        if has pml4e VMM_P then set_entry pml4 i 0 (vm_free (table_of pml4e) (destroy_pdpt (table_of pml4e) vm)) else vm)
        [0..<KERNEL_PML4_START] vm0)"

text \<open>The loops of \<open>vmm_clone_user\<close>. The Boolean is true while no mapping has failed; a failure ends all
  loops.\<close>

definition clone_vaddr :: "nat \<Rightarrow> nat \<Rightarrow> nat \<Rightarrow> nat \<Rightarrow> u64" where
  "clone_vaddr i j k l = push_bit 39 (of_nat i) OR push_bit 30 (of_nat j) OR push_bit 21 (of_nat k) OR push_bit 12 (of_nat l)"

definition clone_flags :: "u64 \<Rightarrow> u64" where
  "clone_flags pte =
     (let flags = pte AND (VMM_RW OR VMM_U OR VMM_WT OR VMM_CD OR VMM_NX OR VMM_COW OR VMM_SHARED) in
      if \<not> has flags VMM_SHARED \<and> has flags VMM_RW then (flags AND NOT VMM_RW) OR VMM_COW else flags)"

definition clone_src :: "u64 \<Rightarrow> u64" where
  "clone_src pte = (if \<not> has pte VMM_SHARED \<and> has pte VMM_RW then (pte AND NOT VMM_RW) OR VMM_COW else pte)"

definition clone_pte :: "u64 \<Rightarrow> u64 \<Rightarrow> nat \<Rightarrow> nat \<Rightarrow> nat \<Rightarrow> nat \<Rightarrow> bool \<times> vm \<Rightarrow> bool \<times> vm" where
  "clone_pte src_pt dst i j k l = (\<lambda>(ok, vm).
     let pte = entry vm src_pt l in
     if \<not> ok \<or> \<not> has pte VMM_P then (ok, vm)
     else let phys = pte AND VMM_PHYS_MASK;
              vm1 = set_entry src_pt l (clone_src pte) vm
          in case vmm_map_page dst (clone_vaddr i j k l) phys (clone_flags pte) vm1 of
               (False, vm2) \<Rightarrow> (False, vm2)
             | (True, vm2) \<Rightarrow> (True, vm2\<lparr>vm_pmm := pmm_ref_frame phys (vm_pmm vm2)\<rparr>))"

definition clone_pt :: "u64 \<Rightarrow> u64 \<Rightarrow> nat \<Rightarrow> nat \<Rightarrow> nat \<Rightarrow> bool \<times> vm \<Rightarrow> bool \<times> vm" where
  "clone_pt src_pd dst i j k = (\<lambda>(ok, vm).
     let pde = entry vm src_pd k in
     if \<not> ok \<or> \<not> has pde VMM_P then (ok, vm)
     else fold (\<lambda>l. clone_pte (table_of pde) dst i j k l) [0..<512] (ok, vm))"

definition clone_pd :: "u64 \<Rightarrow> u64 \<Rightarrow> nat \<Rightarrow> nat \<Rightarrow> bool \<times> vm \<Rightarrow> bool \<times> vm" where
  "clone_pd src_pdpt dst i j = (\<lambda>(ok, vm).
     let pdpte = entry vm src_pdpt j in
     if \<not> ok \<or> \<not> has pdpte VMM_P then (ok, vm)
     else fold (\<lambda>k. clone_pt (table_of pdpte) dst i j k) [0..<512] (ok, vm))"

definition clone_pdpt :: "u64 \<Rightarrow> u64 \<Rightarrow> nat \<Rightarrow> bool \<times> vm \<Rightarrow> bool \<times> vm" where
  "clone_pdpt src dst i = (\<lambda>(ok, vm).
     let pml4e = entry vm src i in
     if \<not> ok \<or> \<not> has pml4e VMM_P then (ok, vm)
     else fold (\<lambda>j. clone_pd (table_of pml4e) dst i j) [0..<512] (ok, vm))"

definition vmm_clone_user :: "u64 \<Rightarrow> vm \<Rightarrow> u64 \<times> vm" where
  "vmm_clone_user src_pml4_virt vm0 =
     (let (dst_phys, vm1) = vmm_create_pml4 vm0 in
      if dst_phys = 0 then (0, vm1)
      else let dst = phys_to_virt (vm_pmm vm1) dst_phys;
               src = table_at vm1 src_pml4_virt
           in case fold (clone_pdpt src dst) [0..<KERNEL_PML4_START] (True, vm1) of
                (True, vm2) \<Rightarrow> (dst_phys, vm2)
              | (False, vm2) \<Rightarrow> (0, vm_free dst_phys (vmm_destroy_user dst vm2)))"

definition vmm_get_cr3 :: "vm \<Rightarrow> u64" where "vmm_get_cr3 vm = cr3 vm"

definition vmm_set_cr3 :: "u64 \<Rightarrow> vm \<Rightarrow> vm" where "vmm_set_cr3 phys vm = vm\<lparr>cr3 := phys\<rparr>"

section \<open>Bits of an entry\<close>

text \<open>A page address fits between the flag bits.\<close>

lemma bit_addr_of: "f < MAX_FRAMES \<Longrightarrow> bit (addr_of f) n \<longleftrightarrow> 12 \<le> n \<and> n < 33 \<and> bit f (n - 12)"
proof -
  assume f: "f < MAX_FRAMES"
  have a: "addr_of f = push_bit 12 (of_nat f)"
    by (simp add: addr_of_def push_bit_eq_mult mult.commute)
  have "n - 12 < 21" if "bit f (n - 12)"
  proof (rule ccontr)
    assume "\<not> n - 12 < 21"
    then have "f < 2 ^ (n - 12)" using f power_increasing [of 21 "n - 12" "2::nat"] by simp
    then have "f div 2 ^ (n - 12) = 0" by simp
    with that show False by (simp add: bit_iff_odd)
  qed
  then show ?thesis by (auto simp: a bit_simps)
qed

lemma bit_phys_mask: "bit (VMM_PHYS_MASK :: u64) n \<longleftrightarrow> 12 \<le> n \<and> n < 52"
proof -
  have "(VMM_PHYS_MASK :: u64) = push_bit 12 (mask 40)" by (simp add: push_bit_eq_mult mask_eq_exp_minus_1)
  show ?thesis unfolding \<open>(VMM_PHYS_MASK :: u64) = push_bit 12 (mask 40)\<close> by (auto simp: bit_simps)
qed

lemma has_bit:
  "has e 0x1 \<longleftrightarrow> bit e 0" "has e 0x2 \<longleftrightarrow> bit e 1" "has e 0x80 \<longleftrightarrow> bit e 7"
  "has e 0x200 \<longleftrightarrow> bit e 9" "has e 0x400 \<longleftrightarrow> bit e 10"
proof -
  have p: "has e (push_bit n 1) \<longleftrightarrow> bit e n" for n
    by (simp add: has_def and_exp_eq_0_iff_not_bit push_bit_of_1)
  show "has e 0x1 \<longleftrightarrow> bit e 0" "has e 0x2 \<longleftrightarrow> bit e 1" "has e 0x80 \<longleftrightarrow> bit e 7"
    "has e 0x200 \<longleftrightarrow> bit e 9" "has e 0x400 \<longleftrightarrow> bit e 10"
    using p [of 0] p [of 1] p [of 7] p [of 9] p [of 10] by (simp_all add: push_bit_of_1)
qed

lemma has_0 [simp]: "\<not> has 0 f"
  by (simp add: has_def)

lemma bit_small_numerals:
  "bit (0x1 :: u64) n \<longleftrightarrow> n = 0" "bit (0x2 :: u64) n \<longleftrightarrow> n = 1" "bit (0x4 :: u64) n \<longleftrightarrow> n = 2"
  "bit (0x8 :: u64) n \<longleftrightarrow> n = 3" "bit (0x10 :: u64) n \<longleftrightarrow> n = 4" "bit (0x200 :: u64) n \<longleftrightarrow> n = 9"
  "bit (0x400 :: u64) n \<longleftrightarrow> n = 10" "bit (0x8000000000000000 :: u64) n \<longleftrightarrow> n = 63" "bit (0x7 :: u64) n \<longleftrightarrow> n < 3"
proof -
  have "(0x7 :: u64) = mask 3" by (simp add: mask_eq_exp_minus_1)
  then show "bit (0x7 :: u64) n \<longleftrightarrow> n < 3"
    by (simp only: bit_mask_iff) auto
  have p: "bit (push_bit k 1 :: u64) n \<longleftrightarrow> n = k" if "k < 64" for k
    using that by (auto simp: bit_simps)
  show "bit (0x1 :: u64) n \<longleftrightarrow> n = 0" "bit (0x2 :: u64) n \<longleftrightarrow> n = 1" "bit (0x4 :: u64) n \<longleftrightarrow> n = 2"
    "bit (0x8 :: u64) n \<longleftrightarrow> n = 3" "bit (0x10 :: u64) n \<longleftrightarrow> n = 4" "bit (0x200 :: u64) n \<longleftrightarrow> n = 9"
    "bit (0x400 :: u64) n \<longleftrightarrow> n = 10" "bit (0x8000000000000000 :: u64) n \<longleftrightarrow> n = 63"
    using p [of 0] p [of 1] p [of 2] p [of 3] p [of 4] p [of 9] p [of 10] p [of 63]
    by (simp_all add: push_bit_of_1)
qed

lemma table_entry:
  assumes "f < MAX_FRAMES"
  defines "e \<equiv> (addr_of f AND VMM_PHYS_MASK) OR VMM_P OR VMM_RW OR VMM_U"
  shows "has e VMM_P" "\<not> has e VMM_PS" "table_of e = addr_of f"
proof -
  show "has e VMM_P" "\<not> has e VMM_PS"
    using assms by (simp_all add: e_def has_bit bit_and_iff bit_or_iff bit_small_numerals bit_phys_mask bit_addr_of)
  show "table_of e = addr_of f"
    by (rule bit_word_eqI)
       (auto simp: table_of_def e_def bit_and_iff bit_or_iff bit_small_numerals bit_phys_mask bit_addr_of assms
         simp del: bit_numeral_word_iff)
qed

section \<open>Walking the tables\<close>

text \<open>The table reached from \<open>r\<close> along a list of indices, through present entries.\<close>

fun walk :: "vm \<Rightarrow> u64 \<Rightarrow> nat list \<Rightarrow> u64 option" where
  "walk vm r [] = Some r"
| "walk vm r (i # is) = (if has (entry vm r i) VMM_P then walk vm (table_of (entry vm r i)) is else None)"

lemma walk_append: "walk vm r (p @ q) = (case walk vm r p of None \<Rightarrow> None | Some t \<Rightarrow> walk vm t q)"
  by (induction p arbitrary: r) auto

lemma walk_snoc_Some:
  "walk vm r (p @ [i]) = Some u \<longleftrightarrow>
     (\<exists>t. walk vm r p = Some t \<and> has (entry vm t i) VMM_P \<and> u = table_of (entry vm t i))"
  by (auto simp: walk_append split: option.splits)

text \<open>The index paths of the user half that lead to tables.\<close>

definition upath :: "nat list \<Rightarrow> bool" where
  "upath p \<longleftrightarrow> length p \<le> 3 \<and> (\<forall>i \<in> set p. i < 512) \<and> (p \<noteq> [] \<longrightarrow> hd p < KERNEL_PML4_START)"

lemma upath_Nil [simp]: "upath []"
  by (simp add: upath_def)

lemma upath_snocD: "upath (p @ [i]) \<Longrightarrow> upath p \<and> length p \<le> 2 \<and> i < 512"
  by (cases p) (auto simp: upath_def)

definition held :: "vm \<Rightarrow> u64 \<Rightarrow> bool" where
  "held vm t \<longleftrightarrow> t = addr_of (frame_of t) \<and> frame_of t \<in> frames_used (vm_pmm vm)"

text \<open>The user half of an address space is a tree: every table is an allocated page, no table is reached
  along two paths, and no entry above the last level is a large page.\<close>

definition ptab_inv :: "vm \<Rightarrow> u64 \<Rightarrow> bool" where
  "ptab_inv vm r \<longleftrightarrow> pmm_inv (vm_pmm vm) \<and>
     (\<forall>p t. upath p \<longrightarrow> walk vm r p = Some t \<longrightarrow> held vm t) \<and>
     (\<forall>p q t. upath p \<longrightarrow> upath q \<longrightarrow> walk vm r p = Some t \<longrightarrow> walk vm r q = Some t \<longrightarrow> p = q) \<and>
     (\<forall>p i t. upath (p @ [i]) \<longrightarrow> walk vm r p = Some t \<longrightarrow> \<not> (has (entry vm t i) VMM_P \<and> has (entry vm t i) VMM_PS))"

lemma ptab_invD:
  assumes "ptab_inv vm r"
  shows "pmm_inv (vm_pmm vm)" "upath p \<Longrightarrow> walk vm r p = Some t \<Longrightarrow> held vm t"
    "upath p \<Longrightarrow> upath q \<Longrightarrow> walk vm r p = Some t \<Longrightarrow> walk vm r q = Some t \<Longrightarrow> p = q"
    "upath (p @ [i]) \<Longrightarrow> walk vm r p = Some t \<Longrightarrow> has (entry vm t i) VMM_P \<Longrightarrow> \<not> has (entry vm t i) VMM_PS"
  using assms unfolding ptab_inv_def by blast+

text \<open>What the address space maps: the present leaf entry of a page, by its four indices.\<close>

definition user_map :: "vm \<Rightarrow> u64 \<Rightarrow> nat list \<times> nat \<Rightarrow> u64 option" where
  "user_map vm r = (\<lambda>(p, l).
     if upath p \<and> length p = 3 \<and> l < 512 then
       case walk vm r p of
         None \<Rightarrow> None
       | Some t \<Rightarrow> if has (entry vm t l) VMM_P then Some (entry vm t l) else None
     else None)"

text \<open>The tables of the user half.\<close>

definition utables :: "vm \<Rightarrow> u64 \<Rightarrow> u64 set" where
  "utables vm r = {t. \<exists>p. upath p \<and> walk vm r p = Some t}"

definition page_of :: "u64 \<Rightarrow> nat list \<times> nat" where
  "page_of v = ([PML4_IDX v, PDPT_IDX v, PD_IDX v], PT_IDX v)"

section \<open>A new table\<close>

lemma alloc_spec:
  assumes "pmm_inv (vm_pmm vm)" "vm_alloc vm = (a, vm')"
  shows "pmm_inv (vm_pmm vm')" "pages vm' = pages vm" "hhdm (vm_pmm vm') = hhdm (vm_pmm vm)"
    and "a \<noteq> 0 \<Longrightarrow> \<not> held vm a \<and> frame_of a < MAX_FRAMES \<and> a = addr_of (frame_of a) \<and>
           frame_of a \<notin> frames_used (vm_pmm vm) \<and>
           frames_used (vm_pmm vm') = insert (frame_of a) (frames_used (vm_pmm vm))"
    and "a = 0 \<Longrightarrow> vm' = vm"
    and "kernel_pml4 vm' = kernel_pml4 vm" "cr3 vm' = cr3 vm" "invlpgs vm' = invlpgs vm"
proof -
  obtain p where p: "pmm_alloc_frame (vm_pmm vm) = (a, p)" and vm': "vm' = vm\<lparr>vm_pmm := p\<rparr>"
    using assms(2) by (auto simp: vm_alloc_def split: prod.splits)
  note spec = pmm_alloc_frame_spec [OF assms(1) p]
  show "pmm_inv (vm_pmm vm')" "pages vm' = pages vm" "hhdm (vm_pmm vm') = hhdm (vm_pmm vm)"
    "kernel_pml4 vm' = kernel_pml4 vm" "cr3 vm' = cr3 vm" "invlpgs vm' = invlpgs vm"
    using spec by (simp_all add: vm')
  show "a \<noteq> 0 \<Longrightarrow> \<not> held vm a \<and> frame_of a < MAX_FRAMES \<and> a = addr_of (frame_of a) \<and>
           frame_of a \<notin> frames_used (vm_pmm vm) \<and>
           frames_used (vm_pmm vm') = insert (frame_of a) (frames_used (vm_pmm vm))"
    using spec(2) assms(1) by (auto simp: vm' held_def pmm_inv_def)
  show "a = 0 \<Longrightarrow> vm' = vm" using spec(3) by (simp add: vm')
qed

lemma pages_simps [simp]:
  "entry (set_entry t i e vm) u j = (if u = t \<and> j = i then e else entry vm u j)"
  "entry (zero_page t vm) u j = (if u = t then 0 else entry vm u j)"
  "vm_pmm (set_entry t i e vm) = vm_pmm vm" "vm_pmm (zero_page t vm) = vm_pmm vm"
  by (simp_all add: entry_def set_entry_def zero_page_def)

text \<open>\<open>grows vm r p i tab a e vm'\<close>: the free page \<open>a\<close> was cleared and hung below the table \<open>tab\<close> of path \<open>p\<close>, at
  the empty slot \<open>i\<close>, by the entry \<open>e\<close>.\<close>

definition grows :: "vm \<Rightarrow> u64 \<Rightarrow> nat list \<Rightarrow> nat \<Rightarrow> u64 \<Rightarrow> u64 \<Rightarrow> u64 \<Rightarrow> vm \<Rightarrow> bool" where
  "grows vm r p i tab a e vm' \<longleftrightarrow>
     walk vm r p = Some tab \<and> upath (p @ [i]) \<and> \<not> has (entry vm tab i) VMM_P \<and> \<not> held vm a \<and> held vm' a \<and>
     has e VMM_P \<and> \<not> has e VMM_PS \<and> table_of e = a \<and>
     (\<forall>t j. entry vm' t j = (if t = tab \<and> j = i then e else if t = a then 0 else entry vm t j)) \<and>
     frames_used (vm_pmm vm) \<subseteq> frames_used (vm_pmm vm') \<and> pmm_inv (vm_pmm vm')"

lemma growsD:
  assumes "ptab_inv vm r" "grows vm r p i tab a e vm'"
  shows "upath p" "length p \<le> 2" "walk vm r (p @ [i]) = None" "held vm t \<Longrightarrow> held vm' t"
    and "upath q \<Longrightarrow> walk vm r q = Some t \<Longrightarrow> t \<noteq> a \<and> (t = tab \<longleftrightarrow> q = p)"
proof -
  show up: "upath p" "length p \<le> 2" and "walk vm r (p @ [i]) = None" "held vm t \<Longrightarrow> held vm' t"
    using assms(2) by (auto simp: grows_def walk_append held_def dest: upath_snocD)
  assume q: "upath q" "walk vm r q = Some t"
  show "t \<noteq> a \<and> (t = tab \<longleftrightarrow> q = p)"
    using ptab_invD(2) [OF assms(1) q] ptab_invD(3) [OF assms(1) q(1) up(1) q(2)] assms(2) q
    by (auto simp: grows_def)
qed

lemma grows_walk:
  assumes inv: "ptab_inv vm r" and g: "grows vm r p i tab a e vm'" and q: "upath q"
  shows "walk vm' r q = (if q = p @ [i] then Some a else walk vm r q)"
  using q
proof (induction q rule: rev_induct)
  case (snoc j q)
  then have uq: "upath q" by (blast dest: upath_snocD)
  have tab: "tab \<noteq> a" and p: "walk vm r p = Some tab" "has e VMM_P" "table_of e = a"
    using growsD(5) [OF inv g growsD(1) [OF inv g]] g by (auto simp: grows_def)
  have eq: "entry vm' t j = (if t = tab \<and> j = i then e else if t = a then 0 else entry vm t j)" for t j
    using g by (simp add: grows_def)
  note IH = snoc.IH [OF uq]
  show ?case
  proof (cases "walk vm r q")
    case None
    then have "q \<noteq> p" using p by auto
    show ?thesis
    proof (cases "q = p @ [i]")
      case True
      with IH have "walk vm' r q = Some a" by simp
      with tab have "walk vm' r (q @ [j]) = None" unfolding walk_append [of _ _ q] by (simp add: eq)
      moreover have "walk vm r (q @ [j]) = None" using None by (simp add: walk_append)
      ultimately show ?thesis using True by simp
    next
      case False
      with IH None \<open>q \<noteq> p\<close> show ?thesis by (simp add: walk_append)
    qed
  next
    case (Some t)
    have "q \<noteq> p @ [i]" using Some growsD(3) [OF inv g] by auto
    with IH Some growsD(5) [OF inv g uq Some] p show ?thesis by (auto simp: walk_append eq)
  qed
qed simp

text \<open>What a change to an address space may do: keep the tree, release nothing, and write no allocated
  page other than the tables of that address space.\<close>

definition vm_ext :: "u64 \<Rightarrow> vm \<Rightarrow> vm \<Rightarrow> bool" where
  "vm_ext r vm vm' \<longleftrightarrow> ptab_inv vm' r \<and> hhdm (vm_pmm vm') = hhdm (vm_pmm vm) \<and>
     frames_used (vm_pmm vm) \<subseteq> frames_used (vm_pmm vm') \<and>
     (\<forall>t. held vm t \<longrightarrow> t \<notin> utables vm r \<longrightarrow> pages vm' t = pages vm t \<and> t \<notin> utables vm' r)"

lemma vm_ext_refl: "ptab_inv vm r \<Longrightarrow> vm_ext r vm vm"
  by (simp add: vm_ext_def)

lemma vm_ext_trans: "vm_ext r vm1 vm2 \<Longrightarrow> vm_ext r vm2 vm3 \<Longrightarrow> vm_ext r vm1 vm3"
  unfolding vm_ext_def held_def by (metis subsetD subset_trans)

lemma grows_no_large:
  assumes inv: "ptab_inv vm r" and g: "grows vm r p i tab a e vm'"
    and q: "upath (q @ [j])" "walk vm' r q = Some t" "has (entry vm' t j) VMM_P"
  shows "\<not> has (entry vm' t j) VMM_PS"
proof (cases "q = p @ [i]")
  case True
  have "upath q" using q(1) by (blast dest: upath_snocD)
  with True q(2) grows_walk [OF inv g \<open>upath q\<close>] have "t = a" by simp
  with q(3) g growsD(5) [OF inv g growsD(1) [OF inv g]] show ?thesis by (auto simp: grows_def split: if_splits)
next
  case False
  have uq: "upath q" using q by (blast dest: upath_snocD)
  with False q grows_walk [OF inv g] have w: "walk vm r q = Some t" by simp
  show ?thesis using ptab_invD(4) [OF inv q(1) w] q(3) growsD(5) [OF inv g uq w] g
    by (auto simp: grows_def split: if_splits)
qed

lemma grows_inv:
  assumes inv: "ptab_inv vm r" and g: "grows vm r p i tab a e vm'"
  shows "ptab_inv vm' r"
  unfolding ptab_inv_def
proof (intro conjI allI impI)
  note W = grows_walk [OF inv g] and D = growsD [OF inv g]
  have "held vm' a" "\<not> held vm a" using g by (auto simp: grows_def)
  show "pmm_inv (vm_pmm vm')" using g by (simp add: grows_def)
  show "held vm' t" if "upath q" "walk vm' r q = Some t" for q t
    using that W ptab_invD(2) [OF inv] D(4) \<open>held vm' a\<close> by (metis option.inject)
  show "q = q'" if "upath q" "upath q'" "walk vm' r q = Some t" "walk vm' r q' = Some t" for q q' t
    using that W ptab_invD(2,3) [OF inv] \<open>\<not> held vm a\<close> by (metis option.inject)
  show "\<not> (has (entry vm' t j) VMM_P \<and> has (entry vm' t j) VMM_PS)" if "upath (q @ [j])" "walk vm' r q = Some t" for q j t
    using that grows_no_large [OF inv g] by blast
qed

lemma grows_user_map:
  assumes inv: "ptab_inv vm r" and g: "grows vm r p i tab a e vm'"
  shows "user_map vm' r = user_map vm r"
proof (rule ext)
  note W = grows_walk [OF inv g] and D = growsD [OF inv g]
  have eq: "entry vm' t j = (if t = tab \<and> j = i then e else if t = a then 0 else entry vm t j)" for t j
    using g by (simp add: grows_def)
  fix x :: "nat list \<times> nat"
  obtain q l where x: "x = (q, l)" by fastforce
  consider "\<not> (upath q \<and> length q = 3)" | "q = p @ [i]" | "upath q" "length q = 3" "q \<noteq> p @ [i]" by blast
  then show "user_map vm' r x = user_map vm r x"
  proof cases
    case 1
    then show ?thesis by (auto simp: x user_map_def)
  next
    case 2
    have "walk vm' r q = Some a" "a \<noteq> tab" using W [of q] 2 g D(5) [OF D(1)] by (auto simp: grows_def)
    with D(3) show ?thesis by (simp add: x user_map_def eq 2)
  next
    case 3
    with W D(2) have "walk vm' r q = walk vm r q" "q \<noteq> p" by auto
    with D(5) [OF 3(1)] show ?thesis by (auto simp: x user_map_def eq split: option.splits)
  qed
qed

lemma grows_ext:
  assumes inv: "ptab_inv vm r" and g: "grows vm r p i tab a e vm'" and h: "hhdm (vm_pmm vm') = hhdm (vm_pmm vm)"
  shows "vm_ext r vm vm'"
proof -
  have "pages vm' t = pages vm t \<and> t \<notin> utables vm' r" if t: "held vm t" "t \<notin> utables vm r" for t
  proof -
    have n: "t \<noteq> a" "t \<noteq> tab" using t g growsD(1) [OF inv g] by (auto simp: grows_def utables_def)
    have "pages vm' t = pages vm t"
    proof (rule ext)
      show "pages vm' t j = pages vm t j" for j
        using n g by (simp add: grows_def entry_def [of vm'] entry_def [of vm])
    qed
    then show ?thesis using t n grows_walk [OF inv g] by (auto simp: utables_def split: if_splits)
  qed
  then show ?thesis using grows_inv [OF inv g] g h by (auto simp: vm_ext_def grows_def)
qed

text \<open>Both outcomes of one level.\<close>

lemma ensure_table_spec:
  assumes inv: "ptab_inv vm r" and p: "walk vm r p = Some tab" "upath (p @ [i])"
    and run: "ensure_table tab i vm = (res, vm')"
  shows "vm_ext r vm vm' \<and> user_map vm' r = user_map vm r \<and>
    (case res of Some t \<Rightarrow> walk vm' r (p @ [i]) = Some t
     | None \<Rightarrow> frames_used (vm_pmm vm') = {..<total_frames (vm_pmm vm')})"
proof (cases "has (entry vm tab i) VMM_P")
  case True
  with run have "vm' = vm" "res = Some (table_of (entry vm tab i))" by (auto simp: ensure_table_def)
  with True p show ?thesis using vm_ext_refl [OF inv] by (simp add: walk_append)
next
  case False
  obtain a vm1 where al: "vm_alloc vm = (a, vm1)" by fastforce
  note spec = alloc_spec [OF ptab_invD(1) [OF inv] al]
  show ?thesis
  proof (cases "a = 0")
    case True
    have full: "frames_used (vm_pmm vm) = {..<total_frames (vm_pmm vm)}"
      using pmm_alloc_frame_spec(3) [OF ptab_invD(1) [OF inv]] al True
      by (auto simp: vm_alloc_def split: prod.splits)
    show ?thesis using run False al True spec(5) full vm_ext_refl [OF inv] by (simp add: ensure_table_def)
  next
    case a: False
    define e where "e = (a AND VMM_PHYS_MASK) OR VMM_P OR VMM_RW OR VMM_U"
    have e: "has e VMM_P" "\<not> has e VMM_PS" "table_of e = a"
      using table_entry [of "frame_of a"] spec(4) [OF a] by (auto simp: e_def)
    have vm': "vm' = set_entry tab i e (zero_page a vm1)" and res: "res = Some a"
      using run False al a e by (auto simp: ensure_table_def e_def Let_def)
    have eq: "entry vm1 t j = entry vm t j" for t j using spec(2) by (simp add: entry_def)
    have g: "grows vm r p i tab a e vm'"
      using p False e spec(1) spec(4) [OF a] by (auto simp: grows_def vm' eq held_def)
    have "hhdm (vm_pmm vm') = hhdm (vm_pmm vm)" using spec(3) by (simp add: vm')
    with g show ?thesis
      using grows_ext [OF inv g] grows_user_map [OF inv g] grows_walk [OF inv g p(2)] by (simp add: res)
  qed
qed

section \<open>Writing a leaf entry\<close>

lemma leaf_write_walk:
  assumes inv: "ptab_inv vm r" and p: "walk vm r p = Some tab" "upath p" "length p = 3" and q: "upath q"
    and eq: "\<And>t j. entry vm' t j = (if t = tab \<and> j = l then e else entry vm t j)"
  shows "walk vm' r q = walk vm r q"
  using q
proof (induction q rule: rev_induct)
  case (snoc j q)
  then have uq: "upath q" and "length q \<le> 2" by (auto dest: upath_snocD)
  with p have "q \<noteq> p" by auto
  then have "walk vm r q \<noteq> Some tab" using ptab_invD(3) [OF inv uq p(2) _ p(1)] by blast
  then show ?case using snoc.IH [OF uq] by (auto simp: walk_append eq split: option.splits)
qed simp

lemma leaf_write:
  assumes inv: "ptab_inv vm r" and p: "walk vm r p = Some tab" "upath p" "length p = 3" "l < 512"
    and eq: "\<And>t j. entry vm' t j = (if t = tab \<and> j = l then e else entry vm t j)"
    and pm: "vm_pmm vm' = vm_pmm vm"
  shows "vm_ext r vm vm' \<and> user_map vm' r = (user_map vm r)((p, l) := if has e VMM_P then Some e else None)"
proof -
  note W = leaf_write_walk [OF inv p(1-3) _ eq]
  have n: "t \<noteq> tab" if "upath (q @ [j])" "walk vm r q = Some t" for q j t
    using ptab_invD(3) [OF inv _ p(2) _ p(1)] that p(3) upath_snocD [OF that(1)] by fastforce
  have "\<not> (has (entry vm' t j) VMM_P \<and> has (entry vm' t j) VMM_PS)" if "upath (q @ [j])" "walk vm' r q = Some t" for q j t
  proof -
    have "upath q" using that(1) by (blast dest: upath_snocD)
    then have "walk vm r q = Some t" using W that(2) by simp
    with n that(1) ptab_invD(4) [OF inv that(1)] show ?thesis by (auto simp: eq)
  qed
  then have inv': "ptab_inv vm' r"
    using W ptab_invD(1-3) [OF inv] by (auto simp: ptab_inv_def pm held_def)
  have "pages vm' t = pages vm t \<and> t \<notin> utables vm' r" if "held vm t" "t \<notin> utables vm r" for t
    using that W p eq [of t] by (auto simp: utables_def entry_def fun_eq_iff)
  with inv' have "vm_ext r vm vm'" by (simp add: vm_ext_def pm)
  moreover have "user_map vm' r x = ((user_map vm r)((p, l) := if has e VMM_P then Some e else None)) x" for x
  proof -
    obtain q j where x: "x = (q, j)" by fastforce
    show ?thesis
    proof (cases "upath q \<and> length q = 3 \<and> j < 512")
      case True
      then have "walk vm r q = Some tab \<longleftrightarrow> q = p" using ptab_invD(3) [OF inv _ p(2) _ p(1)] p(1) by blast
      with True W p show ?thesis by (auto simp: x user_map_def eq split: option.splits)
    next
      case False
      with p show ?thesis by (auto simp: x user_map_def)
    qed
  qed
  ultimately show ?thesis by blast
qed

section \<open>Addresses\<close>

lemma idx_less [simp]: "PML4_IDX v < 512" "PDPT_IDX v < 512" "PD_IDX v < 512" "PT_IDX v < 512"
proof -
  have a: "unat (w AND 0x1FF) < 512" for w :: u64
    using word_and_le1 [of w "0x1FF"] by (auto simp: word_le_nat_alt word_less_nat_alt)
  show "PML4_IDX v < 512" "PDPT_IDX v < 512" "PD_IDX v < 512" "PT_IDX v < 512"
    by (simp_all add: a PML4_IDX_def PDPT_IDX_def PD_IDX_def PT_IDX_def)
qed

lemma upath_of:
  assumes "PML4_IDX v < KERNEL_PML4_START"
  shows "upath ([] @ [PML4_IDX v])" "upath ([PML4_IDX v] @ [PDPT_IDX v])"
    "upath ([PML4_IDX v, PDPT_IDX v] @ [PD_IDX v])"
  using assms by (auto simp: upath_def)

text \<open>The leaf entry of an address, as \<open>vmm_pte_lookup\<close> and \<open>vmm_virt_to_phys\<close> find it.\<close>

lemma lookup_spec:
  assumes inv: "ptab_inv vm r" and v: "PML4_IDX v < KERNEL_PML4_START" and r: "pml4 = phys_to_virt (vm_pmm vm) r"
  shows "vmm_pte_lookup pml4 v vm =
      (if pml4 = 0 then None else map_option (\<lambda>t. (t, PT_IDX v)) (walk vm r (fst (page_of v))))"
    and "user_map vm r (page_of v) = Some e \<Longrightarrow> vmm_virt_to_phys pml4 v vm = (e AND VMM_PHYS_MASK) + (v AND 0xFFF)"
proof -
  let ?e4 = "entry vm r (PML4_IDX v)" let ?e3 = "entry vm (table_of ?e4) (PDPT_IDX v)"
  let ?e2 = "entry vm (table_of ?e3) (PD_IDX v)"
  note up = upath_of [OF v]
  have ps: "has ?e4 VMM_P \<Longrightarrow> has ?e3 VMM_P \<Longrightarrow> \<not> has ?e3 VMM_PS"
    "has ?e4 VMM_P \<Longrightarrow> has ?e3 VMM_P \<Longrightarrow> has ?e2 VMM_P \<Longrightarrow> \<not> has ?e2 VMM_PS"
    using ptab_invD(4) [OF inv up(2)] ptab_invD(4) [OF inv up(3)] by simp_all
  have tab: "table_at vm pml4 = r" by (simp add: table_at_def r)
  show "vmm_pte_lookup pml4 v vm =
      (if pml4 = 0 then None else map_option (\<lambda>t. (t, PT_IDX v)) (walk vm r (fst (page_of v))))"
    using ps by (auto simp: vmm_pte_lookup_def tab page_of_def Let_def)
  show "user_map vm r (page_of v) = Some e \<Longrightarrow> vmm_virt_to_phys pml4 v vm = (e AND VMM_PHYS_MASK) + (v AND 0xFFF)"
    using ps by (auto simp: vmm_virt_to_phys_def tab page_of_def user_map_def Let_def split: if_splits)
qed

text \<open>The three levels of \<open>vmm_map_page\<close> in one recursion.\<close>

fun ensure_path :: "u64 \<Rightarrow> nat list \<Rightarrow> vm \<Rightarrow> u64 option \<times> vm" where
  "ensure_path tab [] vm = (Some tab, vm)"
| "ensure_path tab (i # is) vm =
     (case ensure_table tab i vm of (None, vm1) \<Rightarrow> (None, vm1) | (Some t, vm1) \<Rightarrow> ensure_path t is vm1)"

lemma vmm_map_page_path:
  "vmm_map_page pml4 v pa fl vm =
     (if pml4 < 0xFFFF800000000000 then (False, vm)
      else case ensure_path (table_at vm pml4) (fst (page_of v)) vm of
        (None, vm3) \<Rightarrow> (False, vm3)
      | (Some pt, vm3) \<Rightarrow> (True, set_entry pt (PT_IDX v) ((pa AND VMM_PHYS_MASK) OR (fl OR VMM_P)) vm3))"
  by (simp add: vmm_map_page_def page_of_def split: prod.splits option.splits)

lemma upath_append: "upath (p @ q) \<Longrightarrow> upath p"
  by (cases p) (auto simp: upath_def)

lemma ensure_path_spec:
  assumes "ptab_inv vm r" "walk vm r p = Some tab" "upath (p @ q)" "ensure_path tab q vm = (res, vm')"
  shows "vm_ext r vm vm' \<and> user_map vm' r = user_map vm r \<and>
    (case res of Some t \<Rightarrow> walk vm' r (p @ q) = Some t
     | None \<Rightarrow> frames_used (vm_pmm vm') = {..<total_frames (vm_pmm vm')})"
  using assms
proof (induction q arbitrary: p tab vm)
  case Nil
  then have "res = Some tab" "vm' = vm" by auto
  with Nil show ?case using vm_ext_refl by simp
next
  case (Cons i q)
  obtain t1 vm1 where r1: "ensure_table tab i vm = (t1, vm1)" by fastforce
  have "upath (p @ [i])" using Cons.prems(3) upath_append [of "p @ [i]" q] by simp
  note s1 = ensure_table_spec [OF Cons.prems(1,2) this r1]
  show ?case
  proof (cases t1)
    case None
    with Cons.prems(4) r1 s1 show ?thesis by auto
  next
    case (Some t)
    with s1 have "ptab_inv vm1 r" "walk vm1 r (p @ [i]) = Some t" by (auto simp: vm_ext_def)
    then have "vm_ext r vm1 vm' \<and> user_map vm' r = user_map vm1 r \<and>
        (case res of Some t \<Rightarrow> walk vm' r ((p @ [i]) @ q) = Some t
         | None \<Rightarrow> frames_used (vm_pmm vm') = {..<total_frames (vm_pmm vm')})"
      by (rule Cons.IH) (use Cons.prems Some r1 in auto)
    with s1 show ?thesis by (auto intro: vm_ext_trans split: option.splits)
  qed
qed

text \<open>One mapping.\<close>

lemma map_page_spec:
  assumes inv: "ptab_inv vm r" and v: "PML4_IDX v < KERNEL_PML4_START" and r: "pml4 = phys_to_virt (vm_pmm vm) r"
    and run: "vmm_map_page pml4 v pa fl vm = (ok, vm')"
  shows "vm_ext r vm vm' \<and>
    user_map vm' r = (if ok then (user_map vm r)(page_of v \<mapsto> (pa AND VMM_PHYS_MASK) OR (fl OR VMM_P)) else user_map vm r) \<and>
    (ok \<or> pml4 < 0xFFFF800000000000 \<or> frames_used (vm_pmm vm') = {..<total_frames (vm_pmm vm')})"
proof (cases "pml4 < 0xFFFF800000000000")
  case True
  with run show ?thesis using vm_ext_refl [OF inv] by (simp add: vmm_map_page_def)
next
  case False
  let ?e = "(pa AND VMM_PHYS_MASK) OR (fl OR VMM_P)"
  have up: "upath (fst (page_of v))" "length (fst (page_of v)) = 3" using v by (auto simp: page_of_def upath_def)
  obtain t vm3 where r3: "ensure_path r (fst (page_of v)) vm = (t, vm3)" by fastforce
  note s3 = ensure_path_spec [OF inv walk.simps(1), unfolded append_Nil, OF up(1) r3]
  note run = run [unfolded vmm_map_page_path table_at_def if_not_P [OF False], unfolded r phys_virt_round_trip r3]
  show ?thesis
  proof (cases t)
    case None
    with run s3 show ?thesis by simp
  next
    case (Some pt)
    have vm': "vm' = set_entry pt (PT_IDX v) ?e vm3" and ok using run Some by simp_all
    have inv3: "ptab_inv vm3 r" and w3: "walk vm3 r (fst (page_of v)) = Some pt"
      using s3 Some by (simp_all add: vm_ext_def)
    have "has ?e VMM_P" by (simp add: has_bit bit_or_iff)
    moreover have "vm_ext r vm3 vm' \<and>
        user_map vm' r = (user_map vm3 r)((fst (page_of v), PT_IDX v) := if has ?e VMM_P then Some ?e else None)"
      by (rule leaf_write [OF inv3 w3 up]) (simp_all add: vm')
    ultimately show ?thesis using s3 \<open>ok\<close> by (auto simp: page_of_def intro: vm_ext_trans)
  qed
qed

lemma unmap_page_spec:
  assumes inv: "ptab_inv vm r" and v: "PML4_IDX v < KERNEL_PML4_START" and r: "pml4 = phys_to_virt (vm_pmm vm) r"
  shows "vm_ext r vm (vmm_unmap_page pml4 v vm) \<and>
    user_map (vmm_unmap_page pml4 v vm) r = (user_map vm r)(page_of v := None)"
proof (cases "walk vm r (fst (page_of v))")
  case None
  then have "vmm_unmap_page pml4 v vm = vm"
    by (auto simp: vmm_unmap_page_def table_at_def r page_of_def Let_def split: if_splits)
  moreover have "user_map vm r (page_of v) = None"
    using None by (simp add: user_map_def page_of_def)
  ultimately show ?thesis using vm_ext_refl [OF inv] by (simp add: fun_upd_idem)
next
  case (Some t)
  let ?vm = "set_entry t (PT_IDX v) 0 vm"
  have "vmm_unmap_page pml4 v vm = ?vm\<lparr>invlpgs := invlpgs ?vm @ [v]\<rparr>"
    using Some by (auto simp: vmm_unmap_page_def table_at_def r page_of_def Let_def split: if_splits)
  moreover have "vm_ext r vm (?vm\<lparr>invlpgs := xs\<rparr>) \<and>
      user_map (?vm\<lparr>invlpgs := xs\<rparr>) r = (user_map vm r)((fst (page_of v), PT_IDX v) := if has 0 VMM_P then Some 0 else None)" for xs
    by (rule leaf_write [OF inv Some])
       (use v in \<open>auto simp: page_of_def upath_def set_entry_def entry_def\<close>)
  ultimately show ?thesis by (simp add: page_of_def)
qed

section \<open>A new address space\<close>

lemma fold_copy_entries:
  "entry (fold (\<lambda>i vm. set_entry d i (entry vm k i) vm) is vm) t j =
     (if t = d \<and> j \<in> set is then entry vm k j else entry vm t j)"
  by (induction "is" arbitrary: vm) auto

lemma fold_copy_entries_pmm [simp]:
  "vm_pmm (fold (\<lambda>i vm. set_entry d i (entry vm k i) vm) is vm) = vm_pmm vm"
  by (induction "is" arbitrary: vm) auto

lemma empty_space:
  assumes "pmm_inv (vm_pmm vm)" "held vm r" "\<And>i. i < KERNEL_PML4_START \<Longrightarrow> entry vm r i = 0"
  shows "ptab_inv vm r" "user_map vm r = Map.empty" "utables vm r = {r}"
proof -
  have W: "walk vm r p = (if p = [] then Some r else None)" if "upath p" for p
    using that assms(3) by (cases p) (auto simp: upath_def)
  have "\<not> has (entry vm t i) VMM_P" if "upath (p @ [i])" "walk vm r p = Some t" for p i t
    using W [OF that(1)] W [of p] upath_snocD [OF that(1)] that(2) by (auto simp: walk_append split: if_splits)
  with assms W show "ptab_inv vm r" unfolding ptab_inv_def by (metis option.inject option.distinct(1))
  show "user_map vm r = Map.empty" using W by (auto simp: user_map_def fun_eq_iff)
  show "utables vm r = {r}" using W by (auto simp: utables_def split: if_splits intro: exI [of _ "[]"])
qed

lemma vmm_kernel_pml4_simps:
  "vmm_kernel_pml4 vm = (k, vm') \<Longrightarrow> vm_pmm vm' = vm_pmm vm \<and> pages vm' = pages vm \<and> kernel_pml4 vm' = k"
  by (auto simp: vmm_kernel_pml4_def Let_def)

lemma create_spec:
  assumes inv: "pmm_inv (vm_pmm vm)" and run: "vmm_create_pml4 vm = (r, vm')" and r: "r \<noteq> 0"
  shows "ptab_inv vm' r \<and> user_map vm' r = Map.empty \<and> utables vm' r = {r} \<and> \<not> held vm r \<and> held vm' r \<and>
    frames_used (vm_pmm vm) \<subseteq> frames_used (vm_pmm vm') \<and> hhdm (vm_pmm vm') = hhdm (vm_pmm vm) \<and>
    (\<forall>t. t \<noteq> r \<longrightarrow> (\<forall>j. entry vm' t j = entry vm t j))"
proof -
  obtain k vm1 where k: "vmm_kernel_pml4 vm = (k, vm1)" by fastforce
  obtain a vm2 where a: "vm_alloc vm1 = (a, vm2)" by fastforce
  note k' = vmm_kernel_pml4_simps [OF k]
  have inv1: "pmm_inv (vm_pmm vm1)" using inv k' by simp
  note al = alloc_spec [OF inv1 a]
  have ra: "a = r" and vm': "vm' = fold (\<lambda>i vm. set_entry r i (entry vm (table_at vm2 k) i) vm) [KERNEL_PML4_START..<512] (zero_page r vm2)"
    using run k a r by (auto simp: vmm_create_pml4_def Let_def simp del: upt_rec_numeral split: if_splits)
  have e: "entry vm' t j = (if t = r \<and> KERNEL_PML4_START \<le> j \<and> j < 512 then entry (zero_page r vm2) (table_at vm2 k) j
      else if t = r then 0 else entry vm t j)" for t j
    using al(2) k' by (simp add: vm' fold_copy_entries entry_def [of vm2] entry_def [of vm] del: upt_rec_numeral)
  have f: "\<not> held vm r" "held vm' r" "frames_used (vm_pmm vm) \<subseteq> frames_used (vm_pmm vm')"
    using al(4) r k' by (auto simp: ra vm' held_def simp del: upt_rec_numeral)
  have p: "pmm_inv (vm_pmm vm')" "hhdm (vm_pmm vm') = hhdm (vm_pmm vm)" using al k' by (simp_all add: vm' del: upt_rec_numeral)
  have z: "entry vm' r i = 0" if "i < KERNEL_PML4_START" for i using that by (simp add: e)
  show ?thesis using f p empty_space [OF p(1) f(2) z] by (simp add: e)
qed

section \<open>Copy-on-write clone\<close>

lemma fold_steps:
  assumes step: "\<And>i X s. i \<in> set is \<Longrightarrow> X \<inter> A i = {} \<Longrightarrow> J X s \<Longrightarrow> J (X \<union> A i) (f i s)"
    and "distinct is" "\<And>i j. i \<noteq> j \<Longrightarrow> A i \<inter> A j = {}" "\<And>i. i \<in> set is \<Longrightarrow> X \<inter> A i = {}" "J X s"
  shows "J (X \<union> (\<Union>i\<in>set is. A i)) (fold f is s)"
  using assms
proof (induction "is" arbitrary: X s)
  case (Cons i "is")
  then have "J (X \<union> A i) (f i s)" by simp
  moreover have "(X \<union> A i) \<inter> A j = {}" if "j \<in> set is" for j
    using Cons.prems(2-4) that by (metis Int_Un_distrib2 Un_empty distinct.simps(2) list.set_intros)
  ultimately have "J ((X \<union> A i) \<union> (\<Union>i\<in>set is. A i)) (fold f is (f i s))"
    using Cons by simp
  then show ?case by (simp add: Un_assoc)
qed simp

text \<open>A change to pages that are not tables of an address space leaves that address space alone.\<close>

lemma tables_kept:
  assumes same: "\<forall>t \<in> utables vm r. pages vm' t = pages vm t"
  shows "upath q \<Longrightarrow> walk vm' r q = walk vm r q" "user_map vm' r = user_map vm r" "utables vm' r = utables vm r"
    "upath q \<Longrightarrow> walk vm r q = Some t \<Longrightarrow> entry vm' t j = entry vm t j"
proof -
  have e: "entry vm' t j = entry vm t j" if "upath q" "walk vm r q = Some t" for q t j
  proof -
    have "t \<in> utables vm r" using that by (auto simp: utables_def)
    with same show ?thesis by (simp add: entry_def)
  qed
  have W: "walk vm' r q = walk vm r q" if "upath q" for q
    using that
  proof (induction q rule: rev_induct)
    case (snoc j q)
    then have "upath q" by (blast dest: upath_snocD)
    with snoc e [OF this] show ?case by (auto simp: walk_append split: option.splits)
  qed simp
  then show "upath q \<Longrightarrow> walk vm' r q = walk vm r q" "utables vm' r = utables vm r" by (auto simp: utables_def)
  show "user_map vm' r = user_map vm r"
    using W e by (auto simp: fun_eq_iff user_map_def split: option.splits)
  show "upath q \<Longrightarrow> walk vm r q = Some t \<Longrightarrow> entry vm' t j = entry vm t j" by (rule e)
qed

lemma space_kept:
  assumes inv: "ptab_inv vm r" and same: "\<forall>t \<in> utables vm r. pages vm' t = pages vm t"
    and p: "pmm_inv (vm_pmm vm')" "\<forall>t \<in> utables vm r. held vm' t"
  shows "ptab_inv vm' r" "user_map vm' r = user_map vm r" "upath q \<Longrightarrow> walk vm' r q = walk vm r q"
    "utables vm' r = utables vm r"
proof -
  note W = tables_kept(1) [OF same] and e = tables_kept(4) [OF same]
  show "upath q \<Longrightarrow> walk vm' r q = walk vm r q" "user_map vm' r = user_map vm r" "utables vm' r = utables vm r"
    using tables_kept [OF same] by auto
  have "\<not> (has (entry vm' t j) VMM_P \<and> has (entry vm' t j) VMM_PS)" if "upath (q @ [j])" "walk vm r q = Some t" for q j t
    using ptab_invD(4) [OF inv that] e [of q t j] upath_snocD [OF that(1)] that(2) by auto
  moreover have "held vm' t" if "upath q" "walk vm r q = Some t" for q t using that p(2) by (auto simp: utables_def)
  moreover have "upath (q @ [j]) \<Longrightarrow> walk vm' r q = walk vm r q" for q j using W by (blast dest: upath_snocD)
  ultimately show "ptab_inv vm' r"
    using W p(1) ptab_invD(3) [OF inv] unfolding ptab_inv_def by metis
qed

lemma other_space:
  assumes inv: "ptab_inv vm r" and same: "\<forall>t \<in> utables vm r. pages vm' t = pages vm t"
    and p: "pmm_inv (vm_pmm vm')" "frames_used (vm_pmm vm) \<subseteq> frames_used (vm_pmm vm')"
  shows "ptab_inv vm' r" "user_map vm' r = user_map vm r" "upath q \<Longrightarrow> walk vm' r q = walk vm r q"
    "utables vm' r = utables vm r"
proof -
  have "\<forall>t \<in> utables vm r. held vm' t"
    using ptab_invD(2) [OF inv] p(2) by (auto simp: utables_def held_def)
  note K = space_kept [OF inv same p(1) this]
  show "ptab_inv vm' r" "user_map vm' r = user_map vm r" "utables vm' r = utables vm r" by (rule K)+
  show "upath q \<Longrightarrow> walk vm' r q = walk vm r q" by (rule K)
qed

lemma bit_less_9: "(n :: nat) < 512 \<Longrightarrow> bit n m \<Longrightarrow> m < 9"
proof (rule ccontr)
  assume n: "n < 512" "bit n m" "\<not> m < 9"
  then have "n < 2 ^ m" using power_increasing [of 9 m "2::nat"] by simp
  then have "n div 2 ^ m = 0" by simp
  with n show False by (simp add: bit_iff_odd)
qed

lemma page_of_clone_vaddr:
  assumes "i < 512" "j < 512" "k < 512" "l < 512"
  shows "page_of (clone_vaddr i j k l) = ([i, j, k], l)"
proof -
  have m: "(0x1FF :: u64) = mask 9" by (simp add: mask_eq_exp_minus_1)
  note b = assms [THEN bit_less_9]
  have u: "unat w = n" if "w = of_nat n" "n < 512" for n and w :: u64
    using that by (simp add: unat_of_nat take_bit_nat_eq_self)
  have "drop_bit 39 (clone_vaddr i j k l) AND mask 9 = of_nat i"
    "drop_bit 30 (clone_vaddr i j k l) AND mask 9 = of_nat j"
    "drop_bit 21 (clone_vaddr i j k l) AND mask 9 = of_nat k"
    "drop_bit 12 (clone_vaddr i j k l) AND mask 9 = of_nat l"
    by (rule bit_word_eqI; auto simp: clone_vaddr_def bit_simps dest: b)+
  then show ?thesis
    unfolding page_of_def PML4_IDX_def PDPT_IDX_def PD_IDX_def PT_IDX_def m
    using assms u by simp
qed

text \<open>The entries a clone leaves in the two address spaces.\<close>

definition child_entry :: "u64 \<Rightarrow> u64" where
  "child_entry pte = ((pte AND VMM_PHYS_MASK) AND VMM_PHYS_MASK) OR (clone_flags pte OR VMM_P)"

text \<open>The state of the loops once the pages in \<open>X\<close> have been visited.\<close>

definition cloned :: "vm \<Rightarrow> u64 \<Rightarrow> u64 \<Rightarrow> (nat list \<times> nat) set \<Rightarrow> vm \<Rightarrow> bool" where
  "cloned vm0 src dst X vm \<longleftrightarrow>
     ptab_inv vm src \<and> ptab_inv vm dst \<and> (\<forall>q. upath q \<longrightarrow> walk vm src q = walk vm0 src q) \<and>
     hhdm (vm_pmm vm) = hhdm (vm_pmm vm0) \<and> frames_used (vm_pmm vm0) \<subseteq> frames_used (vm_pmm vm) \<and>
     (\<forall>t. held vm0 t \<longrightarrow> t \<notin> utables vm dst) \<and>
     (\<forall>t. held vm0 t \<longrightarrow> t \<notin> utables vm0 src \<longrightarrow> pages vm t = pages vm0 t) \<and>
     user_map vm dst = (\<lambda>x. if x \<in> X then map_option child_entry (user_map vm0 src x) else None) \<and>
     user_map vm src = (\<lambda>x. if x \<in> X then map_option clone_src (user_map vm0 src x) else user_map vm0 src x)"

lemma clonedD:
  assumes "cloned vm0 src dst X vm"
  shows "ptab_inv vm src" "ptab_inv vm dst" "upath q \<Longrightarrow> walk vm src q = walk vm0 src q"
    "hhdm (vm_pmm vm) = hhdm (vm_pmm vm0)" "frames_used (vm_pmm vm0) \<subseteq> frames_used (vm_pmm vm)"
    "held vm0 t \<Longrightarrow> t \<notin> utables vm dst"
    "held vm0 t \<Longrightarrow> t \<notin> utables vm0 src \<Longrightarrow> pages vm t = pages vm0 t"
    "user_map vm dst = (\<lambda>x. if x \<in> X then map_option child_entry (user_map vm0 src x) else None)"
    "user_map vm src = (\<lambda>x. if x \<in> X then map_option clone_src (user_map vm0 src x) else user_map vm0 src x)"
    "utables vm src = utables vm0 src"
proof -
  show "utables vm src = utables vm0 src" using assms by (auto simp: cloned_def utables_def)
qed (use assms in \<open>unfold cloned_def, blast+\<close>)

lemma cloned_skip:
  assumes "cloned vm0 src dst X vm" "\<And>x. x \<in> A \<Longrightarrow> user_map vm0 src x = None"
  shows "cloned vm0 src dst (X \<union> A) vm"
proof -
  have *: "(\<lambda>x. if x \<in> X then map_option f (user_map vm0 src x) else g x) =
      (\<lambda>x. if x \<in> X \<union> A then map_option f (user_map vm0 src x) else g x)" if "\<And>x. x \<in> A \<Longrightarrow> g x = None" for f g
    using assms(2) that by (auto simp: fun_eq_iff)
  show ?thesis
    using assms(1) * [of "\<lambda>_. None" child_entry] * [of "user_map vm0 src", OF assms(2)] unfolding cloned_def by auto
qed

lemma clone_src_present: "has pte VMM_P \<Longrightarrow> has (clone_src pte) VMM_P"
  by (simp add: clone_src_def has_bit bit_or_iff bit_and_iff bit_not_iff bit_small_numerals)

lemma cloned_pte:
  assumes J: "cloned vm0 src dst X vm" and inv0: "ptab_inv vm0 src"
    and p: "upath p" "length p = 3" "l < 512" "(p, l) \<notin> X" and t: "walk vm0 src p = Some t"
    and pte: "user_map vm0 src (p, l) = Some pte"
    and eq1: "vm1 = set_entry t l (clone_src pte) vm"
    and ext: "vm_ext dst vm1 vm2" and um2: "user_map vm2 dst = (user_map vm1 dst)((p, l) \<mapsto> child_entry pte)"
    and eq3: "vm3 = vm2\<lparr>vm_pmm := pmm_ref_frame a (vm_pmm vm2)\<rparr>"
  shows "cloned vm0 src dst (X \<union> {(p, l)}) vm3"
proof -
  note J = clonedD [OF J]
  have w: "walk vm src p = Some t" using J(3) [OF p(1)] t by simp
  have um: "user_map vm src (p, l) = Some pte" using J(9) p(4) pte by simp
  have has1: "has (clone_src pte) VMM_P"
    using um w p by (intro clone_src_present) (auto simp: user_map_def split: if_splits)
  have e1: "entry vm1 u j = (if u = t \<and> j = l then clone_src pte else entry vm u j)" for u j
    by (simp add: eq1)
  have pm1: "vm_pmm vm1 = vm_pmm vm" by (simp add: eq1)
  note L = leaf_write [OF J(1) w p(1-3) e1 pm1] leaf_write_walk [OF J(1) w p(1,2) _ e1]
  have t0: "held vm0 t" "t \<in> utables vm0 src" using ptab_invD(2) [OF inv0 p(1) t] p t by (auto simp: utables_def)
  have pg1: "pages vm1 u = pages vm u" if "u \<noteq> t" for u using that by (simp add: eq1 set_entry_def)
  have d1: "\<forall>u \<in> utables vm dst. pages vm1 u = pages vm u" using J(6) [OF t0(1)] pg1 by metis
  note D1 = other_space [OF J(2) d1, unfolded pm1, OF ptab_invD(1) [OF J(1)] order_refl]
  have u1: "utables vm1 src = utables vm src" using L(2) by (auto simp: utables_def)
  have h1: "held vm1 u" if "held vm0 u" for u using that J(5) by (auto simp: held_def pm1)
  have pg2: "pages vm2 u = pages vm1 u \<and> u \<notin> utables vm2 dst" if "held vm0 u" for u
    using ext h1 [OF that] J(6) [OF that] D1(4) unfolding vm_ext_def by auto
  have s2: "\<forall>u \<in> utables vm1 src. pages vm2 u = pages vm1 u"
  proof
    fix u assume "u \<in> utables vm1 src"
    then have "u \<in> utables vm0 src" using u1 J(10) by simp
    then have "held vm0 u" using ptab_invD(2) [OF inv0] by (auto simp: utables_def)
    with pg2 show "pages vm2 u = pages vm1 u" by simp
  qed
  have X2: "pmm_inv (vm_pmm vm2)" "frames_used (vm_pmm vm1) \<subseteq> frames_used (vm_pmm vm2)"
      "ptab_inv vm2 dst" "hhdm (vm_pmm vm2) = hhdm (vm_pmm vm1)"
    using ext ptab_invD(1) by (auto simp: vm_ext_def)
  have inv1: "ptab_inv vm1 src" using L(1) by (simp add: vm_ext_def)
  note S2 = other_space [OF inv1 s2 X2(1,2)]
  have pg3: "pages vm3 = pages vm2" "frames_used (vm_pmm vm2) \<subseteq> frames_used (vm_pmm vm3)"
      "pmm_inv (vm_pmm vm3)" "hhdm (vm_pmm vm3) = hhdm (vm_pmm vm2)"
    using pmm_ref_frame_inv [OF X2(1)] by (auto simp: eq3 frames_used_def)
  note D3 = other_space [OF X2(3), of vm3, unfolded pg3(1), OF ballI [OF refl] pg3(3,2)]
  note S3 = other_space [OF S2(1), of vm3, unfolded pg3(1), OF ballI [OF refl] pg3(3,2)]
  show ?thesis
    unfolding cloned_def
  proof (intro conjI allI impI)
    show "ptab_inv vm3 src" "ptab_inv vm3 dst" using S3(1) D3(1) by auto
    show "walk vm3 src q = walk vm0 src q" if "upath q" for q
      using that S3(3) S2(3) L(2) J(3) by simp
    show "hhdm (vm_pmm vm3) = hhdm (vm_pmm vm0)" using pg3 X2 pm1 J(4) by simp
    show "frames_used (vm_pmm vm0) \<subseteq> frames_used (vm_pmm vm3)" using pg3 X2 pm1 J(5) by auto
    show "u \<notin> utables vm3 dst" if "held vm0 u" for u using pg2 [OF that] D3(4) by simp
    show "pages vm3 u = pages vm0 u" if "held vm0 u" "u \<notin> utables vm0 src" for u
      using pg2 [OF that(1)] pg1 [of u] t0 that J(7) [OF that] by (auto simp: pg3)
    show "user_map vm3 dst = (\<lambda>x. if x \<in> X \<union> {(p, l)} then map_option child_entry (user_map vm0 src x) else None)"
      using D3(2) um2 D1(2) J(8) pte by (auto simp: fun_eq_iff)
    show "user_map vm3 src = (\<lambda>x. if x \<in> X \<union> {(p, l)} then map_option clone_src (user_map vm0 src x) else user_map vm0 src x)"
      using S3(2) S2(2) L(1) has1 J(9) pte by (auto simp: fun_eq_iff)
  qed
qed

text \<open>The pages below a path.\<close>

definition below :: "nat list \<Rightarrow> (nat list \<times> nat) set" where
  "below q = {(p, l). length p = 3 \<and> (\<exists>r. p @ [l] = q @ r \<and> (\<forall>i \<in> set r. i < 512))}"

lemma below_leaf: "length p = 3 \<Longrightarrow> below (p @ [l]) = {(p, l)}"
  by (auto simp: below_def)

lemma below_split:
  assumes "length q \<le> 3"
  shows "below q = (\<Union>k < 512. below (q @ [k]))"
proof -
  have "(p, l) \<in> (\<Union>k < 512. below (q @ [k]))" if x: "(p, l) \<in> below q" for p l
  proof -
    obtain r where r: "length p = 3" "p @ [l] = q @ r" "\<forall>i \<in> set r. i < 512" using x by (auto simp: below_def)
    then have "length q + length r = 4" by (metis length_append length_append_singleton numeral_3_eq_3 numeral_eq_Suc pred_numeral_simps(2) semiring_norm(26,27))
    with assms obtain k r' where "r = k # r'" by (cases r) auto
    with r show ?thesis by (auto simp: below_def)
  qed
  moreover have "below (q @ [k]) \<subseteq> below q" if "k < 512" for k
    using that by (fastforce simp: below_def)
  ultimately show ?thesis by fast
qed

lemma below_disjoint: "k \<noteq> k' \<Longrightarrow> below (q @ [k]) \<inter> below (q @ [k']) = {}"
  by (auto simp: below_def)

lemma below_None:
  assumes "walk vm r q = None" "x \<in> below q" "length q \<le> 3"
  shows "user_map vm r x = None"
proof -
  obtain p l where x: "x = (p, l)" "length p = 3" using assms(2) by (auto simp: below_def)
  obtain s where "p @ [l] = q @ s" using assms(2) x by (auto simp: below_def)
  then have "\<exists>s. p = q @ s" using assms(3) x by (auto simp: append_eq_append_conv2 append_eq_Cons_conv)
  with assms(1) x show ?thesis by (auto simp: user_map_def walk_append split: option.splits)
qed

text \<open>One loop of \<open>vmm_clone_user\<close>, given what its body does.\<close>

definition while_ok :: "vm \<Rightarrow> u64 \<Rightarrow> u64 \<Rightarrow> (nat list \<times> nat) set \<Rightarrow> bool \<times> vm \<Rightarrow> bool" where
  "while_ok vm0 src dst X s \<longleftrightarrow> (fst s \<longrightarrow> cloned vm0 src dst X (snd s))"

lemma clone_loop:
  assumes body: "\<And>tab k X s. walk vm0 src (q @ [i]) = Some tab \<Longrightarrow> k < 512 \<Longrightarrow> X \<inter> below (q @ [i, k]) = {} \<Longrightarrow>
      while_ok vm0 src dst X s \<Longrightarrow> while_ok vm0 src dst (X \<union> below (q @ [i, k])) (body tab k s)"
    and q: "upath (q @ [i])" "walk vm0 src q = Some tab0" and X: "X \<inter> below (q @ [i]) = {}"
    and J: "while_ok vm0 src dst X (ok, vm)"
  shows "while_ok vm0 src dst (X \<union> below (q @ [i]))
    (if \<not> ok \<or> \<not> has (entry vm tab0 i) VMM_P then (ok, vm) else fold (body (table_of (entry vm tab0 i))) [0..<512] (ok, vm))"
proof (cases ok)
  case True
  then have c: "cloned vm0 src dst X vm" using J by (simp add: while_ok_def)
  have uq: "upath q" and len: "length (q @ [i]) \<le> 3" using upath_snocD [OF q(1)] by auto
  have w: "walk vm0 src (q @ [i]) = (if has (entry vm tab0 i) VMM_P then Some (table_of (entry vm tab0 i)) else None)"
    using clonedD(3) [OF c q(1)] clonedD(3) [OF c uq] q(2) by (auto simp: walk_append split: if_splits)
  show ?thesis
  proof (cases "has (entry vm tab0 i) VMM_P")
    case False
    with w below_None [OF _ _ len] cloned_skip [OF c] True show ?thesis by (auto simp: while_ok_def)
  next
    case P: True
    let ?t = "table_of (entry vm tab0 i)"
    have sp: "below (q @ [i]) = (\<Union>k \<in> set [0..<512]. below (q @ [i, k]))"
      unfolding below_split [OF len] by (simp del: upt_rec_numeral add: atLeast0LessThan)
    have "while_ok vm0 src dst (X \<union> (\<Union>k \<in> set [0..<512]. below (q @ [i, k]))) (fold (body ?t) [0..<512] (ok, vm))"
    proof (rule fold_steps)
      fix k X s assume "k \<in> set [0..<512]" "X \<inter> below (q @ [i, k]) = {}" "while_ok vm0 src dst X s"
      then show "while_ok vm0 src dst (X \<union> below (q @ [i, k])) (body ?t k s)"
        using body [of ?t k X s] w P by (simp del: upt_rec_numeral)
    next
      show "below (q @ [i, k]) \<inter> below (q @ [i, k']) = {}" if "k \<noteq> k'" for k k'
        using below_disjoint [OF that, of "q @ [i]"] by simp
      show "X \<inter> below (q @ [i, k]) = {}" if "k \<in> set [0..<512]" for k
        using X that unfolding sp by blast
    qed (use J in simp_all)
    then show ?thesis using True P unfolding sp by simp
  qed
qed (simp add: while_ok_def)

lemma clone_pte_step:
  assumes J: "while_ok vm0 src dst X (ok, vm)" and inv0: "ptab_inv vm0 src"
    and p: "p = [i, j, k]" "upath p" "l < 512" "(p, l) \<notin> X" and t: "walk vm0 src p = Some t"
    and d: "dv = phys_to_virt (vm_pmm vm0) dst"
  shows "while_ok vm0 src dst (X \<union> {(p, l)}) (clone_pte t dv i j k l (ok, vm))"
proof (cases ok)
  case True
  then have c: "cloned vm0 src dst X vm" using J by (simp add: while_ok_def)
  let ?pte = "entry vm t l" and ?v = "clone_vaddr i j k l"
  have w: "walk vm src p = Some t" using clonedD(3) [OF c p(2)] t by simp
  have len: "length p = 3" using p by simp
  have um: "user_map vm0 src (p, l) = (if has ?pte VMM_P then Some ?pte else None)"
    using clonedD(9) [OF c] p(4) w p len
    by (auto simp: user_map_def fun_eq_iff simp del: walk.simps split: if_splits dest!: spec [of _ p] spec [of _ l])
  show ?thesis
  proof (cases "has ?pte VMM_P")
    case False
    with um cloned_skip [OF c, of "{(p, l)}"] True show ?thesis by (simp add: clone_pte_def while_ok_def)
  next
    case P: True
    define vm1 where "vm1 = set_entry t l (clone_src ?pte) vm"
    obtain ok2 vm2 where run: "vmm_map_page dv ?v (?pte AND VMM_PHYS_MASK) (clone_flags ?pte) vm1 = (ok2, vm2)" by fastforce
    have t0: "held vm0 t" using ptab_invD(2) [OF inv0 p(2) t] .
    have "\<forall>u \<in> utables vm dst. pages vm1 u = pages vm u"
      using clonedD(6) [OF c t0] by (auto simp: vm1_def set_entry_def)
    then have inv1: "ptab_inv vm1 dst"
      by (rule other_space(1) [OF clonedD(2) [OF c]]) (use ptab_invD(1) [OF clonedD(1) [OF c]] in \<open>simp_all add: vm1_def\<close>)
    have v: "page_of ?v = (p, l)"
      using p page_of_clone_vaddr [of i j k l] by (auto simp: upath_def)
    then have "PML4_IDX ?v < KERNEL_PML4_START" using p by (auto simp: page_of_def upath_def)
    moreover have "dv = phys_to_virt (vm_pmm vm1) dst" using d clonedD(4) [OF c] by (simp add: phys_to_virt_def vm1_def)
    ultimately have m: "vm_ext dst vm1 vm2" "ok2 \<Longrightarrow> user_map vm2 dst = (user_map vm1 dst)((p, l) \<mapsto> child_entry ?pte)"
      using map_page_spec [OF inv1 _ _ run] by (auto simp: v child_entry_def)
    have "while_ok vm0 src dst (X \<union> {(p, l)}) (True, vm2\<lparr>vm_pmm := pmm_ref_frame (?pte AND VMM_PHYS_MASK) (vm_pmm vm2)\<rparr>)" if ok2
      using cloned_pte [OF c inv0 p(2) len p(3,4) t _ vm1_def m(1) m(2) [OF that] refl] um P by (simp add: while_ok_def)
    moreover have "clone_pte t dv i j k l (ok, vm) =
        (if ok2 then (True, vm2\<lparr>vm_pmm := pmm_ref_frame (?pte AND VMM_PHYS_MASK) (vm_pmm vm2)\<rparr>) else (False, vm2))"
      using True P run by (simp add: clone_pte_def vm1_def)
    ultimately show ?thesis by (auto simp: while_ok_def)
  qed
qed (simp add: clone_pte_def while_ok_def)

lemma clone_pt_step:
  assumes inv0: "ptab_inv vm0 src" and d: "dv = phys_to_virt (vm_pmm vm0) dst"
    and q: "upath [i, j, k]" "walk vm0 src [i, j] = Some pd" "X \<inter> below [i, j, k] = {}"
    and J: "while_ok vm0 src dst X s"
  shows "while_ok vm0 src dst (X \<union> below [i, j, k]) (clone_pt pd dv i j k s)"
proof -
  obtain ok vm where s: "s = (ok, vm)" by fastforce
  have "clone_pt pd dv i j k s = (if \<not> ok \<or> \<not> has (entry vm pd k) VMM_P then (ok, vm)
      else fold ((\<lambda>t l. clone_pte t dv i j k l) (table_of (entry vm pd k))) [0..<512] (ok, vm))"
    by (simp add: clone_pt_def s Let_def del: upt_rec_numeral)
  moreover have "while_ok vm0 src dst (X \<union> below ([i, j] @ [k])) \<dots>"
  proof (rule clone_loop)
    fix tab l X s assume "walk vm0 src ([i, j] @ [k]) = Some tab" "l < 512" "X \<inter> below ([i, j] @ [k, l]) = {}" "while_ok vm0 src dst X s"
    then show "while_ok vm0 src dst (X \<union> below ([i, j] @ [k, l])) (clone_pte tab dv i j k l s)"
      using clone_pte_step [OF _ inv0 refl q(1) _ _ _ d, of X "fst s" "snd s" l tab] below_leaf [of "[i, j, k]" l] by simp
  qed (use q J s in simp_all)
  ultimately show ?thesis by simp
qed

lemma clone_pd_step:
  assumes inv0: "ptab_inv vm0 src" and d: "dv = phys_to_virt (vm_pmm vm0) dst"
    and q: "upath [i, j]" "walk vm0 src [i] = Some pdpt" "X \<inter> below [i, j] = {}"
    and J: "while_ok vm0 src dst X s"
  shows "while_ok vm0 src dst (X \<union> below [i, j]) (clone_pd pdpt dv i j s)"
proof -
  obtain ok vm where s: "s = (ok, vm)" by fastforce
  have "clone_pd pdpt dv i j s = (if \<not> ok \<or> \<not> has (entry vm pdpt j) VMM_P then (ok, vm)
      else fold ((\<lambda>t k. clone_pt t dv i j k) (table_of (entry vm pdpt j))) [0..<512] (ok, vm))"
    by (simp add: clone_pd_def s Let_def del: upt_rec_numeral)
  moreover have "while_ok vm0 src dst (X \<union> below ([i] @ [j])) \<dots>"
  proof (rule clone_loop)
    fix tab k X s assume "walk vm0 src ([i] @ [j]) = Some tab" "k < 512" "X \<inter> below ([i] @ [j, k]) = {}" "while_ok vm0 src dst X s"
    then show "while_ok vm0 src dst (X \<union> below ([i] @ [j, k])) (clone_pt tab dv i j k s)"
      using clone_pt_step [OF inv0 d, of i j k tab X s] q(1) by (simp add: upath_def del: walk.simps)
  qed (use q J s in simp_all)
  ultimately show ?thesis by simp
qed

lemma clone_pdpt_step:
  assumes inv0: "ptab_inv vm0 src" and d: "dv = phys_to_virt (vm_pmm vm0) dst"
    and q: "upath [i]" "X \<inter> below [i] = {}" and J: "while_ok vm0 src dst X s"
  shows "while_ok vm0 src dst (X \<union> below [i]) (clone_pdpt src dv i s)"
proof -
  obtain ok vm where s: "s = (ok, vm)" by fastforce
  have "clone_pdpt src dv i s = (if \<not> ok \<or> \<not> has (entry vm src i) VMM_P then (ok, vm)
      else fold ((\<lambda>t j. clone_pd t dv i j) (table_of (entry vm src i))) [0..<512] (ok, vm))"
    by (simp add: clone_pdpt_def s Let_def del: upt_rec_numeral)
  moreover have "while_ok vm0 src dst (X \<union> below ([] @ [i])) \<dots>"
  proof (rule clone_loop)
    fix tab j X s assume "walk vm0 src ([] @ [i]) = Some tab" "j < 512" "X \<inter> below ([] @ [i, j]) = {}" "while_ok vm0 src dst X s"
    then show "while_ok vm0 src dst (X \<union> below ([] @ [i, j])) (clone_pd tab dv i j s)"
      using clone_pd_step [OF inv0 d, of i j tab X s] q(1) by (simp add: upath_def del: walk.simps)
  qed (use q J s in simp_all)
  ultimately show ?thesis by simp
qed

text \<open>What the flags of the two entries are.\<close>

lemma clone_entry_bits:
  shows "child_entry e AND VMM_PHYS_MASK = e AND VMM_PHYS_MASK" "has (child_entry e) VMM_P"
    "clone_src e AND VMM_PHYS_MASK = e AND VMM_PHYS_MASK"
    "has (child_entry e) VMM_RW \<longleftrightarrow> has e VMM_RW \<and> has e VMM_SHARED"
    "has (clone_src e) VMM_RW \<longleftrightarrow> has e VMM_RW \<and> has e VMM_SHARED"
    "has (child_entry e) VMM_COW \<longleftrightarrow> has e VMM_COW \<or> has e VMM_RW \<and> \<not> has e VMM_SHARED"
    "has (clone_src e) VMM_COW \<longleftrightarrow> has e VMM_COW \<or> has e VMM_RW \<and> \<not> has e VMM_SHARED"
proof -
  have m: "bit (0x800000000000061E :: u64) n \<longleftrightarrow> n \<in> {1, 2, 3, 4, 9, 10, 63}" for n
  proof -
    have eq: "(0x800000000000061E :: u64) = 0x2 OR 0x4 OR 0x8 OR 0x10 OR 0x200 OR 0x400 OR 0x8000000000000000" by simp
    show ?thesis unfolding eq bit_or_iff bit_small_numerals by auto
  qed
  have f: "bit (clone_flags e) n \<longleftrightarrow> (if n = 9 then bit e 9 \<or> bit e 1 \<and> \<not> bit e 10
      else if n = 1 then bit e 1 \<and> bit e 10 else n \<in> {2, 3, 4, 10, 63} \<and> bit e n)" for n
    by (auto simp: clone_flags_def Let_def has_bit bit_or_iff bit_and_iff bit_not_iff m bit_small_numerals
        simp del: bit_numeral_word_iff)
  have n2: "bit (- 3 :: u64) n \<longleftrightarrow> n < 64 \<and> n \<noteq> 1" for n
  proof -
    have eq: "(- 3 :: u64) = NOT 0x2" by simp
    show ?thesis unfolding eq bit_not_iff bit_small_numerals by (auto simp: possible_bit_def)
  qed
  have c: "bit (clone_src e) n \<longleftrightarrow> (if n = 9 then bit e 9 \<or> bit e 1 \<and> \<not> bit e 10
      else if n = 1 then bit e 1 \<and> bit e 10 else bit e n)" if "n < 64" for n
    using that by (auto simp: clone_src_def has_bit bit_or_iff bit_and_iff n2 bit_small_numerals
        simp del: bit_numeral_word_iff bit_neg_numeral_word_iff)
  show "child_entry e AND VMM_PHYS_MASK = e AND VMM_PHYS_MASK" "clone_src e AND VMM_PHYS_MASK = e AND VMM_PHYS_MASK"
    by (rule bit_word_eqI; auto simp: child_entry_def bit_or_iff bit_and_iff f c bit_phys_mask bit_small_numerals
        simp del: bit_numeral_word_iff)+
  show "has (child_entry e) VMM_P" "has (child_entry e) VMM_RW \<longleftrightarrow> has e VMM_RW \<and> has e VMM_SHARED"
    "has (child_entry e) VMM_COW \<longleftrightarrow> has e VMM_COW \<or> has e VMM_RW \<and> \<not> has e VMM_SHARED"
    "has (clone_src e) VMM_RW \<longleftrightarrow> has e VMM_RW \<and> has e VMM_SHARED"
    "has (clone_src e) VMM_COW \<longleftrightarrow> has e VMM_COW \<or> has e VMM_RW \<and> \<not> has e VMM_SHARED"
    by (auto simp: child_entry_def has_bit bit_or_iff bit_and_iff f c bit_phys_mask bit_small_numerals
        simp del: bit_numeral_word_iff)
qed

lemma user_map_below: "user_map vm r x = Some e \<Longrightarrow> x \<in> (\<Union>i \<in> set [0..<KERNEL_PML4_START]. below [i])"
proof -
  assume a: "user_map vm r x = Some e"
  obtain p l where x: "x = (p, l)" by fastforce
  with a have p: "upath p" "length p = 3" "l < 512" by (auto simp: user_map_def split: if_splits)
  then obtain i q where q: "p = i # q" by (cases p) auto
  have "i \<in> set [0..<KERNEL_PML4_START]" using p q by (simp add: upath_def del: upt_rec_numeral)
  moreover have "(p, l) \<in> below [i]" using p q by (auto simp: below_def upath_def)
  ultimately show ?thesis using x by blast
qed

lemma clone_user_spec:
  assumes inv: "ptab_inv vm src" and sv: "sv = phys_to_virt (vm_pmm vm) src"
    and run: "vmm_clone_user sv vm = (dst, vm')" and dst: "dst \<noteq> 0"
  shows "cloned vm src dst UNIV vm'"
proof -
  let ?is = "[0..<KERNEL_PML4_START]"
  obtain d vm1 where cr: "vmm_create_pml4 vm = (d, vm1)" by fastforce
  let ?dv = "phys_to_virt (vm_pmm vm1) d"
  obtain ok vm2 where f: "fold (clone_pdpt (table_at vm1 sv) ?dv) ?is (True, vm1) = (ok, vm2)" by fastforce
  have d: "d \<noteq> 0" using run cr dst by (auto simp: vmm_clone_user_def split: if_splits)
  note C = create_spec [OF ptab_invD(1) [OF inv] cr d]
  have "ok \<and> vm2 = vm' \<and> d = dst"
    using run cr f d dst by (cases ok) (auto simp: vmm_clone_user_def Let_def simp del: upt_rec_numeral)
  then have eqs: "ok" "vm2 = vm'" "d = dst" by auto
  note C = C [unfolded eqs]
  have pg: "pages vm1 t = pages vm t" if "t \<noteq> dst" for t using C that by (simp add: entry_def fun_eq_iff)
  have ne: "t \<noteq> dst" if "held vm t" for t using C that by auto
  have "\<forall>t \<in> utables vm src. pages vm1 t = pages vm t"
    using pg ne ptab_invD(2) [OF inv] by (auto simp: utables_def)
  note O = other_space [OF inv this]
  have O: "ptab_inv vm1 src" "user_map vm1 src = user_map vm src" "upath q \<Longrightarrow> walk vm1 src q = walk vm src q" for q
    using O C ptab_invD(1) [of vm1 dst] by auto
  have "cloned vm src dst {} vm1"
    unfolding cloned_def using O C pg ne by auto
  then have J: "while_ok vm src dst {} (True, vm1)" by (simp add: while_ok_def)
  have h: "?dv = phys_to_virt (vm_pmm vm) dst" "table_at vm1 sv = src"
    using C eqs by (simp_all add: phys_to_virt_def table_at_def virt_to_phys_def sv)
  have "while_ok vm src dst ({} \<union> (\<Union>i \<in> set ?is. below [i])) (fold (clone_pdpt src ?dv) ?is (True, vm1))"
  proof (rule fold_steps)
    fix i X s assume "i \<in> set ?is" "X \<inter> below [i] = {}" "while_ok vm src dst X s"
    then show "while_ok vm src dst (X \<union> below [i]) (clone_pdpt src ?dv i s)"
      using clone_pdpt_step [OF inv h(1), of i X s] by (simp add: upath_def del: upt_rec_numeral)
  next
    show "below [i] \<inter> below [j] = {}" if "i \<noteq> j" for i j using below_disjoint [OF that, of "[]"] by simp
  qed (use J in auto)
  then have "cloned vm src dst (\<Union>i \<in> set ?is. below [i]) vm'"
    using f eqs h by (simp add: while_ok_def del: upt_rec_numeral)
  then have "cloned vm src dst ((\<Union>i \<in> set ?is. below [i]) \<union> - (\<Union>i \<in> set ?is. below [i])) vm'"
    by (rule cloned_skip) (metis user_map_below ComplD not_Some_eq)
  then show ?thesis by (simp only: Compl_partition)
qed

section \<open>Destroying an address space\<close>

text \<open>Only the tables of the user half are written, and only with zeros.\<close>

definition wiped :: "vm \<Rightarrow> u64 \<Rightarrow> vm \<Rightarrow> bool" where
  "wiped vm0 r vm \<longleftrightarrow> (\<forall>t. t \<notin> utables vm0 r \<longrightarrow> pages vm t = pages vm0 t) \<and>
     (\<forall>t i. entry vm t i = entry vm0 t i \<or> entry vm t i = 0) \<and> cr3 vm = cr3 vm0 \<and> hhdm (vm_pmm vm) = hhdm (vm_pmm vm0)"

lemma hhdm_unref [simp]: "hhdm (pmm_unref_frame a p) = hhdm p"
  by (simp add: pmm_unref_frame_def pmm_release_def Let_def split: option.split)

lemma wiped_clear:
  assumes "wiped vm0 r vm" "t \<in> utables vm0 r"
  shows "wiped vm0 r (set_entry t i 0 (vm_free a vm))"
  using assms by (auto simp: wiped_def set_entry_def vm_free_def entry_def)

lemma wiped_present:
  assumes "wiped vm0 r vm" "walk vm0 r p = Some t" "upath (p @ [i])" "has (entry vm t i) VMM_P"
  shows "walk vm0 r (p @ [i]) = Some (table_of (entry vm t i))" "table_of (entry vm t i) \<in> utables vm0 r"
proof -
  have "entry vm t i = entry vm0 t i" using assms(1,4) unfolding wiped_def by (metis has_0)
  then show w: "walk vm0 r (p @ [i]) = Some (table_of (entry vm t i))" using assms(2,4) by (simp add: walk_append)
  then show "table_of (entry vm t i) \<in> utables vm0 r" using assms(3) by (auto simp: utables_def)
qed

lemma destroy_pt_wiped:
  assumes "wiped vm0 r vm" "pt \<in> utables vm0 r"
  shows "wiped vm0 r (destroy_pt pt vm)"
  unfolding destroy_pt_def
  by (rule fold_invariant [where Q = "\<lambda>_. True"]) (use assms in \<open>auto simp: Let_def intro: wiped_clear\<close>)

text \<open>The loops on the upper levels differ only in what they do with the table below.\<close>

lemma destroy_loop:
  assumes inner: "\<And>t i vm. i \<in> set is \<Longrightarrow> walk vm0 r (p @ [i]) = Some t \<Longrightarrow> wiped vm0 r vm \<Longrightarrow> wiped vm0 r (destroy t vm)"
    and tab: "walk vm0 r p = Some tab" "upath p" and up: "\<And>i. i \<in> set is \<Longrightarrow> upath (p @ [i])" and w: "wiped vm0 r vm"
  shows "wiped vm0 r (fold (\<lambda>i vm. let e = entry vm tab i in
     if has e VMM_P then set_entry tab i 0 (vm_free (table_of e) (destroy (table_of e) vm)) else vm) is vm)"
proof (rule fold_invariant [where Q = "\<lambda>i. i \<in> set is" and P = "wiped vm0 r"])
  have t: "tab \<in> utables vm0 r" using tab by (auto simp: utables_def)
  show "wiped vm0 r (let e = entry vm tab i in
      if has e VMM_P then set_entry tab i 0 (vm_free (table_of e) (destroy (table_of e) vm)) else vm)"
    if i: "i \<in> set is" and w: "wiped vm0 r vm" for i vm
    using wiped_clear [OF inner [OF i wiped_present(1) [OF w tab(1) up [OF i]] w] t] w by (simp add: Let_def)
qed (use w in auto)

lemma destroy_user_wiped:
  assumes "pml4 = phys_to_virt (vm_pmm vm) r"
  shows "wiped vm r (vmm_destroy_user pml4 vm)"
proof -
  have w0: "wiped vm r vm" by (simp add: wiped_def)
  have pd: "wiped vm r (destroy_pd t vm')" if "walk vm r [i, j] = Some t" "upath [i, j]" "wiped vm r vm'" for i j t vm'
    unfolding destroy_pd_def
  proof (rule destroy_loop [where p = "[i, j]"])
    fix t' k vm1 assume "k \<in> set [0..<512]" "walk vm r ([i, j] @ [k]) = Some t'" and w: "wiped vm r vm1"
    then have "upath ([i, j] @ [k])" "t' \<in> {t. \<exists>p. upath p \<and> walk vm r p = Some t}"
      using that(2) by (auto simp: upath_def simp del: upt_rec_numeral intro!: exI [of _ "[i, j, k]"])
    then show "wiped vm r (destroy_pt t' vm1)" using destroy_pt_wiped [OF w] by (simp add: utables_def)
  qed (use that in \<open>auto simp: upath_def simp del: upt_rec_numeral\<close>)
  have pdpt: "wiped vm r (destroy_pdpt t vm')" if "walk vm r [i] = Some t" "upath [i]" "wiped vm r vm'" for i t vm'
    unfolding destroy_pdpt_def
    by (rule destroy_loop [where p = "[i]"]) (use that pd in \<open>auto simp: upath_def simp del: upt_rec_numeral\<close>)
  show ?thesis
    unfolding vmm_destroy_user_def table_at_def assms phys_virt_round_trip Let_def
    by (rule destroy_loop [where p = "[]" and destroy = destroy_pdpt, unfolded Let_def])
       (use w0 pdpt in \<open>auto simp: upath_def simp del: upt_rec_numeral\<close>)
qed

section \<open>Properties\<close>

text \<open>C13: mapping a user page. On success the address space maps exactly one page differently, to the frame
  and flags asked for; on failure (a bad root pointer, or no free frame for a missing table) it maps what it
  mapped before. In both cases the tables still form a tree of allocated pages and no allocated page
  outside these tables is written, so no other address space and no user data changes.\<close>

theorem vmm_map_page_refines:
  assumes "ptab_inv vm r" "pml4 = phys_to_virt (vm_pmm vm) r" "PML4_IDX v < KERNEL_PML4_START"
    and "vmm_map_page pml4 v pa fl vm = (ok, vm')"
  shows "ptab_inv vm' r \<and>
    user_map vm' r = (if ok then (user_map vm r)(page_of v \<mapsto> (pa AND VMM_PHYS_MASK) OR (fl OR VMM_P)) else user_map vm r) \<and>
    (ok \<or> pml4 < 0xFFFF800000000000 \<or> frames_used (vm_pmm vm') = {..<total_frames (vm_pmm vm')}) \<and>
    (\<forall>t. held vm t \<longrightarrow> t \<notin> utables vm r \<longrightarrow> pages vm' t = pages vm t)"
  using map_page_spec [OF assms(1,3,2,4)] by (simp add: vm_ext_def)

text \<open>An address space for the witnesses: eight frames, frame 1 is an empty root.\<close>

definition ex_vm :: vm where
  "ex_vm = \<lparr>vm_pmm = \<lparr>bitmap = (\<lambda>_. 3), total_frames = 8, used_frames = 2, hhdm = 0xFFFF800000000000,
      alloc_hint = 2, refcnt = None\<rparr>, pages = (\<lambda>_ _. 0), kernel_pml4 = 0xFFFF800000000000, cr3 = 0, invlpgs = []\<rparr>"

lemma ex_vm_inv: "ptab_inv ex_vm 0x1000" "user_map ex_vm 0x1000 = Map.empty"
proof -
  have b: "bit_get (\<lambda>_. 3) i \<longleftrightarrow> i = 0 \<or> i = 1" if "i < 8" for i
  proof -
    have eq: "(3 :: u8) = mask 2" by (simp add: mask_eq_exp_minus_1)
    have "bit (3 :: u8) i \<longleftrightarrow> i < 2" using that unfolding eq bit_mask_iff by auto
    with that show ?thesis by (auto simp: bit_get_iff)
  qed
  have "{i. i < 8 \<and> bit_get (\<lambda>_. 3) i} = {0, 1}" using b by auto
  then have p: "pmm_inv (vm_pmm ex_vm)"
    using b by (simp add: pmm_inv_def ex_vm_def count_below_def)
  have h: "held ex_vm 0x1000"
    using b [of 1] by (simp add: held_def ex_vm_def frames_used_def frame_of_def addr_of_def unat_div)
  show "ptab_inv ex_vm 0x1000" "user_map ex_vm 0x1000 = Map.empty"
    using empty_space [OF p h] by (simp_all add: ex_vm_def entry_def)
qed

lemma ex_vm_map: "fst (vmm_map_page 0xFFFF800000001000 0x400000 0x5000 6 ex_vm)"
  by code_simp

theorem vmm_map_page_refines_witness:
  "\<exists>vm'. vmm_map_page 0xFFFF800000001000 0x400000 0x5000 6 ex_vm = (True, vm') \<and> ptab_inv vm' 0x1000 \<and>
     user_map vm' 0x1000 = [([0, 0, 2], 0) \<mapsto> 0x5007]"
proof -
  obtain vm' where run: "vmm_map_page 0xFFFF800000001000 0x400000 0x5000 6 ex_vm = (True, vm')"
    using ex_vm_map by (metis (full_types) prod.collapse)
  have "page_of 0x400000 = ([0, 0, 2], 0)"
    by (simp add: page_of_def PML4_IDX_def PDPT_IDX_def PD_IDX_def PT_IDX_def)
  then show ?thesis
    using vmm_map_page_refines [OF ex_vm_inv(1) _ _ run] run
    by (simp add: ex_vm_inv(2) phys_to_virt_def PML4_IDX_def) (simp add: ex_vm_def)
qed

text \<open>After a page has been mapped, every address of it translates to the frame given plus the offset in
  the page, and every page that was mapped before, other than this one, translates as before; unmapping it
  again removes exactly this page.\<close>

theorem vmm_map_translate_round_trip:
  assumes inv: "ptab_inv vm r" and r: "pml4 = phys_to_virt (vm_pmm vm) r" and v: "PML4_IDX v < KERNEL_PML4_START"
    and run: "vmm_map_page pml4 v pa fl vm = (True, vm')"
    and fl: "fl AND VMM_PHYS_MASK = 0" and w: "PML4_IDX w < KERNEL_PML4_START"
  shows "(page_of w = page_of v \<longrightarrow> vmm_virt_to_phys pml4 w vm' = (pa AND VMM_PHYS_MASK) + (w AND 0xFFF)) \<and>
    (page_of w \<noteq> page_of v \<longrightarrow> user_map vm r (page_of w) \<noteq> None \<longrightarrow>
       vmm_virt_to_phys pml4 w vm' = vmm_virt_to_phys pml4 w vm) \<and>
    ptab_inv (vmm_unmap_page pml4 v vm') r \<and>
    user_map (vmm_unmap_page pml4 v vm') r = (user_map vm r)(page_of v := None)"
proof -
  let ?e = "(pa AND VMM_PHYS_MASK) OR (fl OR VMM_P)"
  have m: "vm_ext r vm vm'" "user_map vm' r = (user_map vm r)(page_of v \<mapsto> ?e)"
    using map_page_spec [OF inv v r run] by simp_all
  have inv': "ptab_inv vm' r" and r': "pml4 = phys_to_virt (vm_pmm vm') r"
    using m(1) r by (auto simp: vm_ext_def phys_to_virt_def)
  have e: "?e AND VMM_PHYS_MASK = pa AND VMM_PHYS_MASK"
    using fl by (simp add: bit.conj_disj_distrib2 bit.conj_disj_distrib and.assoc)
  note L = lookup_spec(2) [OF inv' w r'] lookup_spec(2) [OF inv w r]
  have "vmm_virt_to_phys pml4 w vm' = (pa AND VMM_PHYS_MASK) + (w AND 0xFFF)" if "page_of w = page_of v"
    using L(1) [of ?e] that m(2) e by simp
  moreover have "vmm_virt_to_phys pml4 w vm' = vmm_virt_to_phys pml4 w vm"
    if "page_of w \<noteq> page_of v" "user_map vm r (page_of w) \<noteq> None"
    using that L m(2) by auto
  ultimately show ?thesis
    using unmap_page_spec [OF inv' v r'] m(2) by (auto simp: vm_ext_def)
qed

theorem vmm_map_translate_round_trip_witness:
  "\<exists>vm'. vmm_map_page 0xFFFF800000001000 0x400000 0x5000 6 ex_vm = (True, vm') \<and>
     vmm_virt_to_phys 0xFFFF800000001000 0x400ABC vm' = 0x5ABC"
proof -
  obtain vm' where run: "vmm_map_page 0xFFFF800000001000 0x400000 0x5000 6 ex_vm = (True, vm')"
    using ex_vm_map by (metis (full_types) prod.collapse)
  have "page_of 0x400ABC = page_of 0x400000"
    by (simp add: page_of_def PML4_IDX_def PDPT_IDX_def PD_IDX_def PT_IDX_def)
  then show ?thesis
    using vmm_map_translate_round_trip [OF ex_vm_inv(1) _ _ run, of "0x400ABC"] run
    by (simp add: phys_to_virt_def PML4_IDX_def) (simp add: ex_vm_def)
qed


lemma clone_empty:
  assumes "\<forall>i \<in> set is. entry vm src i = 0"
  shows "fold (clone_pdpt src dv) is (True, vm) = (True, vm)"
  using assms by (induction "is") (auto simp: clone_pdpt_def)

lemma ex_vm_create: "fst (vmm_create_pml4 ex_vm) = 0x2000"
proof -
  have "fst (vm_alloc ex_vm) = 0x2000" by code_simp
  then show ?thesis
    by (auto simp: vmm_create_pml4_def vmm_kernel_pml4_def Let_def ex_vm_def simp del: upt_rec_numeral split: prod.splits)
qed

lemma ex_vm_clone: "\<exists>vm1. vmm_clone_user 0xFFFF800000001000 ex_vm = (0x2000, vm1)"
proof -
  obtain vm1 where c: "vmm_create_pml4 ex_vm = (0x2000, vm1)" using ex_vm_create by (metis prod.collapse)
  have "hhdm (vm_pmm vm1) = 0xFFFF800000000000" "entry vm1 0x1000 j = 0" for j
    using create_spec [OF ptab_invD(1) [OF ex_vm_inv(1)] c] by (auto simp: ex_vm_def entry_def)
  then show ?thesis
    by (simp add: vmm_clone_user_def c Let_def clone_empty table_at_def virt_to_phys_def del: upt_rec_numeral)
qed


end
