(* ===== verification/Fault.thy ===== *)
theory Fault
  imports Vmm Sched
begin

text \<open>
  The page fault handler, \<^verbatim>\<open>src/kernel/memory/fault.c\<close>: copy-on-write resolution and stack growth, over the
  page tables of theory \<open>Vmm\<close> and the process table entry of theory \<open>Sched\<close>.
\<close>

section \<open>Operations\<close>

abbreviation (input) PF_PRESENT :: u64 where "PF_PRESENT \<equiv> 0x1"
abbreviation (input) PF_WRITE :: u64 where "PF_WRITE \<equiv> 0x2"
abbreviation (input) PF_USER :: u64 where "PF_USER \<equiv> 0x4"
abbreviation (input) PF_RSVD :: u64 where "PF_RSVD \<equiv> 0x8"
abbreviation (input) PF_INSTR :: u64 where "PF_INSTR \<equiv> 0x10"
abbreviation (input) PAGE_MASK :: u64 where "PAGE_MASK \<equiv> 0xFFFFFFFFFFFFF000"
abbreviation (input) USER_STACK_TOP :: u64 where "USER_STACK_TOP \<equiv> 0x00007FFF00000000"
abbreviation (input) USER_STACK_MAX :: u64 where "USER_STACK_MAX \<equiv> 0x800000"
abbreviation (input) USER_STACK_LOW :: u64 where "USER_STACK_LOW \<equiv> USER_STACK_TOP - USER_STACK_MAX"

text \<open>The buffer of \<open>pf_describe\<close> holds 63 characters and the terminator.\<close>

definition pf_putc :: "char \<Rightarrow> string \<Rightarrow> string" where
  "pf_putc c buf = (if length buf < 64 - 1 then buf @ [c] else buf)"

definition pf_describe :: "u64 \<Rightarrow> string" where
  "pf_describe err =
     (let parts = [if has err PF_USER then ''user'' else ''kernel'',
                   if has err PF_INSTR then ''exec'' else if has err PF_WRITE then ''write'' else ''read'',
                   if has err PF_PRESENT then ''protection'' else ''not-present''] @
                  (if has err PF_RSVD then [''reserved-bit''] else [])
      in fold (\<lambda>(i, s) buf. fold pf_putc s (if i \<noteq> 0 then pf_putc CHR '' '' buf else buf))
           (zip [0..<length parts] parts) [])"

definition invlpg :: "u64 \<Rightarrow> vm \<Rightarrow> vm" where
  "invlpg page vm = vm\<lparr>invlpgs := invlpgs vm @ [page]\<rparr>"

definition grow_user_stack :: "proc \<Rightarrow> u64 \<Rightarrow> u64 \<Rightarrow> vm \<Rightarrow> bool \<times> vm" where
  "grow_user_stack p cr2 err vm =
     (if has err PF_PRESENT then (False, vm)
      else if cr2 \<ge> USER_STACK_TOP then (False, vm)
      else if cr2 < USER_STACK_LOW then (False, vm)
      else let page = cr2 AND PAGE_MASK; (phys, vm1) = vm_alloc vm in
      if phys = 0 then (False, vm1)
      else case vmm_map_page (p_pml4_virt p) page phys (VMM_RW OR VMM_U OR VMM_NX) (zero_page phys vm1) of
        (False, vm2) \<Rightarrow> (False, vm_free phys vm2)
      | (True, vm2) \<Rightarrow> (True, invlpg page vm2))"

definition copy_page :: "u64 \<Rightarrow> u64 \<Rightarrow> vm \<Rightarrow> vm" where
  "copy_page to from vm = vm\<lparr>pages := (pages vm)(to := pages vm from)\<rparr>"

definition handle_cow :: "proc \<Rightarrow> u64 \<Rightarrow> u64 \<Rightarrow> vm \<Rightarrow> bool \<times> vm" where
  "handle_cow p cr2 err vm =
     (if \<not> has err PF_PRESENT \<or> \<not> has err PF_WRITE then (False, vm)
      else let page = cr2 AND PAGE_MASK in
      case vmm_pte_lookup (p_pml4_virt p) page vm of
        None \<Rightarrow> (False, vm)
      | Some (pt, l) \<Rightarrow>
          let pte = entry vm pt l in
          if \<not> has pte VMM_P \<or> \<not> has pte VMM_COW then (False, vm)
          else let old_phys = pte AND VMM_PHYS_MASK in
          if pmm_refcount old_phys (vm_pmm vm) = 1
          then (True, invlpg page (set_entry pt l ((pte AND NOT VMM_COW) OR VMM_RW) vm))
          else let (new_phys, vm1) = vm_alloc vm in
          if new_phys = 0 then (False, vm1)
          else let vm2 = copy_page new_phys old_phys vm1;
                   pte1 = entry vm2 pt l;
                   flags = (pte1 AND NOT VMM_PHYS_MASK AND NOT VMM_COW) OR VMM_RW;
                   vm3 = set_entry pt l ((new_phys AND VMM_PHYS_MASK) OR flags) vm2
               in (True, invlpg page (vm_free old_phys vm3)))"

text \<open>\<open>cur\<close> is \<open>proc_current()\<close>.\<close>

definition vmm_handle_page_fault :: "proc option \<Rightarrow> u64 \<Rightarrow> u64 \<Rightarrow> u64 \<Rightarrow> vm \<Rightarrow> bool \<times> vm" where
  "vmm_handle_page_fault cur cr2 err rip vm =
     (if \<not> has err PF_USER then (False, vm)
      else case cur of
        None \<Rightarrow> (False, vm)
      | Some p \<Rightarrow>
          if \<not> p_ring3 p \<or> p_pml4_virt p = 0 then (False, vm)
          else if has err PF_RSVD then (False, vm)
          else case handle_cow p cr2 err vm of
            (True, vm1) \<Rightarrow> (True, vm1)
          | (False, vm1) \<Rightarrow>
              (case grow_user_stack p cr2 err vm1 of
                 (True, vm2) \<Rightarrow> (True, vm2)
               | (False, vm2) \<Rightarrow> (False, vm2)))"

section \<open>What a handled fault does\<close>

text \<open>Every mapped frame is allocated and is not a page table.\<close>

definition leaves_ok :: "vm \<Rightarrow> u64 \<Rightarrow> bool" where
  "leaves_ok vm r \<longleftrightarrow> (\<forall>x e. user_map vm r x = Some e \<longrightarrow>
     held vm (e AND VMM_PHYS_MASK) \<and> e AND VMM_PHYS_MASK \<noteq> 0 \<and> e AND VMM_PHYS_MASK \<notin> utables vm r)"

text \<open>Page \<open>x\<close> is now mapped by \<open>e'\<close>; nothing else of the address space and no allocated page that is not
  one of its tables has changed.\<close>

definition remapped :: "vm \<Rightarrow> u64 \<Rightarrow> nat list \<times> nat \<Rightarrow> u64 \<Rightarrow> vm \<Rightarrow> bool" where
  "remapped vm r x e' vm' \<longleftrightarrow> ptab_inv vm' r \<and> user_map vm' r = (user_map vm r)(x \<mapsto> e') \<and>
     (\<forall>t. held vm t \<longrightarrow> t \<notin> utables vm r \<longrightarrow> pages vm' t = pages vm t)"

lemma page_of_mask: "page_of (v AND PAGE_MASK) = page_of v"
proof -
  have m: "(PAGE_MASK :: u64) = push_bit 12 (mask 52)" by (simp add: push_bit_eq_mult mask_eq_exp_minus_1)
  have "drop_bit k (v AND PAGE_MASK) = drop_bit k v" if "12 \<le> k" for k
    unfolding m using that by (intro bit_word_eqI) (auto simp: bit_simps dest: bit_imp_le_length)
  note d = this
  show ?thesis
    unfolding page_of_def PML4_IDX_def PDPT_IDX_def PD_IDX_def PT_IDX_def
    using d [of 39] d [of 30] d [of 21] d [of 12] by (simp only: numeral_le_iff semiring_norm simp_thms)
qed

lemma pml4_idx_mask: "PML4_IDX (v AND PAGE_MASK) = PML4_IDX v"
  using page_of_mask [of v] by (simp add: page_of_def)

lemma unref_keeps: "f \<in> frames_used s \<Longrightarrow> f \<noteq> frame_of a \<Longrightarrow> f \<in> frames_used (pmm_unref_frame a s)"
  by (auto simp: frames_used_def pmm_unref_frame_def Let_def split: option.splits)

lemma cow_entry_bits:
  assumes "f < MAX_FRAMES"
  shows "has ((e AND NOT VMM_COW) OR VMM_RW) VMM_RW" "\<not> has ((e AND NOT VMM_COW) OR VMM_RW) VMM_COW"
    "has e VMM_P \<Longrightarrow> has ((e AND NOT VMM_COW) OR VMM_RW) VMM_P"
    "((e AND NOT VMM_COW) OR VMM_RW) AND VMM_PHYS_MASK = e AND VMM_PHYS_MASK"
    "has ((addr_of f AND VMM_PHYS_MASK) OR (e AND NOT VMM_PHYS_MASK AND NOT VMM_COW) OR VMM_RW) VMM_RW"
    "\<not> has ((addr_of f AND VMM_PHYS_MASK) OR (e AND NOT VMM_PHYS_MASK AND NOT VMM_COW) OR VMM_RW) VMM_COW"
    "has e VMM_P \<Longrightarrow> has ((addr_of f AND VMM_PHYS_MASK) OR (e AND NOT VMM_PHYS_MASK AND NOT VMM_COW) OR VMM_RW) VMM_P"
    "((addr_of f AND VMM_PHYS_MASK) OR (e AND NOT VMM_PHYS_MASK AND NOT VMM_COW) OR VMM_RW) AND VMM_PHYS_MASK = addr_of f"
    "has ((addr_of f AND VMM_PHYS_MASK) OR ((VMM_RW OR VMM_U OR VMM_NX) OR VMM_P)) VMM_RW"
    "\<not> has ((addr_of f AND VMM_PHYS_MASK) OR ((VMM_RW OR VMM_U OR VMM_NX) OR VMM_P)) VMM_COW"
    "((addr_of f AND VMM_PHYS_MASK) OR ((VMM_RW OR VMM_U OR VMM_NX) OR VMM_P)) AND VMM_PHYS_MASK = addr_of f"
proof -
  have nc: "bit (e AND NOT VMM_COW) n \<longleftrightarrow> bit e n \<and> n \<noteq> 9" for n
    unfolding bit_and_iff bit_not_iff bit_small_numerals by (auto simp: possible_bit_def dest: bit_imp_le_length)
  have nm: "bit (e AND NOT VMM_PHYS_MASK AND NOT VMM_COW) n \<longleftrightarrow> bit e n \<and> n \<noteq> 9 \<and> \<not> (12 \<le> n \<and> n < 52)" for n
    unfolding bit_and_iff bit_not_iff bit_small_numerals bit_phys_mask by (auto simp: possible_bit_def dest: bit_imp_le_length)
  have ng: "bit ((VMM_RW OR VMM_U OR VMM_NX) OR VMM_P) n \<longleftrightarrow> n \<in> {0, 1, 2, 63}" for n
    unfolding bit_or_iff bit_small_numerals by auto
  note b = bit_or_iff bit_and_iff [of "addr_of f"] bit_and_iff [of _ VMM_PHYS_MASK] nc nm ng bit_phys_mask bit_small_numerals bit_addr_of [OF assms]
  show "has ((e AND NOT VMM_COW) OR VMM_RW) VMM_RW" "\<not> has ((e AND NOT VMM_COW) OR VMM_RW) VMM_COW"
    "has e VMM_P \<Longrightarrow> has ((e AND NOT VMM_COW) OR VMM_RW) VMM_P"
    "has ((addr_of f AND VMM_PHYS_MASK) OR (e AND NOT VMM_PHYS_MASK AND NOT VMM_COW) OR VMM_RW) VMM_RW"
    "\<not> has ((addr_of f AND VMM_PHYS_MASK) OR (e AND NOT VMM_PHYS_MASK AND NOT VMM_COW) OR VMM_RW) VMM_COW"
    "has e VMM_P \<Longrightarrow> has ((addr_of f AND VMM_PHYS_MASK) OR (e AND NOT VMM_PHYS_MASK AND NOT VMM_COW) OR VMM_RW) VMM_P"
    "has ((addr_of f AND VMM_PHYS_MASK) OR ((VMM_RW OR VMM_U OR VMM_NX) OR VMM_P)) VMM_RW"
    "\<not> has ((addr_of f AND VMM_PHYS_MASK) OR ((VMM_RW OR VMM_U OR VMM_NX) OR VMM_P)) VMM_COW"
    unfolding has_bit by (simp_all only: b) simp_all
  show "((e AND NOT VMM_COW) OR VMM_RW) AND VMM_PHYS_MASK = e AND VMM_PHYS_MASK"
    "((addr_of f AND VMM_PHYS_MASK) OR (e AND NOT VMM_PHYS_MASK AND NOT VMM_COW) OR VMM_RW) AND VMM_PHYS_MASK = addr_of f"
    "((addr_of f AND VMM_PHYS_MASK) OR ((VMM_RW OR VMM_U OR VMM_NX) OR VMM_P)) AND VMM_PHYS_MASK = addr_of f"
    subgoal by (rule bit_word_eqI) (simp only: b, auto)
    subgoal by (rule bit_word_eqI) (simp only: b, auto)
    subgoal by (rule bit_word_eqI) (simp only: b, auto)
    done
qed

lemma remapped_leaf:
  assumes inv: "ptab_inv vm r" and w: "walk vm r (fst x) = Some t" "upath (fst x)" "length (fst x) = 3" "snd x < 512"
    and e: "has e VMM_P"
  shows "remapped vm r x e (set_entry t (snd x) e vm) \<and> utables (set_entry t (snd x) e vm) r = utables vm r"
proof -
  have l: "entry (set_entry t (snd x) e vm) u j = (if u = t \<and> j = snd x then e else entry vm u j)" for u j by simp
  show ?thesis
    using leaf_write [OF inv w l] leaf_write_walk [OF inv w(1-3) _ l] e
    by (auto simp: remapped_def vm_ext_def utables_def)
qed

lemma remapped_invlpg [simp]: "remapped vm r x e (invlpg pg vm') = remapped vm r x e vm'"
proof -
  have en: "entry (invlpg pg vm') t j = entry vm' t j" for t j by (simp add: entry_def invlpg_def)
  have w: "walk (invlpg pg vm') r q = walk vm' r q" for q
    by (induction q arbitrary: r) (simp_all add: en)
  have "held (invlpg pg vm') t = held vm' t" for t by (simp add: held_def invlpg_def)
  then have "ptab_inv (invlpg pg vm') r = ptab_inv vm' r" by (simp add: ptab_inv_def w en) (simp add: invlpg_def)
  moreover have "user_map (invlpg pg vm') r = user_map vm' r" unfolding user_map_def w en ..
  ultimately show ?thesis by (simp add: remapped_def) (simp add: invlpg_def)
qed

lemma pages_invlpg [simp]: "pages (invlpg pg vm) = pages vm"
  by (simp add: invlpg_def)

text \<open>The copying branch.\<close>

lemma cow_copy:
  assumes inv: "ptab_inv vm r" and lv: "leaves_ok vm r"
    and w: "walk vm r (fst x) = Some t" "upath (fst x)" "length (fst x) = 3" "snd x < 512"
    and e: "user_map vm r x = Some e" and al: "vm_alloc vm = (a, vm1)" "a \<noteq> 0"
  defines "old \<equiv> e AND VMM_PHYS_MASK"
  defines "e' \<equiv> (a AND VMM_PHYS_MASK) OR (e AND NOT VMM_PHYS_MASK AND NOT VMM_COW) OR VMM_RW"
  defines "vm' \<equiv> vm_free old (set_entry t (snd x) e' (copy_page a old vm1))"
  shows "remapped vm r x e' vm' \<and> has e' VMM_RW \<and> \<not> has e' VMM_COW \<and> \<not> held vm (e' AND VMM_PHYS_MASK) \<and>
    pages vm' (e' AND VMM_PHYS_MASK) = pages vm old"
proof -
  note A = alloc_spec [OF ptab_invD(1) [OF inv] al(1)]
  have a: "\<not> held vm a" "frame_of a < MAX_FRAMES" "addr_of (frame_of a) = a"
    using A(4) [OF al(2)] by auto
  let ?vm2 = "copy_page a old vm1" and ?vm3 = "set_entry t (snd x) e' (copy_page a old vm1)"
  have old: "held vm old" "old \<noteq> 0" "old \<notin> utables vm r" using lv e unfolding leaves_ok_def old_def by blast+
  have tab: "u \<noteq> a" if "u \<in> utables vm r" for u using that ptab_invD(2) [OF inv] a(1) by (auto simp: utables_def)
  have tin: "t \<in> utables vm r" using w by (auto simp: utables_def)
  have P: "has e VMM_P" using e w by (cases x) (auto simp: user_map_def split: if_splits)
  note B = cow_entry_bits(1-8) [OF a(2), of e, unfolded a(3), folded e'_def]
  have p2: "pages ?vm2 = (pages vm)(a := pages vm old)" "vm_pmm ?vm2 = vm_pmm vm1" using A(2) by (simp_all add: copy_page_def)
  have used: "frames_used (vm_pmm vm1) = insert (frame_of a) (frames_used (vm_pmm vm))" using A(4) al(2) by simp
  have "\<forall>u \<in> utables vm r. pages ?vm2 u = pages vm u" using p2 tab by auto
  note O = other_space [OF inv this, unfolded p2(2) used, OF A(1) subset_insertI]
  have O: "ptab_inv ?vm2 r" "user_map ?vm2 r = user_map vm r" "walk ?vm2 r (fst x) = Some t" "utables ?vm2 r = utables vm r"
    using O(1,2,4) O(3) [OF w(2)] w(1) by simp_all
  note R = remapped_leaf [OF O(1,3) w(2-4) B(7) [OF P]]
  have p3: "pages vm' = pages ?vm3" "vm_pmm vm' = pmm_unref_frame old (vm_pmm ?vm3)" by (simp_all add: vm'_def vm_free_def)
  have old': "frame_of old \<in> frames_used (vm_pmm ?vm3)" using old(1) p2 used by (simp add: held_def)
  have "frame_of old \<noteq> 0" using old(1,2) unfolding held_def addr_of_def by (metis mult_zero_left of_nat_0)
  then have pm: "pmm_inv (vm_pmm vm')"
    using pmm_unref_frame_inv [OF A(1), of old] old' p2 by (simp add: p3 frames_used_def)
  have kept: "\<forall>u \<in> utables ?vm3 r. held vm' u"
  proof
    fix u assume "u \<in> utables ?vm3 r"
    then have u: "u \<in> utables vm r" using R O by simp
    then have "held vm u" "u \<noteq> old" using ptab_invD(2) [OF inv] old(3) by (auto simp: utables_def)
    then have "frame_of u \<noteq> frame_of old" using old(1) by (metis held_def)
    with \<open>held vm u\<close> show "held vm' u" using used p2 by (auto simp: held_def p3 intro: unref_keeps)
  qed
  have inv3: "ptab_inv ?vm3 r" using R by (simp add: remapped_def)
  note K = space_kept [OF inv3, of vm', unfolded p3(1), OF ballI [OF refl] pm kept]
  have pg: "pages vm' u = pages vm u" if "held vm u" "u \<notin> utables vm r" for u
    using that a(1) tin by (auto simp: p3 p2 set_entry_def)
  have "pages vm' a = pages vm old" using tab [OF tin] by (simp add: p3 p2 set_entry_def)
  then show ?thesis using K R O B pg a(1) by (auto simp: remapped_def)
qed

lemma handle_cow_spec:
  assumes inv: "ptab_inv vm r" and lv: "leaves_ok vm r" and r: "p_pml4_virt p = phys_to_virt (vm_pmm vm) r"
    and v: "PML4_IDX cr2 < KERNEL_PML4_START" and run: "handle_cow p cr2 err vm = (True, vm')"
  obtains e e' where "has err PF_PRESENT" "has err PF_WRITE" "user_map vm r (page_of cr2) = Some e" "has e VMM_COW"
    "remapped vm r (page_of cr2) e' vm'" "has e' VMM_RW" "\<not> has e' VMM_COW"
    "pages vm' (e' AND VMM_PHYS_MASK) = pages vm (e AND VMM_PHYS_MASK)"
    "pmm_refcount (e AND VMM_PHYS_MASK) (vm_pmm vm) = 1 \<or> \<not> held vm (e' AND VMM_PHYS_MASK)"
proof -
  let ?x = "page_of cr2" let ?pg = "cr2 AND PAGE_MASK"
  have up: "upath (fst ?x)" "length (fst ?x) = 3" "snd ?x < 512" using v by (auto simp: page_of_def upath_def)
  have L: "vmm_pte_lookup (p_pml4_virt p) ?pg vm =
      (if p_pml4_virt p = 0 then None else map_option (\<lambda>t. (t, snd ?x)) (walk vm r (fst ?x)))"
    using lookup_spec(1) [OF inv _ r, of ?pg] v page_of_mask [of cr2] pml4_idx_mask [of cr2]
    by (simp add: page_of_def)
  obtain t where w: "walk vm r (fst ?x) = Some t" and L: "vmm_pte_lookup (p_pml4_virt p) ?pg vm = Some (t, snd ?x)"
    using run L by (cases "walk vm r (fst ?x)") (auto simp: handle_cow_def split: if_splits)
  let ?e = "entry vm t (snd ?x)"
  have err: "has err PF_PRESENT" "has err PF_WRITE" and PC: "has ?e VMM_P" "has ?e VMM_COW"
    using run L by (auto simp: handle_cow_def Let_def split: if_splits)
  have um: "user_map vm r ?x = Some ?e" using w PC up by (cases ?x) (simp add: user_map_def)
  show ?thesis
  proof (cases "pmm_refcount (?e AND VMM_PHYS_MASK) (vm_pmm vm) = 1")
    case True
    let ?e' = "(?e AND NOT VMM_COW) OR VMM_RW"
    have vm': "vm' = invlpg ?pg (set_entry t (snd ?x) ?e' vm)"
      using run L err PC True by (simp add: handle_cow_def Let_def)
    note B = cow_entry_bits(1-4) [of 0 ?e, simplified]
    note R = remapped_leaf [OF inv w up, of ?e']
    have "t \<in> utables vm r" using w up by (auto simp: utables_def)
    then have "?e AND VMM_PHYS_MASK \<noteq> t" using lv um unfolding leaves_ok_def by metis
    then show ?thesis
      using that [OF err um PC(2), of ?e'] R B PC True by (simp add: vm' set_entry_def)
  next
    case False
    obtain a vm1 where al: "vm_alloc vm = (a, vm1)" by fastforce
    have a0: "a \<noteq> 0" using run L err PC False al by (auto simp: handle_cow_def Let_def)
    have "t \<noteq> a" using alloc_spec(4) [OF ptab_invD(1) [OF inv] al a0] ptab_invD(2) [OF inv up(1) w] by auto
    then have en: "entry (copy_page a (?e AND VMM_PHYS_MASK) vm1) t (snd ?x) = ?e"
      using alloc_spec(2) [OF ptab_invD(1) [OF inv] al] by (simp add: copy_page_def entry_def)
    let ?e' = "(a AND VMM_PHYS_MASK) OR (?e AND NOT VMM_PHYS_MASK AND NOT VMM_COW) OR VMM_RW"
    have vm': "vm' = invlpg ?pg (vm_free (?e AND VMM_PHYS_MASK) (set_entry t (snd ?x) ?e' (copy_page a (?e AND VMM_PHYS_MASK) vm1)))"
      using run L err PC False al a0 en by (simp add: handle_cow_def Let_def)
    show ?thesis
      using that [OF err um PC(2), of ?e'] cow_copy [OF inv lv w up um al a0] by (simp add: vm')
  qed
qed

text \<open>A copy-on-write fault is resolved unless memory is full.\<close>

lemma handle_cow_succeeds:
  assumes inv: "ptab_inv vm r" and r: "p_pml4_virt p = phys_to_virt (vm_pmm vm) r" "p_pml4_virt p \<noteq> 0"
    and v: "PML4_IDX cr2 < KERNEL_PML4_START" and err: "has err PF_PRESENT" "has err PF_WRITE"
    and e: "user_map vm r (page_of cr2) = Some e" "has e VMM_COW" and al: "fst (vm_alloc vm) \<noteq> 0"
  shows "fst (handle_cow p cr2 err vm)"
proof -
  have "vmm_pte_lookup (p_pml4_virt p) (cr2 AND PAGE_MASK) vm = map_option (\<lambda>t. (t, snd (page_of cr2))) (walk vm r (fst (page_of cr2)))"
    using lookup_spec(1) [OF inv _ r(1), of "cr2 AND PAGE_MASK"] v r(2) page_of_mask [of cr2] pml4_idx_mask [of cr2]
    by (simp add: page_of_def)
  moreover obtain t where "walk vm r (fst (page_of cr2)) = Some t" "entry vm t (snd (page_of cr2)) = e" "has e VMM_P"
    using e(1) by (cases "page_of cr2") (auto simp: user_map_def split: if_splits option.splits)
  ultimately show ?thesis
    using err e al by (auto simp: handle_cow_def Let_def split: prod.splits)
qed

lemma grow_user_stack_spec:
  assumes inv: "ptab_inv vm r" and r: "p_pml4_virt p = phys_to_virt (vm_pmm vm) r"
    and v: "PML4_IDX cr2 < KERNEL_PML4_START" and run: "grow_user_stack p cr2 err vm = (True, vm')"
  obtains e' where "\<not> has err PF_PRESENT" "USER_STACK_LOW \<le> cr2" "cr2 < USER_STACK_TOP"
    "remapped vm r (page_of cr2) e' vm'" "has e' VMM_RW" "\<not> has e' VMM_COW"
    "pages vm' (e' AND VMM_PHYS_MASK) = (\<lambda>_. 0)" "\<not> held vm (e' AND VMM_PHYS_MASK)"
proof -
  let ?x = "page_of cr2" let ?pg = "cr2 AND PAGE_MASK" let ?fl = "VMM_RW OR VMM_U OR VMM_NX"
  obtain a vm1 where al: "vm_alloc vm = (a, vm1)" by fastforce
  have c: "\<not> has err PF_PRESENT" "USER_STACK_LOW \<le> cr2" "cr2 < USER_STACK_TOP" and a0: "a \<noteq> 0"
    using run al by (auto simp: grow_user_stack_def Let_def split: if_splits)
  obtain vm2 where m: "vmm_map_page (p_pml4_virt p) ?pg a ?fl (zero_page a vm1) = (True, vm2)"
      and vm': "vm' = invlpg ?pg vm2"
    using run al c a0 by (auto simp: grow_user_stack_def Let_def split: if_splits prod.splits bool.splits)
  note A = alloc_spec [OF ptab_invD(1) [OF inv] al]
  have a: "\<not> held vm a" "frame_of a < MAX_FRAMES" "addr_of (frame_of a) = a"
    and used: "frames_used (vm_pmm vm1) = insert (frame_of a) (frames_used (vm_pmm vm))"
    using A(4) [OF a0] by auto
  let ?vz = "zero_page a vm1"
  have tab: "u \<noteq> a" if "u \<in> utables vm r" for u using that ptab_invD(2) [OF inv] a(1) by (auto simp: utables_def)
  have "\<forall>u \<in> utables vm r. pages ?vz u = pages vm u" using tab A(2) by (simp add: zero_page_def)
  note O = other_space [OF inv this]
  have O: "ptab_inv ?vz r" "user_map ?vz r = user_map vm r" "utables ?vz r = utables vm r"
    using O used A(1) by auto
  have h: "p_pml4_virt p = phys_to_virt (vm_pmm ?vz) r" using r A(3) by (simp add: phys_to_virt_def)
  have "PML4_IDX ?pg < KERNEL_PML4_START" using v unfolding pml4_idx_mask .
  note M = map_page_spec [OF O(1) this h m]
  have az: "held ?vz a" "a \<notin> utables ?vz r" using used a tab O(3) by (auto simp: held_def)
  have "pages vm2 a = (\<lambda>_. 0)" using M az by (simp add: vm_ext_def zero_page_def)
  moreover have "remapped vm r ?x ((a AND VMM_PHYS_MASK) OR (?fl OR VMM_P)) vm2"
    unfolding remapped_def
  proof (intro conjI allI impI)
    show "ptab_inv vm2 r" using M by (simp add: vm_ext_def)
    show "user_map vm2 r = (user_map vm r)(?x \<mapsto> (a AND VMM_PHYS_MASK) OR (?fl OR VMM_P))"
      using M O(2) unfolding page_of_mask by simp
    fix t assume t: "held vm t" "t \<notin> utables vm r"
    then have "held ?vz t" "t \<noteq> a" using used a(1) by (auto simp: held_def)
    then show "pages vm2 t = pages vm t" using M t O(3) A(2) by (simp add: vm_ext_def zero_page_def)
  qed
  ultimately show ?thesis
    using that [OF c, of "(a AND VMM_PHYS_MASK) OR (?fl OR VMM_P)"] cow_entry_bits(9-11) [OF a(2), unfolded a(3)] a(1)
    by (simp add: vm')
qed

section \<open>Properties\<close>

text \<open>C9: when the handler says that a user fault is resolved, the faulting page is mapped writable and not
  copy-on-write, its contents are those it had before (a copy-on-write fault) or zeros (a stack page, which
  lies in the stack window), and the frame is private to this mapping: either its reference count was one or it
  was free. No other page of the address space is mapped differently, and no allocated page other than its
  tables is written, so another process that shared the frame still sees its own contents. Hypothesis
  \<open>cpu\<close> is what the processor reports in bit 0 of the error code.\<close>

theorem page_fault_resolved:
  assumes inv: "ptab_inv vm r" and lv: "leaves_ok vm r" and r: "p_pml4_virt p = phys_to_virt (vm_pmm vm) r"
    and v: "PML4_IDX cr2 < KERNEL_PML4_START"
    and cpu: "has err PF_PRESENT \<longleftrightarrow> user_map vm r (page_of cr2) \<noteq> None"
    and run: "vmm_handle_page_fault (Some p) cr2 err rip vm = (True, vm')"
  shows "\<exists>e'. ptab_inv vm' r \<and> user_map vm' r = (user_map vm r)(page_of cr2 \<mapsto> e') \<and> has e' VMM_RW \<and> \<not> has e' VMM_COW \<and>
    (\<forall>t. held vm t \<longrightarrow> t \<notin> utables vm r \<longrightarrow> pages vm' t = pages vm t) \<and>
    (case user_map vm r (page_of cr2) of
       Some e \<Rightarrow> pages vm' (e' AND VMM_PHYS_MASK) = pages vm (e AND VMM_PHYS_MASK) \<and>
         (pmm_refcount (e AND VMM_PHYS_MASK) (vm_pmm vm) = 1 \<or> \<not> held vm (e' AND VMM_PHYS_MASK))
     | None \<Rightarrow> pages vm' (e' AND VMM_PHYS_MASK) = (\<lambda>_. 0) \<and> \<not> held vm (e' AND VMM_PHYS_MASK) \<and>
         USER_STACK_LOW \<le> cr2 \<and> cr2 < USER_STACK_TOP)"
proof (cases "fst (handle_cow p cr2 err vm)")
  case True
  then have "handle_cow p cr2 err vm = (True, vm')"
    using run by (auto simp: vmm_handle_page_fault_def split: if_splits prod.splits bool.splits)
  from handle_cow_spec [OF inv lv r v this] obtain e e' where
    "user_map vm r (page_of cr2) = Some e" "remapped vm r (page_of cr2) e' vm'" "has e' VMM_RW" "\<not> has e' VMM_COW"
    "pages vm' (e' AND VMM_PHYS_MASK) = pages vm (e AND VMM_PHYS_MASK)"
    "pmm_refcount (e AND VMM_PHYS_MASK) (vm_pmm vm) = 1 \<or> \<not> held vm (e' AND VMM_PHYS_MASK)" .
  then show ?thesis unfolding remapped_def by (intro exI [of _ e']) simp
next
  case False
  have "grow_user_stack p cr2 err (snd (handle_cow p cr2 err vm)) = (True, vm')"
    using run False by (auto simp: vmm_handle_page_fault_def split: if_splits prod.splits bool.splits)
  moreover have "snd (handle_cow p cr2 err vm) = vm" if "\<not> has err PF_PRESENT"
    using that by (simp add: handle_cow_def)
  ultimately have "grow_user_stack p cr2 err vm = (True, vm')"
    by (auto simp: grow_user_stack_def split: if_splits)
  from grow_user_stack_spec [OF inv r v this] obtain e' where
    "\<not> has err PF_PRESENT" "USER_STACK_LOW \<le> cr2" "cr2 < USER_STACK_TOP"
    "remapped vm r (page_of cr2) e' vm'" "has e' VMM_RW" "\<not> has e' VMM_COW"
    "pages vm' (e' AND VMM_PHYS_MASK) = (\<lambda>_. 0)" "\<not> held vm (e' AND VMM_PHYS_MASK)" .
  with cpu show ?thesis unfolding remapped_def by (intro exI [of _ e']) simp
qed

text \<open>An address space that maps one copy-on-write page.\<close>

definition ex_cow :: vm where
  "ex_cow = snd (vmm_map_page 0xFFFF800000001000 0x400000 0x2000 0x204 (snd (vm_alloc ex_vm)))"

lemma ex_cow_facts:
  "ptab_inv ex_cow 0x1000" "user_map ex_cow 0x1000 = [([0, 0, 2], 0) \<mapsto> 0x2205]" "leaves_ok ex_cow 0x1000"
  "hhdm (vm_pmm ex_cow) = 0xFFFF800000000000"
proof -
  have "fst (vm_alloc ex_vm) = 0x2000" by code_simp
  then obtain vm1 where al: "vm_alloc ex_vm = (0x2000, vm1)" by (metis prod.collapse)
  note A = alloc_spec [OF ptab_invD(1) [OF ex_vm_inv(1)] al]
  have O: "ptab_inv vm1 0x1000" "user_map vm1 0x1000 = Map.empty" "utables vm1 0x1000 = utables ex_vm 0x1000"
    using other_space [OF ex_vm_inv(1), of vm1] A ex_vm_inv(2) by auto
  have h: "0xFFFF800000001000 = phys_to_virt (vm_pmm vm1) 0x1000" using A(3) by (simp add: phys_to_virt_def ex_vm_def)
  have pg: "page_of 0x400000 = ([0, 0, 2], 0)" by (simp add: page_of_def PML4_IDX_def PDPT_IDX_def PD_IDX_def PT_IDX_def)
  have "fst (vmm_map_page 0xFFFF800000001000 0x400000 0x2000 0x204 (snd (vm_alloc ex_vm)))" by code_simp
  then have run: "vmm_map_page 0xFFFF800000001000 0x400000 0x2000 0x204 vm1 = (True, ex_cow)"
    by (cases "vmm_map_page 0xFFFF800000001000 0x400000 0x2000 0x204 vm1") (simp add: ex_cow_def al)
  note M = map_page_spec [OF O(1) _ h run, unfolded pg O(2)]
  show inv: "ptab_inv ex_cow 0x1000" and um: "user_map ex_cow 0x1000 = [([0, 0, 2], 0) \<mapsto> 0x2205]"
    and "hhdm (vm_pmm ex_cow) = 0xFFFF800000000000"
    using M A(3) by (auto simp: vm_ext_def PML4_IDX_def ex_vm_def)
  have "held vm1 0x2000" "0x2000 \<notin> utables vm1 0x1000"
    using A(4) ptab_invD(2) [OF ex_vm_inv(1)] O(3) by (auto simp: held_def utables_def)
  then have "held ex_cow 0x2000" "0x2000 \<notin> utables ex_cow 0x1000"
    using M by (auto simp: vm_ext_def PML4_IDX_def held_def)
  then show "leaves_ok ex_cow 0x1000" using um by (auto simp: leaves_ok_def split: if_splits)
qed

theorem page_fault_resolved_witness:
  "\<exists>vm' e'. vmm_handle_page_fault (Some (zero_proc\<lparr>p_ring3 := True, p_pml4_virt := 0xFFFF800000001000\<rparr>)) 0x400123 7 0 ex_cow = (True, vm') \<and>
     user_map vm' 0x1000 = [([0, 0, 2], 0) \<mapsto> e'] \<and> has e' VMM_RW"
proof -
  let ?p = "zero_proc\<lparr>p_ring3 := True, p_pml4_virt := 0xFFFF800000001000\<rparr>"
  have al: "fst (vm_alloc ex_cow) \<noteq> 0" by code_simp
  have pg: "page_of 0x400123 = ([0, 0, 2], 0)" by (simp add: page_of_def PML4_IDX_def PDPT_IDX_def PD_IDX_def PT_IDX_def)
  have "fst (handle_cow ?p 0x400123 7 ex_cow)"
    using handle_cow_succeeds [OF ex_cow_facts(1) _ _ _ _ _ _ _ al, of ?p "0x400123" 7 "0x2205"]
    by (simp add: ex_cow_facts phys_to_virt_def pg PML4_IDX_def has_def)
  then obtain vm' where run: "vmm_handle_page_fault (Some ?p) 0x400123 7 0 ex_cow = (True, vm')"
    by (cases "handle_cow ?p 0x400123 7 ex_cow") (auto simp: vmm_handle_page_fault_def has_def)
  show ?thesis
    using page_fault_resolved [OF ex_cow_facts(1,3) _ _ _ run] run
    by (auto simp: pg ex_cow_facts phys_to_virt_def PML4_IDX_def has_def)
qed

end
