(* ===== verification/Xfs.thy ===== *)
theory Xfs
  imports Prelude
begin

text \<open>
  The file system, \<^verbatim>\<open>src/kernel/fs/xfs.c\<close>, over a block device of 4 KiB blocks: bitmap allocation, inodes with
  900 direct block pointers, directories of 76-byte entries, and the table of open files. Every operation runs
  under \<open>xfs_lock\<close> and is one state transformer here. Blocks are byte arrays; structures are read and
  written at their C offsets (little-endian). Strings are lists of bytes without the terminator.
\<close>

section \<open>State\<close>

abbreviation (input) XFS_MAGIC :: u32 where "XFS_MAGIC \<equiv> 0x58465331"
abbreviation (input) XFS_BLOCK_SIZE :: "'a::numeral" where "XFS_BLOCK_SIZE \<equiv> 4096"
abbreviation (input) XFS_NAME_MAX :: nat where "XFS_NAME_MAX \<equiv> 64"
abbreviation (input) XFS_MAX_FDS :: nat where "XFS_MAX_FDS \<equiv> 32"
abbreviation (input) XFS_O_WRONLY :: u32 where "XFS_O_WRONLY \<equiv> 1"
abbreviation (input) XFS_O_RDWR :: u32 where "XFS_O_RDWR \<equiv> 2"
abbreviation (input) XFS_O_CREAT :: u32 where "XFS_O_CREAT \<equiv> 4"
abbreviation (input) slash :: u8 where "slash \<equiv> 47"
abbreviation (input) DIRECT :: nat where "DIRECT \<equiv> 900"
abbreviation (input) MAX_DENTS :: nat where "MAX_DENTS \<equiv> 53"

type_synonym block = "u8 carray"

record xfs_dirent =
  d_name :: "u8 list"
  d_inode_block :: u32
  d_size :: u32
  d_flags :: u16

record xfs_inode =
  i_name :: "u8 carray"
  i_size :: u32
  i_flags :: u16
  i_block_count :: u16
  i_data_blocks :: "u32 carray"
  i_checksum :: u32

record xfs_fd_entry =
  f_pid :: u32
  f_inode_block :: u32
  f_offset :: u32
  f_flags :: u32
  f_used :: bool

text \<open>\<open>disk\<close> and \<open>dev_blocks\<close> are the device behind \<open>g_dev\<close>; \<open>stale\<close> is what a buffer on the stack holds when a
  block cannot be read; \<open>stray\<close> is what an index past the end of \<open>data_blocks\<close> reads.\<close>

record xfs =
  disk :: "u64 \<Rightarrow> block"
  dev_blocks :: u64
  g_dev :: bool
  g_total :: u64
  g_bitmap_blocks :: u64
  g_data_start :: u64
  g_root_block :: u64
  g_fds :: "xfs_fd_entry carray"
  stale :: block
  stray :: "u32 carray"

section \<open>Bytes of structures\<close>

definition byte_of :: "'a::len word \<Rightarrow> nat \<Rightarrow> u8" where
  "byte_of v k = ucast (drop_bit (8 * k) v)"

definition get16 :: "block \<Rightarrow> nat \<Rightarrow> u16" where
  "get16 b i = ucast (b i) OR push_bit 8 (ucast (b (i + 1)))"

definition get32 :: "block \<Rightarrow> nat \<Rightarrow> u32" where
  "get32 b i = ucast (b i) OR push_bit 8 (ucast (b (i + 1))) OR push_bit 16 (ucast (b (i + 2))) OR push_bit 24 (ucast (b (i + 3)))"

definition get64 :: "block \<Rightarrow> nat \<Rightarrow> u64" where
  "get64 b i = ucast (get32 b i) OR push_bit 32 (ucast (get32 b (i + 4)))"

definition put_bytes :: "nat \<Rightarrow> nat \<Rightarrow> (nat \<Rightarrow> u8) \<Rightarrow> block \<Rightarrow> block" where
  "put_bytes i n f b = (\<lambda>k. if i \<le> k \<and> k < i + n then f (k - i) else b k)"

definition decode_inode :: "block \<Rightarrow> xfs_inode" where
  "decode_inode b = \<lparr>i_name = (\<lambda>k. if k < XFS_NAME_MAX then b k else 0), i_size = get32 b 64, i_flags = get16 b 68,
     i_block_count = get16 b 70, i_data_blocks = (\<lambda>k. if k < DIRECT then get32 b (72 + 4 * k) else 0), i_checksum = get32 b 3672\<rparr>"

definition encode_inode :: "xfs_inode \<Rightarrow> block \<Rightarrow> block" where
  "encode_inode n =
     put_bytes 0 64 (i_name n) \<circ> put_bytes 64 4 (byte_of (i_size n)) \<circ> put_bytes 68 2 (byte_of (i_flags n)) \<circ>
     put_bytes 70 2 (byte_of (i_block_count n)) \<circ>
     put_bytes 72 3600 (\<lambda>k. byte_of (i_data_blocks n (k div 4)) (k mod 4)) \<circ>
     put_bytes 3672 4 (byte_of (i_checksum n))"

definition zero_inode :: xfs_inode where
  "zero_inode = \<lparr>i_name = (\<lambda>_. 0), i_size = 0, i_flags = 0, i_block_count = 0, i_data_blocks = (\<lambda>_. 0), i_checksum = 0\<rparr>"

section \<open>Blocks\<close>

definition block_read :: "xfs \<Rightarrow> u64 \<Rightarrow> block" where
  "block_read fs lba = (if g_dev fs \<and> lba < dev_blocks fs then disk fs lba else stale fs)"

definition block_write :: "u64 \<Rightarrow> block \<Rightarrow> xfs \<Rightarrow> xfs" where
  "block_write lba b fs = (if g_dev fs \<and> lba < dev_blocks fs then fs\<lparr>disk := (disk fs)(lba := b)\<rparr> else fs)"

definition bitmap_set :: "u64 \<Rightarrow> bool \<Rightarrow> xfs \<Rightarrow> xfs" where
  "bitmap_set blk used fs =
     (let byte = blk div 8; bit = unat (blk mod 8); lba = 1 + byte div XFS_BLOCK_SIZE;
          buf = block_read fs lba; k = unat (byte mod XFS_BLOCK_SIZE);
          v = (if used then buf k OR push_bit bit 1 else buf k AND NOT (push_bit bit 1))
      in block_write lba (buf(k := v)) fs)"

definition bitmap_get :: "xfs \<Rightarrow> u64 \<Rightarrow> bool" where
  "bitmap_get fs blk =
     (let byte = blk div 8; bit = unat (blk mod 8); buf = block_read fs (1 + byte div XFS_BLOCK_SIZE)
      in drop_bit bit (buf (unat (byte mod XFS_BLOCK_SIZE))) AND 1 \<noteq> 0)"

definition alloc_block :: "xfs \<Rightarrow> u64 \<times> xfs" where
  "alloc_block fs =
     (case find (\<lambda>b. \<not> bitmap_get fs (of_nat b)) [unat (g_data_start fs)..<unat (g_total fs)] of
        Some b \<Rightarrow> (of_nat b, bitmap_set (of_nat b) True fs)
      | None \<Rightarrow> (0, fs))"

definition free_block :: "u64 \<Rightarrow> xfs \<Rightarrow> xfs" where
  "free_block blk fs = (if blk \<ge> g_total fs then fs else bitmap_set blk False fs)"

definition read_inode :: "xfs \<Rightarrow> u64 \<Rightarrow> xfs_inode" where
  "read_inode fs blk = decode_inode (block_read fs blk)"

definition write_inode :: "u64 \<Rightarrow> xfs_inode \<Rightarrow> xfs \<Rightarrow> xfs" where
  "write_inode blk n fs = block_write blk (encode_inode n (block_read fs blk)) fs"

definition data_block :: "xfs \<Rightarrow> xfs_inode \<Rightarrow> nat \<Rightarrow> u32" where
  "data_block fs n k = (if k < DIRECT then i_data_blocks n k else stray fs k)"

section \<open>Directories and paths\<close>

definition ent_inode :: "block \<Rightarrow> nat \<Rightarrow> u32" where
  "ent_inode b d = get32 b (76 * d + 64)"

text \<open>The string at a directory entry, up to its terminator.\<close>

definition ent_name :: "block \<Rightarrow> nat \<Rightarrow> u8 list" where
  "ent_name b d = takeWhile (\<lambda>c. c \<noteq> 0) (map b [76 * d..<XFS_BLOCK_SIZE])"

definition ent_at :: "block \<Rightarrow> nat \<Rightarrow> xfs_dirent" where
  "ent_at b d = \<lparr>d_name = ent_name b d, d_inode_block = ent_inode b d, d_size = get32 b (76 * d + 68), d_flags = get16 b (76 * d + 72)\<rparr>"

text \<open>\<^verbatim>\<open>strncpy(dst, name, 63)\<close>: the bytes of the name, then zeros.\<close>

definition name_bytes :: "u8 list \<Rightarrow> nat \<Rightarrow> u8" where
  "name_bytes name k = (if k < length name then name ! k else 0)"

definition put_ent :: "nat \<Rightarrow> u8 list \<Rightarrow> u32 \<Rightarrow> u16 \<Rightarrow> block \<Rightarrow> block" where
  "put_ent d name ino flags =
     put_bytes (76 * d + 72) 2 (byte_of flags) \<circ> put_bytes (76 * d + 68) 4 (byte_of (0::u32)) \<circ>
     put_bytes (76 * d + 64) 4 (byte_of ino) \<circ> put_bytes (76 * d) 63 (name_bytes name)"

definition dir_slots :: "xfs_inode \<Rightarrow> (nat \<times> nat) list" where
  "dir_slots n = List.product [0..<unat (i_block_count n)] [0..<MAX_DENTS]"

definition lookup_component :: "xfs \<Rightarrow> xfs_inode \<Rightarrow> u8 list \<Rightarrow> u32 option" where
  "lookup_component fs n name =
     map_option (\<lambda>(db, d). ent_inode (block_read fs (ucast (data_block fs n db))) d)
       (find (\<lambda>(db, d). let b = data_block fs n db; sector = block_read fs (ucast b)
              in b \<noteq> 0 \<and> ent_inode sector d \<noteq> 0 \<and> ent_name sector d = name) (dir_slots n))"

definition component :: "u8 list \<Rightarrow> u8 list" where
  "component p = take (XFS_NAME_MAX - 1) (takeWhile (\<lambda>c. c \<noteq> slash) p)"

definition after_component :: "u8 list \<Rightarrow> u8 list" where
  "after_component p = (let q = drop (length (component p)) p in if q \<noteq> [] \<and> hd q = slash then tl q else q)"

lemma after_component_less: "p \<noteq> [] \<Longrightarrow> length (after_component p) < length p"
  by (cases p) (auto simp: after_component_def component_def Let_def)

function resolve_from :: "xfs \<Rightarrow> xfs_inode \<Rightarrow> u8 list \<Rightarrow> u64 \<times> xfs_inode" where
  "resolve_from fs n p =
     (case lookup_component fs n (component p) of
        None \<Rightarrow> (0, n)
      | Some blk \<Rightarrow>
          let current = ucast blk; n' = read_inode fs current; q = after_component p
          in if q = [] then (current, n') else resolve_from fs n' q)"
  by pat_completeness auto
termination
proof (relation "measure (\<lambda>(fs, n, p). length p)")
  fix fs n p blk x xa xb assume "xb = after_component p" "xb \<noteq> []"
  then show "((fs, xa, xb), fs, n, p) \<in> measure (\<lambda>(fs, n, p). length p)"
    by (cases "p = []") (auto simp: after_component_less, simp add: after_component_def component_def)
qed simp

declare resolve_from.simps [simp del]

definition resolve_path :: "xfs \<Rightarrow> u8 list option \<Rightarrow> u64 \<times> xfs_inode" where
  "resolve_path fs path =
     (case path of
        Some (c # p) \<Rightarrow>
          if c \<noteq> slash then (0, zero_inode)
          else let current = g_root_block fs; n = read_inode fs current in
          if i_flags n AND 1 = 0 then (0, n)
          else if p = [] then (current, n)
          else resolve_from fs n p
      | _ \<Rightarrow> (0, zero_inode))"

text \<open>What \<open>xfs_open\<close>, \<open>xfs_mkdir\<close> and \<open>xfs_unlink\<close> do to find the parent: \<open>last_slash\<close> is an index into the
  path; the parent's path is cut at 63 bytes.\<close>

definition last_slash :: "u8 list \<Rightarrow> nat" where
  "last_slash path = fold (\<lambda>i s. if path ! i = slash then i else s) [0..<length path] 0"

definition parent_block :: "xfs \<Rightarrow> u8 list \<Rightarrow> u64" where
  "parent_block fs path =
     (let s = last_slash path in
      if s = 0 then g_root_block fs
      else fst (resolve_path fs (Some (take (if s \<ge> XFS_NAME_MAX then XFS_NAME_MAX - 1 else s) path))))"

definition base_name :: "u8 list \<Rightarrow> u8 list" where
  "base_name path = drop (last_slash path + 1) path"

text \<open>The loop that enters a new inode into the first free slot of a directory.\<close>

definition add_dirent :: "u64 \<Rightarrow> u8 list \<Rightarrow> u64 \<Rightarrow> u16 \<Rightarrow> xfs \<Rightarrow> xfs option" where
  "add_dirent dir name ino flags fs =
     (let n = read_inode fs dir in
      case find (\<lambda>(db, d). ent_inode (block_read fs (ucast (data_block fs n db))) d = 0) (dir_slots n) of
        None \<Rightarrow> None
      | Some (db, d) \<Rightarrow>
          let b = ucast (data_block fs n db)
          in Some (block_write b (put_ent d name (ucast ino) flags (block_read fs b)) fs))"

text \<open>Allocate an inode and a first data block, write the inode and enter it: the common part of creating a
  file (\<open>flags = 0\<close>) and a directory (\<open>flags = 1\<close>).\<close>

definition create_node :: "u64 \<Rightarrow> u8 list \<Rightarrow> u16 \<Rightarrow> xfs \<Rightarrow> u64 \<times> xfs" where
  "create_node dir name flags fs =
     (let (new_ino, fs1) = alloc_block fs in
      if new_ino = 0 then (0, fs1)
      else let (new_data, fs2) = alloc_block fs1 in
      if new_data = 0 then (0, free_block new_ino fs2)
      else let n = zero_inode\<lparr>i_name := (\<lambda>k. if k < XFS_NAME_MAX - 1 then name_bytes name k else 0), i_flags := flags,
                   i_block_count := 1, i_data_blocks := (\<lambda>_. 0)(0 := ucast new_data)\<rparr>;
               fs3 = write_inode new_ino n fs2
           in case add_dirent dir name new_ino flags fs3 of
                None \<Rightarrow> (0, free_block new_ino (free_block new_data fs3))
              | Some fs4 \<Rightarrow> (new_ino, fs4))"

section \<open>Formatting and mounting\<close>

definition super_bytes :: "xfs \<Rightarrow> block" where
  "super_bytes fs =
     (put_bytes 0 4 (byte_of XFS_MAGIC) \<circ> put_bytes 4 4 (byte_of (1 :: u32)) \<circ> put_bytes 8 8 (byte_of (g_total fs)) \<circ>
      put_bytes 16 8 (byte_of (g_total fs - (g_data_start fs + 2))) \<circ> put_bytes 24 8 (byte_of (g_root_block fs)) \<circ>
      put_bytes 32 8 (byte_of (g_bitmap_blocks fs)) \<circ> put_bytes 40 8 (byte_of (g_data_start fs))) (\<lambda>_. 0)"

definition root_inode :: "u64 \<Rightarrow> xfs_inode" where
  "root_inode root_block = zero_inode\<lparr>i_name := (\<lambda>_. 0)(0 := slash), i_flags := 1, i_block_count := 1,
     i_data_blocks := (\<lambda>_. 0)(0 := ucast (root_block + 1))\<rparr>"

text \<open>A device is given by its size and contents; NULL is None.\<close>

definition xfs_format :: "(u64 \<times> (u64 \<Rightarrow> block)) option \<Rightarrow> xfs \<Rightarrow> bool \<times> xfs" where
  "xfs_format dev fs =
     (case dev of
        None \<Rightarrow> (False, fs)
      | Some (block_count, contents) \<Rightarrow>
          let bm = (block_count + 8 * XFS_BLOCK_SIZE - 1) div (8 * XFS_BLOCK_SIZE);
              bm' = (if bm < 1 then 1 else bm);
              fs0 = fs\<lparr>g_dev := True, disk := contents, dev_blocks := block_count, g_total := block_count,
                       g_bitmap_blocks := bm', g_data_start := 1 + bm', g_root_block := 1 + bm'\<rparr>;
              fs1 = fold (\<lambda>i. block_write (of_nat i) (\<lambda>_. 0)) [1..<unat block_count] fs0;
              fs2 = block_write 0 (super_bytes fs1) fs1;
              fs3 = fold (\<lambda>b. bitmap_set (of_nat b) True) [0..<unat (g_data_start fs2 + 2)] fs2
          in (True, block_write (g_root_block fs3) (encode_inode (root_inode (g_root_block fs3)) (\<lambda>_. 0)) fs3))"

definition zero_fd :: xfs_fd_entry where
  "zero_fd = \<lparr>f_pid = 0, f_inode_block = 0, f_offset = 0, f_flags = 0, f_used = False\<rparr>"

definition xfs_mount :: "(u64 \<times> (u64 \<Rightarrow> block)) option \<Rightarrow> xfs \<Rightarrow> bool \<times> xfs" where
  "xfs_mount dev fs =
     (case dev of
        None \<Rightarrow> (False, fs)
      | Some (block_count, contents) \<Rightarrow>
          let sb = (if 0 < block_count then contents 0 else stale fs) in
          if get32 sb 0 \<noteq> XFS_MAGIC then (False, fs)
          else (True, fs\<lparr>g_dev := True, disk := contents, dev_blocks := block_count, g_total := get64 sb 8,
                         g_bitmap_blocks := get64 sb 32, g_data_start := get64 sb 40, g_root_block := get64 sb 24,
                         g_fds := (\<lambda>_. zero_fd)\<rparr>))"

section \<open>Files\<close>

definition fd_valid :: "int \<Rightarrow> bool" where
  "fd_valid fd \<longleftrightarrow> 0 \<le> fd \<and> fd < int XFS_MAX_FDS"

definition fd_owned :: "xfs \<Rightarrow> int \<Rightarrow> u32 \<Rightarrow> bool" where
  "fd_owned fs fd pid \<longleftrightarrow> f_used (g_fds fs (nat fd)) \<and> f_pid (g_fds fs (nat fd)) = pid"

definition set_fd :: "nat \<Rightarrow> (xfs_fd_entry \<Rightarrow> xfs_fd_entry) \<Rightarrow> xfs \<Rightarrow> xfs" where
  "set_fd i u fs = fs\<lparr>g_fds := (g_fds fs)(i := u (g_fds fs i))\<rparr>"

text \<open>\<open>pid\<close> is \<open>proc_current()->pid\<close>.\<close>

definition open_fd :: "u64 \<Rightarrow> u32 \<Rightarrow> u32 \<Rightarrow> xfs \<Rightarrow> int \<times> xfs" where
  "open_fd ino flags pid fs =
     (case find (\<lambda>i. \<not> f_used (g_fds fs i)) [0..<XFS_MAX_FDS] of
        Some i \<Rightarrow> (int i, set_fd i (\<lambda>_. \<lparr>f_pid = pid, f_inode_block = ucast ino, f_offset = 0, f_flags = flags, f_used = True\<rparr>) fs)
      | None \<Rightarrow> (- 1, fs))"

definition xfs_open :: "u8 list option \<Rightarrow> u32 \<Rightarrow> u32 \<Rightarrow> xfs \<Rightarrow> int \<times> xfs" where
  "xfs_open path flags pid fs =
     (case path of
        Some (c # p) \<Rightarrow>
          if c \<noteq> slash then (- 1, fs)
          else let ino = fst (resolve_path fs path) in
          if ino = 0 \<and> flags AND XFS_O_CREAT \<noteq> 0 then
            let dir = parent_block fs (c # p); name = base_name (c # p) in
            if dir = 0 \<and> last_slash (c # p) \<noteq> 0 then (- 1, fs)
            else if name = [] then (- 1, fs)
            else let (new_ino, fs1) = create_node dir name 0 fs in
            if new_ino = 0 then (- 1, fs1) else open_fd new_ino flags pid fs1
          else if ino = 0 then (- 1, fs)
          else open_fd ino flags pid fs
      | _ \<Rightarrow> (- 1, fs))"

definition xfs_close :: "int \<Rightarrow> xfs \<Rightarrow> xfs" where
  "xfs_close fd fs =
     (if \<not> fd_valid fd then fs
      else if \<not> f_used (g_fds fs (nat fd)) then fs
      else set_fd (nat fd) (\<lambda>f. f\<lparr>f_used := False\<rparr>) fs)"

function read_loop :: "xfs \<Rightarrow> xfs_inode \<Rightarrow> u32 \<Rightarrow> nat \<Rightarrow> nat \<Rightarrow> u8 list" where
  "read_loop fs n off count done =
     (if done < count then
        let file_off = off + of_nat done; block_idx = unat (file_off div XFS_BLOCK_SIZE); block_off = unat (file_off mod XFS_BLOCK_SIZE) in
        if block_idx \<ge> unat (i_block_count n) then []
        else let b = data_block fs n block_idx in
        if b = 0 then []
        else let sector = block_read fs (ucast b); chunk = min (XFS_BLOCK_SIZE - block_off) (count - done)
             in map sector [block_off..<block_off + chunk] @ read_loop fs n off count (done + chunk)
      else [])"
  by pat_completeness auto
termination
  by (relation "measure (\<lambda>(fs, n, off, count, done). count - done)") (auto simp: unat_mod min_def)

declare read_loop.simps [simp del]

text \<open>The result of a C function of type \<open>int\<close> from a size.\<close>

definition to_int :: "nat \<Rightarrow> int" where
  "to_int n = sint (of_nat n :: u32)"

definition xfs_read :: "int \<Rightarrow> bool \<Rightarrow> nat \<Rightarrow> u32 \<Rightarrow> xfs \<Rightarrow> int \<times> u8 list \<times> xfs" where
  "xfs_read fd buf count pid fs =
     (if \<not> fd_valid fd then (- 1, [], fs)
      else if \<not> fd_owned fs fd pid then (- 1, [], fs)
      else if \<not> buf \<or> count = 0 then (0, [], fs)
      else let f = g_fds fs (nat fd); n = read_inode fs (ucast (f_inode_block f)) in
      if f_offset f \<ge> i_size n then (0, [], fs)
      else let remain = unat (i_size n - f_offset f);
               count' = (if count > remain then remain else count);
               bytes = read_loop fs n (f_offset f) count' 0
           in (to_int (length bytes), bytes,
               set_fd (nat fd) (\<lambda>f. f\<lparr>f_offset := f_offset f + of_nat (length bytes)\<rparr>) fs))"

text \<open>Copy a piece of the buffer into a block.\<close>

definition overlay :: "block \<Rightarrow> nat \<Rightarrow> u8 list \<Rightarrow> block" where
  "overlay sector off bytes = (\<lambda>k. if off \<le> k \<and> k < off + length bytes then bytes ! (k - off) else sector k)"

text \<open>The allocation step of the write loop: None when the loop has to stop.\<close>

definition extend_file :: "nat \<Rightarrow> xfs \<Rightarrow> xfs_inode \<Rightarrow> (xfs \<times> xfs_inode) option" where
  "extend_file block_idx fs n =
     (if block_idx \<ge> unat (i_block_count n) then
        if unat (i_block_count n) \<ge> DIRECT then None
        else let (nb, fs1) = alloc_block fs in
        if nb = 0 then None
        else Some (fs1, n\<lparr>i_data_blocks := (i_data_blocks n)(unat (i_block_count n) := ucast nb), i_block_count := i_block_count n + 1\<rparr>)
      else Some (fs, n))"

function write_loop :: "u8 list \<Rightarrow> u32 \<Rightarrow> nat \<Rightarrow> xfs \<Rightarrow> xfs_inode \<Rightarrow> nat \<times> xfs \<times> xfs_inode" where
  "write_loop buf off done fs n =
     (if done < length buf then
        let file_off = off + of_nat done; block_idx = unat (file_off div XFS_BLOCK_SIZE); block_off = unat (file_off mod XFS_BLOCK_SIZE) in
        case extend_file block_idx fs n of
          None \<Rightarrow> (done, fs, n)
        | Some (fs1, n1) \<Rightarrow>
            let b = data_block fs1 n1 block_idx in
            if b = 0 then (done, fs1, n1)
            else let sector = (if block_off \<noteq> 0 \<or> length buf - done < XFS_BLOCK_SIZE then block_read fs1 (ucast b) else (\<lambda>_. 0));
                     chunk = min (XFS_BLOCK_SIZE - block_off) (length buf - done);
                     fs2 = block_write (ucast b) (overlay sector block_off (take chunk (drop done buf))) fs1
                 in write_loop buf off (done + chunk) fs2 n1
      else (done, fs, n))"
  by pat_completeness auto
termination
  by (relation "measure (\<lambda>(buf, off, done, fs, n). length buf - done)") (auto simp: unat_mod min_def)

declare write_loop.simps [simp del]

definition xfs_write :: "int \<Rightarrow> u8 list option \<Rightarrow> u32 \<Rightarrow> xfs \<Rightarrow> int \<times> xfs" where
  "xfs_write fd buf pid fs =
     (if \<not> fd_valid fd then (- 1, fs)
      else if \<not> fd_owned fs fd pid then (- 1, fs)
      else case buf of
        None \<Rightarrow> (0, fs)
      | Some bytes \<Rightarrow>
          if bytes = [] then (0, fs)
          else let f = g_fds fs (nat fd) in
          if f_flags f AND (XFS_O_WRONLY OR XFS_O_RDWR) = 0 then (- 1, fs)
          else let (done, fs1, n) = write_loop bytes (f_offset f) 0 fs (read_inode fs (ucast (f_inode_block f)));
                   new_size = f_offset f + of_nat done;
                   n1 = (if new_size > i_size n then n\<lparr>i_size := new_size\<rparr> else n);
                   fs2 = set_fd (nat fd) (\<lambda>f. f\<lparr>f_offset := new_size\<rparr>) fs1
               in (to_int done, write_inode (ucast (f_inode_block f)) n1 fs2))"

definition xfs_mkdir :: "u8 list option \<Rightarrow> xfs \<Rightarrow> int \<times> xfs" where
  "xfs_mkdir path fs =
     (case path of
        Some (c # p) \<Rightarrow>
          if c \<noteq> slash then (- 1, fs)
          else if fst (resolve_path fs path) \<noteq> 0 then (- 1, fs)
          else let dir = parent_block fs (c # p); name = base_name (c # p) in
          if dir = 0 \<and> last_slash (c # p) \<noteq> 0 then (- 1, fs)
          else if name = [] then (- 1, fs)
          else let (new_ino, fs1) = create_node dir name 1 fs
               in (if new_ino = 0 then - 1 else 0, fs1)
      | _ \<Rightarrow> (- 1, fs))"

definition xfs_readdir :: "int \<Rightarrow> bool \<Rightarrow> int \<Rightarrow> u32 \<Rightarrow> xfs \<Rightarrow> int \<times> xfs_dirent list" where
  "xfs_readdir fd entries max_entries pid fs =
     (if \<not> fd_valid fd then (- 1, [])
      else if \<not> fd_owned fs fd pid then (- 1, [])
      else if \<not> entries \<or> max_entries \<le> 0 then (0, [])
      else let n = read_inode fs (ucast (f_inode_block (g_fds fs (nat fd)))) in
      if i_flags n AND 1 = 0 then (- 1, [])
      else let slots = filter (\<lambda>(db, d). data_block fs n db \<noteq> 0 \<and>
                          ent_inode (block_read fs (ucast (data_block fs n db))) d \<noteq> 0) (dir_slots n);
               ents = take (nat max_entries) (map (\<lambda>(db, d). ent_at (block_read fs (ucast (data_block fs n db))) d) slots)
           in (int (length ents), ents))"

text \<open>Signed 32-bit sums wrap.\<close>

definition xfs_lseek :: "int \<Rightarrow> int \<Rightarrow> int \<Rightarrow> u32 \<Rightarrow> xfs \<Rightarrow> int \<times> xfs" where
  "xfs_lseek fd offset whence pid fs =
     (if \<not> fd_valid fd then (- 1, fs)
      else if \<not> fd_owned fs fd pid then (- 1, fs)
      else let f = g_fds fs (nat fd); n = read_inode fs (ucast (f_inode_block f));
               target = (if whence = 0 then Some (sint (word_of_int offset :: u32))
                         else if whence = 1 then Some (sint (f_offset f + word_of_int offset))
                         else if whence = 2 then Some (sint (i_size n + word_of_int offset))
                         else None)
           in case target of
                None \<Rightarrow> (- 1, fs)
              | Some new_off \<Rightarrow>
                  if new_off < 0 then (- 1, fs)
                  else (new_off, set_fd (nat fd) (\<lambda>f. f\<lparr>f_offset := word_of_int new_off\<rparr>) fs))"

definition stat_of :: "u32 \<Rightarrow> xfs_inode \<Rightarrow> xfs_dirent" where
  "stat_of ino n = \<lparr>d_name = takeWhile (\<lambda>c. c \<noteq> 0) (map (i_name n) [0..<XFS_NAME_MAX - 1]), d_inode_block = ino,
     d_size = i_size n, d_flags = i_flags n\<rparr>"

definition xfs_stat :: "u8 list option \<Rightarrow> bool \<Rightarrow> xfs \<Rightarrow> xfs_dirent option" where
  "xfs_stat path out fs =
     (if path = None \<or> \<not> out then None
      else let (ino, n) = resolve_path fs path in if ino = 0 then None else Some (stat_of (ucast ino) n))"

definition xfs_fstat :: "int \<Rightarrow> bool \<Rightarrow> u32 \<Rightarrow> xfs \<Rightarrow> xfs_dirent option" where
  "xfs_fstat fd out pid fs =
     (if \<not> fd_valid fd \<or> \<not> fd_owned fs fd pid \<or> \<not> out then None
      else let ino = f_inode_block (g_fds fs (nat fd)) in Some (stat_of ino (read_inode fs (ucast ino))))"

text \<open>The directory entry is cleared, then the data blocks and the inode are released.\<close>

definition xfs_unlink :: "u8 list option \<Rightarrow> xfs \<Rightarrow> int \<times> xfs" where
  "xfs_unlink path fs =
     (case path of
        Some (c # p) \<Rightarrow>
          if c \<noteq> slash then (- 1, fs)
          else let (ino, n) = resolve_path fs path in
          if ino = 0 then (- 1, fs)
          else if i_flags n AND 1 \<noteq> 0 then (- 1, fs)
          else let dir = parent_block fs (c # p) in
          if dir = 0 \<and> last_slash (c # p) \<noteq> 0 then (- 1, fs)
          else let pn = read_inode fs dir in
          (case find (\<lambda>(db, d). data_block fs pn db \<noteq> 0 \<and>
                   ent_inode (block_read fs (ucast (data_block fs pn db))) d = ucast ino) (dir_slots pn) of
             None \<Rightarrow> (- 1, fs)
           | Some (db, d) \<Rightarrow>
               let b = ucast (data_block fs pn db);
                   fs1 = block_write b (put_bytes (76 * d) 76 (\<lambda>_. 0) (block_read fs b)) fs;
                   fs2 = fold (\<lambda>i fs. if data_block fs n i \<noteq> 0 then free_block (ucast (data_block fs n i)) fs else fs)
                           [0..<unat (i_block_count n)] fs1
               in (0, free_block ino fs2))
      | _ \<Rightarrow> (- 1, fs))"

definition shrink_step :: "nat \<Rightarrow> xfs \<times> xfs_inode \<Rightarrow> xfs \<times> xfs_inode" where
  "shrink_step i = (\<lambda>(fs, n).
     if data_block fs n i \<noteq> 0
     then (free_block (ucast (data_block fs n i)) fs, n\<lparr>i_data_blocks := (i_data_blocks n)(i := 0)\<rparr>)
     else (fs, n))"

text \<open>The loop that allocates cleared blocks up to a bound, until one is not found.\<close>

fun grow_loop :: "nat list \<Rightarrow> xfs \<times> xfs_inode \<Rightarrow> xfs \<times> xfs_inode" where
  "grow_loop [] s = s"
| "grow_loop (i # is) (fs, n) =
     (let (nb, fs1) = alloc_block fs in
      if nb = 0 then (fs1, n)
      else grow_loop is (block_write nb (\<lambda>_. 0) fs1, n\<lparr>i_data_blocks := (i_data_blocks n)(i := ucast nb), i_block_count := of_nat (i + 1)\<rparr>))"

definition xfs_ftruncate :: "int \<Rightarrow> int \<Rightarrow> u32 \<Rightarrow> xfs \<Rightarrow> int \<times> xfs" where
  "xfs_ftruncate fd new_size pid fs =
     (if \<not> fd_valid fd then (- 1, fs)
      else if \<not> fd_owned fs fd pid then (- 1, fs)
      else if new_size < 0 then (- 1, fs)
      else let ino = ucast (f_inode_block (g_fds fs (nat fd))); n = read_inode fs ino;
               sz = word_of_int new_size :: u32; needed_blocks = unat ((sz + XFS_BLOCK_SIZE - 1) div XFS_BLOCK_SIZE);
               (fs1, n1) =
                 (if sz \<le> i_size n then
                    let (fs', n') = fold shrink_step [needed_blocks..<unat (i_block_count n)] (fs, n)
                    in (fs', n'\<lparr>i_block_count := of_nat needed_blocks\<rparr>)
                  else grow_loop [unat (i_block_count n)..<min needed_blocks DIRECT] (fs, n))
           in (0, write_inode ino (n1\<lparr>i_size := sz\<rparr>) fs1))"

definition xfs_exists :: "u8 list option \<Rightarrow> xfs \<Rightarrow> int" where
  "xfs_exists path fs =
     (case path of
        Some (c # p) \<Rightarrow> if c \<noteq> slash then 0 else if fst (resolve_path fs path) \<noteq> 0 then 1 else 0
      | _ \<Rightarrow> 0)"

section \<open>Round trips of the on-disk structures\<close>

lemma get16_eqI: "b i = byte_of v 0 \<Longrightarrow> b (i + 1) = byte_of v 1 \<Longrightarrow> get16 b i = v"
  by (rule bit_word_eqI) (auto simp: get16_def byte_of_def bit_simps not_less le_Suc_eq dest: bit_imp_le_length)

lemma get32_eqI:
  assumes "b i = byte_of v 0" "b (i + 1) = byte_of v 1" "b (i + 2) = byte_of v 2" "b (i + 3) = byte_of v 3"
  shows "get32 b i = v"
proof (rule bit_word_eqI)
  fix m assume m: "m < LENGTH(32)"
  consider "m < 8" | "8 \<le> m" "m < 16" | "16 \<le> m" "m < 24" | "24 \<le> m" by linarith
  then show "bit (get32 b i) m \<longleftrightarrow> bit v m"
    using m by cases (auto simp: get32_def assms [simplified] byte_of_def bit_simps)
qed

lemma put_bytes_simp: "put_bytes i m f b k = (if i \<le> k \<and> k < i + m then f (k - i) else b k)"
  by (simp add: put_bytes_def)

definition wf_inode :: "xfs_inode \<Rightarrow> bool" where
  "wf_inode n \<longleftrightarrow> (\<forall>k \<ge> XFS_NAME_MAX. i_name n k = 0) \<and> (\<forall>k \<ge> DIRECT. i_data_blocks n k = 0)"

lemma wf_decode: "wf_inode (decode_inode b)"
  by (simp add: wf_inode_def decode_inode_def)

lemma decode_encode:
  assumes "wf_inode n"
  shows "decode_inode (encode_inode n b) = n"
proof -
  have d: "get32 (encode_inode n b) (72 + 4 * k) = i_data_blocks n k" if "k < DIRECT" for k
  proof -
    have "encode_inode n b (72 + 4 * k + j) = byte_of (i_data_blocks n k) j" if "j < 4" for j
      using \<open>k < DIRECT\<close> that by (simp add: encode_inode_def put_bytes_simp)
    from this [of 0] this [of 1] this [of 2] this [of 3] show ?thesis by (intro get32_eqI) simp_all
  qed
  have "get32 (encode_inode n b) 64 = i_size n" "get32 (encode_inode n b) 3672 = i_checksum n"
    by (rule get32_eqI; simp add: encode_inode_def put_bytes_simp)+
  moreover have "get16 (encode_inode n b) 68 = i_flags n" "get16 (encode_inode n b) 70 = i_block_count n"
    by (rule get16_eqI; simp add: encode_inode_def put_bytes_simp)+
  moreover have "(\<lambda>k. if k < XFS_NAME_MAX then encode_inode n b k else 0) = i_name n"
    using assms by (auto simp: fun_eq_iff encode_inode_def put_bytes_simp wf_inode_def)
  moreover have "(\<lambda>k. if k < DIRECT then get32 (encode_inode n b) (72 + 4 * k) else 0) = i_data_blocks n"
    using assms d by (auto simp: fun_eq_iff wf_inode_def)
  ultimately show ?thesis by (simp add: decode_inode_def)
qed

section \<open>The allocation bitmap\<close>

text \<open>The device is mounted, its blocks have 32-bit numbers, and the bitmap covers them and ends before the
  data area.\<close>

definition geo_ok :: "xfs \<Rightarrow> bool" where
  "geo_ok fs \<longleftrightarrow> g_dev fs \<and> g_total fs \<le> dev_blocks fs \<and> g_total fs < 0x100000000 \<and> g_data_start fs \<le> g_total fs \<and>
     1 \<le> g_data_start fs \<and> (\<forall>c < g_total fs. 1 + (c div 8) div XFS_BLOCK_SIZE < g_data_start fs)"

definition in_area :: "xfs \<Rightarrow> u64 \<Rightarrow> bool" where
  "in_area fs b \<longleftrightarrow> g_data_start fs \<le> b \<and> b < g_total fs"

definition geometry :: "xfs \<Rightarrow> bool \<times> u64 \<times> u64 \<times> u64 \<times> u64 \<times> u64 \<times> u32 carray \<times> block" where
  "geometry fs = (g_dev fs, dev_blocks fs, g_total fs, g_bitmap_blocks fs, g_data_start fs, g_root_block fs, stray fs, stale fs)"

lemma block_write_simps [simp]:
  "geometry (block_write lba b fs) = geometry fs" "g_fds (block_write lba b fs) = g_fds fs"
  "g_dev (block_write lba b fs) = g_dev fs" "g_total (block_write lba b fs) = g_total fs"
  "dev_blocks (block_write lba b fs) = dev_blocks fs" "g_data_start (block_write lba b fs) = g_data_start fs"
  "stale (block_write lba b fs) = stale fs" "stray (block_write lba b fs) = stray fs"
  by (simp_all add: block_write_def geometry_def)

lemma geo_cong: "geometry fs' = geometry fs \<Longrightarrow> geo_ok fs' = geo_ok fs" "geometry fs' = geometry fs \<Longrightarrow> in_area fs' b = in_area fs b"
  by (auto simp: geometry_def geo_ok_def in_area_def)

lemma block_read_write:
  "g_dev fs \<Longrightarrow> lba < dev_blocks fs \<Longrightarrow> block_read (block_write lba b fs) c = (if c = lba then b else block_read fs c)"
  by (simp add: block_read_def block_write_def)

lemma geo_block:
  assumes "geo_ok fs"
  shows "c < g_total fs \<Longrightarrow> 1 + (c div 8) div XFS_BLOCK_SIZE < g_data_start fs" "c < g_total fs \<Longrightarrow> c < dev_blocks fs"
    "c < g_total fs \<Longrightarrow> 1 + (c div 8) div XFS_BLOCK_SIZE < dev_blocks fs" "g_dev fs"
  using assms by (auto simp: geo_ok_def)

lemma same_bit_iff:
  fixes b c :: u64
  assumes "b < 0x100000000" "c < 0x100000000"
  shows "1 + (b div 8) div XFS_BLOCK_SIZE = 1 + (c div 8) div XFS_BLOCK_SIZE \<and> unat (b div 8 mod XFS_BLOCK_SIZE) = unat (c div 8 mod XFS_BLOCK_SIZE) \<and>
    unat (b mod 8) = unat (c mod 8) \<longleftrightarrow> b = c"
proof -
  have "(b div 8) div XFS_BLOCK_SIZE = (c div 8) div XFS_BLOCK_SIZE \<Longrightarrow> b div 8 mod XFS_BLOCK_SIZE = c div 8 mod XFS_BLOCK_SIZE \<Longrightarrow>
      b mod 8 = c mod 8 \<Longrightarrow> b = c"
    by (metis div_mult_mod_eq)
  then show ?thesis by (auto simp flip: word_unat_eq_iff)
qed

lemma bitmap_get_iff:
  "bitmap_get fs c \<longleftrightarrow> bit (block_read fs (1 + (c div 8) div XFS_BLOCK_SIZE) (unat (c div 8 mod XFS_BLOCK_SIZE))) (unat (c mod 8))"
  by (simp add: bitmap_get_def Let_def bit_iff_odd_drop_bit and_one_eq odd_iff_mod_2_eq_one)

lemma bitmap_get_set:
  assumes geo: "geo_ok fs" and b: "b < g_total fs" and c: "c < g_total fs"
  shows "bitmap_get (bitmap_set b u fs) c = (if c = b then u else bitmap_get fs c)"
proof -
  define lb kb mb where "lb = 1 + (b div 8) div XFS_BLOCK_SIZE" and "kb = unat (b div 8 mod XFS_BLOCK_SIZE)" and "mb = unat (b mod 8)"
  define lc kc mc where "lc = 1 + (c div 8) div XFS_BLOCK_SIZE" and "kc = unat (c div 8 mod XFS_BLOCK_SIZE)" and "mc = unat (c mod 8)"
  have g: "g_dev fs" "lb < dev_blocks fs" using geo_block [OF geo] b by (auto simp: lb_def)
  have "b < 0x100000000" "c < 0x100000000" using geo b c by (auto simp: geo_ok_def)
  from same_bit_iff [OF this] have eq: "c = b \<longleftrightarrow> lb = lc \<and> kb = kc \<and> mb = mc"
    unfolding lb_def kb_def mb_def lc_def kc_def mc_def by (auto simp flip: word_unat_eq_iff)
  have m8: "mb < 8" "mc < 8" by (simp_all add: unat_mod mb_def mc_def)
  let ?v = "if u then block_read fs lb kb OR push_bit mb 1 else block_read fs lb kb AND NOT (push_bit mb 1)"
  have "bitmap_set b u fs = block_write lb ((block_read fs lb)(kb := ?v)) fs"
    by (simp add: bitmap_set_def Let_def lb_def kb_def mb_def)
  then have "bitmap_get (bitmap_set b u fs) c \<longleftrightarrow> bit (if lc = lb then ((block_read fs lb)(kb := ?v)) kc else block_read fs lc kc) mc"
    unfolding bitmap_get_iff lc_def [symmetric] kc_def [symmetric] mc_def [symmetric] by (simp add: block_read_write g)
  also have "\<dots> \<longleftrightarrow> (if c = b then u else bit (block_read fs lc kc) mc)"
    unfolding eq using m8 by (auto simp: bit_simps)
  finally show ?thesis unfolding bitmap_get_iff lc_def kc_def mc_def .
qed

lemma bitmap_set_simps [simp]:
  "geometry (bitmap_set b u fs) = geometry fs" "g_fds (bitmap_set b u fs) = g_fds fs"
  by (simp_all add: bitmap_set_def Let_def)

lemma bitmap_set_area:
  assumes "geo_ok fs" "b < g_total fs" "g_data_start fs \<le> c"
  shows "block_read (bitmap_set b u fs) c = block_read fs c"
proof -
  have "1 + (b div 8) div XFS_BLOCK_SIZE < g_data_start fs" "1 + (b div 8) div XFS_BLOCK_SIZE < dev_blocks fs" "g_dev fs"
    using geo_block [OF assms(1)] assms(2) by auto
  with assms(3) show ?thesis by (auto simp: bitmap_set_def Let_def block_read_write)
qed

lemma bitmap_get_write:
  assumes "geo_ok fs" "c < g_total fs" "in_area fs lba"
  shows "bitmap_get (block_write lba b fs) c = bitmap_get fs c"
proof -
  have "1 + (c div 8) div XFS_BLOCK_SIZE < g_data_start fs" "lba < dev_blocks fs" "g_dev fs"
    using geo_block [OF assms(1)] assms(2,3) by (auto simp: in_area_def)
  with assms(3) show ?thesis by (auto simp: bitmap_get_def Let_def block_read_write in_area_def)
qed

lemma alloc_block_spec:
  assumes geo: "geo_ok fs" and run: "alloc_block fs = (b, fs')"
  shows "geometry fs' = geometry fs" "g_fds fs' = g_fds fs"
    "g_data_start fs \<le> c \<Longrightarrow> block_read fs' c = block_read fs c"
    "b \<noteq> 0 \<Longrightarrow> in_area fs b \<and> \<not> bitmap_get fs b"
    "b \<noteq> 0 \<Longrightarrow> c < g_total fs \<Longrightarrow> bitmap_get fs' c \<longleftrightarrow> c = b \<or> bitmap_get fs c"
    "b = 0 \<Longrightarrow> fs' = fs" "b = 0 \<Longrightarrow> in_area fs c \<Longrightarrow> bitmap_get fs c"
proof -
  let ?find = "find (\<lambda>b. \<not> bitmap_get fs (of_nat b)) [unat (g_data_start fs)..<unat (g_total fs)]"
  have ds: "1 \<le> g_data_start fs" using geo by (simp add: geo_ok_def)
  have "geometry fs' = geometry fs \<and> g_fds fs' = g_fds fs \<and> (g_data_start fs \<le> c \<longrightarrow> block_read fs' c = block_read fs c) \<and>
      (b \<noteq> 0 \<longrightarrow> in_area fs b \<and> \<not> bitmap_get fs b) \<and>
      (b \<noteq> 0 \<longrightarrow> c < g_total fs \<longrightarrow> (bitmap_get fs' c \<longleftrightarrow> c = b \<or> bitmap_get fs c)) \<and>
      (b = 0 \<longrightarrow> fs' = fs) \<and> (b = 0 \<longrightarrow> in_area fs c \<longrightarrow> bitmap_get fs c)"
  proof (cases ?find)
    case None
    then have "bitmap_get fs c" if "in_area fs c"
      using that unfolding find_upt_None by (auto simp: in_area_def word_le_nat_alt word_less_nat_alt dest!: spec [of _ "unat c"])
    with None run show ?thesis by (auto simp: alloc_block_def)
  next
    case (Some i)
    note F = find_upt_SomeD [OF Some]
    have u: "unat (of_nat i :: u64) = i" using F(2) by (metis le_unat_uoi less_imp_le)
    have area: "in_area fs (of_nat i)" using F(1,2) u by (simp add: in_area_def word_le_nat_alt word_less_nat_alt)
    then have "of_nat i \<noteq> (0 :: u64)" using ds by (auto simp: in_area_def)
    moreover have "b = of_nat i" "fs' = bitmap_set (of_nat i) True fs" using run Some by (auto simp: alloc_block_def)
    moreover have lt: "of_nat i < g_total fs" using area by (simp add: in_area_def)
    ultimately show ?thesis using area F(3) geo
      by (simp add: bitmap_get_set [OF geo lt] bitmap_set_area [OF geo lt])
  qed
  then show "geometry fs' = geometry fs" "g_fds fs' = g_fds fs"
    "g_data_start fs \<le> c \<Longrightarrow> block_read fs' c = block_read fs c"
    "b \<noteq> 0 \<Longrightarrow> in_area fs b \<and> \<not> bitmap_get fs b"
    "b \<noteq> 0 \<Longrightarrow> c < g_total fs \<Longrightarrow> bitmap_get fs' c \<longleftrightarrow> c = b \<or> bitmap_get fs c"
    "b = 0 \<Longrightarrow> fs' = fs" "b = 0 \<Longrightarrow> in_area fs c \<Longrightarrow> bitmap_get fs c"
    by blast+
qed

section \<open>Files as byte lists\<close>

definition data_lba :: "xfs_inode \<Rightarrow> nat \<Rightarrow> u64" where
  "data_lba n k = ucast (i_data_blocks n k)"

definition blocks_of :: "xfs_inode \<Rightarrow> u64 set" where
  "blocks_of n = data_lba n ` {..<unat (i_block_count n)}"

text \<open>The inode \<open>n\<close> of block \<open>ino\<close> owns distinct allocated data blocks that hold at least \<open>i_size n\<close> bytes.\<close>

definition file_ok :: "xfs \<Rightarrow> u64 \<Rightarrow> xfs_inode \<Rightarrow> bool" where
  "file_ok fs ino n \<longleftrightarrow> geo_ok fs \<and> wf_inode n \<and> in_area fs ino \<and> bitmap_get fs ino \<and> unat (i_block_count n) \<le> DIRECT \<and>
     (\<forall>k < unat (i_block_count n). in_area fs (data_lba n k) \<and> bitmap_get fs (data_lba n k) \<and> data_lba n k \<noteq> ino) \<and>
     inj_on (data_lba n) {..<unat (i_block_count n)} \<and> unat (i_size n) \<le> unat (i_block_count n) * XFS_BLOCK_SIZE"

definition byte_at :: "xfs \<Rightarrow> xfs_inode \<Rightarrow> nat \<Rightarrow> u8" where
  "byte_at fs n k = block_read fs (data_lba n (k div XFS_BLOCK_SIZE)) (k mod XFS_BLOCK_SIZE)"

definition content :: "xfs \<Rightarrow> xfs_inode \<Rightarrow> u8 list" where
  "content fs n = map (byte_at fs n) [0..<unat (i_size n)]"

lemma data_lba_nonzero: "file_ok fs ino n \<Longrightarrow> k < unat (i_block_count n) \<Longrightarrow> i_data_blocks n k \<noteq> 0"
  by (auto simp: file_ok_def in_area_def data_lba_def geo_ok_def)

lemma div_mod_shift:
  fixes a :: nat
  assumes "a mod m + i < m"
  shows "(a + i) div m = a div m" "(a + i) mod m = a mod m + i"
proof -
  have "a + i = (a mod m + i) + a div m * m" by (simp add: algebra_simps)
  moreover have "(r + q * m) div m = q" "(r + q * m) mod m = r" if "r < m" for r q :: nat using that by simp_all
  ultimately show "(a + i) div m = a div m" "(a + i) mod m = a mod m + i" using assms by metis+
qed

lemma div_less_block: "k < c * XFS_BLOCK_SIZE \<Longrightarrow> k div XFS_BLOCK_SIZE < (c :: nat)"
  by (simp add: less_mult_imp_div_less)

lemma unat_word_split:
  fixes w :: u32
  shows "unat (w div 4096) = unat w div 4096" "unat (w mod 4096) = unat w mod 4096"
  by (simp_all add: unat_div unat_mod)

lemma read_loop_spec:
  assumes f: "file_ok fs ino n" and le: "unat off + count \<le> unat (i_size n)" "done \<le> count"
  shows "read_loop fs n off count done = map (byte_at fs n) [unat off + done..<unat off + count]"
  using le(2)
proof (induction "count - done" arbitrary: "done" rule: less_induct)
  case less
  show ?case
  proof (cases "done < count")
    case False
    with less.prems show ?thesis by (simp add: read_loop.simps)
  next
    case True
    let ?o = "unat off + done" let ?bi = "?o div XFS_BLOCK_SIZE" let ?bo = "?o mod XFS_BLOCK_SIZE"
    define chunk where "chunk = min (XFS_BLOCK_SIZE - ?bo) (count - done)"
    have cap: "?o < unat (i_block_count n) * XFS_BLOCK_SIZE" "unat (i_block_count n) \<le> DIRECT"
      using f le True by (auto simp: file_ok_def)
    have w: "unat (off + of_nat done) = ?o"
      using cap by (simp add: unat_word_ariths unat_of_nat take_bit_nat_eq_self)
    have bi: "?bi < unat (i_block_count n)" using div_less_block [OF cap(1)] .
    then have nz: "data_block fs n ?bi \<noteq> 0" "ucast (data_block fs n ?bi) = data_lba n ?bi"
      using data_lba_nonzero [OF f] cap(2) by (simp_all add: data_block_def data_lba_def)
    have ch: "0 < chunk" "?bo + chunk \<le> XFS_BLOCK_SIZE" "done + chunk \<le> count" using True by (auto simp: chunk_def)
    have seg: "map (block_read fs (data_lba n ?bi)) [?bo..<?bo + chunk] = map (byte_at fs n) [?o..<?o + chunk]"
    proof (rule nth_equalityI)
      fix i assume "i < length (map (block_read fs (data_lba n ?bi)) [?bo..<?bo + chunk])"
      then have i: "i < chunk" by simp
      then have "(?o + i) div XFS_BLOCK_SIZE = ?bi" "(?o + i) mod XFS_BLOCK_SIZE = ?bo + i" 
        using div_mod_shift [of ?o XFS_BLOCK_SIZE i] i ch(2) by linarith+
      with i show "map (block_read fs (data_lba n ?bi)) [?bo..<?bo + chunk] ! i = map (byte_at fs n) [?o..<?o + chunk] ! i"
        by (simp add: byte_at_def)
    qed simp
    have IH: "read_loop fs n off count (done + chunk) = map (byte_at fs n) [?o + chunk..<unat off + count]"
      unfolding add.assoc by (rule less.hyps) (use ch True in linarith)+
    have "read_loop fs n off count done = map (block_read fs (data_lba n ?bi)) [?bo..<?bo + chunk] @ read_loop fs n off count (done + chunk)"
      using True bi nz by (subst read_loop.simps) (simp add: Let_def unat_word_split w chunk_def)
    also have "\<dots> = map (byte_at fs n) ([?o..<?o + chunk] @ [?o + chunk..<unat off + count])"
      unfolding seg IH by simp
    also have "[?o..<?o + chunk] @ [?o + chunk..<unat off + count] = [?o..<unat off + count]"
      using ch(3) upt_add_eq_append [of ?o "?o + chunk" "unat off + count - (?o + chunk)"] by simp
    finally show ?thesis .
  qed
qed

text \<open>One round of the write loop changes only one data block, and at most appends one block to the file.\<close>

definition grown :: "xfs \<Rightarrow> u64 \<Rightarrow> xfs_inode \<Rightarrow> xfs \<Rightarrow> xfs_inode \<Rightarrow> bool" where
  "grown fs ino n fs' n' \<longleftrightarrow> file_ok fs' ino n' \<and> geometry fs' = geometry fs \<and> g_fds fs' = g_fds fs \<and>
     i_size n' = i_size n \<and> i_flags n' = i_flags n \<and> i_name n' = i_name n \<and> unat (i_block_count n) \<le> unat (i_block_count n') \<and>
     (\<forall>k < unat (i_block_count n). data_lba n' k = data_lba n k) \<and>
     (\<forall>c < g_total fs. bitmap_get fs c \<longrightarrow> bitmap_get fs' c) \<and>
     (\<forall>c. in_area fs c \<longrightarrow> bitmap_get fs c \<longrightarrow> c \<notin> blocks_of n \<longrightarrow> block_read fs' c = block_read fs c \<and> c \<notin> blocks_of n')"

lemma grown_refl: "file_ok fs ino n \<Longrightarrow> grown fs ino n fs n"
  by (simp add: grown_def)

lemma grown_trans:
  assumes "grown fs ino n fs1 n1" "grown fs1 ino n1 fs2 n2"
  shows "grown fs ino n fs2 n2"
proof -
  have "geometry fs1 = geometry fs" using assms(1) by (simp add: grown_def)
  then have g: "g_total fs1 = g_total fs" "in_area fs1 c = in_area fs c" for c by (auto simp: geometry_def in_area_def)
  show ?thesis
    using assms unfolding grown_def g by (auto simp: in_area_def)
qed

lemma ucast_ucast_32:
  fixes b :: u64
  assumes "b < 0x100000000"
  shows "ucast (ucast b :: u32) = b"
proof (rule word_unat_eq_iff [THEN iffD2])
  have "unat b < 2 ^ 32" using assms by (simp add: word_less_nat_alt)
  then show "unat (ucast (ucast b :: u32) :: u64) = unat b" by (simp add: unsigned_ucast_eq unsigned_take_bit_eq take_bit_nat_eq_self)
qed

lemma extend_file_grown:
  assumes f: "file_ok fs ino n" and k: "k \<le> unat (i_block_count n)" and run: "extend_file k fs n = Some (fs1, n1)"
  shows "grown fs ino n fs1 n1 \<and> k < unat (i_block_count n1) \<and> (\<forall>c. g_data_start fs \<le> c \<longrightarrow> block_read fs1 c = block_read fs c)"
proof (cases "k < unat (i_block_count n)")
  case True
  with run have "fs1 = fs" "n1 = n" by (auto simp: extend_file_def)
  with True show ?thesis using grown_refl [OF f] by simp
next
  case False
  let ?bc = "unat (i_block_count n)"
  have geo: "geo_ok fs" using f by (simp add: file_ok_def)
  obtain b where al: "alloc_block fs = (b, fs1)" and b: "b \<noteq> 0" "?bc < DIRECT"
      and n1: "n1 = n\<lparr>i_data_blocks := (i_data_blocks n)(?bc := ucast b), i_block_count := i_block_count n + 1\<rparr>"
    using run False by (auto simp: extend_file_def Let_def split: if_splits prod.splits)
  note A = alloc_block_spec [OF geo al]
  have bc1: "unat (i_block_count n1) = Suc ?bc"
    using b(2) by (simp add: n1 unat_word_ariths)
  have b32: "ucast (ucast b :: u32) = b"
    using A(4) [OF b(1)] geo by (intro ucast_ucast_32) (auto simp: in_area_def geo_ok_def)
  have lba: "data_lba n1 j = (if j = ?bc then b else data_lba n j)" for j by (simp add: n1 data_lba_def b32)
  have area: "in_area fs1 c = in_area fs c" "geo_ok fs1" for c using geo_cong [OF A(1)] geo by auto
  have tot: "c < g_total fs" if "in_area fs c" for c using that by (simp add: in_area_def)
  have ok: "in_area fs (data_lba n j) \<and> bitmap_get fs (data_lba n j) \<and> data_lba n j \<noteq> ino" if "j < ?bc" for j
    using f that by (simp add: file_ok_def)
  have i: "in_area fs ino" "bitmap_get fs ino" "inj_on (data_lba n) {..<?bc}" "wf_inode n" "unat (i_size n) \<le> ?bc * 4096"
    using f by (simp_all add: file_ok_def)
  have fresh: "in_area fs b" "\<not> bitmap_get fs b" using A(4) b by auto
  have inj: "inj_on (data_lba n1) {..<Suc ?bc}"
    using i(3) ok fresh unfolding inj_on_def lba by (auto simp: less_Suc_eq)
  have bm: "bitmap_get fs1 c \<longleftrightarrow> c = b \<or> bitmap_get fs c" if "in_area fs c" for c using A(5) [OF b(1) tot [OF that]] .
  have "file_ok fs1 ino n1"
    unfolding file_ok_def bc1
  proof (intro conjI allI impI)
    show "in_area fs1 ino" "bitmap_get fs1 ino" "geo_ok fs1" using i area bm by auto
    show "wf_inode n1" using i(4) b(2) by (simp add: wf_inode_def n1)
    show "Suc ?bc \<le> DIRECT" using b(2) by simp
    show "unat (i_size n1) \<le> Suc ?bc * 4096" using i(5) by (simp add: n1)
    fix j assume "j < Suc ?bc"
    then show "in_area fs1 (data_lba n1 j)" "bitmap_get fs1 (data_lba n1 j)" "data_lba n1 j \<noteq> ino"
      using ok [of j] area bm fresh i by (auto simp: lba less_Suc_eq)
  qed (rule inj)
  moreover have "c \<notin> blocks_of n1" if "in_area fs c" "bitmap_get fs c" "c \<notin> blocks_of n" for c
    using that fresh by (auto simp: blocks_of_def bc1 lba less_Suc_eq)
  moreover have "bitmap_get fs1 c" if "c < g_total fs" "bitmap_get fs c" for c using A(5) [OF b(1) that(1)] that by simp
  moreover have "i_size n1 = i_size n" "i_flags n1 = i_flags n" "i_name n1 = i_name n" by (simp_all add: n1)
  ultimately show ?thesis
    unfolding grown_def using A(1-3) bc1 k by (auto simp: lba in_area_def)
qed

lemma write_data_block:
  assumes f: "file_ok fs ino n" and k: "k < unat (i_block_count n)"
  shows "grown fs ino n (block_write (data_lba n k) x fs) n"
    and "j < unat (i_block_count n) * XFS_BLOCK_SIZE \<Longrightarrow>
      byte_at (block_write (data_lba n k) x fs) n j = (if j div XFS_BLOCK_SIZE = k then x (j mod XFS_BLOCK_SIZE) else byte_at fs n j)"
proof -
  let ?fs = "block_write (data_lba n k) x fs"
  have geo: "geo_ok fs" and a: "in_area fs (data_lba n k)" and inj: "inj_on (data_lba n) {..<unat (i_block_count n)}"
    using f k by (simp_all add: file_ok_def)
  have dev: "g_dev fs" "data_lba n k < dev_blocks fs" using geo_block [OF geo] a by (auto simp: in_area_def)
  have bm: "c < g_total fs \<Longrightarrow> bitmap_get ?fs c = bitmap_get fs c" for c by (rule bitmap_get_write [OF geo _ a])
  have area: "in_area ?fs c = in_area fs c" "geo_ok ?fs = geo_ok fs" for c using geo_cong [of ?fs fs] by simp_all
  have "file_ok ?fs ino n"
    using f bm unfolding file_ok_def area by (auto simp: in_area_def)
  then show "grown fs ino n ?fs n"
    using bm k by (auto simp: grown_def block_read_write [OF dev] blocks_of_def)
  assume "j < unat (i_block_count n) * XFS_BLOCK_SIZE"
  then have "data_lba n (j div XFS_BLOCK_SIZE) = data_lba n k \<longleftrightarrow> j div XFS_BLOCK_SIZE = k"
    using inj k div_less_block [of j] by (auto simp: inj_on_def)
  then show "byte_at ?fs n j = (if j div XFS_BLOCK_SIZE = k then x (j mod XFS_BLOCK_SIZE) else byte_at fs n j)"
    by (simp add: byte_at_def block_read_write [OF dev])
qed

definition no_space :: "xfs \<Rightarrow> xfs_inode \<Rightarrow> bool" where
  "no_space fs n \<longleftrightarrow> unat (i_block_count n) = DIRECT \<or> (\<forall>c. in_area fs c \<longrightarrow> bitmap_get fs c)"

text \<open>What a call of the loop from \<open>done\<close> on achieves: bytes \<open>done\<close> to \<open>d'\<close> of the buffer are in the file.\<close>

definition written :: "u8 list \<Rightarrow> nat \<Rightarrow> nat \<Rightarrow> u64 \<Rightarrow> xfs \<Rightarrow> xfs_inode \<Rightarrow> nat \<Rightarrow> xfs \<Rightarrow> xfs_inode \<Rightarrow> bool" where
  "written buf off done ino fs n d' fs' n' \<longleftrightarrow> grown fs ino n fs' n' \<and> done \<le> d' \<and> d' \<le> length buf \<and>
     off + d' \<le> unat (i_block_count n') * XFS_BLOCK_SIZE \<and>
     (\<forall>j. off + done \<le> j \<longrightarrow> j < off + d' \<longrightarrow> byte_at fs' n' j = buf ! (j - off)) \<and>
     (\<forall>j < unat (i_block_count n) * XFS_BLOCK_SIZE. j < off + done \<or> off + d' \<le> j \<longrightarrow> byte_at fs' n' j = byte_at fs n j) \<and>
     (d' < length buf \<longrightarrow> no_space fs' n')"

lemma written_stop:
  assumes "file_ok fs ino n" "off + done \<le> unat (i_block_count n) * XFS_BLOCK_SIZE" "done \<le> length buf"
    "done < length buf \<longrightarrow> no_space fs n"
  shows "written buf off done ino fs n done fs n"
  using assms grown_refl by (simp add: written_def)

lemma written_step:
  assumes e: "grown fs ino n fs1 n1" "\<forall>j < unat (i_block_count n) * XFS_BLOCK_SIZE. byte_at fs1 n1 j = byte_at fs n j"
    and k: "k = (off + done) div XFS_BLOCK_SIZE" "k < unat (i_block_count n1)"
    and bo: "bo = (off + done) mod XFS_BLOCK_SIZE" and c: "bo + chunk \<le> XFS_BLOCK_SIZE" "done + chunk \<le> length buf"
    and x: "\<forall>j < XFS_BLOCK_SIZE. x j = (if bo \<le> j \<and> j < bo + chunk then buf ! (done + (j - bo)) else block_read fs1 (data_lba n1 k) j)"
    and rest: "written buf off (done + chunk) ino (block_write (data_lba n1 k) x fs1) n1 d' fs' n'"
  shows "written buf off done ino fs n d' fs' n'"
proof -
  let ?fs2 = "block_write (data_lba n1 k) x fs1"
  have f1: "file_ok fs1 ino n1" using e(1) by (simp add: grown_def)
  note W = write_data_block [OF f1 k(2), where x = x]
  have le: "unat (i_block_count n) \<le> unat (i_block_count n1)" using e(1) by (simp add: grown_def)
  have in_chunk: "byte_at ?fs2 n1 j = buf ! (j - off) \<and> j < unat (i_block_count n1) * XFS_BLOCK_SIZE" if j: "off + done \<le> j" "j < off + done + chunk" for j
  proof -
    define i where "i = j - (off + done)"
    have i: "j = off + done + i" "i < chunk" "bo + i < XFS_BLOCK_SIZE" "j - off = done + i" using j c(1) by (auto simp: i_def)
    have d: "j div XFS_BLOCK_SIZE = k" "j mod XFS_BLOCK_SIZE = bo + i"
      using div_mod_shift [of "off + done" XFS_BLOCK_SIZE i] i(3) unfolding i(1) k(1) bo by simp_all
    have cap: "j < unat (i_block_count n1) * XFS_BLOCK_SIZE" using k(2) d(1) by (simp add: div_less_iff_less_mult [symmetric])
    have "x (bo + i) = buf ! (done + i)" using x i by simp
    then show ?thesis using W(2) [OF cap] cap d i(4) by simp
  qed
  have outside: "byte_at ?fs2 n1 j = byte_at fs1 n1 j" if j: "j < unat (i_block_count n1) * XFS_BLOCK_SIZE" "j < off + done \<or> off + done + chunk \<le> j" for j
  proof (cases "j div XFS_BLOCK_SIZE = k")
    case True
    have "j = k * XFS_BLOCK_SIZE + j mod XFS_BLOCK_SIZE" "off + done = k * XFS_BLOCK_SIZE + bo" using True k(1) bo by (metis div_mult_mod_eq)+
    then have "j mod XFS_BLOCK_SIZE < bo \<or> bo + chunk \<le> j mod XFS_BLOCK_SIZE" using j(2) by linarith
    with True x W(2) [OF j(1)] show ?thesis by (auto simp: byte_at_def)
  qed (simp add: W(2) [OF j(1)])
  have keep: "j < unat (i_block_count n1) * XFS_BLOCK_SIZE" if "j < unat (i_block_count n) * XFS_BLOCK_SIZE" for j
    using that le by (meson less_le_trans mult_le_mono1)
  show ?thesis
    unfolding written_def
  proof (intro conjI allI impI)
    show "grown fs ino n fs' n'" using grown_trans [OF grown_trans [OF e(1) W(1)]] rest by (simp add: written_def)
    show "done \<le> d'" "d' \<le> length buf" "off + d' \<le> unat (i_block_count n') * XFS_BLOCK_SIZE" using rest by (auto simp: written_def)
    show "no_space fs' n'" if "d' < length buf" using rest that by (simp add: written_def)
  next
    fix j assume j: "off + done \<le> j" "j < off + d'"
    show "byte_at fs' n' j = buf ! (j - off)"
    proof (cases "j < off + done + chunk")
      case True
      with rest True in_chunk [OF j(1)] show ?thesis by (simp add: written_def add.assoc)
    qed (use rest j in \<open>simp add: written_def add.assoc\<close>)
  next
    fix j assume j: "j < unat (i_block_count n) * XFS_BLOCK_SIZE" "j < off + done \<or> off + d' \<le> j"
    have "done + chunk \<le> d'" using rest by (simp add: written_def)
    then have "j < off + (done + chunk) \<or> off + d' \<le> j" "j < off + done \<or> off + done + chunk \<le> j" using j(2) by linarith+
    then have "byte_at fs' n' j = byte_at ?fs2 n1 j" using rest keep [OF j(1)] unfolding written_def by blast
    also have "\<dots> = byte_at fs n j" using outside [OF keep [OF j(1)]] e(2) j \<open>j < off + done \<or> off + done + chunk \<le> j\<close> by simp
    finally show "byte_at fs' n' j = byte_at fs n j" .
  qed
qed

lemma extend_file_None:
  assumes f: "file_ok fs ino n" and run: "extend_file k fs n = None"
  shows "no_space fs n"
proof (cases "unat (i_block_count n) \<ge> DIRECT")
  case True
  with f show ?thesis by (simp add: no_space_def file_ok_def)
next
  case False
  have geo: "geo_ok fs" using f by (simp add: file_ok_def)
  obtain fs1 where "alloc_block fs = (0, fs1)"
    using run False by (auto simp: extend_file_def Let_def split: if_splits prod.splits)
  then show ?thesis using alloc_block_spec(7) [OF geo] by (simp add: no_space_def)
qed

lemma write_loop_spec:
  assumes "file_ok fs ino n" "unat off + done \<le> unat (i_block_count n) * XFS_BLOCK_SIZE" "done \<le> length buf"
    "write_loop buf off done fs n = (d', fs', n')"
  shows "written buf (unat off) done ino fs n d' fs' n'"
  using assms
proof (induction "length buf - done" arbitrary: "done" fs n rule: less_induct)
  case less
  note f = less.prems(1)
  show ?case
  proof (cases "done < length buf")
    case False
    with less.prems show ?thesis using written_stop [OF f] by (simp add: write_loop.simps)
  next
    case True
    define pos k bo chunk where "pos = unat off + done" and "k = pos div XFS_BLOCK_SIZE" and "bo = pos mod XFS_BLOCK_SIZE"
      and "chunk = min (XFS_BLOCK_SIZE - bo) (length buf - done)"
    have bc: "unat (i_block_count n) \<le> DIRECT" using f by (simp add: file_ok_def)
    have k: "k \<le> unat (i_block_count n)" using less.prems(2) div_le_mono [of pos _ XFS_BLOCK_SIZE] by (fastforce simp: k_def pos_def)
    have w: "unat (off + of_nat done) = pos"
      using less.prems(2) bc by (simp add: pos_def unat_word_ariths unat_of_nat take_bit_nat_eq_self)
    have wd: "unat ((off + of_nat done) div XFS_BLOCK_SIZE) = k" "unat ((off + of_nat done) mod XFS_BLOCK_SIZE) = bo"
      by (simp_all add: unat_word_split w k_def bo_def)
    have ch: "0 < chunk" "bo + chunk \<le> XFS_BLOCK_SIZE" "done + chunk \<le> length buf" using True by (auto simp: chunk_def bo_def)
    show ?thesis
    proof (cases "extend_file k fs n")
      case None
      then have "d' = done" "fs' = fs" "n' = n" using less.prems(4) True
        by (simp_all add: write_loop.simps [of buf off "done"] Let_def wd)
      with less.prems written_stop [OF f] extend_file_None [OF f None] show ?thesis by simp
    next
      case (Some s)
      obtain fs1 n1 where s: "extend_file k fs n = Some (fs1, n1)" using Some by (cases s) auto
      note E = extend_file_grown [OF f k s]
      have f1: "file_ok fs1 ino n1" and k1: "k < unat (i_block_count n1)" using E by (auto simp: grown_def)
      have same: "\<forall>j < unat (i_block_count n) * XFS_BLOCK_SIZE. byte_at fs1 n1 j = byte_at fs n j"
      proof (intro allI impI)
        fix j assume "j < unat (i_block_count n) * XFS_BLOCK_SIZE"
        then have "j div XFS_BLOCK_SIZE < unat (i_block_count n)" by (rule div_less_block)
        then show "byte_at fs1 n1 j = byte_at fs n j" using E f by (simp add: grown_def byte_at_def file_ok_def in_area_def)
      qed
      have bc1: "unat (i_block_count n1) \<le> DIRECT" using f1 by (simp add: file_ok_def)
      have b: "data_block fs1 n1 k \<noteq> 0" "ucast (data_block fs1 n1 k) = data_lba n1 k"
        using data_lba_nonzero [OF f1 k1] k1 bc1 by (simp_all add: data_block_def data_lba_def)
      define x where "x = overlay (if bo \<noteq> 0 \<or> length buf - done < XFS_BLOCK_SIZE then block_read fs1 (data_lba n1 k) else (\<lambda>_. 0)) bo (take chunk (drop done buf))"
      have x: "\<forall>j < XFS_BLOCK_SIZE. x j = (if bo \<le> j \<and> j < bo + chunk then buf ! (done + (j - bo)) else block_read fs1 (data_lba n1 k) j)"
      proof (intro allI impI)
        fix j :: nat assume j: "j < XFS_BLOCK_SIZE"
        have len: "length (take chunk (drop done buf)) = chunk" using ch(3) by simp
        have seg: "take chunk (drop done buf) ! (j - bo) = buf ! (done + (j - bo))" if "bo \<le> j" "j < bo + chunk"
          using that ch(3) by (subst nth_take) auto
        have "bo = 0 \<Longrightarrow> \<not> length buf - done < XFS_BLOCK_SIZE \<Longrightarrow> bo \<le> j \<and> j < bo + chunk" using j by (simp add: chunk_def)
        then show "x j = (if bo \<le> j \<and> j < bo + chunk then buf ! (done + (j - bo)) else block_read fs1 (data_lba n1 k) j)"
          using seg unfolding x_def overlay_def len by auto
      qed
      let ?fs2 = "block_write (data_lba n1 k) x fs1"
      have run: "write_loop buf off (done + chunk) ?fs2 n1 = (d', fs', n')"
        using less.prems(4) True s b(1) unfolding x_def b(2) [symmetric] chunk_def
        by (simp add: write_loop.simps [of buf off "done"] Let_def wd split del: if_split)
      have "pos + chunk \<le> k * XFS_BLOCK_SIZE + XFS_BLOCK_SIZE"
        using ch(2) div_mult_mod_eq [of pos XFS_BLOCK_SIZE] unfolding k_def bo_def by linarith
      also have "\<dots> \<le> unat (i_block_count n1) * XFS_BLOCK_SIZE" using k1 by (metis Suc_leI add.commute mult_Suc mult_le_mono1)
      finally have cap: "unat off + (done + chunk) \<le> unat (i_block_count n1) * XFS_BLOCK_SIZE" by (simp add: pos_def)
      have f2: "file_ok ?fs2 ino n1" using write_data_block(1) [OF f1 k1] by (simp add: grown_def)
      have "written buf (unat off) (done + chunk) ino ?fs2 n1 d' fs' n'"
        by (rule less.hyps [OF _ f2 cap ch(3) run]) (use ch True in linarith)
      then show ?thesis
        using written_step [OF _ same _ k1 _ ch(2,3) x] E by (simp add: k_def bo_def pos_def)
    qed
  qed
qed

section \<open>Reading and writing through a descriptor\<close>

lemma set_fd_simps [simp]:
  "block_read (set_fd i u fs) = block_read fs" "geometry (set_fd i u fs) = geometry fs"
  "bitmap_get (set_fd i u fs) = bitmap_get fs" "in_area (set_fd i u fs) = in_area fs" "geo_ok (set_fd i u fs) = geo_ok fs"
  "g_fds (set_fd i u fs) = (g_fds fs)(i := u (g_fds fs i))"
  by (auto simp: set_fd_def block_read_def geometry_def bitmap_get_def in_area_def geo_ok_def fun_eq_iff)

lemma file_ok_set_fd [simp]: "file_ok (set_fd i u fs) ino n = file_ok fs ino n"
  by (simp add: file_ok_def)

lemma to_int_small: "m \<le> DIRECT * XFS_BLOCK_SIZE \<Longrightarrow> to_int m = int m"
  by (simp add: to_int_def signed_of_nat signed_take_bit_int_eq_self)

lemma file_size_le:
  assumes "file_ok fs ino n"
  shows "unat (i_size n) \<le> DIRECT * XFS_BLOCK_SIZE" "length (content fs n) = unat (i_size n)"
proof -
  have "unat (i_size n) \<le> unat (i_block_count n) * XFS_BLOCK_SIZE" "unat (i_block_count n) \<le> DIRECT"
    using assms by (simp_all add: file_ok_def)
  then show "unat (i_size n) \<le> DIRECT * XFS_BLOCK_SIZE" by (meson le_trans mult_le_mono1)
qed (simp add: content_def)

lemma xfs_read_spec:
  assumes fd: "fd_valid fd" "fd_owned fs fd pid" and f: "file_ok fs ino n" and n: "n = read_inode fs ino"
    and ino: "ino = ucast (f_inode_block (g_fds fs (nat fd)))" and c: "0 < count"
  defines "off \<equiv> f_offset (g_fds fs (nat fd))"
  defines "bs \<equiv> take count (drop (unat off) (content fs n))"
  shows "xfs_read fd True count pid fs = (int (length bs), bs, set_fd (nat fd) (\<lambda>f. f\<lparr>f_offset := f_offset f + of_nat (length bs)\<rparr>) fs)"
proof (cases "off \<ge> i_size n")
  case True
  then have "bs = []" using file_size_le [OF f] by (simp add: bs_def word_le_nat_alt)
  moreover have "set_fd (nat fd) (\<lambda>f. f\<lparr>f_offset := f_offset f + 0\<rparr>) fs = fs" by (simp add: set_fd_def)
  ultimately show ?thesis using True fd c by (simp add: xfs_read_def off_def n ino Let_def)
next
  case False
  let ?rem = "unat (i_size n - off)"
  let ?c = "if count > ?rem then ?rem else count"
  have rem: "?rem = unat (i_size n) - unat off" using False by (simp add: unat_sub_if_size word_le_nat_alt)
  have lt: "unat off < unat (i_size n)" using False by (simp add: word_le_nat_alt)
  then have le: "unat off + ?c \<le> unat (i_size n)" using rem by auto
  have "read_loop fs n off ?c 0 = map (byte_at fs n) [unat off..<unat off + ?c]"
    using read_loop_spec [OF f le, of 0] by simp
  also have "\<dots> = bs"
    using lt rem by (auto simp: bs_def content_def drop_map take_map intro!: nth_equalityI)
  finally have rl: "read_loop fs n off ?c 0 = bs" .
  have "length bs \<le> DIRECT * XFS_BLOCK_SIZE" using file_size_le [OF f] by (simp add: bs_def)
  then show ?thesis
    using False fd c rl by (simp add: xfs_read_def n [symmetric] ino [symmetric] off_def [symmetric] Let_def to_int_small)
qed

text \<open>Writing the inode back.\<close>

lemma write_inode_spec:
  assumes f: "file_ok fs ino n0" and n: "wf_inode n" "i_block_count n = i_block_count n0" "i_data_blocks n = i_data_blocks n0"
    "unat (i_size n) \<le> unat (i_block_count n) * XFS_BLOCK_SIZE"
  defines "fs' \<equiv> write_inode ino n fs"
  shows "file_ok fs' ino n" "read_inode fs' ino = n" "geometry fs' = geometry fs" "g_fds fs' = g_fds fs"
    "c \<noteq> ino \<Longrightarrow> block_read fs' c = block_read fs c" "c < g_total fs \<Longrightarrow> bitmap_get fs' c = bitmap_get fs c"
    "j < unat (i_block_count n) * XFS_BLOCK_SIZE \<Longrightarrow> byte_at fs' n j = byte_at fs n0 j"
proof -
  have geo: "geo_ok fs" and a: "in_area fs ino" using f by (simp_all add: file_ok_def)
  have dev: "g_dev fs" "ino < dev_blocks fs" using geo_block [OF geo] a by (auto simp: in_area_def)
  have rd: "block_read fs' c = (if c = ino then encode_inode n (block_read fs ino) else block_read fs c)" for c
    by (simp add: fs'_def write_inode_def block_read_write [OF dev])
  then show "c \<noteq> ino \<Longrightarrow> block_read fs' c = block_read fs c" "read_inode fs' ino = n"
    using decode_encode [OF n(1)] by (simp_all add: read_inode_def)
  show geom: "geometry fs' = geometry fs" and "g_fds fs' = g_fds fs" by (simp_all add: fs'_def write_inode_def)
  show bm: "bitmap_get fs' c = bitmap_get fs c" if "c < g_total fs" for c
    using bitmap_get_write [OF geo that a] by (simp add: fs'_def write_inode_def)
  have lba: "data_lba n = data_lba n0" by (auto simp: data_lba_def n)
  show "file_ok fs' ino n"
    using f bm n geo_cong [OF geom] unfolding file_ok_def lba by (auto simp: in_area_def)
  assume "j < unat (i_block_count n) * XFS_BLOCK_SIZE"
  then have "data_lba n0 (j div XFS_BLOCK_SIZE) \<noteq> ino" using f div_less_block n(2) by (simp add: file_ok_def)
  then show "byte_at fs' n j = byte_at fs n0 j" by (simp add: byte_at_def rd lba)
qed

lemma content_overlay:
  assumes n0: "unat (i_size n) \<le> unat (i_block_count n) * XFS_BLOCK_SIZE" and off: "off \<le> unat (i_size n)" and k: "k \<le> length buf"
    and size: "unat (i_size n') = max (unat (i_size n)) (off + k)"
    and new: "\<forall>j. off \<le> j \<longrightarrow> j < off + k \<longrightarrow> byte_at fs' n' j = buf ! (j - off)"
    and old: "\<forall>j < unat (i_block_count n) * XFS_BLOCK_SIZE. j < off \<or> off + k \<le> j \<longrightarrow> byte_at fs' n' j = byte_at fs n j"
  shows "content fs' n' = take off (content fs n) @ take k buf @ drop (off + k) (content fs n)"
proof (rule nth_equalityI)
  show "length (content fs' n') = length (take off (content fs n) @ take k buf @ drop (off + k) (content fs n))"
    using off k size by (auto simp: content_def)
  fix j assume "j < length (content fs' n')"
  then have j: "j < unat (i_size n')" by (simp add: content_def)
  consider "j < off" | "off \<le> j" "j < off + k" | "off + k \<le> j" by linarith
  then show "content fs' n' ! j = (take off (content fs n) @ take k buf @ drop (off + k) (content fs n)) ! j"
  proof cases
    case 1
    then have "byte_at fs' n' j = byte_at fs n j" using old off n0 by simp
    with 1 off j show ?thesis by (simp add: content_def nth_append)
  next
    case 2
    then have "byte_at fs' n' j = buf ! (j - off)" using new by simp
    with 2 off j k show ?thesis by (auto simp: content_def nth_append)
  next
    case 3
    then have lt: "j < unat (i_size n)" using j size by (auto simp: max_def split: if_splits)
    then have "byte_at fs' n' j = byte_at fs n j" using 3 old n0 by simp
    with 3 off j k lt show ?thesis by (auto simp: content_def nth_append)
  qed
qed

lemma xfs_write_spec:
  assumes fd: "fd_valid fd" "fd_owned fs fd pid" and f: "file_ok fs ino n" and n: "n = read_inode fs ino"
    and ino: "ino = ucast (f_inode_block (g_fds fs (nat fd)))" and b: "bytes \<noteq> []"
    and wr: "f_flags (g_fds fs (nat fd)) AND 3 \<noteq> 0" and off: "f_offset (g_fds fs (nat fd)) \<le> i_size n"
    and run: "xfs_write fd (Some bytes) pid fs = (r, fs')"
  defines "o' \<equiv> unat (f_offset (g_fds fs (nat fd)))"
  obtains k n' where "r = int k" "k \<le> length bytes" "n' = read_inode fs' ino" "file_ok fs' ino n'"
    "content fs' n' = take o' (content fs n) @ take k bytes @ drop (o' + k) (content fs n)"
    "k < length bytes \<Longrightarrow> no_space fs' n'"
    "g_fds fs' = (g_fds fs)(nat fd := (g_fds fs (nat fd))\<lparr>f_offset := of_nat (o' + k)\<rparr>)"
    "\<And>c. in_area fs c \<Longrightarrow> bitmap_get fs c \<Longrightarrow> c \<noteq> ino \<Longrightarrow> c \<notin> blocks_of n \<Longrightarrow> block_read fs' c = block_read fs c"
proof -
  define ofs where "ofs = f_offset (g_fds fs (nat fd))"
  obtain k fs1 n1 where loop: "write_loop bytes ofs 0 fs n = (k, fs1, n1)" by (metis prod_cases3)
  have ole: "unat ofs \<le> unat (i_size n)" using off by (simp add: ofs_def word_le_nat_alt)
  have cap0: "unat (i_size n) \<le> unat (i_block_count n) * XFS_BLOCK_SIZE" using f by (simp add: file_ok_def)
  have W: "written bytes (unat ofs) 0 ino fs n k fs1 n1"
    by (rule write_loop_spec [OF f _ _ loop]) (use ole cap0 in linarith)+
  then have G: "grown fs ino n fs1 n1" and kl: "k \<le> length bytes" and cap: "unat ofs + k \<le> unat (i_block_count n1) * XFS_BLOCK_SIZE"
    by (auto simp: written_def)
  then have f1: "file_ok fs1 ino n1" and sz1: "i_size n1 = i_size n" by (auto simp: grown_def)
  let ?ns = "ofs + of_nat k"
  define n2 where "n2 = (if ?ns > i_size n1 then n1\<lparr>i_size := ?ns\<rparr> else n1)"
  let ?fs2 = "set_fd (nat fd) (\<lambda>f. f\<lparr>f_offset := ?ns\<rparr>) fs1"
  have bc1: "unat (i_block_count n1) \<le> DIRECT" using f1 by (simp add: file_ok_def)
  have ns: "unat ?ns = unat ofs + k" using cap bc1 by (simp add: unat_word_ariths unat_of_nat take_bit_nat_eq_self)
  have size2: "unat (i_size n2) = max (unat (i_size n)) (unat ofs + k)"
    using ns by (auto simp: n2_def sz1 word_less_nat_alt)
  have f2: "file_ok ?fs2 ino n1" using f1 by simp
  have cap1: "unat (i_size n1) \<le> unat (i_block_count n1) * XFS_BLOCK_SIZE" "wf_inode n1" using f1 by (simp_all add: file_ok_def)
  have n2: "wf_inode n2" "i_block_count n2 = i_block_count n1" "i_data_blocks n2 = i_data_blocks n1"
    "unat (i_size n2) \<le> unat (i_block_count n2) * XFS_BLOCK_SIZE"
    using cap cap1 ns by (auto simp: n2_def wf_inode_def)
  have fs': "fs' = write_inode ino n2 ?fs2" and r: "r = to_int k"
    using run fd b wr loop unfolding ofs_def n ino by (auto simp: xfs_write_def Let_def n2_def ofs_def)
  note WI = write_inode_spec [OF f2 n2, folded fs']
  have kd: "k \<le> DIRECT * XFS_BLOCK_SIZE" using cap bc1 by linarith
  have by1: "byte_at fs' n2 j = byte_at fs1 n1 j" if "j < unat (i_block_count n1) * XFS_BLOCK_SIZE" for j
    using WI(7) [of j] that n2(2) by (simp add: byte_at_def)
  have lebc: "unat (i_block_count n) \<le> unat (i_block_count n1)" using G by (simp add: grown_def)
  have content: "content fs' n2 = take (unat ofs) (content fs n) @ take k bytes @ drop (unat ofs + k) (content fs n)"
  proof (rule content_overlay [OF cap0 ole kl size2])
    show "\<forall>j. unat ofs \<le> j \<longrightarrow> j < unat ofs + k \<longrightarrow> byte_at fs' n2 j = bytes ! (j - unat ofs)"
      using W by1 cap by (simp add: written_def)
    show "\<forall>j < unat (i_block_count n) * XFS_BLOCK_SIZE. j < unat ofs \<or> unat ofs + k \<le> j \<longrightarrow> byte_at fs' n2 j = byte_at fs n j"
      using W by1 lebc unfolding written_def by (metis add.right_neutral less_le_trans mult_le_mono1)
  qed
  have geom: "geometry fs' = geometry fs1" "geometry fs1 = geometry fs" using WI(3) G by (auto simp: grown_def)
  have area: "in_area fs' c = in_area fs c" "in_area fs1 c = in_area fs c" for c
    using geo_cong(2) geom by metis+
  have tot: "g_total ?fs2 = g_total fs" using geom by (simp add: geometry_def set_fd_def)
  have "no_space fs' n2" if "k < length bytes"
  proof -
    have "no_space fs1 n1" using W that by (simp add: written_def)
    then show ?thesis using WI(6) tot n2(2) area by (auto simp: no_space_def in_area_def)
  qed
  moreover have "block_read fs' c = block_read fs c" if "in_area fs c" "bitmap_get fs c" "c \<noteq> ino" "c \<notin> blocks_of n" for c
    using WI(5) [OF that(3)] that G by (simp add: grown_def)
  moreover have "g_fds fs' = (g_fds fs)(nat fd := (g_fds fs (nat fd))\<lparr>f_offset := of_nat (unat ofs + k)\<rparr>)"
    using WI(4) G by (simp add: grown_def)
  ultimately show ?thesis
    using that [of k n2] kl kd content WI(1,2) r by (simp add: o'_def ofs_def to_int_small)
qed

section \<open>A fresh file system\<close>

lemma unat_div_block: "unat ((c :: u64) div 8 div XFS_BLOCK_SIZE) = unat c div 32768"
  by (simp add: unat_div div_mult2_eq [symmetric])

lemma unat_of_nat_below: "i < unat (w :: u64) \<Longrightarrow> unat (of_nat i :: u64) = i" "i < unat w \<Longrightarrow> of_nat i < w"
proof -
  show u: "i < unat w \<Longrightarrow> unat (of_nat i :: u64) = i" by (metis le_unat_uoi less_imp_le)
  then show "i < unat w \<Longrightarrow> of_nat i < w" by (simp add: word_less_nat_alt)
qed

lemma fold_block_write:
  assumes "g_dev fs" "\<forall>i \<in> set is. i < unat (dev_blocks fs)"
  shows "block_read (fold (\<lambda>i. block_write (of_nat i) b) is fs) c = (if unat c \<in> set is then b else block_read fs c) \<and>
    geometry (fold (\<lambda>i. block_write (of_nat i) b) is fs) = geometry fs \<and> g_fds (fold (\<lambda>i. block_write (of_nat i) b) is fs) = g_fds fs"
  using assms
proof (induction "is" arbitrary: fs)
  case (Cons i "is")
  have i: "unat (of_nat i :: u64) = i" "of_nat i < dev_blocks fs"
    using Cons.prems by (auto intro: unat_of_nat_below)
  have "c = of_nat i \<longleftrightarrow> unat c = i" using i(1) by auto
  with Cons i show ?case by (auto simp: block_read_write)
qed simp

lemma fold_bitmap_set:
  assumes "geo_ok fs" "\<forall>b \<in> set bs. b < unat (g_total fs)" "fs' = fold (\<lambda>b. bitmap_set (of_nat b) True) bs fs"
  shows "geometry fs' = geometry fs \<and> (c < g_total fs \<longrightarrow> (bitmap_get fs' c \<longleftrightarrow> unat c \<in> set bs \<or> bitmap_get fs c)) \<and>
    (g_data_start fs \<le> c \<or> c = 0 \<longrightarrow> block_read fs' c = block_read fs c)"
  using assms
proof (induction bs arbitrary: fs)
  case (Cons b bs)
  let ?f = "bitmap_set (of_nat b) True fs"
  have i: "unat (of_nat b :: u64) = b" "of_nat b < g_total fs"
    using unat_of_nat_below [of b "g_total fs"] Cons.prems(2) by simp_all
  have g: "geo_ok ?f" "g_total ?f = g_total fs" "g_data_start ?f = g_data_start fs"
    using geo_cong(1) [of ?f fs] bitmap_set_simps(1) [of "of_nat b" True fs] Cons.prems(1) by (auto simp: geometry_def)
  have eq: "c = of_nat b \<longleftrightarrow> unat c = b" using i(1) by auto
  have z: "block_read ?f 0 = block_read fs 0"
  proof -
    have "unat (1 + of_nat b div 8 div XFS_BLOCK_SIZE :: u64) \<noteq> 0"
      using Cons.prems(1) i(1) by (auto simp: unat_word_ariths unat_div_block)
    then have "1 + of_nat b div 8 div XFS_BLOCK_SIZE \<noteq> (0 :: u64)" by (metis unat_0)
    moreover have "1 + of_nat b div 8 div XFS_BLOCK_SIZE < dev_blocks fs" "g_dev fs"
      using geo_block [OF Cons.prems(1)] i(2) by auto
    ultimately show ?thesis by (simp add: bitmap_set_def Let_def block_read_write)
  qed
  show ?case
    using Cons.IH [OF g(1)] Cons.prems i eq g z
    by (auto simp: bitmap_get_set [OF Cons.prems(1) i(2)] bitmap_set_area [OF Cons.prems(1) i(2)])
qed simp

lemma get32_eqI_all: "(\<And>k. k < 4 \<Longrightarrow> b (i + k) = byte_of v k) \<Longrightarrow> get32 b i = v"
proof -
  assume a: "\<And>k. k < 4 \<Longrightarrow> b (i + k) = byte_of v k"
  show ?thesis using a [of 0] a [of 1] a [of 2] a [of 3] by (intro get32_eqI) simp_all
qed

lemma byte_of_halves:
  fixes v :: u64
  assumes "k < 4"
  shows "byte_of (ucast v :: u32) k = byte_of v k" "byte_of (drop_bit 32 v) k = byte_of v (4 + k)"
  using assms by (auto intro!: bit_word_eqI simp: byte_of_def bit_simps algebra_simps)

lemma get64_eqI:
  assumes "\<And>k. k < 8 \<Longrightarrow> b (i + k) = byte_of (v :: u64) k"
  shows "get64 b i = v"
proof -
  have lo: "get32 b i = ucast v" and hi: "get32 b (i + 4) = ucast (drop_bit 32 v)"
    by (rule get32_eqI_all; simp add: assms byte_of_halves add.assoc)+
  show ?thesis unfolding get64_def lo hi by (rule bit_word_eqI) (auto simp: bit_simps)
qed

lemma super_bytes_get:
  "get32 (super_bytes fs) 0 = XFS_MAGIC" "get64 (super_bytes fs) 8 = g_total fs" "get64 (super_bytes fs) 24 = g_root_block fs"
  "get64 (super_bytes fs) 32 = g_bitmap_blocks fs" "get64 (super_bytes fs) 40 = g_data_start fs"
  by (rule get32_eqI_all get64_eqI; simp add: super_bytes_def put_bytes_simp)+

lemma format_geometry:
  fixes tot :: u64
  assumes "4 \<le> tot" "tot < 0x100000000"
  defines "bm \<equiv> (tot + 8 * XFS_BLOCK_SIZE - 1) div (8 * XFS_BLOCK_SIZE)"
  shows "\<not> bm < 1" "unat bm = (unat tot + 32767) div 32768" "1 + bm + 2 \<le> tot" "unat (1 + bm) = 1 + unat bm"
    "unat (1 + bm + 2) = 3 + unat bm"
    "c < tot \<Longrightarrow> 1 + c div 8 div XFS_BLOCK_SIZE < 1 + bm"
proof -
  have t: "4 \<le> unat tot" "unat tot < 4294967296" using assms by (simp_all add: word_le_nat_alt word_less_nat_alt)
  have "unat (tot + 8 * XFS_BLOCK_SIZE - 1) = unat tot + 32767"
    using t by (simp add: unat_word_ariths unat_sub_if_size)
  then show u: "unat bm = (unat tot + 32767) div 32768" by (simp add: bm_def unat_div)
  have q: "unat bm * 32768 \<le> unat tot + 32767" "unat tot + 32767 < (unat bm + 1) * 32768"
    unfolding u using dividend_less_times_div [of 32768 "unat tot + 32767"] by simp_all
  have le: "1 \<le> unat bm" "unat bm + 3 \<le> unat tot" "unat bm \<le> 131072" using t q by simp_all
  show "\<not> bm < 1" using le(1) by (simp add: word_less_nat_alt)
  show b1: "unat (1 + bm) = 1 + unat bm" and b2: "unat (1 + bm + 2) = 3 + unat bm" using le(3) by (simp_all add: unat_word_ariths)
  show "1 + bm + 2 \<le> tot" using le(2) b2 by (simp add: word_le_nat_alt)
  assume "c < tot"
  then have c: "unat c < unat tot" by (simp add: word_less_nat_alt)
  then have "unat (1 + c div 8 div XFS_BLOCK_SIZE) = 1 + unat c div 32768" using t by (simp add: unat_word_ariths unat_div_block)
  moreover have "unat c div 32768 < unat bm" by (rule less_mult_imp_div_less) (use c q(2) in simp)
  ultimately show "1 + c div 8 div XFS_BLOCK_SIZE < 1 + bm" using b1 by (simp add: word_less_nat_alt)
qed

lemma xfs_format_spec:
  assumes t: "4 \<le> tot" "tot < 0x100000000" and run: "xfs_format (Some (tot, d)) fs = (ok, fs')"
  shows "ok \<and> geo_ok fs' \<and> g_total fs' = tot \<and> dev_blocks fs' = tot \<and> g_root_block fs' = g_data_start fs' \<and>
    disk fs' 0 = super_bytes fs' \<and> read_inode fs' (g_root_block fs') = root_inode (g_root_block fs') \<and>
    block_read fs' (g_root_block fs' + 1) = (\<lambda>_. 0) \<and>
    (\<forall>c < tot. bitmap_get fs' c \<longleftrightarrow> c < g_data_start fs' + 2) \<and> g_data_start fs' < tot \<and> g_data_start fs' + 1 < tot"
proof -
  define bm where "bm = (tot + 8 * XFS_BLOCK_SIZE - 1) div (8 * XFS_BLOCK_SIZE)"
  note G = format_geometry [OF t, folded bm_def]
  define fs0 where "fs0 = fs\<lparr>g_dev := True, disk := d, dev_blocks := tot, g_total := tot,
      g_bitmap_blocks := bm, g_data_start := 1 + bm, g_root_block := 1 + bm\<rparr>"
  define fs1 where "fs1 = fold (\<lambda>i. block_write (of_nat i) (\<lambda>_. 0)) [1..<unat tot] fs0"
  define fs2 where "fs2 = block_write 0 (super_bytes fs1) fs1"
  define fs3 where "fs3 = fold (\<lambda>b. bitmap_set (of_nat b) True) [0..<unat (1 + bm + 2)] fs2"
  have F1: "block_read fs1 c = (if unat c \<in> set [1..<unat tot] then (\<lambda>_. 0) else block_read fs0 c)" "geometry fs1 = geometry fs0" for c
    using fold_block_write [of fs0 "[1..<unat tot]" "\<lambda>_. 0" c] unfolding fs1_def by (auto simp: fs0_def)
  have g1: "g_dev fs1" "dev_blocks fs1 = tot" using F1(2) by (simp_all add: geometry_def fs0_def)
  have t0: "0 < tot" using t(1) by (auto simp: word_le_nat_alt word_less_nat_alt)
  have geom: "geometry fs2 = geometry fs0" using F1(2) by (simp add: fs2_def)
  then have g2: "g_dev fs2" "dev_blocks fs2 = tot" "g_total fs2 = tot" "g_bitmap_blocks fs2 = bm" "g_data_start fs2 = 1 + bm" "g_root_block fs2 = 1 + bm"
    by (simp_all add: geometry_def fs0_def)
  have le: "1 + bm + 2 \<le> tot" "1 + bm \<le> tot" "1 \<le> 1 + bm" using G(3-5) by (auto simp: word_le_nat_alt)
  have geo2: "geo_ok fs2" using g2 t le G(6) by (simp add: geo_ok_def)
  have bs: "\<forall>b \<in> set [0..<unat (1 + bm + 2)]. b < unat (g_total fs2)" using le(1) g2(3) by (auto simp: word_le_nat_alt)
  note F3 = fold_bitmap_set [OF geo2 bs fs3_def]
  have geom3: "geometry fs3 = geometry fs2" using F3 by blast
  then have g3: "g_dev fs3" "dev_blocks fs3 = tot" "g_total fs3 = tot" "g_data_start fs3 = 1 + bm" "g_root_block fs3 = 1 + bm"
    "g_bitmap_blocks fs3 = bm" "geo_ok fs3"
    using g2 geo2 geo_cong(1) [of fs3 fs2] by (auto simp: geometry_def)
  have sb: "super_bytes fs3 = super_bytes fs1"
    using geom geom3 F1(2) by (simp add: super_bytes_def geometry_def)
  have fs': "fs' = block_write (1 + bm) (encode_inode (root_inode (1 + bm)) (\<lambda>_. 0)) fs3" and ok: ok
    using run [unfolded xfs_format_def option.case prod.case Let_def, folded bm_def, unfolded if_not_P [OF G(1)], folded fs0_def,
        folded fs1_def, folded fs2_def, unfolded g2(5), folded fs3_def, unfolded g3(5) prod.inject] by simp_all
  have lt: "1 + bm < tot" "1 + bm + 1 < tot" "1 + bm \<noteq> 0" "1 + bm + 1 \<noteq> 1 + bm" "1 + bm \<le> 1 + bm + 1"
  proof -
    have "unat (1 + bm + 1) = 2 + unat bm" using G(3-5) by (simp add: unat_word_ariths)
    then show "1 + bm < tot" "1 + bm + 1 < tot" "1 + bm \<noteq> 0" "1 + bm + 1 \<noteq> 1 + bm" "1 + bm \<le> 1 + bm + 1"
      using G(3-5) by (auto simp: word_le_nat_alt word_less_nat_alt word_unat_eq_iff)
  qed
  have rd: "block_read fs' c = (if c = 1 + bm then encode_inode (root_inode (1 + bm)) (\<lambda>_. 0) else block_read fs3 c)" for c
    using lt(1) g3 by (simp add: fs' block_read_write)
  have rd2: "block_read fs2 c = (\<lambda>_. 0)" if "c \<noteq> 0" "c < tot" for c
  proof -
    have "unat c \<in> set [1..<unat tot]" using that by (simp add: word_less_nat_alt unat_gt_0 Suc_le_eq)
    then have "block_read fs1 c = (\<lambda>_. 0)" using F1(1) by simp
    then show ?thesis using that g1 t0 by (simp add: fs2_def block_read_write)
  qed
  have "block_read fs3 0 = super_bytes fs1" using F3 [of 0] g1 t0 by (simp add: fs2_def block_read_write)
  then have d0: "disk fs' 0 = super_bytes fs3" using rd [of 0] lt(1,3) g3(1,2) t0 by (auto simp: sb fs' block_read_def block_write_def)
  have z: "block_read fs3 (1 + bm + 1) = (\<lambda>_. 0)"
  proof -
    have "1 + bm + 1 \<noteq> 0" using lt(5) lt(3) by auto
    then show ?thesis using F3 [of "1 + bm + 1"] lt g2 rd2 by simp
  qed
  have bm3: "bitmap_get fs3 c \<longleftrightarrow> c < 1 + bm + 2" if c: "c < tot" for c
  proof -
    have "1 + c div 8 div XFS_BLOCK_SIZE < tot" "1 + c div 8 div XFS_BLOCK_SIZE \<noteq> 0"
      using less_le_trans [OF G(6) [OF c] le(2)] t c unat_div_block [of c]
      by (auto simp: word_unat_eq_iff unat_word_ariths word_less_nat_alt)
    then have "\<not> bitmap_get fs2 c" using rd2 by (simp add: bitmap_get_iff)
    then show ?thesis using F3 [of c] g2 c by (auto simp: word_less_nat_alt simp del: upt_rec_numeral)
  qed
  have area: "in_area fs3 (1 + bm)" using g3 lt by (simp add: in_area_def)
  have bm': "bitmap_get fs' c \<longleftrightarrow> c < 1 + bm + 2" if "c < tot" for c
    using bitmap_get_write [OF g3(7) _ area, of c] bm3 [OF that] that g3 by (simp add: fs')
  have root: "read_inode fs' (1 + bm) = root_inode (1 + bm)"
    using rd decode_encode [of "root_inode (1 + bm)"] by (simp add: read_inode_def wf_inode_def root_inode_def zero_inode_def)
  have geom': "geometry fs' = geometry fs3" by (simp add: fs')
  then have g': "geo_ok fs'" "g_total fs' = tot" "dev_blocks fs' = tot" "g_root_block fs' = 1 + bm" "g_data_start fs' = 1 + bm" "super_bytes fs' = super_bytes fs3"
    using g3 geo_cong(1) [OF geom'] by (auto simp: geometry_def super_bytes_def)
  show ?thesis using ok d0 root rd [of "1 + bm + 1"] lt z bm' unfolding g' by (auto simp: g')
qed

section \<open>Properties\<close>

lemma other_file_kept:
  assumes f: "file_ok fs ino2 n2" and same: "\<And>c. in_area fs c \<Longrightarrow> bitmap_get fs c \<Longrightarrow> c \<noteq> ino \<Longrightarrow> c \<notin> blocks_of n \<Longrightarrow> block_read fs' c = block_read fs c"
    and d: "ino2 \<noteq> ino" "ino2 \<notin> blocks_of n" "ino \<notin> blocks_of n2" "blocks_of n \<inter> blocks_of n2 = {}"
  shows "read_inode fs' ino2 = read_inode fs ino2" "content fs' n2 = content fs n2"
proof -
  show "read_inode fs' ino2 = read_inode fs ino2"
    using same [of ino2] f d by (simp add: read_inode_def file_ok_def)
  have "byte_at fs' n2 j = byte_at fs n2 j" if "j < unat (i_size n2)" for j
  proof -
    have k: "j div XFS_BLOCK_SIZE < unat (i_block_count n2)"
      using that f by (intro div_less_block) (simp add: file_ok_def)
    then have "data_lba n2 (j div XFS_BLOCK_SIZE) \<in> blocks_of n2" by (simp add: blocks_of_def)
    then have "data_lba n2 (j div XFS_BLOCK_SIZE) \<noteq> ino" "data_lba n2 (j div XFS_BLOCK_SIZE) \<notin> blocks_of n" using d by auto
    moreover have "in_area fs (data_lba n2 (j div XFS_BLOCK_SIZE))" "bitmap_get fs (data_lba n2 (j div XFS_BLOCK_SIZE))"
      using f k by (simp_all add: file_ok_def)
    ultimately show ?thesis using same by (simp add: byte_at_def)
  qed
  then show "content fs' n2 = content fs n2" by (simp add: content_def)
qed


text \<open>A file system of 16 blocks with a file of two bytes: inode in block 4, data in block 5, open as descriptor 0 of
  process 7.\<close>

definition ex_inode :: xfs_inode where
  "ex_inode = zero_inode\<lparr>i_size := 2, i_block_count := 1, i_data_blocks := (\<lambda>_. 0)(0 := 5)\<rparr>"

definition ex_fs :: xfs where
  "ex_fs = \<lparr>disk = (\<lambda>_ _. 0)(1 := (\<lambda>_. 0)(0 := 0x3F), 4 := encode_inode ex_inode (\<lambda>_. 0), 5 := (\<lambda>_. 0)(0 := 9, 1 := 8)), dev_blocks = 16, g_dev = True,
     g_total = 16, g_bitmap_blocks = 1, g_data_start = 2, g_root_block = 2,
     g_fds = (\<lambda>_. zero_fd)(0 := \<lparr>f_pid = 7, f_inode_block = 4, f_offset = 0, f_flags = 2, f_used = True\<rparr>),
     stale = (\<lambda>_. 0), stray = (\<lambda>_. 0)\<rparr>"

lemma ex_fs_file: "read_inode ex_fs 4 = ex_inode" "file_ok ex_fs 4 ex_inode" "content ex_fs ex_inode = [9, 8]"
proof -
  have wf: "wf_inode ex_inode" by (simp add: wf_inode_def ex_inode_def zero_inode_def)
  show "read_inode ex_fs 4 = ex_inode"
    using decode_encode [OF wf] by (simp add: read_inode_def block_read_def ex_fs_def)
  have "content ex_fs ex_inode = map (byte_at ex_fs ex_inode) [0, 1]"
    by (simp add: content_def ex_inode_def zero_inode_def upt_rec)
  also have "\<dots> = [9, 8]"
    by (simp add: byte_at_def data_lba_def ex_inode_def) (simp add: block_read_def ex_fs_def)
  finally show "content ex_fs ex_inode = [9, 8]" .
  have "c div 8 div 4096 = 0" if "c < 16" for c :: u64
    using that unat_div_block [of c] by (simp add: word_unat_eq_iff word_less_nat_alt)
  then have geo: "geo_ok ex_fs" by (auto simp: geo_ok_def ex_fs_def)
  have "bitmap_get ex_fs 4" "bitmap_get ex_fs 5" by (simp_all add: bitmap_get_def block_read_def ex_fs_def)
  then show "file_ok ex_fs 4 ex_inode" using geo wf
    by (simp add: file_ok_def ex_inode_def zero_inode_def data_lba_def in_area_def inj_on_def) (simp add: ex_fs_def)
qed


text \<open>C24: reading \<open>count > 0\<close> bytes returns exactly the next bytes of the file, at most \<open>count\<close> of them and none past
  its end, and moves the position of the descriptor by their number; nothing else changes.\<close>

theorem xfs_read_content:
  assumes "fd_valid fd" "fd_owned fs fd pid" "ino = ucast (f_inode_block (g_fds fs (nat fd)))" "n = read_inode fs ino"
    and "file_ok fs ino n" "0 < count"
    and "bs = take count (drop (unat (f_offset (g_fds fs (nat fd)))) (content fs n))"
  shows "xfs_read fd True count pid fs = (int (length bs), bs, set_fd (nat fd) (\<lambda>f. f\<lparr>f_offset := f_offset f + of_nat (length bs)\<rparr>) fs)"
  using xfs_read_spec [OF assms(1,2,5,4,3,6)] assms(7) by simp

theorem xfs_read_content_witness:
  "fst (xfs_read 0 True 10 7 ex_fs) = 2 \<and> fst (snd (xfs_read 0 True 10 7 ex_fs)) = [9, 8]"
proof -
  have fd: "fd_valid 0" "fd_owned ex_fs 0 7" "f_inode_block (g_fds ex_fs 0) = 4" "f_offset (g_fds ex_fs 0) = 0"
    by (simp_all add: fd_valid_def fd_owned_def ex_fs_def)
  show ?thesis
    using xfs_read_content [OF fd(1,2), of 4 ex_inode 10 "[9, 8]"] by (simp add: fd ex_fs_file)
qed

lemma format_mount_spec:
  assumes "4 \<le> tot" "tot < 0x100000000" "xfs_format (Some (tot, d)) fs = (ok, fs1)"
    and "xfs_mount (Some (tot, disk fs1)) fs2 = (ok2, fs3)"
  shows "ok \<and> ok2 \<and> geo_ok fs3 \<and> g_total fs3 = tot \<and> g_root_block fs3 = g_data_start fs3 \<and>
    (\<forall>c < tot. bitmap_get fs3 c \<longleftrightarrow> c < g_data_start fs3 + 2) \<and>
    fst (resolve_path fs3 (Some [slash])) = g_root_block fs3 \<and>
    (\<forall>name. lookup_component fs3 (read_inode fs3 (g_root_block fs3)) name = None) \<and>
    g_fds fs3 = (\<lambda>_. zero_fd) \<and> g_root_block fs3 \<noteq> 0"
proof -
  note F = xfs_format_spec [OF assms(1-3)]
  have t0: "0 < tot" using assms(1) by (auto simp: word_le_nat_alt word_less_nat_alt)
  have dev1: "g_dev fs1" using F by (simp add: geo_ok_def)
  have fs3: "fs3 = fs2\<lparr>g_dev := True, disk := disk fs1, dev_blocks := tot, g_total := tot, g_bitmap_blocks := g_bitmap_blocks fs1,
      g_data_start := g_data_start fs1, g_root_block := g_root_block fs1, g_fds := (\<lambda>_. zero_fd)\<rparr>" and ok2
    using assms(4) F t0 by (auto simp: xfs_mount_def super_bytes_get)
  have rd: "block_read fs3 c = block_read fs1 c" if "c < tot" for c
    using that F dev1 by (simp add: block_read_def fs3)
  have geo3: "geo_ok fs3" using F by (auto simp: geo_ok_def fs3)
  let ?r = "g_root_block fs1"
  have lt: "?r < tot" "?r + 1 < tot" "?r \<noteq> 0" using F by (auto simp: geo_ok_def)
  have root: "read_inode fs3 ?r = root_inode ?r" using F rd [OF lt(1)] by (auto simp: read_inode_def)
  have "ucast (ucast (?r + 1) :: u32) = ?r + 1" by (rule ucast_ucast_32) (use lt(2) assms(2) in auto)
  then have "ent_inode (block_read fs3 (ucast (data_block fs3 (root_inode ?r) 0))) dd = 0" for dd
  proof -
    have "block_read fs3 (?r + 1) = (\<lambda>_. 0)" using F rd [OF lt(2)] by auto
    then show ?thesis using \<open>ucast (ucast (?r + 1) :: u32) = ?r + 1\<close> by (simp add: data_block_def root_inode_def ent_inode_def get32_def)
  qed
  then have "lookup_component fs3 (root_inode ?r) name = None" for name
    by (auto simp: lookup_component_def find_None_iff dir_slots_def Let_def root_inode_def)
  moreover have "i_flags (root_inode ?r) AND 1 \<noteq> 0" by (simp add: root_inode_def)
  moreover have "bitmap_get fs3 c = bitmap_get fs1 c" if "c < tot" for c
  proof -
    have "1 + c div 8 div XFS_BLOCK_SIZE < tot" using geo_block(3) [OF geo3, of c] that by (simp add: fs3)
    then show ?thesis using rd by (simp add: bitmap_get_iff)
  qed
  ultimately show ?thesis using F geo3 \<open>ok2\<close> root lt(3) by (simp add: fs3 resolve_path_def Let_def)
qed

text \<open>C25: a device of at least four and fewer than \<open>2 ^ 32\<close> blocks that has been formatted can be mounted, in any
  kernel state. The mounted geometry is the one formatted; exactly the superblock, the bitmap, the root inode
  and the root's data block are allocated; the root is a directory without entries, so every lookup in it fails.\<close>

theorem xfs_format_mount:
  assumes "4 \<le> tot" "tot < 0x100000000" "xfs_format (Some (tot, d)) fs = (ok, fs1)"
    and "xfs_mount (Some (tot, disk fs1)) fs2 = (ok2, fs3)"
  shows "ok \<and> ok2 \<and> geo_ok fs3 \<and> g_total fs3 = tot \<and> g_root_block fs3 = g_data_start fs3 \<and>
    (\<forall>c < tot. bitmap_get fs3 c \<longleftrightarrow> c < g_data_start fs3 + 2) \<and>
    fst (resolve_path fs3 (Some [slash])) = g_root_block fs3 \<and>
    (\<forall>name. lookup_component fs3 (read_inode fs3 (g_root_block fs3)) name = None)"
  using format_mount_spec [OF assms] by blast

theorem xfs_format_mount_witness:
  "\<exists>fs1 fs3. xfs_format (Some (16, \<lambda>_ _. 0)) ex_fs = (True, fs1) \<and> xfs_mount (Some (16, disk fs1)) ex_fs = (True, fs3) \<and> geo_ok fs3"
proof -
  obtain ok fs1 where f: "xfs_format (Some (16, \<lambda>_ _. 0)) ex_fs = (ok, fs1)" by fastforce
  obtain ok2 fs3 where m: "xfs_mount (Some (16, disk fs1)) ex_fs = (ok2, fs3)" by fastforce
  show ?thesis using xfs_format_mount [OF _ _ f m] f m by simp
qed

lemma create_node_fds: "g_fds (snd (create_node dir name flags fs)) = g_fds fs"
proof -
  have al: "g_fds (snd (alloc_block fs)) = g_fds fs" for fs by (simp add: alloc_block_def split: option.splits)
  have fr: "g_fds (free_block b fs) = g_fds fs" for b fs by (simp add: free_block_def)
  have wr: "g_fds (write_inode b n fs) = g_fds fs" for b n fs by (simp add: write_inode_def)
  have ad: "add_dirent dir name ino flags fs = Some fs' \<Longrightarrow> g_fds fs' = g_fds fs" for ino fs fs'
    by (auto simp: add_dirent_def Let_def split: option.splits)
  show ?thesis
    using al [of fs] al [of "snd (alloc_block fs)"]
    by (auto simp: create_node_def Let_def fr wr split: prod.splits option.splits dest!: ad)
qed

text \<open>C40: \<open>xfs_open\<close> either fails with \<open>-1\<close> and leaves the descriptor table alone, or returns the lowest free descriptor,
  below 32, which then belongs to the caller with position 0 and the flags given; no other descriptor changes.\<close>

theorem xfs_open_descriptor:
  assumes "xfs_open path flags pid fs = (r, fs')"
  shows "- 1 \<le> r \<and> r < int XFS_MAX_FDS \<and>
    (r = - 1 \<longrightarrow> g_fds fs' = g_fds fs) \<and>
    (r \<noteq> - 1 \<longrightarrow> \<not> f_used (g_fds fs (nat r)) \<and> (\<forall>i < nat r. f_used (g_fds fs i)) \<and> fd_owned fs' r pid \<and>
       f_offset (g_fds fs' (nat r)) = 0 \<and> f_flags (g_fds fs' (nat r)) = flags \<and> (\<forall>i. i \<noteq> nat r \<longrightarrow> g_fds fs' i = g_fds fs i))"
proof -
  have op: "- 1 \<le> r \<and> r < int XFS_MAX_FDS \<and> (r = - 1 \<longrightarrow> g_fds fs' = g_fds fs0) \<and>
    (r \<noteq> - 1 \<longrightarrow> \<not> f_used (g_fds fs0 (nat r)) \<and> (\<forall>i < nat r. f_used (g_fds fs0 i)) \<and> fd_owned fs' r pid \<and>
       f_offset (g_fds fs' (nat r)) = 0 \<and> f_flags (g_fds fs' (nat r)) = flags \<and> (\<forall>i. i \<noteq> nat r \<longrightarrow> g_fds fs' i = g_fds fs0 i))"
    if "open_fd ino flags pid fs0 = (r, fs')" for ino fs0
  proof (cases "find (\<lambda>i. \<not> f_used (g_fds fs0 i)) [0..<XFS_MAX_FDS]")
    case None
    with that show ?thesis by (simp add: open_fd_def del: upt_rec_numeral)
  next
    case (Some i)
    note F = find_upt_SomeD [OF Some]
    with Some that show ?thesis by (auto simp: open_fd_def fd_owned_def simp del: upt_rec_numeral)
  qed
  have "(r = - 1 \<and> g_fds fs' = g_fds fs) \<or> (\<exists>ino fs0. open_fd ino flags pid fs0 = (r, fs') \<and> g_fds fs0 = g_fds fs)"
  proof -
    obtain new fs1 where cr: "create_node (parent_block fs (the path)) (base_name (the path)) 0 fs = (new, fs1)" by fastforce
    then have "g_fds fs1 = g_fds fs" using create_node_fds by (metis snd_conv)
    then show ?thesis using assms cr
      by (auto simp: xfs_open_def Let_def split: option.splits list.splits if_splits)
  qed
  then show ?thesis
  proof
    assume "\<exists>ino fs0. open_fd ino flags pid fs0 = (r, fs') \<and> g_fds fs0 = g_fds fs"
    then obtain ino fs0 where "open_fd ino flags pid fs0 = (r, fs')" "g_fds fs0 = g_fds fs" by blast
    with op show ?thesis by metis
  qed simp
qed

theorem xfs_open_descriptor_witness:
  "\<exists>fs fs'. xfs_open (Some [slash]) 2 9 fs = (0, fs') \<and> fd_owned fs' 0 9"
proof -
  obtain ok fs1 where f: "xfs_format (Some (16, \<lambda>_ _. 0)) ex_fs = (ok, fs1)" by fastforce
  obtain ok2 fs where m: "xfs_mount (Some (16, disk fs1)) ex_fs = (ok2, fs)" by fastforce
  have "fst (resolve_path fs (Some [slash])) \<noteq> 0" "g_fds fs = (\<lambda>_. zero_fd)"
    using format_mount_spec [OF _ _ f m] by auto
  then have "fst (xfs_open (Some [slash]) 2 9 fs) = 0"
    by (simp add: xfs_open_def open_fd_def zero_fd_def Let_def upt_rec [of 0])
  then obtain fs' where run: "xfs_open (Some [slash]) 2 9 fs = (0, fs')" by (metis prod.collapse)
  then show ?thesis using xfs_open_descriptor [OF run] by auto
qed

end
