(* ===== verification/Console.thy ===== *)
theory Console
  imports Ring
begin

text \<open>
  Kernel output: the log ring (\<^verbatim>\<open>src/kernel/lib/msgbuf.c\<close>), the serial line
  (\<^verbatim>\<open>src/kernel/arch/x86_64/serial.c\<close>, as the bytes handed to the port) and the formatted printing
  of \<^verbatim>\<open>src/kernel/lib/kprintf.c\<close>. Characters are bytes. \<open>kvprintf\<close> takes the arguments as a list; None is
  what C leaves undefined: an argument that is missing or of the wrong kind, and a format that ends inside a
  conversion.
\<close>

section \<open>State\<close>

abbreviation (input) MSGBUF_SIZE :: nat where "MSGBUF_SIZE \<equiv> 16384"

record console =
  g_buf :: "u8 carray"
  g_head :: nat
  g_count :: nat
  g_ready :: bool
  line :: "u8 list"

definition console_boot :: console where
  "console_boot = \<lparr>g_buf = (\<lambda>_. 0), g_head = 0, g_count = 0, g_ready = False, line = []\<rparr>"

section \<open>The log ring\<close>

definition msgbuf_init :: "console \<Rightarrow> console" where
  "msgbuf_init s = s\<lparr>g_head := 0, g_count := 0, g_ready := True\<rparr>"

definition msgbuf_putc :: "u8 \<Rightarrow> console \<Rightarrow> console" where
  "msgbuf_putc c s0 =
     (let s = (if \<not> g_ready s0 then msgbuf_init s0 else s0);
          s1 = s\<lparr>g_buf := (g_buf s)(g_head s := c), g_head := (g_head s + 1) mod MSGBUF_SIZE\<rparr>
      in if g_count s1 < MSGBUF_SIZE then s1\<lparr>g_count := g_count s1 + 1\<rparr> else s1)"

definition msgbuf_write :: "u8 list option \<Rightarrow> console \<Rightarrow> console" where
  "msgbuf_write str s = (case str of None \<Rightarrow> s | Some cs \<Rightarrow> fold msgbuf_putc cs s)"

definition msgbuf_len :: "console \<Rightarrow> nat" where
  "msgbuf_len s = g_count s"

text \<open>\<open>dst\<close> tells whether the destination is not NULL; the result is what is stored there.\<close>

definition msgbuf_copy :: "bool \<Rightarrow> nat \<Rightarrow> console \<Rightarrow> u8 list" where
  "msgbuf_copy dst maxlen s =
     (if \<not> dst \<or> maxlen = 0 \<or> g_count s = 0 then []
      else let n = (if g_count s > maxlen then maxlen else g_count s);
               start = (if g_count s = MSGBUF_SIZE then g_head s else 0)
           in map (\<lambda>i. g_buf s ((start + i) mod MSGBUF_SIZE)) [0..<n])"

section \<open>Characters and strings\<close>

text \<open>The port is taken to become ready; a line feed is preceded by a carriage return.\<close>

definition serial_putc :: "u8 \<Rightarrow> console \<Rightarrow> console" where
  "serial_putc c s = s\<lparr>line := line s @ (if c = 10 then [13, c] else [c])\<rparr>"

definition serial_write :: "u8 list \<Rightarrow> console \<Rightarrow> console" where
  "serial_write cs s = fold serial_putc cs s"

definition cons_putc :: "u8 \<Rightarrow> console \<Rightarrow> console" where
  "cons_putc c s = msgbuf_putc c (serial_putc c s)"

text \<open>\<^verbatim>\<open>"(null)"\<close> and \<^verbatim>\<open>"0x"\<close>.\<close>

definition null_text :: "u8 list" where "null_text = [40, 110, 117, 108, 108, 41]"

definition hex_prefix :: "u8 list" where "hex_prefix = [48, 120]"

definition cons_write :: "u8 list option \<Rightarrow> console \<Rightarrow> console" where
  "cons_write str s = fold cons_putc (case str of None \<Rightarrow> null_text | Some cs \<Rightarrow> cs) s"

definition kputs :: "u8 list option \<Rightarrow> console \<Rightarrow> console" where
  "kputs str s = cons_write str s"

definition kwrite :: "u8 list option \<Rightarrow> console \<Rightarrow> console" where
  "kwrite str s =
     (case str of
        None \<Rightarrow> s
      | Some cs \<Rightarrow> if cs = [] then s else fold cons_putc (takeWhile (\<lambda>c. c \<noteq> 0) cs) s)"

section \<open>Numbers\<close>

definition digit_char :: "bool \<Rightarrow> u64 \<Rightarrow> u8" where
  "digit_char upper d = (if d < 10 then 48 + ucast d else if upper then 55 + ucast d else 87 + ucast d)"

text \<open>The buffer filled by the loop of \<open>put_uint\<close>, least digit first. The callers pass base 10 or 16.\<close>

function digit_loop :: "bool \<Rightarrow> u64 \<Rightarrow> u64 \<Rightarrow> u8 list \<Rightarrow> u8 list" where
  "digit_loop upper base v buf =
     (if v = 0 \<or> base < 2 then buf else digit_loop upper base (v div base) (buf @ [digit_char upper (v mod base)]))"
  by pat_completeness auto
termination
proof (relation "measure (\<lambda>(upper, base, v, buf). unat v)")
  fix upper :: bool and base v :: u64 and buf :: "u8 list"
  assume "\<not> (v = 0 \<or> base < 2)"
  then have "0 < unat v" "2 \<le> unat base" by (auto simp: word_less_nat_alt unat_gt_0)
  then have "unat v div unat base < unat v" by (intro div_less_dividend) auto
  then show "((upper, base, v div base, buf @ [digit_char upper (v mod base)]), upper, base, v, buf) \<in> measure (\<lambda>(upper, base, v, buf). unat v)"
    by (simp add: unat_div)
qed simp

declare digit_loop.simps [simp del]

definition uint_chars :: "u64 \<Rightarrow> u64 \<Rightarrow> bool \<Rightarrow> u8 list" where
  "uint_chars v base upper = rev (digit_loop upper base v (if v = 0 then [48] else []))"

definition put_uint :: "u64 \<Rightarrow> u64 \<Rightarrow> bool \<Rightarrow> console \<Rightarrow> console" where
  "put_uint v base upper s = fold cons_putc (uint_chars v base upper) s"

definition put_int :: "u64 \<Rightarrow> console \<Rightarrow> console" where
  "put_int v s = (if v <s 0 then put_uint (- v) 10 False (cons_putc 45 s) else put_uint v 10 False s)"

section \<open>Formats\<close>

datatype varg = VInt u64 | VStr "u8 list option"

text \<open>One conversion, by its letter; \<^verbatim>\<open>islong\<close> selects 64 bits.\<close>

definition convert :: "u8 \<Rightarrow> bool \<Rightarrow> varg list \<Rightarrow> console \<Rightarrow> (varg list \<times> console) option" where
  "convert d islong args s =
     (if d = 99 then (case args of VInt w # as \<Rightarrow> Some (as, cons_putc (ucast w) s) | _ \<Rightarrow> None)
      else if d = 115 then (case args of VStr str # as \<Rightarrow> Some (as, cons_write str s) | _ \<Rightarrow> None)
      else if d = 100 \<or> d = 105 then
        (case args of VInt w # as \<Rightarrow> Some (as, put_int (if islong then w else scast (ucast w :: u32)) s) | _ \<Rightarrow> None)
      else if d = 117 then
        (case args of VInt w # as \<Rightarrow> Some (as, put_uint (if islong then w else ucast (ucast w :: u32)) 10 False s) | _ \<Rightarrow> None)
      else if d = 120 then
        (case args of VInt w # as \<Rightarrow> Some (as, put_uint (if islong then w else ucast (ucast w :: u32)) 16 False s) | _ \<Rightarrow> None)
      else if d = 88 then
        (case args of VInt w # as \<Rightarrow> Some (as, put_uint (if islong then w else ucast (ucast w :: u32)) 16 True s) | _ \<Rightarrow> None)
      else if d = 112 then
        (case args of VInt w # as \<Rightarrow> Some (as, put_uint w 16 False (cons_write (Some hex_prefix) s)) | _ \<Rightarrow> None)
      else if d = 37 then Some (args, cons_putc 37 s)
      else Some (args, cons_putc d (cons_putc 37 s)))"

definition skip_flags :: "u8 list \<Rightarrow> u8 list" where
  "skip_flags fmt = dropWhile (\<lambda>c. 48 \<le> c \<and> c \<le> 57) (dropWhile (\<lambda>c. c \<in> {43, 45, 48, 32, 35}) fmt)"

definition skip_long :: "u8 list \<Rightarrow> u8 list" where
  "skip_long fmt = dropWhile (\<lambda>c. c = 108) fmt"

lemma skip_shorter: "length (skip_long (skip_flags fmt)) \<le> length fmt"
  unfolding skip_long_def skip_flags_def
  by (rule order_trans [OF length_dropWhile_le order_trans [OF length_dropWhile_le length_dropWhile_le]])

function kvprintf :: "u8 list \<Rightarrow> varg list \<Rightarrow> console \<Rightarrow> console option" where
  "kvprintf [] args s = Some s"
| "kvprintf (c # fmt) args s =
     (if c \<noteq> 37 then kvprintf fmt args (cons_putc c s)
      else let f = skip_flags fmt in
        case skip_long f of
          [] \<Rightarrow> None
        | d # rest \<Rightarrow>
            (case convert d (f \<noteq> [] \<and> hd f = 108) args s of
               None \<Rightarrow> None
             | Some (args', s') \<Rightarrow> kvprintf rest args' s'))"
  by pat_completeness auto
termination
proof (relation "measure (\<lambda>(fmt, args, s). length fmt)")
  fix c fmt args s x d rest y args' s'
  assume "x = skip_flags fmt" "skip_long x = d # rest"
  then show "((rest, args', s'), c # fmt, args, s) \<in> measure (\<lambda>(fmt, args, s). length fmt)"
    using skip_shorter [of fmt] by simp
qed auto

definition kprintf :: "u8 list \<Rightarrow> varg list \<Rightarrow> console \<Rightarrow> console option" where
  "kprintf fmt args s = kvprintf fmt args s"

text \<open>\<^verbatim>\<open>"\n*** KERNEL PANIC: "\<close> and \<^verbatim>\<open>" ***\n"\<close>; the machine then halts, with this console.\<close>

definition kpanic :: "u8 list \<Rightarrow> varg list \<Rightarrow> console \<Rightarrow> console option" where
  "kpanic fmt args s =
     map_option (serial_write [32, 42, 42, 42, 10])
       (kvprintf fmt args (serial_write [10, 42, 42, 42, 32, 75, 69, 82, 78, 69, 76, 32, 80, 65, 78, 73, 67, 58, 32] s))"

section \<open>What the log holds\<close>

definition log_ok :: "console \<Rightarrow> bool" where
  "log_ok s \<longleftrightarrow> (g_ready s \<longrightarrow> g_head s < MSGBUF_SIZE \<and> g_count s \<le> MSGBUF_SIZE \<and> (g_count s < MSGBUF_SIZE \<longrightarrow> g_head s = g_count s)) \<and>
     (\<not> g_ready s \<longrightarrow> g_count s = 0)"

definition log_text :: "console \<Rightarrow> u8 list" where
  "log_text s = window MSGBUF_SIZE (g_buf s) (if g_count s = MSGBUF_SIZE then g_head s else 0) (g_count s)"

text \<open>The last \<open>n\<close> elements of a list.\<close>

definition last_part :: "nat \<Rightarrow> 'a list \<Rightarrow> 'a list" where
  "last_part n xs = drop (length xs - n) xs"

lemma last_part_snoc: "last_part n (last_part n xs @ ys) = last_part n (xs @ ys)"
proof (cases "length xs \<le> n")
  case True
  then show ?thesis by (simp add: last_part_def)
next
  case False
  define as ds where "as = take (length xs - n) xs" and "ds = drop (length xs - n) xs"
  have xs: "xs = as @ ds" "length ds = n" using False by (auto simp: as_def ds_def)
  have "last_part n (xs @ ys) = drop (length as + length ys) (as @ ds @ ys)" using xs by (simp add: last_part_def)
  also have "\<dots> = drop (length ys) (ds @ ys)" by simp
  finally show ?thesis using xs by (simp add: last_part_def)
qed

lemma msgbuf_putc_log:
  assumes "log_ok s"
  shows "log_ok (msgbuf_putc c s) \<and> log_text (msgbuf_putc c s) = last_part MSGBUF_SIZE (log_text s @ [c])"
proof -
  define s' where "s' = (if \<not> g_ready s then msgbuf_init s else s)"
  have s': "g_ready s'" "g_head s' < MSGBUF_SIZE" "g_count s' \<le> MSGBUF_SIZE" "g_count s' < MSGBUF_SIZE \<longrightarrow> g_head s' = g_count s'" "log_text s' = log_text s"
    using assms by (auto simp: s'_def log_ok_def msgbuf_init_def log_text_def)
  have put: "msgbuf_putc c s = (let s1 = s'\<lparr>g_buf := (g_buf s')(g_head s' := c), g_head := (g_head s' + 1) mod MSGBUF_SIZE\<rparr>
      in if g_count s1 < MSGBUF_SIZE then s1\<lparr>g_count := g_count s1 + 1\<rparr> else s1)"
    by (simp add: msgbuf_putc_def s'_def Let_def)
  show ?thesis
  proof (cases "g_count s' < MSGBUF_SIZE")
    case True
    then have h: "g_head s' = g_count s'" using s' by simp
    have w: "window MSGBUF_SIZE ((g_buf s')(g_count s' := c)) 0 (Suc (g_count s')) = window MSGBUF_SIZE (g_buf s') 0 (g_count s') @ [c]"
      using window_put [OF True, of "g_buf s'" 0 c] True by simp
    have len: "length (log_text s') = g_count s'" by (simp add: log_text_def)
    have "log_text (msgbuf_putc c s) = log_text s' @ [c]"
    proof (cases "Suc (g_count s') = MSGBUF_SIZE")
      case full: True
      then show ?thesis using True w h by (simp add: put Let_def log_text_def)
    next
      case False
      then show ?thesis using True w h by (simp add: put Let_def log_text_def)
    qed
    moreover have "last_part MSGBUF_SIZE (log_text s' @ [c]) = log_text s' @ [c]" using True len by (simp add: last_part_def)
    moreover have "log_ok (msgbuf_putc c s)" using True h s' by (auto simp: put Let_def log_ok_def)
    ultimately show ?thesis using s'(5) by simp
  next
    case False
    then have full: "g_count s' = MSGBUF_SIZE" using s' by simp
    have "log_text (msgbuf_putc c s) = tl (log_text s') @ [c]"
      using full window_overwrite [OF s'(2), of "g_buf s'" c] by (simp add: put Let_def log_text_def)
    moreover have "last_part MSGBUF_SIZE (log_text s' @ [c]) = tl (log_text s') @ [c]"
      using full by (cases "log_text s'") (auto simp: last_part_def log_text_def dest: arg_cong [where f = length])
    moreover have "log_ok (msgbuf_putc c s)" using full s' by (auto simp: put Let_def log_ok_def)
    ultimately show ?thesis using s'(5) by simp
  qed
qed

lemma fold_putc_log:
  "log_ok s \<Longrightarrow> log_ok (fold msgbuf_putc cs s) \<and> log_text (fold msgbuf_putc cs s) = last_part MSGBUF_SIZE (log_text s @ cs)"
proof (induction cs arbitrary: s)
  case Nil
  then have "length (log_text s) \<le> MSGBUF_SIZE" by (cases "g_ready s") (auto simp: log_ok_def log_text_def)
  with Nil show ?case by (simp add: last_part_def)
next
  case (Cons c cs)
  note P = msgbuf_putc_log [OF Cons.prems, of c]
  show ?case using Cons.IH [of "msgbuf_putc c s"] P last_part_snoc [of MSGBUF_SIZE "log_text s @ [c]" cs] by simp
qed

lemma msgbuf_copy_log: "msgbuf_copy True maxlen s = take maxlen (log_text s)"
  by (auto simp: msgbuf_copy_def Let_def log_text_def take_window) (auto simp: window_def)

section \<open>What numbers look like\<close>

definition digit_value :: "u8 \<Rightarrow> nat" where
  "digit_value c = (if c < 58 then unat c - 48 else if c < 71 then unat c - 55 else unat c - 87)"

text \<open>The number a numeral stands for.\<close>

definition numeral_value :: "nat \<Rightarrow> u8 list \<Rightarrow> nat" where
  "numeral_value base cs = foldl (\<lambda>a c. a * base + digit_value c) 0 cs"

lemma digit_value_char: "d < 16 \<Longrightarrow> digit_value (digit_char upper d) = unat d"
proof -
  assume "d < 16"
  then have u: "unat d < 16" by (simp add: word_less_nat_alt)
  have c: "unat (ucast d :: u8) = unat d" using u by (simp add: unsigned_ucast_eq take_bit_nat_eq_self unsigned_take_bit_eq)
  show ?thesis
    using u c by (auto simp: digit_value_def digit_char_def word_less_nat_alt unat_word_ariths)
qed

lemma numeral_value_rev_snoc: "numeral_value base (rev (buf @ [c])) = digit_value c * base ^ length buf + numeral_value base (rev buf)"
proof -
  have "foldl (\<lambda>a c. a * base + digit_value c) x cs = x * base ^ length cs + foldl (\<lambda>a c. a * base + digit_value c) 0 cs" for x cs
  proof (induction cs arbitrary: x)
    case (Cons c cs)
    from Cons [of "x * base + digit_value c"] Cons [of "digit_value c"] show ?case by (simp add: algebra_simps)
  qed simp
  from this [of "digit_value c" "rev buf"] show ?thesis by (simp add: numeral_value_def)
qed

lemma digit_loop_spec:
  assumes "2 \<le> base" "base \<le> 16" "unat v < unat base ^ k"
  shows "numeral_value (unat base) (rev (digit_loop upper base v buf)) = unat v * unat base ^ length buf + numeral_value (unat base) (rev buf) \<and>
    length (digit_loop upper base v buf) \<le> length buf + k"
  using assms
proof (induction k arbitrary: v buf)
  case 0
  then have "v = 0" by (simp add: unat_eq_0)
  then show ?case by (simp add: digit_loop.simps)
next
  case (Suc k)
  show ?case
  proof (cases "v = 0")
    case True
    then show ?thesis by (simp add: digit_loop.simps)
  next
    case False
    let ?b = "unat base" let ?c = "digit_char upper (v mod base)"
    have b: "2 \<le> ?b" "?b \<le> 16" using Suc.prems by (auto simp: word_le_nat_alt)
    have "v mod base < 16" using b by (simp add: word_less_nat_alt unat_mod) (meson less_le_trans mod_less_divisor zero_less_numeral)
    then have c: "digit_value ?c = unat v mod ?b" by (simp add: digit_value_char unat_mod)
    have step: "digit_loop upper base v buf = digit_loop upper base (v div base) (buf @ [?c])"
      using False Suc.prems(1) by (subst digit_loop.simps) auto
    have lt: "unat (v div base) < ?b ^ k"
      using Suc.prems(3) b by (simp add: unat_div less_mult_imp_div_less mult.commute)
    have "unat (v div base) * ?b ^ length (buf @ [?c]) + digit_value ?c * ?b ^ length buf = unat v * ?b ^ length buf"
    proof -
      have "q * b ^ Suc n + m * b ^ n = (q * b + m) * b ^ n" for q b m n :: nat by (simp add: algebra_simps)
      from this [of "unat v div ?b" ?b "length buf" "unat v mod ?b"] show ?thesis unfolding c unat_div div_mult_mod_eq by simp
    qed
    then show ?thesis
      using Suc.IH [OF Suc.prems(1,2) lt, of "buf @ [?c]"] by (simp only: step numeral_value_rev_snoc) simp
  qed
qed

text \<open>What characters other than a line feed add to the serial line.\<close>

lemma msgbuf_putc_line: "line (msgbuf_putc c s) = line s"
  by (simp add: msgbuf_putc_def msgbuf_init_def Let_def)

lemma cons_putc_line: "c \<noteq> 10 \<Longrightarrow> line (cons_putc c s) = line s @ [c]"
  by (simp add: cons_putc_def msgbuf_putc_line serial_putc_def)

lemma fold_cons_putc_line: "10 \<notin> set cs \<Longrightarrow> line (fold cons_putc cs s) = line s @ cs"
  by (induction cs arbitrary: s) (auto simp: cons_putc_line)

lemma digit_char_no_newline:
  assumes "d < 16"
  shows "digit_char upper d \<noteq> 10"
proof -
  have "unat d < 16" using assms by (simp add: word_less_nat_alt)
  then show ?thesis
    by (auto simp: digit_char_def word_unat_eq_iff unat_word_ariths unsigned_ucast_eq take_bit_eq_mod)
qed

lemma digit_loop_no_newline:
  "base \<le> 16 \<Longrightarrow> 10 \<notin> set buf \<Longrightarrow> 10 \<notin> set (digit_loop upper base v buf)"
proof (induction upper base v buf rule: digit_loop.induct)
  case (1 upper base v buf)
  show ?case
  proof (cases "v = 0 \<or> base < 2")
    case True
    then show ?thesis using 1 by (simp add: digit_loop.simps)
  next
    case False
    then have "0 < base" by (cases "base = 0") (auto simp: word_gt_0)
    then have "v mod base < 16" using 1(2) word_mod_less_divisor less_le_trans by blast
    then have "10 \<notin> set (digit_loop upper base (v div base) (buf @ [digit_char upper (v mod base)]))"
      using 1(1) [OF False 1(2)] 1(3) digit_char_no_newline [of "v mod base" upper] by auto
    then show ?thesis using False by (subst digit_loop.simps) simp
  qed
qed

section \<open>Properties\<close>

text \<open>C35: what \<open>dmesg\<close> shows. From any consistent state, after \<open>cs\<close> has been written to the log, a copy of up to
  \<open>maxlen\<close> bytes is the beginning of the last 16384 bytes of the old log followed by \<open>cs\<close>; the state stays
  consistent, and the copy is never longer than \<open>msgbuf_len\<close>.\<close>

theorem msgbuf_keeps_last:
  assumes "log_ok s" "s' = msgbuf_write (Some cs) s"
  shows "log_ok s' \<and> msgbuf_copy True maxlen s' = take maxlen (last_part MSGBUF_SIZE (msgbuf_copy True MSGBUF_SIZE s @ cs)) \<and>
    msgbuf_len s' = min MSGBUF_SIZE (msgbuf_len s + length cs)"
proof -
  have le: "length (log_text s) \<le> MSGBUF_SIZE" "length (log_text s) = g_count s"
    using assms(1) by (cases "g_ready s", auto simp: log_ok_def log_text_def)
  have "length (log_text s') = g_count s'" by (simp add: log_text_def)
  then show ?thesis
    using fold_putc_log [OF assms(1), of cs] le assms(2)
    by (auto simp: msgbuf_copy_log msgbuf_write_def msgbuf_len_def last_part_def min_def)
qed

theorem msgbuf_keeps_last_witness:
  "msgbuf_copy True 2 (msgbuf_write (Some [104, 105, 33]) console_boot) = [104, 105]"
proof -
  have "log_ok console_boot" by (simp add: log_ok_def console_boot_def)
  moreover have "msgbuf_copy True MSGBUF_SIZE console_boot = []" by (simp add: msgbuf_copy_def console_boot_def)
  ultimately show ?thesis
    using msgbuf_keeps_last [OF _ refl, of console_boot "[104, 105, 33]" 2] by (simp add: last_part_def)
qed

text \<open>In base 10 and 16, \<open>put_uint\<close> sends to the serial line a numeral that stands for the number and nothing
  else. It has 1 to 20 characters, so the 32-byte buffer of the code is never overrun.\<close>

theorem put_uint_numeral:
  assumes "base = 10 \<or> base = 16"
  shows "line (put_uint v base upper s) = line s @ uint_chars v base upper \<and>
    numeral_value (unat base) (uint_chars v base upper) = unat v \<and>
    0 < length (uint_chars v base upper) \<and> length (uint_chars v base upper) \<le> 20"
proof (cases "v = 0")
  case True
  then show ?thesis by (simp add: put_uint_def uint_chars_def digit_loop.simps numeral_value_def digit_value_def cons_putc_line)
next
  case False
  have "unat v < 2 ^ 64" using unsigned_less [of v, where ?'a = nat] by simp
  then have "unat v < unat base ^ 20" using assms by auto
  moreover have "2 \<le> base" "base \<le> 16" using assms by auto
  ultimately have L: "numeral_value (unat base) (uint_chars v base upper) = unat v" "length (uint_chars v base upper) \<le> 20"
    using digit_loop_spec [of base v 20 upper "[]"] False by (auto simp: uint_chars_def numeral_value_def)
  then have "uint_chars v base upper \<noteq> []" using False by (auto simp: numeral_value_def unat_eq_0)
  moreover have "10 \<notin> set (uint_chars v base upper)"
    using digit_loop_no_newline [of base "[]" upper v] assms False by (auto simp: uint_chars_def)
  ultimately show ?thesis using L by (simp add: put_uint_def fold_cons_putc_line)
qed

theorem put_uint_numeral_witness:
  "line (put_uint 0x1F3 16 False console_boot) = uint_chars 0x1F3 16 False \<and>
   numeral_value 16 (uint_chars 0x1F3 16 False) = 0x1F3 \<and> length (uint_chars 0x1F3 16 False) \<le> 20"
  using put_uint_numeral [of 16 "0x1F3" False console_boot] by (simp add: console_boot_def)

end
