(* ===== verification/Input.thy ===== *)
theory Input
  imports Ring
begin

text \<open>
  The input event queue and the pointer, \<^verbatim>\<open>src/kernel/hal/input/input.c\<close>. Queue and pointer are protected by
  \<open>input_lock\<close>; an operation that takes the lock several times is the composition of its sections.
  Coordinates are integers: screen sizes and deltas are far below the range of \<open>int32_t\<close>.
\<close>

section \<open>State\<close>

abbreviation (input) QSIZE :: nat where "QSIZE \<equiv> 256"

datatype event_type = EV_MOUSE_MOVE | EV_MOUSE_DOWN | EV_MOUSE_UP | EV_KEY_DOWN | EV_KEY_UP | EV_MOUSE_WHEEL

record input_event =
  e_type :: event_type
  e_x :: int
  e_y :: int
  e_dx :: int
  e_dy :: int
  e_button :: u8
  e_buttons :: u8
  e_scancode :: u8
  e_ch :: u8
  e_key :: u16

record input =
  queue :: "input_event carray"
  qhead :: nat
  qtail :: nat
  mx :: int
  my :: int
  mbtn :: u8
  bw :: int
  bh :: int

definition zero_event :: "event_type \<Rightarrow> input_event" where
  "zero_event t = \<lparr>e_type = t, e_x = 0, e_y = 0, e_dx = 0, e_dy = 0, e_button = 0, e_buttons = 0, e_scancode = 0, e_ch = 0, e_key = 0\<rparr>"

definition input_boot :: "input_event carray \<Rightarrow> input" where
  "input_boot q = \<lparr>queue = q, qhead = 0, qtail = 0, mx = 0, my = 0, mbtn = 0, bw = 1280, bh = 800\<rparr>"

section \<open>Operations\<close>

definition input_init :: "int \<Rightarrow> int \<Rightarrow> input \<Rightarrow> input" where
  "input_init screen_w screen_h s =
     s\<lparr>bw := screen_w, bh := screen_h, mx := screen_w div 2, my := screen_h div 2, mbtn := 0, qhead := 0, qtail := 0\<rparr>"

definition input_push :: "input_event option \<Rightarrow> input \<Rightarrow> input" where
  "input_push ev s =
     (case ev of
        None \<Rightarrow> s
      | Some e \<Rightarrow>
          let lst = (qhead s + QSIZE - 1) mod QSIZE in
          if e_type e = EV_MOUSE_MOVE \<and> qhead s \<noteq> qtail s \<and> e_type (queue s lst) = EV_MOUSE_MOVE
          then s\<lparr>queue := (queue s)(lst := e)\<rparr>
          else let n = (qhead s + 1) mod QSIZE in
          if n = qtail s then
            if e_type e = EV_MOUSE_MOVE \<or> e_type e = EV_MOUSE_DOWN \<or> e_type e = EV_MOUSE_UP then s
            else s\<lparr>qtail := (qtail s + 1) mod QSIZE, queue := (queue s)(qhead s := e), qhead := n\<rparr>
          else s\<lparr>queue := (queue s)(qhead s := e), qhead := n\<rparr>)"

definition input_poll :: "input \<Rightarrow> input_event option \<times> input" where
  "input_poll s =
     (if qtail s \<noteq> qhead s then (Some (queue s (qtail s)), s\<lparr>qtail := (qtail s + 1) mod QSIZE\<rparr>) else (None, s))"

text \<open>\<^verbatim>\<open>if (v < 0) v = 0; if (v > b - 1) v = b - 1;\<close>\<close>

definition clamp :: "int \<Rightarrow> int \<Rightarrow> int" where
  "clamp b v = (let v1 = (if v < 0 then 0 else v) in if v1 > b - 1 then b - 1 else v1)"

definition button_event :: "int \<Rightarrow> int \<Rightarrow> u8 \<Rightarrow> u8 \<Rightarrow> nat \<Rightarrow> input \<Rightarrow> input" where
  "button_event nx ny buttons changed b s =
     (let mask = push_bit b 1 in
      if changed AND mask \<noteq> 0
      then input_push (Some ((zero_event (if buttons AND mask \<noteq> 0 then EV_MOUSE_DOWN else EV_MOUSE_UP))
             \<lparr>e_x := nx, e_y := ny, e_button := mask, e_buttons := buttons\<rparr>)) s
      else s)"

definition input_update_mouse :: "int \<Rightarrow> int \<Rightarrow> u8 \<Rightarrow> input \<Rightarrow> input" where
  "input_update_mouse dx dy buttons s =
     (let speed = 2; sdx = dx * speed; sdy = dy * speed;
          nx = clamp (bw s) (mx s + sdx); ny = clamp (bh s) (my s + sdy);
          old_btn = mbtn s;
          s1 = s\<lparr>mx := nx, my := ny, mbtn := buttons\<rparr>;
          s2 = input_push (Some ((zero_event EV_MOUSE_MOVE)\<lparr>e_x := nx, e_y := ny, e_dx := sdx, e_dy := sdy, e_buttons := buttons\<rparr>)) s1
      in fold (button_event nx ny buttons (buttons XOR old_btn)) [0..<3] s2)"

definition input_warp_mouse :: "int \<Rightarrow> int \<Rightarrow> input \<Rightarrow> input" where
  "input_warp_mouse x0 y0 s =
     (let x = clamp (bw s) x0; y = clamp (bh s) y0; odx = x - mx s; ody = y - my s; s1 = s\<lparr>mx := x, my := y\<rparr>
      in input_push (Some ((zero_event EV_MOUSE_MOVE)\<lparr>e_x := x, e_y := y, e_dx := odx, e_dy := ody, e_buttons := mbtn s1\<rparr>)) s1)"

definition input_mouse_wheel :: "int \<Rightarrow> input \<Rightarrow> input" where
  "input_mouse_wheel dy s =
     (if dy = 0 then s
      else input_push (Some ((zero_event EV_MOUSE_WHEEL)\<lparr>e_x := mx s, e_y := my s, e_buttons := mbtn s, e_dy := dy\<rparr>)) s)"

definition input_mouse_x :: "input \<Rightarrow> int" where "input_mouse_x s = mx s"

definition input_mouse_y :: "input \<Rightarrow> int" where "input_mouse_y s = my s"

section \<open>The queue as a list\<close>

definition input_ok :: "input \<Rightarrow> bool" where
  "input_ok s \<longleftrightarrow> qhead s < QSIZE \<and> qtail s < QSIZE"

definition pending :: "input \<Rightarrow> nat" where
  "pending s = (qhead s + QSIZE - qtail s) mod QSIZE"

definition events :: "input \<Rightarrow> input_event list" where
  "events s = window QSIZE (queue s) (qtail s) (pending s)"

definition is_move :: "input_event \<Rightarrow> bool" where
  "is_move e \<longleftrightarrow> e_type e = EV_MOUSE_MOVE"

definition droppable :: "input_event \<Rightarrow> bool" where
  "droppable e \<longleftrightarrow> e_type e \<in> {EV_MOUSE_MOVE, EV_MOUSE_DOWN, EV_MOUSE_UP}"

text \<open>The specification of \<open>input_push\<close>.\<close>

definition push_spec :: "input_event \<Rightarrow> input_event list \<Rightarrow> input_event list" where
  "push_spec e es =
     (if is_move e \<and> es \<noteq> [] \<and> is_move (last es) then butlast es @ [e]
      else if length es = QSIZE - 1 then (if droppable e then es else tl es @ [e])
      else es @ [e])"

fun no_adjacent_moves :: "input_event list \<Rightarrow> bool" where
  "no_adjacent_moves (a # b # es) \<longleftrightarrow> \<not> (is_move a \<and> is_move b) \<and> no_adjacent_moves (b # es)"
| "no_adjacent_moves _ \<longleftrightarrow> True"

lemma pending_less: "input_ok s \<Longrightarrow> pending s < QSIZE"
  by (simp add: pending_def)

lemma head_from_tail: "input_ok s \<Longrightarrow> qhead s = (qtail s + pending s) mod QSIZE"
  by (auto simp: input_ok_def pending_def mod_simps)

lemma pending_0_iff: "input_ok s \<Longrightarrow> pending s = 0 \<longleftrightarrow> qhead s = qtail s"
  unfolding input_ok_def pending_def by (auto simp: mod_if split: if_splits)

lemma full_iff: "input_ok s \<Longrightarrow> (qhead s + 1) mod QSIZE = qtail s \<longleftrightarrow> pending s = QSIZE - 1"
  unfolding input_ok_def pending_def by (auto simp: mod_if split: if_splits)

lemma last_index:
  assumes "input_ok s" "0 < pending s"
  shows "(qhead s + QSIZE - 1) mod QSIZE = (qtail s + (pending s - 1)) mod QSIZE"
proof -
  have "(qhead s + QSIZE - 1) mod QSIZE = ((qtail s + pending s) mod QSIZE + (QSIZE - 1)) mod QSIZE"
    using head_from_tail [OF assms(1)] by (simp add: add.commute)
  also have "\<dots> = (qtail s + pending s + (QSIZE - 1)) mod QSIZE" by (rule mod_add_left_eq)
  also have "qtail s + pending s + (QSIZE - 1) = qtail s + (pending s - 1) + QSIZE" using assms(2) by simp
  finally show ?thesis by simp
qed

lemma events_last:
  assumes "input_ok s" "0 < pending s"
  shows "events s \<noteq> []" "last (events s) = queue s ((qhead s + QSIZE - 1) mod QSIZE)"
    "butlast (events s) = window QSIZE (queue s) (qtail s) (pending s - 1)"
  using assms last_index [OF assms] by (simp_all add: events_def last_conv_nth butlast_conv_take take_window)

lemma pending_keep: "pending (s\<lparr>queue := q\<rparr>) = pending s"
  by (simp add: pending_def)

lemma input_push_events:
  assumes ok: "input_ok s"
  shows "input_ok (input_push (Some e) s) \<and> events (input_push (Some e) s) = push_spec e (events s)"
proof -
  let ?n = "pending s" let ?lst = "(qhead s + QSIZE - 1) mod QSIZE"
  have len: "length (events s) = ?n" and lt: "?n < QSIZE" using pending_less [OF ok] by (simp_all add: events_def)
  have ne: "events s \<noteq> [] \<longleftrightarrow> qhead s \<noteq> qtail s" using pending_0_iff [OF ok] by (simp add: events_def)
  have bounds: "qhead s < QSIZE" "qtail s < QSIZE" using ok by (auto simp: input_ok_def)
  show ?thesis
  proof (cases "is_move e \<and> events s \<noteq> [] \<and> is_move (last (events s))")
    case True
    then have n: "0 < ?n" using ne pending_0_iff [OF ok] by auto
    note L = events_last [OF ok n]
    have "input_push (Some e) s = s\<lparr>queue := (queue s)(?lst := e)\<rparr>"
      using True L ne by (simp add: input_push_def is_move_def Let_def)
    moreover have "window QSIZE ((queue s)(?lst := e)) (qtail s) ?n = window QSIZE (queue s) (qtail s) (?n - 1) @ [e]"
      using window_put [of "?n - 1" QSIZE "queue s" "qtail s" e] n lt unfolding last_index [OF ok n] by simp
    ultimately show ?thesis using True L ok by (simp add: push_spec_def events_def pending_keep input_ok_def)
  next
    case nc: False
    have step: "input_push (Some e) s = (if (qhead s + 1) mod QSIZE = qtail s then
        if droppable e then s else s\<lparr>qtail := (qtail s + 1) mod QSIZE, queue := (queue s)(qhead s := e), qhead := (qhead s + 1) mod QSIZE\<rparr>
      else s\<lparr>queue := (queue s)(qhead s := e), qhead := (qhead s + 1) mod QSIZE\<rparr>)"
    proof -
      have "\<not> (e_type e = EV_MOUSE_MOVE \<and> qhead s \<noteq> qtail s \<and> e_type (queue s ?lst) = EV_MOUSE_MOVE)"
        using nc ne events_last(2) [OF ok] pending_0_iff [OF ok] by (auto simp: is_move_def)
      then show ?thesis by (auto simp: input_push_def Let_def droppable_def)
    qed
    have spec: "push_spec e (events s) = (if ?n = QSIZE - 1 then (if droppable e then events s else tl (events s) @ [e]) else events s @ [e])"
      using nc len by (auto simp: push_spec_def)
    show ?thesis
    proof (cases "?n = QSIZE - 1")
      case False
      then have nf: "(qhead s + 1) mod QSIZE \<noteq> qtail s" using full_iff [OF ok] by simp
      let ?s = "s\<lparr>queue := (queue s)(qhead s := e), qhead := (qhead s + 1) mod QSIZE\<rparr>"
      have ok': "input_ok ?s" using ok by (simp add: input_ok_def)
      have "pending ?s = Suc ?n"
        using False lt bounds unfolding pending_def by (auto simp: mod_if split: if_splits)
      moreover have "window QSIZE ((queue s)(qhead s := e)) (qtail s) (Suc ?n) = events s @ [e]"
        using window_put [OF lt, of "queue s" "qtail s" e] head_from_tail [OF ok] by (simp add: events_def)
      ultimately show ?thesis using step nf spec False ok' by (simp add: events_def)
    next
      case full: True
      then have f: "(qhead s + 1) mod QSIZE = qtail s" using full_iff [OF ok] by simp
      let ?s = "s\<lparr>qtail := (qtail s + 1) mod QSIZE, queue := (queue s)(qhead s := e), qhead := (qhead s + 1) mod QSIZE\<rparr>"
      have ok': "input_ok ?s" by (simp add: input_ok_def)
      have p: "pending ?s = QSIZE - 1" using f full_iff [OF ok'] by simp
      have "((qtail s + 1) mod QSIZE + 254) mod QSIZE = qhead s"
        using head_from_tail [OF ok] full by (simp add: mod_simps add.commute)
      then have "window QSIZE ((queue s)(qhead s := e)) ((qtail s + 1) mod QSIZE) 255 = window QSIZE (queue s) ((qtail s + 1) mod QSIZE) 254 @ [e]"
        using window_put [of 254 QSIZE "queue s" "(qtail s + 1) mod QSIZE" e] by simp
      moreover have "tl (events s) = window QSIZE (queue s) ((qtail s + 1) mod QSIZE) 254"
        using window_get [of 255 "qtail s" QSIZE "queue s"] bounds full by (simp add: events_def)
      ultimately show ?thesis using step f spec full ok ok' p by (simp add: events_def)
    qed
  qed
qed

lemma input_poll_events:
  assumes ok: "input_ok s"
  shows "(case input_poll s of (None, s') \<Rightarrow> events s = [] \<and> s' = s | (Some e, s') \<Rightarrow> input_ok s' \<and> events s = e # events s')"
proof (cases "qtail s = qhead s")
  case True
  then show ?thesis using pending_0_iff [OF ok] by (simp add: input_poll_def events_def)
next
  case False
  then have n: "0 < pending s" using pending_0_iff [OF ok] by auto
  let ?s = "s\<lparr>qtail := (qtail s + 1) mod QSIZE\<rparr>"
  have "pending ?s = pending s - 1"
    using n ok unfolding pending_def input_ok_def by (auto simp: mod_if split: if_splits)
  then show ?thesis
    using False window_get [OF n, of "qtail s" QSIZE "queue s"] ok by (simp add: input_poll_def events_def input_ok_def)
qed

lemma no_adjacent_append: "no_adjacent_moves (es @ [e]) \<longleftrightarrow> no_adjacent_moves es \<and> (es \<noteq> [] \<longrightarrow> \<not> (is_move (last es) \<and> is_move e))"
  by (induction es rule: no_adjacent_moves.induct) auto

lemma no_adjacent_tl: "no_adjacent_moves es \<Longrightarrow> no_adjacent_moves (tl es)"
  by (cases es rule: no_adjacent_moves.cases) auto

lemma push_spec_no_adjacent:
  assumes "no_adjacent_moves es"
  shows "no_adjacent_moves (push_spec e es)"
proof (cases "is_move e \<and> es \<noteq> [] \<and> is_move (last es)")
  case True
  then have "es = butlast es @ [last es]" by simp
  then have "no_adjacent_moves (butlast es @ [last es])" using assms by simp
  then have "no_adjacent_moves (butlast es)" "butlast es \<noteq> [] \<longrightarrow> \<not> is_move (last (butlast es))"
    using True unfolding no_adjacent_append by auto
  with True show ?thesis by (simp add: push_spec_def no_adjacent_append)
next
  case False
  have "no_adjacent_moves (tl es @ [e])"
    using assms False by (cases "tl es = []") (auto simp: no_adjacent_append no_adjacent_tl last_tl)
  with False assms show ?thesis by (auto simp: push_spec_def no_adjacent_append)
qed

section \<open>Properties\<close>

text \<open>The states of the input system: after initialisation, any sequence of driver calls and polls.\<close>

inductive input_reach :: "int \<Rightarrow> int \<Rightarrow> input \<Rightarrow> bool" for w h where
  init: "input_reach w h (input_init w h s)"
| push: "input_reach w h s \<Longrightarrow> input_reach w h (input_push e s)"
| poll: "input_reach w h s \<Longrightarrow> input_reach w h (snd (input_poll s))"
| mouse: "input_reach w h s \<Longrightarrow> input_reach w h (input_update_mouse dx dy b s)"
| warp: "input_reach w h s \<Longrightarrow> input_reach w h (input_warp_mouse x y s)"
| wheel: "input_reach w h s \<Longrightarrow> input_reach w h (input_mouse_wheel dy s)"

definition on_screen :: "int \<Rightarrow> int \<Rightarrow> input \<Rightarrow> bool" where
  "on_screen w h s \<longleftrightarrow> bw s = w \<and> bh s = h \<and> 0 \<le> mx s \<and> mx s < w \<and> 0 \<le> my s \<and> my s < h"

definition input_inv :: "int \<Rightarrow> int \<Rightarrow> input \<Rightarrow> bool" where
  "input_inv w h s \<longleftrightarrow> input_ok s \<and> no_adjacent_moves (events s) \<and> on_screen w h s"

lemma input_push_pointer [simp]:
  "mx (input_push e s) = mx s" "my (input_push e s) = my s" "bw (input_push e s) = bw s" "bh (input_push e s) = bh s"
  by (auto simp: input_push_def Let_def split: option.splits)

lemma input_push_inv: "input_inv w h s \<Longrightarrow> input_inv w h (input_push e s)"
proof (cases e)
  case None
  then show "input_inv w h s \<Longrightarrow> ?thesis" by (simp add: input_push_def)
next
  case (Some ev)
  then show "input_inv w h s \<Longrightarrow> ?thesis"
    using input_push_events [of s ev] push_spec_no_adjacent [of "events s" ev] by (simp add: input_inv_def on_screen_def)
qed

lemma clamp_bounds: "0 < b \<Longrightarrow> 0 \<le> clamp b v \<and> clamp b v < b"
  by (simp add: clamp_def Let_def)

lemma move_pointer_inv:
  assumes "input_inv w h s" "0 < w" "0 < h"
  shows "input_inv w h (s\<lparr>mx := clamp (bw s) x, my := clamp (bh s) y, mbtn := b\<rparr>)"
  using assms clamp_bounds by (simp add: input_inv_def on_screen_def input_ok_def events_def pending_def)

lemma input_reach_inv:
  assumes "input_reach w h s" "0 < w" "0 < h"
  shows "input_inv w h s"
  using assms(1)
proof (induction rule: input_reach.induct)
  case (init s)
  have "w div 2 < w" "h div 2 < h" using assms(2,3) by simp_all
  then show ?case using assms
    by (simp add: input_init_def input_inv_def on_screen_def input_ok_def events_def pending_def)
next
  case (poll s)
  then have "input_ok s" by (simp add: input_inv_def)
  from input_poll_events [OF this] poll.IH show ?case
    by (auto simp: input_poll_def input_inv_def on_screen_def input_ok_def split: if_splits dest: no_adjacent_tl)
next
  case (mouse s dx dy b)
  have "input_inv w h (fold (button_event nx ny b c) bs t)" if "input_inv w h t" for nx ny c bs t
    using that by (induction bs arbitrary: t) (simp_all add: button_event_def Let_def input_push_inv)
  then show ?case using move_pointer_inv [OF mouse.IH assms(2,3)] by (simp add: input_update_mouse_def Let_def input_push_inv)
next
  case (warp s x y)
  have "s\<lparr>mx := clamp (bw s) x, my := clamp (bh s) y\<rparr> = s\<lparr>mx := clamp (bw s) x, my := clamp (bh s) y, mbtn := mbtn s\<rparr>" by simp
  with move_pointer_inv [OF warp.IH assms(2,3), where x = x and y = y and b = "mbtn s"] show ?case by (simp add: input_warp_mouse_def Let_def input_push_inv)
qed (simp_all add: input_push_inv input_mouse_wheel_def)

text \<open>C34: in every state reached by driver calls and polls on a screen of positive size, the pointer is on the
  screen, the queue holds at most 255 events and no two mouse moves in a row; a pushed event is appended, or
  replaces a move at the end of the queue, or, when the queue is full, is dropped if it is a pointer event and
  otherwise evicts the oldest event; a poll returns the oldest event and removes it.\<close>

theorem input_queue_spec:
  assumes "input_reach w h s" "0 < w" "0 < h"
  shows "on_screen w h s \<and> length (events s) \<le> QSIZE - 1 \<and> no_adjacent_moves (events s) \<and>
    events (input_push (Some e) s) = push_spec e (events s) \<and>
    (case input_poll s of (None, s') \<Rightarrow> events s = [] \<and> s' = s | (Some e, s') \<Rightarrow> events s = e # events s')"
proof -
  have inv: "input_inv w h s" using input_reach_inv [OF assms] .
  then have ok: "input_ok s" by (simp add: input_inv_def)
  show ?thesis
    using inv input_push_events [OF ok] input_poll_events [OF ok] pending_less [OF ok]
    by (auto simp: input_inv_def events_def split: prod.splits option.splits)
qed

theorem input_queue_spec_witness:
  "\<exists>s. input_reach 640 480 s \<and> on_screen 640 480 s \<and> events (input_push (Some (zero_event EV_KEY_DOWN)) s) = push_spec (zero_event EV_KEY_DOWN) (events s)"
proof -
  let ?s = "input_init 640 480 (input_boot (\<lambda>_. zero_event EV_KEY_UP))"
  have r: "input_reach 640 480 ?s" by (rule input_reach.init)
  show ?thesis using input_queue_spec [OF r, of "zero_event EV_KEY_DOWN"] r by auto
qed

end
