(* ===== verification/Bootargs.thy ===== *)
theory Bootargs
  imports Prelude
begin

text \<open>
  The kernel command line, \<^verbatim>\<open>src/kernel/boot/bootargs.c\<close>. Strings are lists of bytes without the terminator,
  NULL is None, and what is stored through \<open>out\<close> is the list of bytes written there. The 64-bit accumulator wraps.
\<close>

section \<open>Operations\<close>

abbreviation (input) BOOT_ARGS_MAX :: nat where "BOOT_ARGS_MAX \<equiv> 512"

record bootargs =
  g_boot_args :: "u8 list"
  g_verbose :: bool

definition is_sep :: "u8 \<Rightarrow> bool" where
  "is_sep c \<longleftrightarrow> c = 32 \<or> c = 9 \<or> c = 10 \<or> c = 0"

definition is_digit :: "u8 \<Rightarrow> bool" where
  "is_digit c \<longleftrightarrow> 48 \<le> c \<and> c \<le> 57"

text \<open>The destination is NULL or a size.\<close>

definition copy_num :: "u64 \<Rightarrow> nat option \<Rightarrow> u8 list" where
  "copy_num val out =
     (case out of
        None \<Rightarrow> []
      | Some max_len \<Rightarrow>
          if max_len = 0 then []
          else let width = (if max_len \<ge> 8 then 8 else if max_len \<ge> 4 then 4 else if max_len \<ge> 2 then 2 else 1)
               in map (\<lambda>k. ucast (drop_bit (8 * k) val)) [0..<width])"

definition copy_str :: "u8 list \<Rightarrow> nat option \<Rightarrow> u8 list" where
  "copy_str from out =
     (case out of
        None \<Rightarrow> []
      | Some max_len \<Rightarrow> if max_len = 0 then [] else take (max_len - 1) (takeWhile (\<lambda>c. \<not> is_sep c) from) @ [0])"

text \<open>The scan that decides whether a value is a number: an \<^verbatim>\<open>x\<close> is accepted only at the index given.\<close>

fun scan_digits :: "nat \<Rightarrow> nat \<Rightarrow> u8 list \<Rightarrow> bool" where
  "scan_digits x_at i [] = True"
| "scan_digits x_at i (c # p) = (if is_sep c then True else if is_digit c \<or> c = 120 \<and> i = x_at then scan_digits x_at (i + 1) p else False)"

definition looks_numeric :: "u8 list \<Rightarrow> bool" where
  "looks_numeric cp =
     (case cp of
        [] \<Rightarrow> False
      | c # p \<Rightarrow> (c = 45 \<or> is_digit c) \<and>
          (let x_at = (if c = 48 then 1 else 0) in if c = 45 then scan_digits x_at 1 p else scan_digits x_at 0 cp))"

definition hex_step :: "u64 \<Rightarrow> u8 \<Rightarrow> u64" where
  "hex_step v c =
     (let w = push_bit 4 v in
      if is_digit c then w OR ucast (c - 48)
      else if 97 \<le> c \<and> c \<le> 102 then w OR ucast (c - 87)
      else if 65 \<le> c \<and> c \<le> 70 then w OR ucast (c - 55)
      else w)"

definition parse_unsigned :: "u8 list \<Rightarrow> u64" where
  "parse_unsigned cp =
     (if length cp \<ge> 2 \<and> cp ! 0 = 48 \<and> (cp ! 1 = 120 \<or> cp ! 1 = 88)
      then foldl hex_step 0 (takeWhile (\<lambda>c. \<not> is_sep c) (drop 2 cp))
      else foldl (\<lambda>v c. v * 10 + ucast (c - 48)) 0 (takeWhile is_digit cp))"

definition parse_number :: "u8 list \<Rightarrow> u64" where
  "parse_number cp = (if cp \<noteq> [] \<and> hd cp = 45 then - parse_unsigned (tl cp) else parse_unsigned cp)"

definition store_value :: "u8 list \<Rightarrow> nat option \<Rightarrow> u8 list" where
  "store_value cp out =
     (case out of
        None \<Rightarrow> []
      | Some n \<Rightarrow>
          if n = 0 then []
          else if looks_numeric cp \<and> n \<le> 8 then copy_num (parse_number cp) out else copy_str cp out)"

function parse_loop :: "u8 list \<Rightarrow> u8 list \<Rightarrow> nat option \<Rightarrow> bool \<times> u8 list" where
  "parse_loop [] want out = (False, [])"
| "parse_loop (a # args) want out =
     (let start = a # args; is_key = (\<lambda>c. \<not> is_sep c \<and> c \<noteq> 61); cp = dropWhile is_key start in
      if takeWhile is_key start = want then
        if a = 45 then (True, copy_num 1 out)
        else if cp \<noteq> [] \<and> hd cp = 61 then (True, store_value (tl cp) out)
        else (True, copy_num 1 out)
      else parse_loop (dropWhile is_sep (dropWhile (\<lambda>c. \<not> is_sep c) start)) want out)"
  by pat_completeness auto
termination
proof (relation "measure (\<lambda>(args, want, out). length args)")
  fix a and args want :: "u8 list" and out :: "nat option" and x xa xb
  assume "x = a # args"
  then show "((dropWhile is_sep (dropWhile (\<lambda>c. \<not> is_sep c) x), want, out), a # args, want, out) \<in> measure (\<lambda>(args, want, out). length args)"
    by (auto simp: less_Suc_eq_le intro: order_trans [OF length_dropWhile_le] length_dropWhile_le)
qed simp

definition parse_one :: "u8 list option \<Rightarrow> u8 list option \<Rightarrow> nat option \<Rightarrow> bool \<times> u8 list" where
  "parse_one args want out =
     (case (args, want) of
        (Some as, Some w) \<Rightarrow> if as = [] then (False, []) else parse_loop (dropWhile is_sep as) w out
      | _ \<Rightarrow> (False, []))"

definition bootargs_has :: "u8 list \<Rightarrow> bootargs \<Rightarrow> bool" where
  "bootargs_has name s = fst (parse_one (Some (g_boot_args s)) (Some name) None)"

definition bootargs_parse :: "u8 list \<Rightarrow> nat option \<Rightarrow> bootargs \<Rightarrow> bool \<times> u8 list" where
  "bootargs_parse name out s = parse_one (Some (g_boot_args s)) (Some name) out"

definition bootargs_init :: "u8 list option \<Rightarrow> bootargs \<Rightarrow> bootargs" where
  "bootargs_init cmdline s0 =
     (let s = s0\<lparr>g_boot_args := (case cmdline of None \<Rightarrow> [] | Some c \<Rightarrow> take (BOOT_ARGS_MAX - 1) c), g_verbose := False\<rparr>
      in s\<lparr>g_verbose := bootargs_has [45, 118] s \<or> bootargs_has [118] s\<rparr>)"

definition bootargs_raw :: "bootargs \<Rightarrow> u8 list" where "bootargs_raw s = g_boot_args s"

definition bootargs_verbose :: "bootargs \<Rightarrow> bool" where "bootargs_verbose s = g_verbose s"

section \<open>The command line as a list of words\<close>

function words :: "u8 list \<Rightarrow> u8 list list" where
  "words args =
     (let a = dropWhile is_sep args
      in if a = [] then [] else takeWhile (\<lambda>c. \<not> is_sep c) a # words (dropWhile (\<lambda>c. \<not> is_sep c) a))"
  by pat_completeness auto
termination
proof (relation "measure length")
  fix args a :: "u8 list" assume a: "a = dropWhile is_sep args" "a \<noteq> []"
  then have "\<not> is_sep (hd a)" by (simp add: hd_dropWhile)
  then have "length (dropWhile (\<lambda>c. \<not> is_sep c) a) < length a"
    using a(2) by (cases a) (auto simp: less_Suc_eq_le length_dropWhile_le)
  also have "length a \<le> length args" by (simp add: a(1) length_dropWhile_le)
  finally show "(dropWhile (\<lambda>c. \<not> is_sep c) a, args) \<in> measure length" by simp
qed simp

declare words.simps [simp del]

definition key_of :: "u8 list \<Rightarrow> u8 list" where
  "key_of w = takeWhile (\<lambda>c. c \<noteq> 61) w"

text \<open>What one word of the command line stores.\<close>

definition word_value :: "u8 list \<Rightarrow> nat option \<Rightarrow> u8 list" where
  "word_value w out =
     (let v = dropWhile (\<lambda>c. c \<noteq> 61) w
      in if w \<noteq> [] \<and> hd w = 45 \<or> v = [] then copy_num 1 out else store_value (tl v) out)"

lemma takeWhile_sub: "takeWhile (\<lambda>c. P c \<and> Q c) xs = takeWhile Q (takeWhile P xs)"
  by (induction xs) auto

lemma scan_digits_word: "scan_digits x i (takeWhile (\<lambda>c. \<not> is_sep c) cp) = scan_digits x i cp"
  by (induction cp arbitrary: i) auto

lemma is_digit_not_sep: "is_digit c \<Longrightarrow> \<not> is_sep c"
  by (auto simp: is_digit_def is_sep_def)

lemma looks_numeric_word: "looks_numeric (takeWhile (\<lambda>c. \<not> is_sep c) cp) = looks_numeric cp"
  using scan_digits_word by (cases cp) (auto simp: looks_numeric_def Let_def is_sep_def is_digit_def)

lemma takeWhile_digit_word: "takeWhile is_digit (takeWhile (\<lambda>c. \<not> is_sep c) cp) = takeWhile is_digit cp"
  by (induction cp) (auto dest: is_digit_not_sep)

lemma takeWhile_word_idem: "takeWhile P (takeWhile P cp) = takeWhile P cp"
  by (induction cp) (simp_all del: takeWhile_eq_all_conv)

lemma not_sep: "\<not> is_sep 45" "\<not> is_sep 48" "\<not> is_sep 88" "\<not> is_sep 120"
  by (simp_all add: is_sep_def)

lemma parse_unsigned_word: "parse_unsigned (takeWhile (\<lambda>c. \<not> is_sep c) cp) = parse_unsigned cp"
  using takeWhile_digit_word [of cp]
  by (cases cp; cases "tl cp") (auto simp: parse_unsigned_def not_sep takeWhile_word_idem)

lemma parse_number_word: "parse_number (takeWhile (\<lambda>c. \<not> is_sep c) cp) = parse_number cp"
  using parse_unsigned_word [of cp] parse_unsigned_word [of "tl cp"] not_sep
  by (cases cp) (auto simp: parse_number_def)

lemma copy_str_word: "copy_str (takeWhile (\<lambda>c. \<not> is_sep c) cp) out = copy_str cp out"
  by (simp add: copy_str_def takeWhile_word_idem split: option.split)

lemma store_value_word: "store_value (takeWhile (\<lambda>c. \<not> is_sep c) cp) out = store_value cp out"
  by (simp add: store_value_def looks_numeric_word parse_number_word copy_str_word split: option.split)

lemma takeWhile_key: "takeWhile (\<lambda>c. \<not> is_sep c \<and> c \<noteq> 61) xs = key_of (takeWhile (\<lambda>c. \<not> is_sep c) xs)"
  by (simp add: key_of_def takeWhile_sub)

text \<open>The text after the key is the value of the word followed by the rest of the line.\<close>

lemma value_after_key:
  assumes "cp = dropWhile (\<lambda>c. \<not> is_sep c \<and> c \<noteq> 61) xs" "v = dropWhile (\<lambda>c. c \<noteq> 61) (takeWhile (\<lambda>c. \<not> is_sep c) xs)"
  shows "(cp \<noteq> [] \<and> hd cp = 61) = (v \<noteq> [])" "v \<noteq> [] \<Longrightarrow> takeWhile (\<lambda>c. \<not> is_sep c) (tl cp) = tl v"
  using assms by (induction xs arbitrary: cp v) (auto simp: is_sep_def split: if_splits)

lemma words_Cons:
  assumes "\<not> is_sep a"
  shows "words (a # as) = takeWhile (\<lambda>c. \<not> is_sep c) (a # as) # words (dropWhile is_sep (dropWhile (\<lambda>c. \<not> is_sep c) as))"
proof -
  have "words (dropWhile is_sep xs) = words xs" for xs
    by (subst (1 2) words.simps) (simp add: Let_def)
  then show ?thesis using assms by (subst words.simps) (simp add: Let_def)
qed

lemma words_Nil: "words [] = []"
  by (subst words.simps) simp

lemma parse_loop_words:
  "(args \<noteq> [] \<Longrightarrow> \<not> is_sep (hd args)) \<Longrightarrow>
   parse_loop args want out =
     (case find (\<lambda>w. key_of w = want) (words args) of None \<Rightarrow> (False, []) | Some w \<Rightarrow> (True, word_value w out))"
proof (induction args want out rule: parse_loop.induct)
  case (1 want out)
  then show ?case by (simp add: words_Nil)
next
  case (2 a args want out)
  let ?w = "takeWhile (\<lambda>c. \<not> is_sep c) (a # args)"
  let ?cp = "dropWhile (\<lambda>c. \<not> is_sep c \<and> c \<noteq> 61) (a # args)"
  let ?rest = "dropWhile is_sep (dropWhile (\<lambda>c. \<not> is_sep c) (a # args))"
  have a: "\<not> is_sep a" using 2 by simp
  have ws: "words (a # args) = ?w # words ?rest" using words_Cons [OF a] a by simp
  note val = value_after_key [OF refl refl, of "a # args"]
  show ?case
  proof (cases "key_of ?w = want")
    case True
    have "word_value ?w out =
        (if a = 45 then copy_num 1 out else if ?cp \<noteq> [] \<and> hd ?cp = 61 then store_value (tl ?cp) out else copy_num 1 out)"
      using val store_value_word [of "tl ?cp" out] unfolding word_value_def Let_def by (auto simp: a)
    then show ?thesis using True by (simp add: ws takeWhile_key Let_def del: takeWhile.simps dropWhile.simps)
  next
    case False
    then have "parse_loop (a # args) want out = parse_loop ?rest want out"
      by (simp add: takeWhile_key Let_def del: takeWhile.simps dropWhile.simps)
    moreover have "?rest \<noteq> [] \<Longrightarrow> \<not> is_sep (hd ?rest)" by (rule hd_dropWhile)
    ultimately show ?thesis
      using 2(1) [OF refl refl refl] False by (simp add: ws takeWhile_key del: takeWhile.simps dropWhile.simps)
  qed
qed

section \<open>Properties\<close>

text \<open>C36: The scan of the command line by pointers is the lookup of the key in the list of its words: the answer is
  yes exactly when some word has the key, and what is stored depends on the first such word alone, never on the text
  behind it. The command line kept is the first 511 bytes of what the boot loader gave, and the boot is verbose exactly
  when it has the word \<^verbatim>\<open>-v\<close> or \<^verbatim>\<open>v\<close>, alone or with a value.\<close>

theorem bootargs_words:
  "bootargs_parse name out (bootargs_init (Some cmdline) s) =
     (case find (\<lambda>w. key_of w = name) (words (take 511 cmdline)) of
        None \<Rightarrow> (False, []) | Some w \<Rightarrow> (True, word_value w out))
   \<and> (bootargs_verbose (bootargs_init (Some cmdline) s) \<longleftrightarrow>
        [45, 118] \<in> key_of ` set (words (take 511 cmdline)) \<or> [118] \<in> key_of ` set (words (take 511 cmdline)))"
proof -
  have words_drop: "words (dropWhile is_sep xs) = words xs" for xs
    by (subst (1 2) words.simps) (simp add: Let_def)
  have one: "parse_one (Some xs) (Some want) out =
      (case find (\<lambda>w. key_of w = want) (words xs) of None \<Rightarrow> (False, []) | Some w \<Rightarrow> (True, word_value w out))" for xs want out
    using parse_loop_words [of "dropWhile is_sep xs" want out]
    by (cases "xs = []") (simp_all add: parse_one_def words_drop words_Nil hd_dropWhile)
  have has: "fst (parse_one (Some xs) (Some want) None) \<longleftrightarrow> want \<in> key_of ` set (words xs)" for xs want
  proof (cases "find (\<lambda>w. key_of w = want) (words xs)")
    case None
    then have "want \<notin> key_of ` set (words xs)" by (auto simp: find_None_iff)
    with None show ?thesis unfolding one by simp
  next
    case (Some w)
    then have "w \<in> set (words xs) \<and> key_of w = want" by (auto simp: find_Some_iff)
    with Some show ?thesis unfolding one by auto
  qed
  show ?thesis
    by (simp add: bootargs_parse_def bootargs_verbose_def bootargs_init_def bootargs_has_def Let_def has) (simp add: one)
qed

end
