(* ===== verification/Bytes.thy ===== *)
theory Bytes
  imports Prelude
begin

text \<open>
  Byte-addressed memory: words in little-endian order, and the separation of loads from stores by the distance of
  their addresses, which wraps as the addresses do.
\<close>

section \<open>Loads and stores\<close>

type_synonym umem = "u64 \<Rightarrow> u8"

definition load_word :: "umem \<Rightarrow> u64 \<Rightarrow> 'a::len word" where
  "load_word m a = word_rcat (map (\<lambda>k. m (a + of_nat k)) (rev [0..<LENGTH('a) div 8]))"

definition store_word :: "u64 \<Rightarrow> 'a::len word \<Rightarrow> umem \<Rightarrow> umem" where
  "store_word a v m = (\<lambda>x. if unat (x - a) < LENGTH('a) div 8 then ucast (drop_bit (8 * unat (x - a)) v) else m x)"

definition memset_zero :: "u64 \<Rightarrow> nat \<Rightarrow> umem \<Rightarrow> umem" where
  "memset_zero a n m = (\<lambda>x. if unat (x - a) < n then 0 else m x)"

lemma bit_load_word:
  "bit (load_word m a :: 'a::len word) n \<longleftrightarrow>
     n < LENGTH('a) \<and> n div 8 < LENGTH('a) div 8 \<and> bit (m (a + of_nat (n div 8))) (n mod 8)"
  using bit_horner_sum_uint_exp_iff [of "map (\<lambda>k. m (a + of_nat k)) [0..<LENGTH('a) div 8]" n]
  by (auto simp: load_word_def word_rcat_def bit_simps rev_map)

lemma load_word_cong:
  assumes "\<And>k. k < LENGTH('a::len) div 8 \<Longrightarrow> m (a + of_nat k) = m' (a + of_nat k)"
  shows "(load_word m a :: 'a word) = load_word m' a"
  unfolding load_word_def using assms by (intro arg_cong [where f = word_rcat] map_cong) auto

lemma load_store_word:
  assumes "8 dvd LENGTH('a::len)" "LENGTH('a) \<le> 64"
  shows "load_word (store_word a (v :: 'a word) m) a = v"
proof (rule bit_word_eqI)
  fix n assume n: "n < LENGTH('a)"
  with assms have k: "n div 8 < LENGTH('a) div 8" by (auto elim!: dvdE)
  have "n div 8 < 8" using assms n by linarith
  then have u: "unat (of_nat (n div 8) :: u64) = n div 8" by (simp add: unat_of_nat)
  have "8 * (n div 8) + n mod 8 = n" by simp
  then have "bit v (8 * (n div 8) + n mod 8) = bit v n" by metis
  then show "bit (load_word (store_word a v m) a :: 'a word) n = bit v n"
    using n k u unfolding bit_load_word store_word_def by (simp add: bit_ucast_iff bit_drop_bit_eq del: mult_div_mod_eq)
qed

lemma load_store_word_disjoint:
  fixes a b :: u64
  assumes "8 \<le> a - b" "8 \<le> b - a"
  shows "(load_word (store_word b (v :: u64) m) a :: u64) = load_word m a"
proof (rule load_word_cong)
  fix k assume "k < LENGTH(64) div 8"
  then have k: "unat (of_nat k :: u64) < 8" by (simp add: unat_of_nat)
  have "8 \<le> unat (a - b)" "unat (a - b) + 8 \<le> 2 ^ 64"
    using assms by (auto simp: word_le_nat_alt unat_sub_if' split: if_splits)
  then have "\<not> unat (a - b + of_nat k) < 8" using k by (simp add: unat_plus_if')
  then show "store_word b v m (a + of_nat k) = m (a + of_nat k)"
    by (simp add: store_word_def diff_add_eq)
qed

text \<open>The same at constant offsets from a common base.\<close>

lemma load_store_at:
  "(load_word (store_word (p + b) (v :: u64) m) (p + b) :: u64) = v"
  "8 \<le> a - b \<Longrightarrow> 8 \<le> b - a \<Longrightarrow> (load_word (store_word (p + b) (v :: u64) m) (p + a) :: u64) = load_word m (p + a)"
  "8 \<le> a \<Longrightarrow> 8 \<le> - a \<Longrightarrow> (load_word (store_word p (v :: u64) m) (p + a) :: u64) = load_word m (p + a)"
  by (simp_all add: load_store_word load_store_word_disjoint)

end
