(* ===== verification/Signal.thy ===== *)
theory Signal
  imports Bytes Vmm Sched
begin

text \<open>
  Signals: delivery on the way out of a system call and the return from a handler, \<^verbatim>\<open>src/kernel/proc/signal.c\<close>,
  the system calls on signals of \<^verbatim>\<open>src/kernel/bsd/syscalls.c\<close>, and the part of
  \<^verbatim>\<open>src/kernel/arch/x86_64/syscall_entry.S\<close> that saves and restores the registers involved. Posting a signal is in
  theory \<open>Sched\<close>. User memory is the bytes of the address space of the current process; the page faults its accesses
  may take are resolved by theory \<open>Fault\<close>. Messages to the console are left out. Where the code halts the machine the
  result is None.
\<close>

section \<open>System call entry and exit\<close>

record uregs =
  u_rip :: u64
  u_rsp :: u64
  u_rflags :: u64
  u_rax :: u64
  u_rdi :: u64
  u_r15 :: u64

record syscall_ret_frame =
  rf_rflags :: u64
  rf_rip :: u64
  rf_user_rsp :: u64

definition syscall_enter :: "uregs \<Rightarrow> umem \<Rightarrow> syscall_ret_frame \<times> umem" where
  "syscall_enter r m =
     (\<lparr>rf_rflags = u_rflags r, rf_rip = u_rip r, rf_user_rsp = u_rsp r - 8\<rparr>, store_word (u_rsp r - 8) (u_r15 r) m)"

definition syscall_leave :: "u64 \<Rightarrow> u64 \<Rightarrow> u64 \<Rightarrow> syscall_ret_frame \<Rightarrow> umem \<Rightarrow> uregs" where
  "syscall_leave rax signo rdi f m =
     \<lparr>u_rip = rf_rip f, u_rsp = rf_user_rsp f + 8, u_rflags = rf_rflags f, u_rax = rax,
      u_rdi = (if signo \<noteq> 0 then signo else rdi), u_r15 = load_word m (rf_user_rsp f)\<rparr>"

section \<open>The trampoline page\<close>

abbreviation (input) SYS_SIGRETURN :: u32 where "SYS_SIGRETURN \<equiv> 95"
abbreviation (input) USER_SIGRETURN_PAGE :: u64 where "USER_SIGRETURN_PAGE \<equiv> 0x00007FFFF0000000"
abbreviation (input) USER_SIGRETURN_ADDR :: u64 where "USER_SIGRETURN_ADDR \<equiv> USER_SIGRETURN_PAGE"

definition trampoline :: "u8 list" where
  "trampoline =
     (let nr = SYS_SIGRETURN
      in [0xb8, ucast nr, ucast (drop_bit 8 nr), ucast (drop_bit 16 nr), ucast (drop_bit 24 nr), 0x0f, 0x05, 0x0f, 0x0b] @
         replicate 4087 0x90)"

definition proc_map_sigreturn_trampoline :: "u64 \<Rightarrow> vm \<Rightarrow> vm" where
  "proc_map_sigreturn_trampoline pml4_virt vm =
     (let (page, vm1) = vm_alloc vm in
      if page = 0 then vm1
      else snd (vmm_map_page pml4_virt USER_SIGRETURN_PAGE page (VMM_U OR VMM_RW)
             (vm1\<lparr>pages := (pages vm1)(page := (\<lambda>i. word_rcat (rev (take 8 (drop (8 * i) trampoline)))))\<rparr>)))"

section \<open>Delivery\<close>

definition pick_signal :: "proc \<Rightarrow> int" where
  "pick_signal p =
     (let deliverable = p_sig_pending p AND NOT (p_sig_blocked p) in
      if deliverable = 0 then -1
      else case find (\<lambda>sig. deliverable AND XOS_SIGBIT (int sig) \<noteq> 0) [1..<nat XOS_NSIG] of
        None \<Rightarrow> -1
      | Some sig \<Rightarrow> int sig)"

text \<open>The frame on the user stack: \<open>saved_r15\<close> at 0, \<open>ret_to_tramp\<close> at 8, then the context.\<close>

definition sigctx :: u64 where "sigctx = 16"
definition sc_rip :: u64 where "sc_rip = 0"
definition sc_rflags :: u64 where "sc_rflags = 8"
definition sc_rsp :: u64 where "sc_rsp = 16"
definition sc_rax :: u64 where "sc_rax = 24"
definition sc_r15 :: u64 where "sc_r15 = 32"
definition sc_mask :: u64 where "sc_mask = 40"
definition sc_signo :: u64 where "sc_signo = 48"

lemmas sc_defs = sigctx_def sc_rip_def sc_rflags_def sc_rsp_def sc_rax_def sc_r15_def sc_mask_def sc_signo_def

definition build_sigframe :: "u64 \<Rightarrow> syscall_ret_frame \<Rightarrow> u64 \<Rightarrow> u64 \<Rightarrow> u64 \<Rightarrow> umem \<Rightarrow> umem" where
  "build_sigframe sf_addr frame retval blocked signo m =
     (let old_ursp = rf_user_rsp frame; saved_r15 = (load_word m old_ursp :: u64); ctx = sf_addr + sigctx
      in store_word (sf_addr + 8) USER_SIGRETURN_ADDR
        (store_word sf_addr saved_r15
        (store_word (ctx + sc_signo) signo
        (store_word (ctx + sc_mask) blocked
        (store_word (ctx + sc_r15) saved_r15
        (store_word (ctx + sc_rax) retval
        (store_word (ctx + sc_rsp) (old_ursp + 8)
        (store_word (ctx + sc_rflags) (rf_rflags frame)
        (store_word (ctx + sc_rip) (rf_rip frame)
        (memset_zero sf_addr 72 m))))))))))"

record syscall_exit =
  x_rax :: u64
  x_signo :: u64
  x_frame :: syscall_ret_frame
  x_mem :: umem
  x_sched :: sched

definition signal_on_syscall_return :: "nat \<Rightarrow> syscall_ret_frame \<Rightarrow> u64 \<Rightarrow> umem \<Rightarrow> sched \<Rightarrow> syscall_exit option" where
  "signal_on_syscall_return c frame retval m s =
     (let plain = (\<lambda>s. \<lparr>x_rax = retval, x_signo = 0, x_frame = frame, x_mem = m, x_sched = s\<rparr>) in
      case proc_current c s of
        None \<Rightarrow> Some (plain s)
      | Some i \<Rightarrow>
          let p = procs s i in
          if \<not> p_ring3 p \<or> p_state p = PROC_DEAD then Some (plain s)
          else let sig = pick_signal p in
          if sig < 0 then Some (plain s)
          else let handler = p_sig_handler p (nat sig) in
          if handler = XOS_SIG_DFL \<or> handler = XOS_SIG_IGN then
            Some (plain (upd_proc i (\<lambda>p. p\<lparr>p_sig_pending := p_sig_pending p AND NOT (XOS_SIGBIT sig)\<rparr>) s))
          else let old_ursp = rf_user_rsp frame in
          if old_ursp \<ge> 0xffff800000000000 \<or> old_ursp < 0x1000 then None
          else let sf_addr = (old_ursp - 72) AND NOT 15 in
          if sf_addr \<ge> old_ursp then Some (plain s)
          else Some \<lparr>x_rax = retval, x_signo = word_of_int sig,
                 x_frame = frame\<lparr>rf_rip := handler, rf_user_rsp := sf_addr\<rparr>,
                 x_mem = build_sigframe sf_addr frame retval (p_sig_blocked p) (word_of_int sig) m,
                 x_sched = upd_proc i (\<lambda>p. p\<lparr>p_sig_pending := p_sig_pending p AND NOT (XOS_SIGBIT sig),
                                           p_sig_blocked := p_sig_blocked p OR (p_sig_mask p (nat sig) OR XOS_SIGBIT sig)\<rparr>) s\<rparr>)"

text \<open>The frame \<open>f\<close> is the one at \<open>rsp0 - 24\<close>, which the entry code of this system call wrote.\<close>

definition sys_sigreturn_impl :: "nat \<Rightarrow> syscall_ret_frame \<Rightarrow> umem \<Rightarrow> sched \<Rightarrow> u64 \<times> syscall_ret_frame \<times> umem \<times> sched" where
  "sys_sigreturn_impl c f m s =
     (case proc_current c s of
        None \<Rightarrow> (-1, f, m, s)
      | Some i \<Rightarrow>
          if cpu_rsp0 (cpus s c) = 0 then (-1, f, m, s)
          else let ctx = rf_user_rsp f + 8;
                   s1 = upd_proc i (\<lambda>p. p\<lparr>p_sig_blocked := load_word m (ctx + sc_mask)\<rparr>) s;
                   resume_rsp = load_word m (ctx + sc_rsp) in
          if resume_rsp < 8 then (-1, f, m, s1)
          else let m1 = store_word (resume_rsp - 8) (load_word m (ctx + sc_r15) :: u64) m
               in (load_word m1 (ctx + sc_rax),
                   \<lparr>rf_rflags = load_word m1 (ctx + sc_rflags) OR 0x200, rf_rip = load_word m1 (ctx + sc_rip),
                    rf_user_rsp = resume_rsp - 8\<rparr>, m1, s1))"

section \<open>System calls\<close>

text \<open>The fields of \<open>xos_sigaction\<close>: handler at 0, mask at 8, flags (an int) at 16.\<close>

definition sys_sigaction_impl :: "nat \<Rightarrow> u64 \<Rightarrow> u64 \<Rightarrow> u64 \<Rightarrow> umem \<Rightarrow> sched \<Rightarrow> u64 \<times> umem \<times> sched" where
  "sys_sigaction_impl c signum act oldact m s =
     (case proc_current c s of
        None \<Rightarrow> (-1, m, s)
      | Some i \<Rightarrow>
          let p = procs s i; n = unat signum in
          if signum = 0 \<or> signum \<ge> 32 then (-1, m, s)
          else if signum = 9 \<or> signum = 17 then (-1, m, s)
          else let m1 = (if oldact = 0 then m
                 else store_word (oldact + 16) (word_of_int (p_sig_flags p n) :: u32)
                   (store_word (oldact + 8) (p_sig_mask p n) (store_word oldact (p_sig_handler p n) m)))
          in (0, m1,
              if act = 0 then s
              else upd_proc i (\<lambda>p. p\<lparr>p_sig_handler := (p_sig_handler p)(n := load_word m1 act),
                                    p_sig_mask := (p_sig_mask p)(n := load_word m1 (act + 8)),
                                    p_sig_flags := (p_sig_flags p)(n := sint (load_word m1 (act + 16) :: u32))\<rparr>) s))"

definition sys_sigprocmask_impl :: "nat \<Rightarrow> u64 \<Rightarrow> u64 \<Rightarrow> u64 \<Rightarrow> umem \<Rightarrow> sched \<Rightarrow> u64 \<times> umem \<times> sched" where
  "sys_sigprocmask_impl c how setp oldset m s =
     (case proc_current c s of
        None \<Rightarrow> (-1, m, s)
      | Some i \<Rightarrow>
          let m1 = (if oldset = 0 then m else store_word oldset (p_sig_blocked (procs s i)) m) in
          if setp = 0 then (0, m1, s)
          else let v = load_word m1 setp; h = (ucast how :: u32) in
          if h = 1 then (0, m1, upd_proc i (\<lambda>p. p\<lparr>p_sig_blocked := p_sig_blocked p OR v\<rparr>) s)
          else if h = 2 then (0, m1, upd_proc i (\<lambda>p. p\<lparr>p_sig_blocked := p_sig_blocked p AND NOT v\<rparr>) s)
          else if h = 0 then (0, m1, upd_proc i (\<lambda>p. p\<lparr>p_sig_blocked := v\<rparr>) s)
          else (-1, m1, s))"

definition sys_kill_impl ::
  "nat \<Rightarrow> (u64 \<Rightarrow> u64 \<Rightarrow> u64) \<Rightarrow> bool \<Rightarrow> u64 \<Rightarrow> u64 \<Rightarrow> u64 \<Rightarrow> sched \<Rightarrow> u64 \<times> sched" where
  "sys_kill_impl c xlate smp rflags pid0 sig s =
     (let pid = (if sint pid0 < 0 then - pid0 else pid0); n = sint (ucast sig :: u32) in
      case proc_by_pid pid s of
        None \<Rightarrow> (-3, s)
      | Some t \<Rightarrow>
          if n = 0 then (0, s)
          else let (ret, s1) = proc_send_signal c xlate smp rflags pid n s in (if ret < 0 then -1 else 0, s1))"

text \<open>The loop of \<open>sys_sigsuspend_impl\<close>: \<open>env k\<close> is what the system does while the process has yielded for the
  \<open>k\<close>-th time.\<close>

definition deliverable_sigs :: "proc \<Rightarrow> u64" where
  "deliverable_sigs p = p_sig_pending p AND NOT (p_sig_blocked p)"

partial_function (option) sigsuspend_loop :: "(nat \<Rightarrow> sched \<Rightarrow> sched) \<Rightarrow> nat \<Rightarrow> nat \<Rightarrow> sched \<Rightarrow> (u64 \<times> sched) option" where
  "sigsuspend_loop env k i s =
     (if deliverable_sigs (procs s i) \<noteq> 0 then Some (-4, s) else sigsuspend_loop env (Suc k) i (env k s))"

definition sys_sigsuspend_impl :: "(nat \<Rightarrow> sched \<Rightarrow> sched) \<Rightarrow> nat \<Rightarrow> u64 \<Rightarrow> umem \<Rightarrow> sched \<Rightarrow> (u64 \<times> sched) option" where
  "sys_sigsuspend_impl env c maskptr m s =
     (case proc_current c s of
        None \<Rightarrow> Some (-1, s)
      | Some i \<Rightarrow>
          let s1 = (if maskptr = 0 then s else upd_proc i (\<lambda>p. p\<lparr>p_sig_blocked := load_word m maskptr\<rparr>) s) in
          if deliverable_sigs (procs s1 i) \<noteq> 0 then Some (-4, s1) else sigsuspend_loop env 0 i s1)"

section \<open>The frame on the user stack\<close>

lemma build_sigframe_fields:
  assumes B: "B = build_sigframe sf frame retval blocked signo m"
  shows "load_word B (sf + 16 + sc_rip) = rf_rip frame" "load_word B (sf + 16 + sc_rflags) = rf_rflags frame"
    "load_word B (sf + 16 + sc_rsp) = rf_user_rsp frame + 8" "load_word B (sf + 16 + sc_rax) = retval"
    "load_word B (sf + 16 + sc_r15) = (load_word m (rf_user_rsp frame) :: u64)" "load_word B (sf + 16 + sc_mask) = blocked"
    "load_word B (sf + 8) = USER_SIGRETURN_ADDR" "load_word B sf = (load_word m (rf_user_rsp frame) :: u64)"
  unfolding B build_sigframe_def Let_def sc_defs
  by (simp_all add: add.assoc load_store_at load_store_word load_store_word_disjoint [where a = sf])

section \<open>Delivery and return\<close>

lemma pick_signal_lowest:
  assumes "pick_signal p = sig" "0 \<le> sig"
  shows "1 \<le> sig \<and> sig < 32 \<and> bit (deliverable_sigs p) (nat sig) \<and> (\<forall>j. 1 \<le> j \<and> j < nat sig \<longrightarrow> \<not> bit (deliverable_sigs p) j)"
proof -
  have bits: "(v AND XOS_SIGBIT (int n) \<noteq> 0) = bit v n" for v n
    by (simp add: XOS_SIGBIT_def bit_iff_and_push_bit_not_eq_0)
  obtain n where n: "find (\<lambda>n. bit (deliverable_sigs p) n) [1..<nat XOS_NSIG] = Some n" "sig = int n"
    using assms by (auto simp: pick_signal_def bits deliverable_sigs_def Let_def simp del: upt_rec_numeral split: if_splits option.splits)
  from find_upt_SomeD [OF n(1)] n(2) show ?thesis by auto
qed

lemma align_down: "(x AND NOT 15) + (x AND 15) = (x :: u64)"
  by (subst disjunctive_add) (auto simp: bit_simps intro: bit_word_eqI)

lemma sigframe_below:
  fixes old :: u64
  assumes "sf = (old - 72) AND NOT 15"
  shows "72 \<le> unat (old - sf)" "unat (old - sf) \<le> 87" "sf AND 15 = 0"
proof -
  have "old - sf = 72 + ((old - 72) AND 15)" using align_down [of "old - 72"] assms by (simp add: algebra_simps)
  moreover have "unat ((old - 72) AND 15) \<le> 15" using word_and_le1 [of "old - 72" "15"] by (simp add: word_le_nat_alt)
  ultimately show "72 \<le> unat (old - sf)" "unat (old - sf) \<le> 87" by (simp_all add: unat_word_ariths)
  show "sf AND 15 = 0" unfolding assms by (rule bit_word_eqI) (simp add: bit_simps)
qed

lemma stack_disjoint:
  fixes d :: u64
  assumes "72 \<le> unat d" "unat d \<le> 87" "a \<le> 64"
  shows "8 \<le> a - d" "8 \<le> d - a"
  using assms by (auto simp: word_le_nat_alt unat_sub_if')

text \<open>The memory the return works on: that of the handler, with \<open>r15\<close> pushed by the entry code at the place of the
  return address, and the context untouched.\<close>

lemma context_kept:
  fixes sf :: u64
  assumes "\<And>k. k < 56 \<Longrightarrow> m' (sf + 16 + of_nat k) = m (sf + 16 + of_nat k)" "n \<le> 48"
  shows "(load_word (store_word (sf + 8) (v :: u64) m') (sf + 16 + of_nat n) :: u64) = load_word m (sf + 16 + of_nat n)"
proof -
  have n: "unat (of_nat n :: u64) = n" using assms(2) by (simp add: unat_of_nat)
  have "8 \<le> (16 + of_nat n) - (8 :: u64)" "8 \<le> (8 :: u64) - (16 + of_nat n)"
    using assms(2) n by (auto simp: word_le_nat_alt unat_word_ariths unat_sub_if')
  then have "(load_word (store_word (sf + 8) v m') (sf + 16 + of_nat n) :: u64) = load_word m' (sf + 16 + of_nat n)"
    unfolding add.assoc by (rule load_store_at(2))
  also have "\<dots> = load_word m (sf + 16 + of_nat n)"
  proof (rule load_word_cong)
    fix k assume "k < LENGTH(64) div 8"
    then show "m' (sf + 16 + of_nat n + of_nat k) = m (sf + 16 + of_nat n + of_nat k)"
      using assms(1) [of "n + k"] assms(2) by (simp add: add.assoc)
  qed
  finally show ?thesis .
qed

lemma sigreturn_restores:
  assumes sf: "72 \<le> unat (rf_user_rsp f - sf)" "unat (rf_user_rsp f - sf) \<le> 87" and old: "0x1000 \<le> rf_user_rsp f" "rf_user_rsp f < 0xffff800000000000"
    and kept: "\<And>k. k < 56 \<Longrightarrow> m' (sf + 16 + of_nat k) = build_sigframe sf f retval blocked signo m (sf + 16 + of_nat k)"
    and cur: "proc_current c s = Some i" "cpu_rsp0 (cpus s c) \<noteq> 0" and r: "u_rsp r = sf + 16"
  shows "case syscall_enter r m' of (f1, m1) \<Rightarrow> sys_sigreturn_impl c f1 m1 s =
     (retval, \<lparr>rf_rflags = rf_rflags f OR 0x200, rf_rip = rf_rip f, rf_user_rsp = rf_user_rsp f\<rparr>,
      store_word (rf_user_rsp f) (load_word m (rf_user_rsp f) :: u64) m1, upd_proc i (\<lambda>p. p\<lparr>p_sig_blocked := blocked\<rparr>) s)"
proof -
  define m1 where "m1 = store_word (sf + 8) (u_r15 r) m'"
  let ?old = "rf_user_rsp f"
  note flds = build_sigframe_fields [OF refl, of sf f retval blocked signo m]
  have ld: "(load_word m1 (sf + 16 + of_nat n) :: u64) = load_word (build_sigframe sf f retval blocked signo m) (sf + 16 + of_nat n)"
    if "n \<le> 48" for n unfolding m1_def using kept that by (rule context_kept)
  have ctx: "load_word m1 (sf + 16 + sc_rip) = rf_rip f" "load_word m1 (sf + 16 + sc_rflags) = rf_rflags f"
    "load_word m1 (sf + 16 + sc_rsp) = ?old + 8" "load_word m1 (sf + 16 + sc_rax) = retval"
    "load_word m1 (sf + 16 + sc_r15) = (load_word m ?old :: u64)" "load_word m1 (sf + 16 + sc_mask) = blocked"
    using ld [of 0] ld [of 8] ld [of 16] ld [of 24] ld [of 32] ld [of 40] flds by (simp_all add: sc_defs)
  have st: "(load_word (store_word ?old (v :: u64) m1) (sf + 16 + a) :: u64) = load_word m1 (sf + 16 + a)" if "a \<le> 48" for a v
  proof -
    have a: "16 + a \<le> 64" using that by (simp add: word_le_nat_alt unat_word_ariths)
    have "?old = sf + (?old - sf)" by simp
    then show ?thesis
      using load_store_at(2) [OF stack_disjoint [OF sf a], of sf v m1] by (simp add: add.assoc)
  qed
  have le: "sc_rip \<le> 48" "sc_rflags \<le> 48" "sc_rax \<le> 48" by (simp_all add: sc_defs)
  have "\<not> ?old + 8 < 8" using old by (simp add: word_less_nat_alt word_le_nat_alt unat_word_ariths)
  moreover have "syscall_enter r m' = (\<lparr>rf_rflags = u_rflags r, rf_rip = u_rip r, rf_user_rsp = sf + 8\<rparr>, m1)" "sf + 8 + 8 = sf + 16"
    by (simp_all add: r m1_def syscall_enter_def add.commute)
  ultimately show ?thesis
    unfolding sys_sigreturn_impl_def using cur by (simp only: prod.case syscall_ret_frame.simps) (simp add: ctx st le Let_def del: add.commute)
qed

lemma signal_delivered:
  assumes "signal_on_syscall_return c f retval m s = Some x" "x_signo x \<noteq> 0" "proc_current c s = Some i"
  obtains n where "pick_signal (procs s i) = int n"
    "0x1000 \<le> rf_user_rsp f" "rf_user_rsp f < 0xffff800000000000"
    "x = \<lparr>x_rax = retval, x_signo = of_nat n,
          x_frame = f\<lparr>rf_rip := p_sig_handler (procs s i) n, rf_user_rsp := (rf_user_rsp f - 72) AND NOT 15\<rparr>,
          x_mem = build_sigframe ((rf_user_rsp f - 72) AND NOT 15) f retval (p_sig_blocked (procs s i)) (of_nat n) m,
          x_sched = upd_proc i (\<lambda>p. p\<lparr>p_sig_pending := p_sig_pending p AND NOT (XOS_SIGBIT (int n)),
                       p_sig_blocked := p_sig_blocked p OR (p_sig_mask p n OR XOS_SIGBIT (int n))\<rparr>) s\<rparr>"
proof -
  define sig where "sig = pick_signal (procs s i)"
  have "0 \<le> sig" using assms by (auto simp: signal_on_syscall_return_def Let_def sig_def not_less split: if_splits)
  then obtain n where n: "pick_signal (procs s i) = int n" by (auto simp: sig_def elim: nonneg_int_cases)
  show ?thesis
    by (rule that [OF n]) (use assms n in \<open>auto simp: signal_on_syscall_return_def Let_def not_less not_le split: if_splits\<close>)
qed

lemma aligned_plus_8:
  fixes sf :: u64
  assumes "sf AND 15 = 0"
  shows "(sf + 8) AND 15 = 8"
proof -
  have z: "sf AND 8 = 0" using arg_cong [OF assms, of "\<lambda>w. w AND 8"] by (simp add: and.assoc)
  then have "sf + 8 = sf OR 8" by (rule disjunctive_add_eq_or)
  then show ?thesis using assms by (simp add: and.commute [of _ 15] bit.conj_disj_distrib)
qed

section \<open>Properties\<close>


definition ex_sig :: sched where
  "ex_sig = (sched_bss 100)\<lparr>
     procs := (\<lambda>_. zero_proc\<lparr>p_ring3 := True, p_state := PROC_RUNNING, p_sig_pending := 0x100000, p_sig_handler := (\<lambda>_. 0x400000)\<rparr>),
     cpus := (\<lambda>_. zero_cpu\<lparr>current_proc := Some 1, cpu_rsp0 := 0x9000\<rparr>)\<rparr>"


section \<open>Well-formed signal tables\<close>

text \<open>SIGKILL and SIGSTOP have the default action, and only signals 1 to 31 other than these two are ever pending.\<close>

definition sig_ok :: "proc \<Rightarrow> bool" where
  "sig_ok p \<longleftrightarrow> p_sig_handler p 9 = XOS_SIG_DFL \<and> p_sig_handler p 17 = XOS_SIG_DFL \<and> 
     (\<forall>n \<in> {0, 9, 17} \<union> {32..<64}. \<not> bit (p_sig_pending p) n)"

definition sig_table_ok :: "sched \<Rightarrow> bool" where
  "sig_table_ok s \<longleftrightarrow> (\<forall>i. sig_ok (procs s i))"

definition same_sigs :: "sched \<Rightarrow> sched \<Rightarrow> bool" where
  "same_sigs s t \<longleftrightarrow> (\<forall>i. p_sig_handler (procs t i) = p_sig_handler (procs s i) \<and> p_sig_pending (procs t i) = p_sig_pending (procs s i))"

lemma same_sigs_refl [simp]: "same_sigs s s" by (simp add: same_sigs_def)

lemma same_sigs_trans: "same_sigs s t \<Longrightarrow> same_sigs t u \<Longrightarrow> same_sigs s u"
  by (simp add: same_sigs_def)

lemma same_sigs_ok: "same_sigs s t \<Longrightarrow> sig_table_ok s \<Longrightarrow> sig_table_ok t"
  by (simp add: same_sigs_def sig_table_ok_def sig_ok_def)

lemma same_sigs_upd [simp]:
  "(\<And>x. p_sig_handler (f x) = p_sig_handler x \<and> p_sig_pending (f x) = p_sig_pending x) \<Longrightarrow> same_sigs s (upd_proc p f t) = same_sigs s t"
  by (auto simp: same_sigs_def upd_proc_def)

lemma same_sigs_frame [simp]:
  "same_sigs s (upd_cpu c g t) = same_sigs s t" "same_sigs s (emit e t) = same_sigs s t"
  "same_sigs s (t\<lparr>ready := r\<rparr>) = same_sigs s t" "same_sigs s (t\<lparr>ticks := k\<rparr>) = same_sigs s t"
  "same_sigs s (t\<lparr>stack_word := w\<rparr>) = same_sigs s t" "same_sigs s (t\<lparr>cpu_count := n\<rparr>) = same_sigs s t"
  by (simp_all add: same_sigs_def upd_cpu_def emit_def)

lemma same_sigs_fold:
  assumes "\<And>p s w. same_sigs s (fst (g p (s, w)))"
  shows "same_sigs s (fst (fold g ps (s, w)))"
proof (induction ps arbitrary: s w)
  case (Cons p ps)
  obtain s1 w1 where g: "g p (s, w) = (s1, w1)" by fastforce
  then have "same_sigs s s1" using assms [of s p w] by simp
  with Cons [of s1 w1] g show ?case by (auto intro: same_sigs_trans)
qed simp

lemma same_sigs_wakes:
  "same_sigs s (fst (wake_expired s))" "same_sigs s (sched_wake_chan c chan s)" "same_sigs s (sched_wake_sleepers c got s)"
proof -
  show 1: "same_sigs s (fst (wake_expired s))" for s
    unfolding wake_expired_def by (rule same_sigs_fold) (simp add: wake_one_def)
  have "same_sigs s (fst (fold (wake_chan_one chan) (linked s) (s, False)))"
    by (rule same_sigs_fold) (simp add: wake_chan_one_def)
  then show "same_sigs s (sched_wake_chan c chan s)" by (auto simp: sched_wake_chan_def split: prod.split)
  show "same_sigs s (sched_wake_sleepers c got s)" using 1 [of s] by (auto simp: sched_wake_sleepers_def split: prod.split)
qed

lemma same_sigs_queues [simp]: "same_sigs s (ready_dequeue p t) = same_sigs s t" "same_sigs s (ready_enqueue p t) = same_sigs s t"
  by (simp_all add: ready_dequeue_def ready_enqueue_def Let_def split: option.split)

lemma same_sigs_switch [simp]: "same_sigs s (switch_to c cur nxt own rflags t) = same_sigs s t"
  by (simp add: switch_to_def set_rsp0_def Let_def)

lemma same_sigs_yield:
  assumes "same_sigs s t"
  shows "same_sigs s (yield_pick c rflags cur t)"
proof -
  have "same_sigs t (snd (pick_next_ready c t))"
    using same_sigs_wakes(1) [of t] by (simp add: pick_next_ready_def Let_def split: option.split prod.split)
  then have "same_sigs s (snd (pick_next_ready c t))" using assms by (rule same_sigs_trans [rotated])
  then show ?thesis by (auto simp: yield_pick_def Let_def split: option.split prod.split)
qed

lemma sig_table_ok_frame [simp]:
  "sig_table_ok (s\<lparr>stack_word := w\<rparr>) = sig_table_ok s" "sig_table_ok (upd_cpu c g s) = sig_table_ok s" "sig_table_ok (s\<lparr>ready := r\<rparr>) = sig_table_ok s"
  by (simp_all add: sig_table_ok_def upd_cpu_def)

lemma sig_table_ok_upd: "sig_table_ok s \<Longrightarrow> (\<And>x. sig_ok x \<Longrightarrow> sig_ok (f x)) \<Longrightarrow> sig_table_ok (upd_proc i f s)"
  by (simp add: sig_table_ok_def upd_proc_def)

lemma send_signal_ok:
  assumes "sig_table_ok s"
  shows "sig_table_ok (snd (send_signal_via (\<lambda>_ s. s) pid sig s))"
proof -
  have "sig_ok (x\<lparr>p_sig_pending := p_sig_pending x OR XOS_SIGBIT sig\<rparr>)"
    if "sig_ok x" "0 < sig" "sig < 32" "sig_verdict_for (procs s i) sig = Sig_queue" for x i
    using that by (auto simp: sig_ok_def XOS_SIGBIT_def bit_simps sig_verdict_for_def sig_uncatchable_def Let_def split: if_splits)
  then show ?thesis
    using assms by (auto simp: send_signal_via_def split: option.splits sig_verdict.splits intro!: sig_table_ok_upd)
qed

lemma exit_teardown_ok:
  assumes "sig_table_ok s"
  shows "sig_table_ok (exit_teardown c xlate p s)"
proof -
  have "sig_table_ok (exit_clear_tid c xlate p s)"
    using assms by (auto simp: exit_clear_tid_def Let_def intro!: same_sigs_ok [OF same_sigs_wakes(2)] intro: same_sigs_ok [of s])
  then have "sig_table_ok (exit_notify_parent p (exit_clear_tid c xlate p s))"
    by (simp add: exit_notify_parent_def send_signal_ok)
  then have "sig_table_ok (exit_free_space c p (exit_notify_parent p (exit_clear_tid c xlate p s)))"
    by (rule same_sigs_ok [rotated]) (simp add: exit_free_space_def drop_space_def Let_def)
  then show ?thesis
    unfolding exit_teardown_def by (rule same_sigs_ok [rotated]) (simp add: exit_free_stack_def)
qed

text \<open>Every step of the scheduler keeps the tables well formed.\<close>

lemma sig_ok_zero [simp]: "sig_ok (init_slot i e ph v k p)" "sig_ok zero_proc"
  by (simp_all add: sig_ok_def init_slot_def zero_proc_def Let_def)

lemma sched_step_sig_ok:
  assumes "sched_step s t" "sig_table_ok s"
  shows "sig_table_ok t"
  using assms
proof cases
  case (create entry phys virt kstack)
  then show ?thesis using assms(2) by (auto simp: proc_create_def Let_def intro!: sig_table_ok_upd split: option.split)
next
  case (teardown c xlate p)
  then show ?thesis using assms(2) exit_teardown_ok by simp
next
  case (join pml4 kpml4 kstack loop)
  then show ?thesis by (auto simp: sched_init_ap_def init_idle_def Let_def intro!: same_sigs_ok [OF _ assms(2)] split: option.split)
qed (auto intro!: same_sigs_ok [OF _ assms(2)] same_sigs_yield same_sigs_wakes
    simp: mark_blocked_def block_return_def switch_done_def proc_make_ready_def sched_notify_new_proc_def sched_adopt_current_def proc_set_current_def
      proc_set_priority_def exit_claim_def exit_unlink_def kill_remote_def kill_unlink_def kill_finish_def Let_def split: option.splits if_splits)

text \<open>The scheduler together with the signal system calls. The kills that posting a signal may cause are steps of the
  scheduler.\<close>

inductive signal_step :: "sched \<Rightarrow> sched \<Rightarrow> bool" where
  sched: "sched_step s t \<Longrightarrow> signal_step s t"
| post: "signal_step s (snd (send_signal_via (\<lambda>_ s. s) pid sig s))"
| action: "sys_sigaction_impl c signum act oldact m s = (ret, m', t) \<Longrightarrow> signal_step s t"
| procmask: "sys_sigprocmask_impl c how setp oldset m s = (ret, m', t) \<Longrightarrow> signal_step s t"
| suspend: "proc_current c s = Some i \<Longrightarrow> signal_step s (upd_proc i (\<lambda>p. p\<lparr>p_sig_blocked := load_word m maskptr\<rparr>) s)"
| deliver: "signal_on_syscall_return c f retval m s = Some x \<Longrightarrow> signal_step s (x_sched x)"
| sigreturn: "sys_sigreturn_impl c f m s = (ret, f', m', t) \<Longrightarrow> signal_step s t"

inductive signal_reach :: "sched \<Rightarrow> bool" where
  boot: "signal_reach (sched_boot hz pml4 kpml4 kstack loop)"
| step: "signal_reach s \<Longrightarrow> signal_step s t \<Longrightarrow> signal_reach t"

lemma sigaction_ok:
  assumes "sys_sigaction_impl c signum act oldact m s = (ret, m', t)" "sig_table_ok s"
  shows "sig_table_ok t"
proof (cases "proc_current c s")
  case (Some i)
  have "unat signum \<noteq> 9" "unat signum \<noteq> 17" if "signum \<noteq> 9" "signum \<noteq> 17"
    using that by (auto simp: word_unat_eq_iff)
  then show ?thesis
    using assms Some by (auto simp: sys_sigaction_impl_def Let_def sig_ok_def intro!: sig_table_ok_upd split: if_splits)
qed (use assms in \<open>simp add: sys_sigaction_impl_def\<close>)

lemma deliver_sig_ok:
  assumes "signal_on_syscall_return c f retval m s = Some x" "sig_table_ok s"
  shows "sig_table_ok (x_sched x)"
  using assms
  by (auto simp: signal_on_syscall_return_def Let_def sig_ok_def bit_simps intro!: sig_table_ok_upd split: option.splits if_splits)

lemma signal_reach_ok: "signal_reach s \<Longrightarrow> sig_table_ok s"
proof (induction rule: signal_reach.induct)
  case (boot hz pml4 kpml4 kstack loop)
  then show ?case
    by (simp add: sched_boot_def sched_init_def sched_early_init_def sched_bss_def init_idle_def upd_proc_def Let_def sig_table_ok_def)
      (simp add: sig_ok_def zero_proc_def)
next
  case (step s t)
  from step(2) show ?case
  proof cases
    case sched
    then show ?thesis using step(3) by (rule sched_step_sig_ok)
  next
    case post
    then show ?thesis using step(3) send_signal_ok by simp
  next
    case action
    then show ?thesis using step(3) by (rule sigaction_ok)
  next
    case procmask
    then show ?thesis using step(3)
      by (auto simp: sys_sigprocmask_impl_def Let_def sig_ok_def intro!: sig_table_ok_upd split: option.splits if_splits)
  next
    case suspend
    then show ?thesis using step(3) by (auto simp: sig_ok_def intro!: sig_table_ok_upd)
  next
    case deliver
    then show ?thesis using step(3) by (auto intro: deliver_sig_ok)
  next
    case sigreturn
    then show ?thesis using step(3)
      by (auto simp: sys_sigreturn_impl_def Let_def sig_ok_def intro!: sig_table_ok_upd split: option.splits if_splits)
  qed
qed

text \<open>C23: the signal tables are well formed in every state that the scheduler and the signal system calls reach from
  boot: no process ever has a handler for SIGKILL or SIGSTOP, only signals 1 to 31 other than these two are ever
  pending, and so delivery never diverts a process into a handler for one of them.\<close>

theorem signal_tables_typed:
  assumes "signal_reach s"
  shows "sig_ok (procs s i) \<and> pick_signal (procs s i) < 32 \<and> pick_signal (procs s i) \<notin> {0, 9, 17}"
proof -
  have ok: "sig_ok (procs s i)" using signal_reach_ok [OF assms] by (simp add: sig_table_ok_def)
  show ?thesis
  proof (cases "0 \<le> pick_signal (procs s i)")
    case True
    from pick_signal_lowest [OF refl this] ok show ?thesis by (auto simp: sig_ok_def deliverable_sigs_def bit_simps)
  qed (use ok in auto)
qed

theorem signal_tables_typed_witness:
  "signal_reach (sched_boot 100 4096 8192 0x10000 0x500) \<and> sig_ok (procs (sched_boot 100 4096 8192 0x10000 0x500) 0)"
  using signal_tables_typed [OF signal_reach.boot, of 100 4096 8192 "0x10000" "0x500" 0] signal_reach.boot by blast

end
