(* ===== verification/Elf.thy ===== *)
theory Elf
  imports Bytes Vmm
begin

text \<open>
  The ELF loader, \<^verbatim>\<open>src/kernel/elf/elf.c\<close>, on the page tables of theory \<open>Vmm\<close>. The file is a function from offsets to
  bytes, which says what the kernel would read behind its end too, and its length. Physical pages are 512 words; the
  bytes of a page are those of its words, least significant first.
\<close>

section \<open>Bytes of physical pages\<close>

definition page_byte :: "(nat \<Rightarrow> u64) \<Rightarrow> nat \<Rightarrow> u8" where
  "page_byte w k = ucast (drop_bit (8 * (k mod 8)) (w (k div 8)))"

definition page_of_bytes :: "(nat \<Rightarrow> u8) \<Rightarrow> nat \<Rightarrow> u64" where
  "page_of_bytes f i = word_rcat (map (\<lambda>k. f (8 * i + k)) (rev [0..<8]))"

definition copy_to_page :: "u64 \<Rightarrow> nat \<Rightarrow> u8 list \<Rightarrow> vm \<Rightarrow> vm" where
  "copy_to_page phys off bs vm =
     vm\<lparr>pages := (pages vm)(phys := page_of_bytes
       (\<lambda>k. if off \<le> k \<and> k < off + length bs then bs ! (k - off) else page_byte (pages vm phys) k))\<rparr>"

section \<open>Headers\<close>

abbreviation (input) PT_LOAD :: u32 where "PT_LOAD \<equiv> 1"
abbreviation (input) VMM_X :: u64 where "VMM_X \<equiv> 0"

record elf64_ehdr =
  e_ident :: "u8 list"
  e_type :: u16
  e_machine :: u16
  e_version :: u32
  e_entry :: u64
  e_phoff :: u64
  e_shoff :: u64
  e_flags :: u32
  e_ehsize :: u16
  e_phentsize :: u16
  e_phnum :: u16
  e_shentsize :: u16
  e_shnum :: u16
  e_shstrndx :: u16

record elf64_phdr =
  ph_type :: u32
  ph_flags :: u32
  ph_offset :: u64
  ph_vaddr :: u64
  ph_paddr :: u64
  ph_filesz :: u64
  ph_memsz :: u64
  ph_align :: u64

definition read_ehdr :: "umem \<Rightarrow> elf64_ehdr" where
  "read_ehdr d =
     \<lparr>e_ident = map (\<lambda>k. d (of_nat k)) [0..<16], e_type = load_word d 16, e_machine = load_word d 18,
      e_version = load_word d 20, e_entry = load_word d 24, e_phoff = load_word d 32, e_shoff = load_word d 40,
      e_flags = load_word d 48, e_ehsize = load_word d 52, e_phentsize = load_word d 54, e_phnum = load_word d 56,
      e_shentsize = load_word d 58, e_shnum = load_word d 60, e_shstrndx = load_word d 62\<rparr>"

definition read_phdr :: "umem \<Rightarrow> u64 \<Rightarrow> elf64_phdr" where
  "read_phdr d a =
     \<lparr>ph_type = load_word d a, ph_flags = load_word d (a + 4), ph_offset = load_word d (a + 8), ph_vaddr = load_word d (a + 16),
      ph_paddr = load_word d (a + 24), ph_filesz = load_word d (a + 32), ph_memsz = load_word d (a + 40),
      ph_align = load_word d (a + 48)\<rparr>"

definition elf_validate :: "umem \<Rightarrow> u64 \<Rightarrow> elf64_ehdr option" where
  "elf_validate d len =
     (if len < 64 then None
      else let h = read_ehdr d in
      if e_ident h ! 0 \<noteq> 0x7f \<or> e_ident h ! 1 \<noteq> 69 \<or> e_ident h ! 2 \<noteq> 76 \<or> e_ident h ! 3 \<noteq> 70 then None
      else if e_ident h ! 4 \<noteq> 2 then None
      else if e_ident h ! 5 \<noteq> 1 then None
      else if e_ident h ! 6 \<noteq> 1 then None
      else if e_type h \<noteq> 2 then None
      else if e_machine h \<noteq> 62 then None
      else if e_phentsize h < 56 then None
      else if e_phoff h + ucast (e_phnum h) * ucast (e_phentsize h) > len then None
      else Some h)"

section \<open>Loading\<close>

definition seg_flags :: "elf64_phdr \<Rightarrow> u64" where
  "seg_flags ph =
     (if ph_flags ph AND 4 \<noteq> 0 then VMM_U else 0) OR
     (if ph_flags ph AND 2 \<noteq> 0 then VMM_U OR VMM_RW else 0) OR
     (if ph_flags ph AND 1 \<noteq> 0 then VMM_U OR VMM_X else 0)"

text \<open>The bytes copied into the page of the segment at \<open>va\<close>.\<close>

definition file_chunk :: "umem \<Rightarrow> u64 \<Rightarrow> u64 \<Rightarrow> u8 list" where
  "file_chunk d src_off file_end =
     (if src_off < file_end then
        let to_copy = (if src_off + 0x1000 > file_end then file_end - src_off else 0x1000)
        in map (\<lambda>k. d (src_off + of_nat k)) [0..<unat to_copy]
      else [])"

definition page_source :: "umem \<Rightarrow> elf64_phdr \<Rightarrow> u64 \<Rightarrow> u8 list" where
  "page_source d ph va = file_chunk d (ph_offset ph + (va - ph_vaddr ph)) (ph_offset ph + ph_filesz ph)"

definition load_page :: "umem \<Rightarrow> elf64_phdr \<Rightarrow> u64 \<Rightarrow> u64 \<Rightarrow> vm \<Rightarrow> bool \<times> vm" where
  "load_page d ph pml4 va vm =
     (let (page, vm1) = vm_alloc vm in
      if page = 0 then (False, vm1)
      else let vm2 = copy_to_page page 0 (page_source d ph va) (zero_page page vm1)
           in (True, snd (vmm_map_page pml4 va page (seg_flags ph) vm2)))"

definition free_count :: "vm \<Rightarrow> nat" where
  "free_count vm = count_below (total_frames (vm_pmm vm)) (\<lambda>f. \<not> bit_get (bitmap (vm_pmm vm)) f)"

lemma vm_alloc_count:
  assumes "vm_alloc vm = (a, vm')"
  shows "free_count vm' \<le> free_count vm" "a \<noteq> 0 \<Longrightarrow> free_count vm' < free_count vm"
proof -
  have "free_count vm' < free_count vm \<or> a = 0 \<and> vm' = vm"
  proof (cases "find (\<lambda>scan. \<not> bit_get (bitmap (vm_pmm vm)) ((alloc_hint (vm_pmm vm) + scan) mod total_frames (vm_pmm vm))) [0..<total_frames (vm_pmm vm)]")
    case None
    then show ?thesis using assms by (simp add: vm_alloc_def pmm_alloc_frame_def)
  next
    case (Some scan)
    define f where "f = (alloc_hint (vm_pmm vm) + scan) mod total_frames (vm_pmm vm)"
    have f: "f < total_frames (vm_pmm vm)" "\<not> bit_get (bitmap (vm_pmm vm)) f"
      using find_upt_SomeD [OF Some] by (auto simp: f_def)
    have same: "total_frames (vm_pmm vm') = total_frames (vm_pmm vm)" "bitmap (vm_pmm vm') = bit_set f (bitmap (vm_pmm vm))"
      using assms Some by (auto simp: vm_alloc_def pmm_alloc_frame_def f_def Let_def)
    have "free_count vm = free_count vm' + 1"
      unfolding free_count_def same by (rule count_below_remove [where f = f]) (use f in auto)
    then show ?thesis by simp
  qed
  then show "free_count vm' \<le> free_count vm" "a \<noteq> 0 \<Longrightarrow> free_count vm' < free_count vm" by auto
qed

lemma free_count_pages [simp]:
  "free_count (set_entry t i e vm) = free_count vm" "free_count (zero_page t vm) = free_count vm"
  "free_count (copy_to_page t k bs vm) = free_count vm"
  by (simp_all add: free_count_def copy_to_page_def)

lemma ensure_table_count: "free_count (snd (ensure_table tab i vm)) \<le> free_count vm"
  using vm_alloc_count(1) [of vm] by (cases "vm_alloc vm") (auto simp: ensure_table_def Let_def)

lemma map_page_count: "free_count (snd (vmm_map_page pml4 va pa fl vm)) \<le> free_count vm"
proof -
  have "free_count vm2 \<le> free_count vm1" if "ensure_table tab i vm1 = (t, vm2)" for tab i t vm1 vm2
    using ensure_table_count [of tab i vm1] that by simp
  then show ?thesis
    unfolding vmm_map_page_def by (auto split: prod.split option.split intro: order_trans) (meson order_trans)+
qed

lemma load_page_count: "load_page d ph pml4 va vm = (True, vm') \<Longrightarrow> free_count vm' < free_count vm"
  using vm_alloc_count(2) [of vm]
  by (auto simp: load_page_def Let_def split: prod.splits if_splits intro!: le_less_trans [OF map_page_count])

text \<open>The loop over the pages of a segment. Its counter may wrap; it ends all the same, since every round takes a
  frame.\<close>

function load_pages :: "umem \<Rightarrow> elf64_phdr \<Rightarrow> u64 \<Rightarrow> u64 \<Rightarrow> vm \<Rightarrow> bool \<times> vm" where
  "load_pages d ph pml4 va vm =
     (if va < ph_vaddr ph + ph_memsz ph then
        case load_page d ph pml4 va vm of
          (False, vm') \<Rightarrow> (False, vm')
        | (True, vm') \<Rightarrow> load_pages d ph pml4 (va + 0x1000) vm'
      else (True, vm))"
  by pat_completeness auto
termination
  by (relation "measure (\<lambda>(d, ph, pml4, va, vm). free_count vm)") (auto dest: load_page_count [OF sym])

declare load_pages.simps [simp del]

definition load_segment :: "umem \<Rightarrow> u64 \<Rightarrow> u64 \<Rightarrow> elf64_phdr \<Rightarrow> vm \<Rightarrow> bool \<times> vm" where
  "load_segment d len pml4 ph vm =
     (if ph_type ph \<noteq> PT_LOAD then (True, vm)
      else if ph_offset ph + ph_filesz ph > len then (False, vm)
      else load_pages d ph pml4 (ph_vaddr ph AND NOT 0xFFF) vm)"

definition phdr_at :: "umem \<Rightarrow> elf64_ehdr \<Rightarrow> nat \<Rightarrow> elf64_phdr" where
  "phdr_at d h i = read_phdr d (e_phoff h + of_nat i * ucast (e_phentsize h))"

definition elf_load :: "umem \<Rightarrow> u64 \<Rightarrow> u64 \<Rightarrow> vm \<Rightarrow> u64 option \<times> vm" where
  "elf_load d len pml4 vm0 =
     (case elf_validate d len of
        None \<Rightarrow> (None, vm0)
      | Some h \<Rightarrow>
          (case fold (\<lambda>i (ok, vm). if ok then load_segment d len pml4 (phdr_at d h i) vm else (False, vm))
                  [0..<unat (e_phnum h)] (True, vm0) of
             (True, vm) \<Rightarrow> (Some (e_entry h), vm)
           | (False, vm) \<Rightarrow> (None, vm)))"

section \<open>Pages as bytes\<close>

lemma bit_page_of_bytes: "bit (page_of_bytes f i) n \<longleftrightarrow> n < 64 \<and> bit (f (8 * i + n div 8)) (n mod 8)"
  using bit_horner_sum_uint_exp_iff [of "map (\<lambda>k. f (8 * i + k)) [0..<8]" n]
  by (auto simp: page_of_bytes_def word_rcat_def bit_simps rev_map simp del: upt_rec_numeral)

lemma page_byte_of_bytes [simp]: "page_byte (page_of_bytes f) k = f k"
proof (rule bit_word_eqI)
  fix n assume "n < LENGTH(8)"
  then have n: "n < 8" by simp
  then have "(8 * (k mod 8) + n) div 8 = k mod 8" "(8 * (k mod 8) + n) mod 8 = n" "8 * (k mod 8) + n < 64" by auto
  then show "bit (page_byte (page_of_bytes f) k) n = bit (f k) n"
    using n by (simp add: page_byte_def bit_page_of_bytes bit_simps)
qed

section \<open>Pages of an address space\<close>

lemma bit_0x1FF: "bit (0x1FF :: u64) n \<longleftrightarrow> n < 9"
proof -
  have "(0x1FF :: u64) = mask 9" by (simp add: mask_eq_exp_minus_1)
  then show ?thesis by (simp only: bit_mask_iff) auto
qed

lemma bit_0xFFF: "bit (0xFFF :: u64) n \<longleftrightarrow> n < 12"
proof -
  have "(0xFFF :: u64) = mask 12" by (simp add: mask_eq_exp_minus_1)
  then show ?thesis by (simp only: bit_mask_iff) auto
qed

lemma idx_eq_bits:
  fixes v w :: u64
  shows "unat (drop_bit s v AND 0x1FF) = unat (drop_bit s w AND (0x1FF :: u64)) \<longleftrightarrow> (\<forall>n. s \<le> n \<and> n < s + 9 \<longrightarrow> bit v n = bit w n)"
proof -
  have "drop_bit s v AND 0x1FF = drop_bit s w AND (0x1FF :: u64) \<longleftrightarrow> (\<forall>n. n < 9 \<longrightarrow> bit v (s + n) = bit w (s + n))"
    unfolding bit_eq_iff bit_and_iff bit_0x1FF bit_drop_bit_eq comp_def by (simp, rule iff_allI) auto
  also have "\<dots> \<longleftrightarrow> (\<forall>n. s \<le> n \<and> n < s + 9 \<longrightarrow> bit v n = bit w n)"
    by (metis add_less_cancel_left le_add1 le_add_diff_inverse)
  finally show ?thesis by (simp add: word_unat_eq_iff)
qed

lemma page_of_eq_bits: "page_of v = page_of w \<longleftrightarrow> (\<forall>n. 12 \<le> n \<and> n < 48 \<longrightarrow> bit v n = bit w n)"
proof -
  have "(\<forall>n. 12 \<le> n \<and> n < 48 \<longrightarrow> Q n) \<longleftrightarrow>
      (\<forall>n. 39 \<le> n \<and> n < 39 + 9 \<longrightarrow> Q n) \<and> (\<forall>n. 30 \<le> n \<and> n < 30 + 9 \<longrightarrow> Q n) \<and>
      (\<forall>n. 21 \<le> n \<and> n < 21 + 9 \<longrightarrow> Q n) \<and> (\<forall>n. 12 \<le> n \<and> n < 12 + 9 \<longrightarrow> Q n)" for Q :: "nat \<Rightarrow> bool"
    by (auto) (metis (no_types, opaque_lifting) not_less)
  then show ?thesis
    unfolding page_of_def PML4_IDX_def PDPT_IDX_def PD_IDX_def PT_IDX_def by (simp only: prod.inject list.inject idx_eq_bits simp_thms conj_assoc)
qed

lemma page_of_user_eq:
  assumes "v < 0x800000000000" "w < 0x800000000000"
  shows "page_of v = page_of w \<longleftrightarrow> v AND NOT 0xFFF = w AND NOT 0xFFF"
proof -
  have hi: "\<not> bit u n" if "u < 0x800000000000" "47 \<le> n" for u :: u64 and n
  proof -
    have "unat u < 2 ^ 47" using that(1) by (simp add: word_less_nat_alt)
    also have "\<dots> \<le> 2 ^ n" using that(2) by (intro power_increasing) auto
    finally have "\<not> bit (unat u) n" by (simp add: bit_iff_odd)
    then show ?thesis by (auto simp: bit_unsigned_iff dest: bit_imp_le_length)
  qed
  have "v AND NOT 0xFFF = w AND NOT 0xFFF \<longleftrightarrow> (\<forall>n. 12 \<le> n \<and> n < 64 \<longrightarrow> bit v n = bit w n)"
    unfolding bit_eq_iff bit_and_iff bit_not_iff bit_0xFFF by (auto dest: bit_imp_le_length)
  also have "\<dots> \<longleftrightarrow> page_of v = page_of w"
    unfolding page_of_eq_bits
  proof (rule iff_allI)
    fix n show "(12 \<le> n \<and> n < 64 \<longrightarrow> bit v n = bit w n) = (12 \<le> n \<and> n < 48 \<longrightarrow> bit v n = bit w n)"
      using hi [OF assms(1), of n] hi [OF assms(2), of n] by (cases "n < 48") auto
  qed
  finally show ?thesis by simp
qed

section \<open>What a loaded page holds\<close>

text \<open>Page \<open>x\<close> of the address space is backed by an allocated frame that is not a page table, mapped with the given
  flags, and its bytes are \<open>c\<close>.\<close>

definition holds_page :: "vm \<Rightarrow> u64 \<Rightarrow> nat list \<times> nat \<Rightarrow> u64 \<Rightarrow> (nat \<Rightarrow> u8) \<Rightarrow> bool" where
  "holds_page vm r x fl c \<longleftrightarrow>
     (\<exists>a. user_map vm r x = Some ((a AND VMM_PHYS_MASK) OR (fl OR VMM_P)) \<and> held vm a \<and> a \<notin> utables vm r \<and>
          page_byte (pages vm a) = c)"

definition exhausted :: "vm \<Rightarrow> bool" where
  "exhausted vm \<longleftrightarrow> frames_used (vm_pmm vm) = {..<total_frames (vm_pmm vm)}"

lemma held_ext: "vm_ext r vm vm' \<Longrightarrow> held vm a \<Longrightarrow> held vm' a"
  by (auto simp: vm_ext_def held_def)

lemma holds_page_ext:
  assumes "vm_ext r vm vm'" "user_map vm' r x = user_map vm r x" "holds_page vm r x fl c"
  shows "holds_page vm' r x fl c"
  using assms held_ext [OF assms(1)] unfolding holds_page_def vm_ext_def by metis

lemma fill_ext:
  assumes inv: "ptab_inv vm r" and al: "vm_alloc vm = (a, vm1)" "a \<noteq> 0" and vm2: "vm2 = vm1\<lparr>pages := (pages vm1)(a := w)\<rparr>"
  shows "vm_ext r vm vm2" "user_map vm2 r = user_map vm r" "held vm2 a" "a \<notin> utables vm2 r"
proof -
  note sp = alloc_spec [OF ptab_invD(1) [OF inv] al(1)]
  have a: "\<not> held vm a" "held vm2 a" "frames_used (vm_pmm vm) \<subseteq> frames_used (vm_pmm vm2)" "pmm_inv (vm_pmm vm2)"
    using sp al(2) by (auto simp: vm2 held_def)
  have h: "held vm t" if "t \<in> utables vm r" for t using that ptab_invD(2) [OF inv] by (auto simp: utables_def)
  have same: "pages vm2 t = pages vm t" if "held vm t" for t using that a(1) sp(2) by (auto simp: vm2)
  have h2: "held vm2 t" if "held vm t" for t using that a(3) by (auto simp: held_def)
  have k: "\<forall>t \<in> utables vm r. pages vm2 t = pages vm t" "\<forall>t \<in> utables vm r. held vm2 t" using h same h2 by auto
  note kept = space_kept [OF inv k(1) a(4) k(2)]
  show "user_map vm2 r = user_map vm r" by (rule kept(2))
  show "held vm2 a" by (rule a(2))
  show "a \<notin> utables vm2 r" using h a(1) kept(4) by auto
  show "vm_ext r vm vm2" using kept a same sp(3) by (auto simp: vm_ext_def vm2)
qed

lemma load_page_spec:
  assumes inv: "ptab_inv vm r" and v: "PML4_IDX va < KERNEL_PML4_START"
    and r: "pml4 = phys_to_virt (vm_pmm vm) r" "0xFFFF800000000000 \<le> pml4"
    and run: "load_page d ph pml4 va vm = (True, vm')"
  shows "vm_ext r vm vm' \<and> (exhausted vm' \<or>
     (\<forall>x. x \<noteq> page_of va \<longrightarrow> user_map vm' r x = user_map vm r x) \<and>
     holds_page vm' r (page_of va) (seg_flags ph) (\<lambda>k. if k < length (page_source d ph va) then page_source d ph va ! k else 0))"
proof -
  let ?c = "\<lambda>k. if k < length (page_source d ph va) then page_source d ph va ! k else 0"
  obtain a vm1 where al: "vm_alloc vm = (a, vm1)" "a \<noteq> 0" using run by (cases "vm_alloc vm") (auto simp: load_page_def split: if_splits)
  define vm2 where "vm2 = vm1\<lparr>pages := (pages vm1)(a := page_of_bytes ?c)\<rparr>"
  have z: "page_byte (\<lambda>_. 0) k = 0" for k by (simp add: page_byte_def)
  have "copy_to_page a 0 (page_source d ph va) (zero_page a vm1) = vm2"
    by (simp add: vm2_def copy_to_page_def zero_page_def z cong: if_cong)
  then obtain ok where m: "vmm_map_page pml4 va a (seg_flags ph) vm2 = (ok, vm')"
    using run al by (cases "vmm_map_page pml4 va a (seg_flags ph) vm2") (auto simp: load_page_def)
  note f = fill_ext [OF inv al vm2_def]
  have inv2: "ptab_inv vm2 r" and hh: "hhdm (vm_pmm vm2) = hhdm (vm_pmm vm)" using f(1) by (auto simp: vm_ext_def)
  then have "pml4 = phys_to_virt (vm_pmm vm2) r" using r by (simp add: phys_to_virt_def)
  note mp = map_page_spec [OF inv2 v this m]
  have "holds_page vm' r (page_of va) (seg_flags ph) ?c" if ok
    unfolding holds_page_def
  proof (intro exI conjI)
    show "user_map vm' r (page_of va) = Some ((a AND VMM_PHYS_MASK) OR (seg_flags ph OR VMM_P))" using mp that by simp
    show "held vm' a" using mp f(3) held_ext by blast
    have "pages vm' a = pages vm2 a \<and> a \<notin> utables vm' r" using mp f(3,4) unfolding vm_ext_def by blast
    moreover have "page_byte (pages vm2 a) = ?c" by (simp add: vm2_def fun_eq_iff)
    ultimately show "a \<notin> utables vm' r" "page_byte (pages vm' a) = ?c" by simp_all
  qed
  moreover have "exhausted vm'" if "\<not> ok" using mp that r(2) by (auto simp: exhausted_def)
  ultimately show ?thesis using mp f(1,2) vm_ext_trans [OF f(1)] by (cases ok) auto
qed

lemma exhausted_alloc:
  assumes "exhausted vm"
  shows "vm_alloc vm = (0, vm)"
proof -
  let ?p = "vm_pmm vm"
  have "bit_get (bitmap ?p) f" if "f < total_frames ?p" for f
    using assms that by (auto simp: exhausted_def frames_used_def set_eq_iff)
  then have "bit_get (bitmap ?p) ((alloc_hint ?p + i) mod total_frames ?p)" if "i < total_frames ?p" for i
    using that by simp
  then have "find (\<lambda>i. \<not> bit_get (bitmap ?p) ((alloc_hint ?p + i) mod total_frames ?p)) [0..<total_frames ?p] = None"
    by (auto simp: find_upt_None)
  then show ?thesis by (simp add: vm_alloc_def pmm_alloc_frame_def)
qed

lemma exhausted_load_page: "exhausted vm \<Longrightarrow> \<not> fst (load_page d ph pml4 va vm)"
  using exhausted_alloc [of vm] by (auto simp: load_page_def split: prod.split)

section \<open>Loading a segment\<close>

lemma unat_page_offset: "unat (v AND 0xFFF :: u64) = unat v mod 4096"
proof -
  have "(0xFFF :: u64) = mask 12" by (simp add: mask_eq_exp_minus_1)
  then have "v AND 0xFFF = take_bit 12 v" by (simp only: take_bit_eq_mask)
  then show ?thesis by (simp add: take_bit_eq_mod unat_mod)
qed

lemma unat_page_base: "unat (v AND NOT 0xFFF :: u64) = unat v - unat v mod 4096"
proof -
  have "(v AND NOT 0xFFF) + (v AND 0xFFF) = v"
    by (subst disjunctive_add) (auto simp: bit_simps intro: bit_word_eqI)
  then have "v AND NOT 0xFFF = v - (v AND 0xFFF)" by (simp add: eq_diff_eq)
  then show ?thesis by (simp add: unat_sub_if' unat_page_offset)
qed

lemma page_base_eq:
  assumes "unat va mod 4096 = 0"
  shows "v AND NOT 0xFFF = (va :: u64) \<longleftrightarrow> unat va \<le> unat v \<and> unat v < unat va + 4096"
proof -
  obtain q where q: "unat va = 4096 * q" using assms by (auto simp: mod_eq_0_iff_dvd)
  have "unat v - unat v mod 4096 = unat va \<longleftrightarrow> unat v div 4096 = q" by (simp add: q minus_mod_eq_mult_div)
  also have "\<dots> \<longleftrightarrow> 4096 * q \<le> unat v \<and> unat v < 4096 * Suc q" by (auto intro: div_nat_eqI)
  finally show ?thesis unfolding word_unat_eq_iff unat_page_base q by (simp add: add.commute)
qed

text \<open>The bytes of the page of a segment that contains \<open>v\<close>.\<close>

definition seg_page :: "umem \<Rightarrow> elf64_phdr \<Rightarrow> u64 \<Rightarrow> nat \<Rightarrow> u8" where
  "seg_page d ph v = (\<lambda>k. let bs = page_source d ph (v AND NOT 0xFFF) in if k < length bs then bs ! k else 0)"

definition seg_range :: "u64 \<Rightarrow> elf64_phdr \<Rightarrow> u64 set" where
  "seg_range va ph = {v. va \<le> v \<and> v < ph_vaddr ph + ph_memsz ph}"

lemma exhausted_load_pages:
  assumes "exhausted vm" "load_pages d ph pml4 va vm = (True, vm')"
  shows "vm' = vm"
proof -
  obtain ok vm1 where lp: "load_page d ph pml4 va vm = (ok, vm1)" by fastforce
  then have "\<not> ok" using exhausted_load_page [OF assms(1)] by (metis fst_conv)
  with lp show ?thesis using assms(2) by (subst (asm) load_pages.simps) (auto split: if_splits)
qed

lemma user_half: "v < 0x800000000000 \<Longrightarrow> PML4_IDX v < KERNEL_PML4_START"
proof -
  assume v: "v < 0x800000000000"
  have "drop_bit 39 v AND 0x1FF \<le> drop_bit 39 v" by (rule word_and_le2)
  then have "PML4_IDX v \<le> unat (drop_bit 39 v)" by (simp add: PML4_IDX_def word_le_nat_alt)
  also have "\<dots> = unat v div 2 ^ 39" by (simp add: drop_bit_eq_div unat_div)
  also have "\<dots> < 256" using v by (simp add: word_less_nat_alt)
  finally show ?thesis by simp
qed

lemma load_pages_spec:
  assumes "ptab_inv vm r" "pml4 = phys_to_virt (vm_pmm vm) r" "0xFFFF800000000000 \<le> pml4"
    "load_pages d ph pml4 va vm = (True, vm')" "\<not> exhausted vm'"
    "ph_vaddr ph + ph_memsz ph \<le> 0x800000000000" "unat va mod 4096 = 0"
  shows "vm_ext r vm vm' \<and> (\<forall>x. x \<notin> page_of ` seg_range va ph \<longrightarrow> user_map vm' r x = user_map vm r x) \<and>
     (\<forall>v \<in> seg_range va ph. holds_page vm' r (page_of v) (seg_flags ph) (seg_page d ph v))"
  using assms
proof (induction d ph pml4 va vm rule: load_pages.induct)
  case (1 d ph pml4 va vm)
  let ?E = "ph_vaddr ph + ph_memsz ph"
  show ?case
  proof (cases "va < ?E")
    case False
    then have "vm' = vm" using 1(5) by (subst (asm) load_pages.simps) simp
    moreover have "seg_range va ph = {}" using False by (auto simp: seg_range_def)
    ultimately show ?thesis using vm_ext_refl [OF 1(2)] by simp
  next
    case True
    have va: "va < 0x800000000000" using True 1(7) by simp
    obtain vm1 where lp: "load_page d ph pml4 va vm = (True, vm1)" and rest: "load_pages d ph pml4 (va + 0x1000) vm1 = (True, vm')"
      using 1(5) True by (subst (asm) load_pages.simps) (auto split: prod.splits bool.splits)
    note ps = load_page_spec [OF 1(2) user_half [OF va] 1(3,4) lp]
    have nex: "\<not> exhausted vm1" using exhausted_load_pages [OF _ rest] 1(6) by blast
    have e1: "vm_ext r vm vm1" and inv1: "ptab_inv vm1 r" using ps by (auto simp: vm_ext_def)
    have pml4: "pml4 = phys_to_virt (vm_pmm vm1) r" using e1 1(3) by (simp add: vm_ext_def phys_to_virt_def)
    have nx: "unat (va + 0x1000) = unat va + 4096" using va by (simp add: word_less_nat_alt unat_word_ariths)
    then have al: "unat (va + 0x1000) mod 4096 = 0" using 1(8) by simp
    note IH = 1(1) [OF True lp [symmetric] refl inv1 pml4 1(4) rest 1(6,7) al]
    have base: "v AND NOT 0xFFF = va \<longleftrightarrow> v \<notin> seg_range (va + 0x1000) ph" if "v \<in> seg_range va ph" for v
      unfolding page_base_eq [OF 1(8)] using that nx by (auto simp: seg_range_def word_le_nat_alt word_less_nat_alt)
    have sub: "seg_range (va + 0x1000) ph \<subseteq> seg_range va ph" using nx by (auto simp: seg_range_def word_le_nat_alt)
    have vin: "va \<in> seg_range va ph" "va AND NOT 0xFFF = va" using True page_base_eq [OF 1(8), of va] by (auto simp: seg_range_def)
    have lt: "v < 0x800000000000" if "v \<in> seg_range va ph" for v using that 1(7) by (auto simp: seg_range_def)
    have pg: "page_of v = page_of va \<longleftrightarrow> v \<notin> seg_range (va + 0x1000) ph" if "v \<in> seg_range va ph" for v
      unfolding page_of_user_eq [OF lt [OF that] va] vin(2) by (rule base [OF that])
    have first: "holds_page vm' r (page_of va) (seg_flags ph) (seg_page d ph va)"
    proof (rule holds_page_ext)
      show "vm_ext r vm1 vm'" using IH by blast
      have "page_of va \<notin> page_of ` seg_range (va + 0x1000) ph" using pg sub by force
      then show "user_map vm' r (page_of va) = user_map vm1 r (page_of va)" using IH by blast
      show "holds_page vm1 r (page_of va) (seg_flags ph) (seg_page d ph va)" 
        using ps nex unfolding seg_page_def vin(2) Let_def by blast
    qed
    have "holds_page vm' r (page_of v) (seg_flags ph) (seg_page d ph v)" if "v \<in> seg_range va ph" for v
    proof (cases "v \<in> seg_range (va + 0x1000) ph")
      case False
      then have "page_of v = page_of va" "v AND NOT 0xFFF = va" using pg base that by auto
      with first show ?thesis unfolding seg_page_def vin(2) by simp
    qed (use IH in blast)
    moreover have "user_map vm' r x = user_map vm r x" if "x \<notin> page_of ` seg_range va ph" for x
    proof -
      have "x \<noteq> page_of va" "x \<notin> page_of ` seg_range (va + 0x1000) ph" using that vin(1) sub by auto
      then have "user_map vm' r x = user_map vm1 r x" "user_map vm1 r x = user_map vm r x" using IH ps nex by blast+
      then show ?thesis by simp
    qed
    ultimately show ?thesis using vm_ext_trans [OF e1] IH by blast
  qed
qed

section \<open>The image of a file\<close>

text \<open>A segment that fits into the user half, whose file part does not wrap, and whose first page does not start before
  the file.\<close>

definition seg_ok :: "elf64_phdr \<Rightarrow> bool" where
  "seg_ok ph \<longleftrightarrow> unat (ph_vaddr ph) + unat (ph_memsz ph) \<le> 0x800000000000 \<and>
     unat (ph_offset ph) + unat (ph_filesz ph) < 2 ^ 63 \<and> unat (ph_vaddr ph) mod 4096 \<le> unat (ph_offset ph)"

definition seg_byte :: "umem \<Rightarrow> elf64_phdr \<Rightarrow> u64 \<Rightarrow> u8" where
  "seg_byte d ph v = (if v - ph_vaddr ph < ph_filesz ph then d (ph_offset ph + (v - ph_vaddr ph)) else 0)"

text \<open>The offset in the file of the page at \<open>va\<close>, computed without wrapping.\<close>

lemma unat_src_off:
  assumes ok: "seg_ok ph" and va: "unat va mod 4096 = 0" "unat (ph_vaddr ph) < unat va + 4096" "unat va < 2 ^ 47"
  shows "unat (ph_vaddr ph) \<le> unat (ph_offset ph) + unat va"
    "unat (ph_offset ph + (va - ph_vaddr ph)) = unat (ph_offset ph) + unat va - unat (ph_vaddr ph)"
proof -
  let ?V = "unat (ph_vaddr ph)" and ?O = "unat (ph_offset ph)" and ?A = "unat va"
  show le: "?V \<le> ?O + ?A"
  proof (cases "?V \<le> ?A")
    case False
    obtain q where q: "?A = 4096 * q" using va(1) by (auto simp: mod_eq_0_iff_dvd)
    then have "?V div 4096 = q" using False va(2) by (intro div_nat_eqI) auto
    then have "?V = ?A + ?V mod 4096" using q mult_div_mod_eq [of 4096 ?V] by simp
    then show ?thesis using ok by (simp add: seg_ok_def)
  qed simp
  have "ph_offset ph + (va - ph_vaddr ph) = of_nat (?O + ?A - ?V)" using le by (simp add: of_nat_diff)
  moreover have "?O + ?A - ?V < 2 ^ 64" using ok va(3) by (intro less_imp_diff_less) (auto simp: seg_ok_def)
  ultimately show "unat (ph_offset ph + (va - ph_vaddr ph)) = ?O + ?A - ?V"
    by (simp add: unat_of_nat)
qed

lemma file_chunk_length:
  assumes "unat (a + 0x1000) = unat a + 4096"
  shows "length (file_chunk d a b) = (if unat a < unat b then min 4096 (unat b - unat a) else 0)"
  using assms by (auto simp: file_chunk_def Let_def word_less_nat_alt unat_sub_if')

lemma file_chunk_nth: "k < length (file_chunk d a b) \<Longrightarrow> file_chunk d a b ! k = d (a + of_nat k)"
  by (auto simp: file_chunk_def Let_def split: if_splits)

lemma seg_page_byte:
  assumes ok: "seg_ok ph" and v: "ph_vaddr ph \<le> v" "v < ph_vaddr ph + ph_memsz ph"
  shows "seg_page d ph v (unat (v AND 0xFFF)) = seg_byte d ph v"
proof -
  define va where "va = v AND NOT 0xFFF"
  define k where "k = unat (v AND 0xFFF)"
  let ?V = "unat (ph_vaddr ph)" and ?O = "unat (ph_offset ph)" and ?F = "unat (ph_filesz ph)" and ?A = "unat va"
  let ?src = "ph_offset ph + (va - ph_vaddr ph)" and ?fin = "ph_offset ph + ph_filesz ph"
  have ua: "?A = unat v - unat v mod 4096" unfolding va_def by (rule unat_page_base)
  have uk: "k = unat v mod 4096" unfolding k_def by (rule unat_page_offset)
  have sum: "?A + k = unat v" "k < 4096" "?A mod 4096 = 0" by (simp_all add: ua uk minus_mod_eq_mult_div)
  have E: "unat (ph_vaddr ph + ph_memsz ph) \<le> 2 ^ 47" using ok by (simp add: seg_ok_def unat_word_ariths)
  have uv: "?V \<le> unat v" "unat v < 2 ^ 47" using v E by (auto simp: word_le_nat_alt word_less_nat_alt)
  have A: "?V < ?A + 4096" "?A < 2 ^ 47" using uv sum by auto
  note src = unat_src_off [OF ok sum(3) A]
  have en: "unat ?fin = ?O + ?F" using ok by (simp add: seg_ok_def unat_word_ariths)
  have "unat ?src < 2 ^ 63 + 2 ^ 47" unfolding src(2) using ok A by (intro less_imp_diff_less) (auto simp: seg_ok_def)
  then have s4: "unat (?src + 0x1000) = unat ?src + 4096" by (simp add: unat_word_ariths(1) [of _ "0x1000"])
  have vw: "v = va + of_nat k" using arg_cong [OF sum(1), of "of_nat :: nat \<Rightarrow> u64"] by simp
  have dv: "unat (v - ph_vaddr ph) = unat v - ?V" using uv(1) by (simp add: unat_sub_if')
  have len: "length (page_source d ph va) = (if unat ?src < ?O + ?F then min 4096 (?O + ?F - unat ?src) else 0)"
    unfolding page_source_def file_chunk_length [OF s4] en ..
  note nth = file_chunk_nth [of k d ?src ?fin, folded page_source_def]
  have idx: "?src + of_nat k = ph_offset ph + (v - ph_vaddr ph)" by (simp add: vw)
  have "k < length (page_source d ph va) \<longleftrightarrow> unat v - ?V < ?F"
    unfolding len src(2) using src(1) sum uv by auto
  then have "k < length (page_source d ph va) \<longleftrightarrow> v - ph_vaddr ph < ph_filesz ph" by (simp add: word_less_nat_alt dv)
  then show ?thesis
    using nth unfolding seg_page_def Let_def seg_byte_def va_def [symmetric] k_def [symmetric] idx by simp
qed

definition load_all :: "umem \<Rightarrow> u64 \<Rightarrow> u64 \<Rightarrow> elf64_phdr list \<Rightarrow> bool \<times> vm \<Rightarrow> bool \<times> vm" where
  "load_all d len pml4 = fold (\<lambda>ph (ok, vm). if ok then load_segment d len pml4 ph vm else (False, vm))"

lemma load_all_simps [simp]:
  "load_all d len pml4 [] s = s"
  "load_all d len pml4 (ph # phs) (True, vm) = load_all d len pml4 phs (load_segment d len pml4 ph vm)"
  "load_all d len pml4 phs (False, vm) = (False, vm)"
  by (simp_all add: load_all_def) (induction phs; simp)

definition seg_pages :: "elf64_phdr \<Rightarrow> (nat list \<times> nat) set" where
  "seg_pages ph = (if ph_type ph = PT_LOAD then page_of ` seg_range (ph_vaddr ph AND NOT 0xFFF) ph else {})"

lemma load_segment_spec:
  assumes "ptab_inv vm r" "pml4 = phys_to_virt (vm_pmm vm) r" "0xFFFF800000000000 \<le> pml4"
    "load_segment d len pml4 ph vm = (True, vm')" "\<not> exhausted vm'" "ph_type ph = PT_LOAD \<longrightarrow> seg_ok ph"
  shows "vm_ext r vm vm' \<and> (\<forall>x. x \<notin> seg_pages ph \<longrightarrow> user_map vm' r x = user_map vm r x) \<and>
     (\<forall>v. ph_type ph = PT_LOAD \<and> ph_vaddr ph \<le> v \<and> v < ph_vaddr ph + ph_memsz ph \<longrightarrow>
        holds_page vm' r (page_of v) (seg_flags ph) (seg_page d ph v))"
proof (cases "ph_type ph = PT_LOAD")
  case False
  with assms(4) have "vm' = vm" by (simp add: load_segment_def)
  with False show ?thesis using vm_ext_refl [OF assms(1)] by simp
next
  case True
  let ?va = "ph_vaddr ph AND NOT 0xFFF"
  have run: "load_pages d ph pml4 ?va vm = (True, vm')" using assms(4) True by (simp add: load_segment_def split: if_splits)
  have E: "ph_vaddr ph + ph_memsz ph \<le> 0x800000000000"
    using assms(6) True by (simp add: seg_ok_def word_le_nat_alt unat_word_ariths)
  have al: "unat ?va mod 4096 = 0" unfolding unat_page_base by (simp add: minus_mod_eq_mult_div)
  have le: "?va \<le> ph_vaddr ph" by (rule word_and_le2)
  note sp = load_pages_spec [OF assms(1-3) run assms(5) E al]
  have "v \<in> seg_range ?va ph" if "ph_vaddr ph \<le> v" "v < ph_vaddr ph + ph_memsz ph" for v
    using that le order_trans by (auto simp: seg_range_def)
  with sp True show ?thesis by (simp add: seg_pages_def)
qed

lemma exhausted_load_all:
  "exhausted vm \<Longrightarrow> load_all d len pml4 phs (True, vm) = (True, vm') \<Longrightarrow> vm' = vm"
proof (induction phs arbitrary: vm)
  case (Cons ph phs)
  obtain ok vm1 where s: "load_segment d len pml4 ph vm = (ok, vm1)" by fastforce
  with Cons.prems have "ok" by (cases ok) auto
  with s have "vm1 = vm" using exhausted_load_pages [OF Cons.prems(1)] by (auto simp: load_segment_def split: if_splits)
  with Cons s \<open>ok\<close> show ?case by simp
qed simp

lemma load_all_spec:
  assumes "ptab_inv vm r" "pml4 = phys_to_virt (vm_pmm vm) r" "0xFFFF800000000000 \<le> pml4"
    "load_all d len pml4 phs (True, vm) = (True, vm')" "\<not> exhausted vm'" "\<forall>ph \<in> set phs. ph_type ph = PT_LOAD \<longrightarrow> seg_ok ph"
    "sorted_wrt (\<lambda>p q. seg_pages p \<inter> seg_pages q = {}) phs"
  shows "vm_ext r vm vm' \<and> (\<forall>x. x \<notin> (\<Union>ph \<in> set phs. seg_pages ph) \<longrightarrow> user_map vm' r x = user_map vm r x) \<and>
     (\<forall>ph \<in> set phs. \<forall>v. ph_type ph = PT_LOAD \<and> ph_vaddr ph \<le> v \<and> v < ph_vaddr ph + ph_memsz ph \<longrightarrow>
        holds_page vm' r (page_of v) (seg_flags ph) (seg_page d ph v))"
  using assms
proof (induction phs arbitrary: vm)
  case Nil
  then show ?case using vm_ext_refl by simp
next
  case (Cons ph phs)
  obtain ok vm1 where s: "load_segment d len pml4 ph vm = (ok, vm1)" by fastforce
  with Cons.prems(4) have "ok" by (cases ok) auto
  with s Cons.prems(4) have s: "load_segment d len pml4 ph vm = (True, vm1)"
    and rest: "load_all d len pml4 phs (True, vm1) = (True, vm')" by simp_all
  have nex: "\<not> exhausted vm1" using exhausted_load_all [OF _ rest] Cons.prems(5) by blast
  have okp: "ph_type ph = PT_LOAD \<longrightarrow> seg_ok ph" using Cons.prems(6) by simp
  note sp = load_segment_spec [OF Cons.prems(1-3) s nex okp]
  have inv1: "ptab_inv vm1 r" and pml4: "pml4 = phys_to_virt (vm_pmm vm1) r"
    using sp Cons.prems(2) by (auto simp: vm_ext_def phys_to_virt_def)
  note IH = Cons.IH [OF inv1 pml4 Cons.prems(3) rest Cons.prems(5)]
  have IH: "vm_ext r vm1 vm' \<and> (\<forall>x. x \<notin> (\<Union>ph \<in> set phs. seg_pages ph) \<longrightarrow> user_map vm' r x = user_map vm1 r x) \<and>
     (\<forall>ph \<in> set phs. \<forall>v. ph_type ph = PT_LOAD \<and> ph_vaddr ph \<le> v \<and> v < ph_vaddr ph + ph_memsz ph \<longrightarrow>
        holds_page vm' r (page_of v) (seg_flags ph) (seg_page d ph v))"
    using Cons.prems(6,7) by (intro IH) auto
  have "holds_page vm' r (page_of v) (seg_flags ph) (seg_page d ph v)"
    if v: "ph_type ph = PT_LOAD" "ph_vaddr ph \<le> v" "v < ph_vaddr ph + ph_memsz ph" for v
  proof (rule holds_page_ext)
    show "vm_ext r vm1 vm'" using IH by blast
    show "holds_page vm1 r (page_of v) (seg_flags ph) (seg_page d ph v)" using sp v by blast
    have "ph_vaddr ph AND NOT 0xFFF \<le> v" using v(2) word_and_le2 order_trans by blast
    then have "page_of v \<in> seg_pages ph" using v by (auto simp: seg_pages_def seg_range_def)
    then have "page_of v \<notin> (\<Union>ph \<in> set phs. seg_pages ph)" using Cons.prems(7) by auto
    then show "user_map vm' r (page_of v) = user_map vm1 r (page_of v)" using IH by blast
  qed
  moreover have "user_map vm' r x = user_map vm r x" if "x \<notin> (\<Union>ph \<in> set (ph # phs). seg_pages ph)" for x
  proof -
    have "x \<notin> seg_pages ph" "x \<notin> (\<Union>ph \<in> set phs. seg_pages ph)" using that by auto
    then have "user_map vm' r x = user_map vm1 r x" "user_map vm1 r x = user_map vm r x" using IH sp by blast+
    then show ?thesis by simp
  qed
  moreover have "vm_ext r vm vm'" using sp IH vm_ext_trans by blast
  ultimately show ?case using IH by auto
qed

text \<open>The byte a process reads at an address, and whether it may write there.\<close>

definition user_byte :: "vm \<Rightarrow> u64 \<Rightarrow> u64 \<Rightarrow> u8 option" where
  "user_byte vm r v = map_option (\<lambda>e. page_byte (pages vm (e AND VMM_PHYS_MASK)) (unat (v AND 0xFFF))) (user_map vm r (page_of v))"

definition user_writable :: "vm \<Rightarrow> u64 \<Rightarrow> u64 \<Rightarrow> bool" where
  "user_writable vm r v \<longleftrightarrow> (\<exists>e. user_map vm r (page_of v) = Some e \<and> has e VMM_U \<and> has e VMM_RW)"

lemma bit_seg_flags:
  "bit (seg_flags ph) n \<longleftrightarrow>
     n = 2 \<and> (ph_flags ph AND 4 \<noteq> 0 \<or> ph_flags ph AND 2 \<noteq> 0 \<or> ph_flags ph AND 1 \<noteq> 0) \<or> n = 1 \<and> ph_flags ph AND 2 \<noteq> 0"
proof -
  have z: "bit (0 :: u64) n = False" by simp
  show ?thesis
    unfolding seg_flags_def bit_or_iff if_distrib [of "\<lambda>w. bit w n"] bit_small_numerals z by auto
qed

lemma leaf_entry:
  assumes "held vm a" "pmm_inv (vm_pmm vm)"
  shows "((a AND VMM_PHYS_MASK) OR (seg_flags ph OR VMM_P)) AND VMM_PHYS_MASK = a"
    "has ((a AND VMM_PHYS_MASK) OR (seg_flags ph OR VMM_P)) VMM_U \<and> has ((a AND VMM_PHYS_MASK) OR (seg_flags ph OR VMM_P)) VMM_RW
       \<longleftrightarrow> ph_flags ph AND 2 \<noteq> 0"
proof -
  have f: "frame_of a < MAX_FRAMES" "a = addr_of (frame_of a)" using assms by (auto simp: held_def frames_used_def pmm_inv_def)
  have ba: "bit a n \<longleftrightarrow> 12 \<le> n \<and> n < 33 \<and> bit (frame_of a) (n - 12)" for n using bit_addr_of [OF f(1)] f(2) by simp
  show "((a AND VMM_PHYS_MASK) OR (seg_flags ph OR VMM_P)) AND VMM_PHYS_MASK = a"
    by (rule bit_word_eqI)
       (auto simp: bit_and_iff bit_or_iff bit_phys_mask ba bit_small_numerals bit_seg_flags simp del: bit_numeral_word_iff)
  have "has e 0x4 \<longleftrightarrow> bit e 2" for e
    using and_exp_eq_0_iff_not_bit [of e 2] by (simp add: has_def)
  then show "has ((a AND VMM_PHYS_MASK) OR (seg_flags ph OR VMM_P)) VMM_U \<and> has ((a AND VMM_PHYS_MASK) OR (seg_flags ph OR VMM_P)) VMM_RW
       \<longleftrightarrow> ph_flags ph AND 2 \<noteq> 0"
    unfolding has_bit by (auto simp: bit_and_iff bit_or_iff bit_phys_mask ba bit_small_numerals bit_seg_flags simp del: bit_numeral_word_iff)
qed

section \<open>Fresh frames\<close>

text \<open>The frames of the loaded pages were free before.\<close>

definition fresh_leaves :: "vm \<Rightarrow> vm \<Rightarrow> u64 \<Rightarrow> bool" where
  "fresh_leaves vm0 vm r \<longleftrightarrow> (\<forall>t. held vm0 t \<longrightarrow> held vm t) \<and>
     (\<forall>x e. user_map vm r x = Some e \<longrightarrow> \<not> held vm0 (e AND VMM_PHYS_MASK))"

lemma fresh_leaves_map:
  assumes fr: "fresh_leaves vm0 vm r" and inv: "ptab_inv vm r" and al: "vm_alloc vm = (a, vm1)" "a \<noteq> 0"
    and vm2: "vm2 = vm1\<lparr>pages := (pages vm1)(a := w)\<rparr>"
    and v: "PML4_IDX va < KERNEL_PML4_START" and r: "pml4 = phys_to_virt (vm_pmm vm) r"
    and fl: "fl = seg_flags ph" and run: "vmm_map_page pml4 va a fl vm2 = (ok, vm')"
  shows "fresh_leaves vm0 vm' r \<and> vm_ext r vm vm'" "x \<noteq> page_of va \<Longrightarrow> user_map vm' r x = user_map vm r x"
proof -
  note f = fill_ext [OF inv al vm2]
  have inv2: "ptab_inv vm2 r" and hh: "hhdm (vm_pmm vm2) = hhdm (vm_pmm vm)" using f(1) by (auto simp: vm_ext_def)
  then have "pml4 = phys_to_virt (vm_pmm vm2) r" using r by (simp add: phys_to_virt_def)
  note mp = map_page_spec [OF inv2 v this run]
  have ext: "vm_ext r vm vm'" using vm_ext_trans [OF f(1)] mp by blast
  have "\<not> held vm a" using alloc_spec(4) [OF ptab_invD(1) [OF inv] al] by blast
  then have na: "\<not> held vm0 a" using fr by (auto simp: fresh_leaves_def)
  have le: "((a AND VMM_PHYS_MASK) OR (fl OR VMM_P)) AND VMM_PHYS_MASK = a"
    unfolding fl by (rule leaf_entry(1) [OF f(3) ptab_invD(1) [OF inv2]])
  have "\<not> held vm0 (e AND VMM_PHYS_MASK)" if "user_map vm' r x = Some e" for x e
  proof (cases "ok \<and> x = page_of va")
    case True
    then have "e = (a AND VMM_PHYS_MASK) OR (fl OR VMM_P)" using mp that by simp
    then show ?thesis using le na by metis
  next
    case False
    then have "user_map vm r x = Some e" using mp that f(2) by (auto split: if_splits)
    then show ?thesis using fr unfolding fresh_leaves_def by blast
  qed
  moreover have "held vm' t" if "held vm0 t" for t using that fr held_ext [OF ext] unfolding fresh_leaves_def by blast
  ultimately show "fresh_leaves vm0 vm' r \<and> vm_ext r vm vm'" using ext unfolding fresh_leaves_def by blast
  show "x \<noteq> page_of va \<Longrightarrow> user_map vm' r x = user_map vm r x" using mp f(2) by simp
qed

lemma load_page_fresh:
  assumes fr: "fresh_leaves vm0 vm r" and inv: "ptab_inv vm r" and v: "PML4_IDX va < KERNEL_PML4_START"
    and r: "pml4 = phys_to_virt (vm_pmm vm) r" and run: "load_page d ph pml4 va vm = (True, vm')"
  shows "fresh_leaves vm0 vm' r \<and> vm_ext r vm vm'"
proof -
  obtain a vm1 where al: "vm_alloc vm = (a, vm1)" "a \<noteq> 0" using run by (cases "vm_alloc vm") (auto simp: load_page_def split: if_splits)
  obtain w where w: "copy_to_page a 0 (page_source d ph va) (zero_page a vm1) = vm1\<lparr>pages := (pages vm1)(a := w)\<rparr>"
    by (simp add: copy_to_page_def zero_page_def)
  obtain ok where "vmm_map_page pml4 va a (seg_flags ph) (vm1\<lparr>pages := (pages vm1)(a := w)\<rparr>) = (ok, vm')"
    using run al w by (cases "vmm_map_page pml4 va a (seg_flags ph) (vm1\<lparr>pages := (pages vm1)(a := w)\<rparr>)") (auto simp: load_page_def)
  from fresh_leaves_map(1) [OF fr inv al refl v r refl this] show ?thesis .
qed

lemma load_pages_fresh:
  assumes "fresh_leaves vm0 vm r" "ptab_inv vm r" "pml4 = phys_to_virt (vm_pmm vm) r" "0xFFFF800000000000 \<le> pml4"
    "load_pages d ph pml4 va vm = (True, vm')" "ph_vaddr ph + ph_memsz ph \<le> 0x800000000000"
  shows "fresh_leaves vm0 vm' r \<and> vm_ext r vm vm'"
  using assms
proof (induction d ph pml4 va vm rule: load_pages.induct)
  case (1 d ph pml4 va vm)
  show ?case
  proof (cases "va < ph_vaddr ph + ph_memsz ph")
    case False
    then have "vm' = vm" using 1(6) by (subst (asm) load_pages.simps) simp
    then show ?thesis using 1(2) vm_ext_refl [OF 1(3)] by simp
  next
    case True
    obtain vm1 where lp: "load_page d ph pml4 va vm = (True, vm1)" and rest: "load_pages d ph pml4 (va + 0x1000) vm1 = (True, vm')"
      using 1(6) True by (subst (asm) load_pages.simps) (auto split: prod.splits bool.splits)
    have "va < 0x800000000000" using True 1(7) by simp
    from load_page_fresh [OF 1(2,3) user_half [OF this] 1(4) lp]
    have s: "fresh_leaves vm0 vm1 r" "vm_ext r vm vm1" by auto
    have "ptab_inv vm1 r" "pml4 = phys_to_virt (vm_pmm vm1) r" using s(2) 1(4) by (simp_all add: vm_ext_def phys_to_virt_def)
    from 1(1) [OF True lp [symmetric] refl s(1) this 1(5) rest 1(7)]
    have "fresh_leaves vm0 vm' r \<and> vm_ext r vm1 vm'" .
    then show ?thesis using vm_ext_trans [OF s(2)] by blast
  qed
qed

lemma load_all_fresh:
  assumes "fresh_leaves vm0 vm r" "ptab_inv vm r" "pml4 = phys_to_virt (vm_pmm vm) r" "0xFFFF800000000000 \<le> pml4"
    "load_all d len pml4 phs (True, vm) = (True, vm')" "\<forall>ph \<in> set phs. ph_type ph = PT_LOAD \<longrightarrow> seg_ok ph"
  shows "fresh_leaves vm0 vm' r \<and> vm_ext r vm vm'"
  using assms
proof (induction phs arbitrary: vm)
  case Nil
  then show ?case using vm_ext_refl by simp
next
  case (Cons ph phs)
  obtain ok vm1 where s: "load_segment d len pml4 ph vm = (ok, vm1)" by fastforce
  with Cons.prems(5) have ok: ok by (cases ok) auto
  have "fresh_leaves vm0 vm1 r \<and> vm_ext r vm vm1"
  proof (cases "ph_type ph = PT_LOAD")
    case True
    then have "ph_vaddr ph + ph_memsz ph \<le> 0x800000000000"
      using Cons.prems(6) by (auto simp: seg_ok_def word_le_nat_alt unat_word_ariths)
    then show ?thesis using load_pages_fresh [OF Cons.prems(1-4)] s ok True by (auto simp: load_segment_def split: if_splits)
  next
    case False
    then show ?thesis using s Cons.prems(1) vm_ext_refl [OF Cons.prems(2)] by (simp add: load_segment_def)
  qed
  then have 1: "fresh_leaves vm0 vm1 r" "vm_ext r vm vm1" by auto
  then have "fresh_leaves vm0 vm' r \<and> vm_ext r vm1 vm'"
    using Cons.prems s ok by (intro Cons.IH) (auto simp: vm_ext_def phys_to_virt_def)
  then show ?case using vm_ext_trans [OF 1(2)] by blast
qed

lemma elf_load_spec:
  assumes space: "ptab_inv vm r" "pml4 = phys_to_virt (vm_pmm vm) r" "0xFFFF800000000000 \<le> pml4"
    and run: "elf_load d len pml4 vm = (Some start, vm')" "\<not> exhausted vm'"
    and phs: "phs = map (phdr_at d (read_ehdr d)) [0..<unat (e_phnum (read_ehdr d))]"
    and wf: "\<forall>ph \<in> set phs. ph_type ph = PT_LOAD \<longrightarrow> seg_ok ph" "sorted_wrt (\<lambda>p q. seg_pages p \<inter> seg_pages q = {}) phs"
  shows "start = e_entry (read_ehdr d)" "vm_ext r vm vm'" "fresh_leaves vm0 vm r \<Longrightarrow> fresh_leaves vm0 vm' r"
    "x \<notin> (\<Union>q \<in> set phs. seg_pages q) \<Longrightarrow> user_map vm' r x = user_map vm r x"
    "ph \<in> set phs \<Longrightarrow> ph_type ph = PT_LOAD \<Longrightarrow> ph_vaddr ph \<le> v \<Longrightarrow> v < ph_vaddr ph + ph_memsz ph \<Longrightarrow>
       holds_page vm' r (page_of v) (seg_flags ph) (seg_page d ph v)"
proof -
  have val: "elf_validate d len = Some (read_ehdr d)"
    using run(1) by (auto simp: elf_load_def elf_validate_def Let_def split: if_splits option.splits)
  have "elf_load d len pml4 vm =
      (case load_all d len pml4 phs (True, vm) of (True, vm) \<Rightarrow> (Some (e_entry (read_ehdr d)), vm) | (False, vm) \<Rightarrow> (None, vm))"
    by (simp add: elf_load_def val load_all_def phs fold_map comp_def)
  then have st: "start = e_entry (read_ehdr d)" and all: "load_all d len pml4 phs (True, vm) = (True, vm')"
    using run(1) by (auto split: prod.splits bool.splits)
  note sp = load_all_spec [OF space all run(2) wf]
  show "start = e_entry (read_ehdr d)" by (rule st)
  show "vm_ext r vm vm'" "x \<notin> (\<Union>q \<in> set phs. seg_pages q) \<Longrightarrow> user_map vm' r x = user_map vm r x"
    "ph \<in> set phs \<Longrightarrow> ph_type ph = PT_LOAD \<Longrightarrow> ph_vaddr ph \<le> v \<Longrightarrow> v < ph_vaddr ph + ph_memsz ph \<Longrightarrow>
       holds_page vm' r (page_of v) (seg_flags ph) (seg_page d ph v)"
    using sp by blast+
  show "fresh_leaves vm0 vm r \<Longrightarrow> fresh_leaves vm0 vm' r" using load_all_fresh [OF _ space all wf(1)] by blast
qed

lemma holds_page_bytes:
  assumes "holds_page vm r (page_of v) (seg_flags ph) (seg_page d ph v)" "ptab_inv vm r" "seg_ok ph"
    "ph_vaddr ph \<le> v" "v < ph_vaddr ph + ph_memsz ph"
  shows "user_byte vm r v = Some (seg_byte d ph v)" "user_writable vm r v \<longleftrightarrow> ph_flags ph AND 2 \<noteq> 0"
proof -
  obtain a where a: "user_map vm r (page_of v) = Some ((a AND VMM_PHYS_MASK) OR (seg_flags ph OR VMM_P))" "held vm a"
      "page_byte (pages vm a) = seg_page d ph v"
    using assms(1) unfolding holds_page_def by blast
  note leaf = leaf_entry [OF a(2) ptab_invD(1) [OF assms(2)], of ph]
  show "user_byte vm r v = Some (seg_byte d ph v)"
    unfolding user_byte_def a(1) option.map leaf(1) a(3) seg_page_byte [OF assms(3-5)] ..
  show "user_writable vm r v \<longleftrightarrow> ph_flags ph AND 2 \<noteq> 0"
    unfolding user_writable_def a(1) using leaf(2) by simp
qed

section \<open>Properties\<close>


definition ex_elf :: "u8 list" where
  "ex_elf = [0x7f, 69, 76, 70, 2, 1, 1] @ replicate 9 0 @ [2, 0, 62, 0, 1, 0, 0, 0] @ [0, 0, 64, 0, 0, 0, 0, 0] @
     [64, 0, 0, 0, 0, 0, 0, 0] @ replicate 12 0 @ [64, 0, 56, 0, 1, 0] @ replicate 6 0 @
     [1, 0, 0, 0, 5, 0, 0, 0] @ [120, 0, 0, 0, 0, 0, 0, 0] @ [0, 0, 64, 0, 0, 0, 0, 0] @ replicate 8 0 @
     [3, 0, 0, 0, 0, 0, 0, 0] @ [16, 0, 0, 0, 0, 0, 0, 0] @ [0, 16, 0, 0, 0, 0, 0, 0] @ [0xb8, 0x2a, 0xc3]"

definition ex_file :: umem where
  "ex_file a = (if unat a < length ex_elf then ex_elf ! unat a else 0)"

lemma ex_elf_run:
  "fst (elf_load ex_file 123 0xFFFF800000001000 ex_vm) = Some 0x400000"
  by code_simp

lemma ex_elf_free:
  "total_frames (vm_pmm (snd (elf_load ex_file 123 0xFFFF800000001000 ex_vm))) = 8 \<and>
   \<not> bit_get (bitmap (vm_pmm (snd (elf_load ex_file 123 0xFFFF800000001000 ex_vm)))) 7"
  by code_simp

lemma ex_elf_phdr:
  "map (phdr_at ex_file (read_ehdr ex_file)) [0..<unat (e_phnum (read_ehdr ex_file))] =
     [\<lparr>ph_type = 1, ph_flags = 5, ph_offset = 120, ph_vaddr = 0x400000, ph_paddr = 0, ph_filesz = 3, ph_memsz = 16, ph_align = 0x1000\<rparr>]"
  by code_simp


end
