(* ===== verification/Pages.thy ===== *)
theory Pages
  imports Elf
begin

text \<open>
  Runs of fresh pages. The user stack of a new program and the heap of a running one are filled by the same loop: take a
  frame, map it writable at the next page, and stop when memory has run out. The lemmas say what a finished loop has
  mapped, and that it finishes when there are four frames left for every page.
\<close>

section \<open>The loop\<close>

text \<open>The result of \<open>vmm_map_page\<close> is not looked at.\<close>

definition map_run_page :: "u64 \<Rightarrow> u64 \<Rightarrow> nat \<Rightarrow> bool \<times> vm \<Rightarrow> bool \<times> vm" where
  "map_run_page pml4 base i = (\<lambda>(ok, vm).
     if \<not> ok then (False, vm)
     else let (page, vm1) = vm_alloc vm in
       if page = 0 then (False, vm1)
       else (True, snd (vmm_map_page pml4 (base + of_nat i * 0x1000) page (VMM_U OR VMM_RW) vm1)))"

definition map_run :: "u64 \<Rightarrow> u64 \<Rightarrow> nat \<Rightarrow> vm \<Rightarrow> bool \<times> vm" where
  "map_run pml4 base n vm = fold (map_run_page pml4 base) [0..<n] (True, vm)"

section \<open>The pages of a run\<close>

definition run_page :: "u64 \<Rightarrow> nat \<Rightarrow> u64" where
  "run_page base i = base + of_nat i * 0x1000"

text \<open>The run is page aligned and in the user half.\<close>

definition run_ok :: "u64 \<Rightarrow> nat \<Rightarrow> bool" where
  "run_ok base n \<longleftrightarrow> unat base mod 4096 = 0 \<and> unat base + 4096 * n \<le> 2 ^ 47"

definition rw_entry :: "u64 \<Rightarrow> u64" where
  "rw_entry a = (a AND VMM_PHYS_MASK) OR (VMM_U OR VMM_RW OR VMM_P)"

lemma rw_entry_phys:
  assumes "held vm a" "pmm_inv (vm_pmm vm)"
  shows "rw_entry a AND VMM_PHYS_MASK = a"
proof -
  obtain ph :: elf64_phdr where "ph_flags ph = 2" by (metis elf64_phdr.select_convs(2))
  then have "seg_flags ph OR VMM_P = VMM_U OR VMM_RW OR VMM_P" by (simp add: seg_flags_def)
  then show ?thesis using leaf_entry(1) [OF assms, of ph] unfolding rw_entry_def by simp
qed

lemma unat_run_page:
  assumes "run_ok base n" "i < n"
  shows "unat (run_page base i) = unat base + 4096 * i"
proof -
  have "unat base + 4096 * i < 2 ^ 47" using assms by (simp add: run_ok_def)
  then have "unat (of_nat i * 0x1000 :: u64) = 4096 * i" "unat base + 4096 * i < 2 ^ 64" by (simp_all add: unat_word_ariths unat_of_nat)
  then show ?thesis by (simp add: run_page_def unat_word_ariths)
qed

lemma run_page_half: "run_ok base n \<Longrightarrow> i < n \<Longrightarrow> run_page base i < 0x800000000000"
  by (simp add: word_less_nat_alt unat_run_page) (simp add: run_ok_def)

lemma run_page_aligned:
  assumes "run_ok base n" "i < n"
  shows "run_page base i AND NOT 0xFFF = run_page base i"
proof -
  have "(unat base + 4096 * i) mod 4096 = 0" using assms(1) by (simp add: run_ok_def mod_add_eq [symmetric])
  then show ?thesis unfolding word_unat_eq_iff unat_page_base unat_run_page [OF assms] by simp
qed

lemma page_of_run_page:
  assumes "run_ok base n" "i < n" "j < n"
  shows "page_of (run_page base i) = page_of (run_page base j) \<longleftrightarrow> i = j"
proof -
  have "run_page base i = run_page base j \<longleftrightarrow> i = j"
    using unat_run_page [OF assms(1,2)] unat_run_page [OF assms(1,3)] by (metis add_left_cancel mult_cancel_left zero_neq_numeral)
  then show ?thesis
    unfolding page_of_user_eq [OF run_page_half [OF assms(1,2)] run_page_half [OF assms(1,3)]]
    using run_page_aligned assms by metis
qed

section \<open>What has been mapped\<close>

text \<open>After \<open>n\<close> rounds the first \<open>n\<close> pages have the frames \<open>fs\<close>, none of which was in use before.\<close>

definition run_mapped :: "u64 \<Rightarrow> vm \<Rightarrow> u64 \<Rightarrow> vm \<Rightarrow> u64 list \<Rightarrow> bool" where
  "run_mapped base vm0 r vm fs \<longleftrightarrow> vm_ext r vm0 vm \<and> distinct fs \<and>
     (\<forall>a \<in> set fs. a \<noteq> 0 \<and> \<not> held vm0 a \<and> held vm a \<and> a \<notin> utables vm r) \<and>
     (\<forall>i < length fs. user_map vm r (page_of (run_page base i)) = Some (rw_entry (fs ! i))) \<and>
     (\<forall>x. x \<notin> (page_of \<circ> run_page base) ` {..<length fs} \<longrightarrow> user_map vm r x = user_map vm0 r x)"

lemma map_run_page_spec:
  assumes st: "run_mapped base vm0 r vm fs" and n: "run_ok base n" "length fs < n"
    and r: "pml4 = phys_to_virt (vm_pmm vm0) r" "0xFFFF800000000000 \<le> pml4"
    and run: "map_run_page pml4 base (length fs) (True, vm) = (True, vm')" "\<not> exhausted vm'"
  shows "\<exists>a. run_mapped base vm0 r vm' (fs @ [a])"
proof -
  let ?va = "run_page base (length fs)"
  note S = st [unfolded run_mapped_def]
  have inv: "ptab_inv vm r" using S by (simp add: vm_ext_def)
  obtain a vm1 where al: "vm_alloc vm = (a, vm1)" "a \<noteq> 0" using run(1)
    by (cases "vm_alloc vm") (auto simp: map_run_page_def split: if_splits)
  have "vm1 = vm1\<lparr>pages := (pages vm1)(a := pages vm1 a)\<rparr>" by simp
  note f = fill_ext [OF inv al this]
  obtain ok where m: "vmm_map_page pml4 ?va a (VMM_U OR VMM_RW) vm1 = (ok, vm')"
    using run(1) al by (cases "vmm_map_page pml4 ?va a (VMM_U OR VMM_RW) vm1") (auto simp: map_run_page_def run_page_def)
  have inv1: "ptab_inv vm1 r" and e: "vm_ext r vm0 vm" using f(1) S by (auto simp: vm_ext_def)
  have hh: "pml4 = phys_to_virt (vm_pmm vm1) r" using r(1) f(1) e by (simp add: vm_ext_def phys_to_virt_def)
  note mp = map_page_spec [OF inv1 user_half [OF run_page_half [OF n]] hh m]
  then have ok: ok using r(2) run(2) by (auto simp: exhausted_def)
  have ext: "vm_ext r vm vm'" using vm_ext_trans [OF f(1)] mp by blast
  have nh: "\<not> held vm a" using alloc_spec(4) [OF ptab_invD(1) [OF inv] al(1) al(2)] by blast
  have um: "user_map vm' r = (user_map vm r)(page_of ?va \<mapsto> rw_entry a)" using mp ok f(2) by (simp add: rw_entry_def or.assoc)
  have h0: "held vm t" if "held vm0 t" for t using held_ext [OF e that] .
  have old: "held vm' t \<and> t \<notin> utables vm' r" if "t \<in> set fs" for t using that S ext held_ext [OF ext] unfolding vm_ext_def by blast
  have new: "held vm' a \<and> a \<notin> utables vm' r" using f(3,4) mp held_ext unfolding vm_ext_def by blast
  have "user_map vm' r (page_of (run_page base i)) = Some (rw_entry ((fs @ [a]) ! i))" if "i < length (fs @ [a])" for i
    using that S n page_of_run_page [OF n(1), of i "length fs"] by (cases "i = length fs") (auto simp: um nth_append)
  moreover have "user_map vm' r x = user_map vm0 r x" if "x \<notin> (page_of \<circ> run_page base) ` {..<length (fs @ [a])}" for x
  proof -
    have "x \<noteq> page_of ?va" "x \<notin> (page_of \<circ> run_page base) ` {..<length fs}" using that by auto
    then show ?thesis using S unfolding um by (metis fun_upd_apply)
  qed
  moreover have "distinct (fs @ [a])" using S nh by auto
  moreover have "\<forall>t \<in> set (fs @ [a]). t \<noteq> 0 \<and> \<not> held vm0 t \<and> held vm' t \<and> t \<notin> utables vm' r"
    using S old new al(2) nh h0 by auto
  ultimately show ?thesis using vm_ext_trans [OF e ext] unfolding run_mapped_def by blast
qed

lemma map_run_spec:
  assumes inv: "ptab_inv vm r" and r: "pml4 = phys_to_virt (vm_pmm vm) r" "0xFFFF800000000000 \<le> pml4" and ok: "run_ok base n"
  shows "map_run pml4 base n vm = (True, vm') \<Longrightarrow> \<not> exhausted vm' \<Longrightarrow> \<exists>fs. length fs = n \<and> run_mapped base vm r vm' fs"
  using ok
proof (induction n arbitrary: vm')
  case 0
  then show ?case using vm_ext_refl [OF inv] by (simp add: map_run_def run_mapped_def)
next
  case (Suc n)
  obtain ok vm1 where b: "map_run pml4 base n vm = (ok, vm1)" by fastforce
  then have s: "map_run_page pml4 base n (ok, vm1) = (True, vm')" using Suc.prems(1) by (simp add: map_run_def)
  then have ok: "ok" and "vm_alloc vm1 \<noteq> (0, vm1)" by (auto simp: map_run_page_def split: if_splits prod.splits)
  then have "\<not> exhausted vm1" using exhausted_alloc by blast
  moreover have "run_ok base n" using Suc.prems(3) by (simp add: run_ok_def)
  ultimately obtain fs where fs: "length fs = n" "run_mapped base vm r vm1 fs" using Suc.IH b ok by auto
  have "\<exists>a. run_mapped base vm r vm' (fs @ [a])"
    using map_run_page_spec [OF fs(2) Suc.prems(3) _ r, of vm'] s ok fs(1) Suc.prems by simp
  then show ?case using fs(1) by (metis length_append_singleton)
qed

lemma map_run_stuck: "fold (map_run_page pml4 base) is (False, vm) = (False, vm)" for "is"
  by (induction "is") (simp_all add: map_run_page_def)

lemma exhausted_map_run:
  assumes "exhausted vm" "0 < n"
  shows "map_run pml4 base n vm = (False, vm)"
proof -
  obtain m where "n = Suc m" using assms(2) gr0_implies_Suc by blast
  then have "[0..<n] = 0 # [1..<n]" by (simp add: upt_rec)
  then show ?thesis unfolding map_run_def
    by (simp only: fold_simps) (simp add: map_run_page_def [of _ _ 0] exhausted_alloc [OF assms(1)] map_run_stuck)
qed

section \<open>Enough memory\<close>

text \<open>Mapping a page takes at most three frames for tables, so the number of free frames says that a run can be mapped.\<close>

lemma vm_alloc_takes_one: "free_count vm \<le> Suc (free_count (snd (vm_alloc vm)))"
proof (cases rule: pmm_alloc_frame_cases [of "vm_pmm vm"])
  case full
  then show ?thesis by (simp add: vm_alloc_def free_count_def)
next
  case (got f)
  then have "count_below (total_frames (vm_pmm vm)) (\<lambda>g. \<not> bit_get (bitmap (vm_pmm vm)) g) =
      count_below (total_frames (vm_pmm vm)) (\<lambda>g. \<not> bit_get (bit_set f (bitmap (vm_pmm vm))) g) + 1"
    by (intro count_below_remove [where f = f]) auto
  then show ?thesis using got by (simp add: vm_alloc_def free_count_def)
qed

lemma vm_alloc_succeeds:
  assumes "pmm_inv (vm_pmm vm)" "0 < free_count vm"
  shows "fst (vm_alloc vm) \<noteq> 0"
proof
  assume z: "fst (vm_alloc vm) = 0"
  obtain vm' where al: "vm_alloc vm = (0, vm')" using z by (metis prod.collapse)
  have vm': "vm' = vm" by (rule alloc_spec(5) [OF assms(1) al refl])
  show False
  proof (cases rule: pmm_alloc_frame_cases [of "vm_pmm vm"])
    case full
    then show False using assms(2) by (auto simp: free_count_def count_below_def card_gt_0_iff)
  next
    case (got f)
    then have "bitmap (vm_pmm vm') = bit_set f (bitmap (vm_pmm vm))" using al by (auto simp: vm_alloc_def)
    then have "bit_get (bitmap (vm_pmm vm)) f" using vm' by (metis bit_get_set)
    then show False using got by simp
  qed
qed

lemma ensure_table_takes_one: "free_count vm \<le> Suc (free_count (snd (ensure_table tab i vm)))"
  using vm_alloc_takes_one [of vm] by (cases "vm_alloc vm") (auto simp: ensure_table_def Let_def)

lemma map_page_takes_three: "free_count vm \<le> free_count (snd (vmm_map_page pml4 va pa fl vm)) + 3"
proof -
  have e: "free_count vm1 \<le> Suc (free_count vm2)" if "ensure_table tab i vm1 = (t, vm2)" for tab i t vm1 vm2
    using ensure_table_takes_one [of vm1 tab i] that by simp
  show ?thesis
    unfolding vmm_map_page_def by (auto split: prod.split option.split dest!: e)
qed

lemma map_run_total:
  assumes inv: "ptab_inv vm r" and r: "pml4 = phys_to_virt (vm_pmm vm) r" and ok: "run_ok base n"
  shows "4 * n \<le> free_count vm \<Longrightarrow> \<exists>vm'. map_run pml4 base n vm = (True, vm') \<and> vm_ext r vm vm' \<and> free_count vm \<le> free_count vm' + 4 * n"
  using ok
proof (induction n)
  case 0
  then show ?case using vm_ext_refl [OF inv] by (simp add: map_run_def)
next
  case (Suc n)
  then have "run_ok base n" by (simp add: run_ok_def)
  then obtain vm1 where 1: "map_run pml4 base n vm = (True, vm1)" "vm_ext r vm vm1" "free_count vm \<le> free_count vm1 + 4 * n"
    using Suc by auto
  have inv1: "ptab_inv vm1 r" using 1(2) by (simp add: vm_ext_def)
  obtain a vm2 where al: "vm_alloc vm1 = (a, vm2)" by fastforce
  have nz: "a \<noteq> 0" using vm_alloc_succeeds [OF ptab_invD(1) [OF inv1]] 1(3) Suc.prems(1) al by simp
  obtain ok vm3 where m: "vmm_map_page pml4 (run_page base n) a (VMM_U OR VMM_RW) vm2 = (ok, vm3)" by fastforce
  have "vm2 = vm2\<lparr>pages := (pages vm2)(a := pages vm2 a)\<rparr>" by simp
  note f = fill_ext [OF inv1 al nz this]
  have inv2: "ptab_inv vm2 r" and r2: "pml4 = phys_to_virt (vm_pmm vm2) r" using f(1) 1(2) r by (auto simp: vm_ext_def phys_to_virt_def)
  have "PML4_IDX (run_page base n) < KERNEL_PML4_START" using run_page_half [OF Suc.prems(2), of n] by (intro user_half) simp
  then have "vm_ext r vm2 vm3" using map_page_spec [OF inv2 _ r2 m] by blast
  then have "vm_ext r vm vm3" using vm_ext_trans f(1) 1(2) by blast
  moreover have "free_count vm1 \<le> free_count vm3 + 4"
    using vm_alloc_takes_one [of vm1] map_page_takes_three [of vm2 pml4 "run_page base n" a "VMM_U OR VMM_RW"] al m by simp
  moreover have "map_run_page pml4 base n (True, vm1) = (True, vm3)" using al nz m by (simp add: map_run_page_def run_page_def)
  ultimately show ?case using 1 by (auto simp: map_run_def)
qed

end
