(* ===== verification/Process.thy ===== *)
theory Process
  imports Pages Signal Heap Pipe Xfs
begin

text \<open>
  Processes, \<^verbatim>\<open>src/kernel/proc/proc.c\<close>, with the ways into user mode of
  \<^verbatim>\<open>src/kernel/arch/x86_64/context.S\<close>: the components below it put together. The state of the kernel is the
  scheduler, the page tables, the heap, the pipes and the file system, the registers that the entry code has saved per
  CPU, and the number of TLB shootdowns sent. \<open>tramp\<close> is the address of \<open>ring3_trampoline\<close> in the kernel image. The
  FPU state and the console are left out. An operation that has no result (None) is one whose call of \<open>kmalloc\<close> or
  \<open>kfree\<close> has none; that these always return on a well-formed heap is shown in theory \<open>Heap\<close>.
\<close>

section \<open>State\<close>

abbreviation (input) USER_STACK_PAGES :: nat where "USER_STACK_PAGES \<equiv> 16"
abbreviation (input) STACK_TOP :: u64 where "STACK_TOP \<equiv> 0x00007FFF00000000"
abbreviation (input) STACK_BASE :: u64 where "STACK_BASE \<equiv> STACK_TOP - 0x10000"
abbreviation (input) CLONE_VM :: u64 where "CLONE_VM \<equiv> 0x100"
abbreviation (input) CLONE_THREAD :: u64 where "CLONE_THREAD \<equiv> 0x10000"
abbreviation (input) CLONE_PARENT_SETTID :: u64 where "CLONE_PARENT_SETTID \<equiv> 0x100000"
abbreviation (input) CLONE_CHILD_CLEARTID :: u64 where "CLONE_CHILD_CLEARTID \<equiv> 0x200000"
abbreviation (input) CLONE_CHILD_SETTID :: u64 where "CLONE_CHILD_SETTID \<equiv> 0x1000000"
abbreviation (input) XOS_WNOHANG :: int where "XOS_WNOHANG \<equiv> 1"
abbreviation (input) XOS_ECHILD :: int where "XOS_ECHILD \<equiv> 10"

record saved_regs =
  user_rbx :: u64
  user_rbp :: u64
  user_r12 :: u64
  user_r13 :: u64
  user_r14 :: u64

record kernel =
  k_sched :: sched
  k_vm :: vm
  k_heap :: heap
  k_pipes :: pipes
  k_fs :: xfs
  k_saved :: "nat \<Rightarrow> saved_regs"
  k_shootdowns :: nat

text \<open>Physical memory as bytes, as the direct map shows it. A copy may run across frames.\<close>

definition phys_mem :: "vm \<Rightarrow> umem" where
  "phys_mem vm a = page_byte (pages vm (a AND NOT 0xFFF)) (unat (a AND 0xFFF))"

primrec phys_write :: "u64 \<Rightarrow> u8 list \<Rightarrow> vm \<Rightarrow> vm" where
  "phys_write a [] vm = vm"
| "phys_write a (b # bs) vm = phys_write (a + 1) bs (copy_to_page (a AND NOT 0xFFF) (unat (a AND 0xFFF)) [b] vm)"

definition word_bytes :: "u64 \<Rightarrow> u8 list" where
  "word_bytes v = map (\<lambda>k. ucast (drop_bit (8 * k) v)) [0..<8]"

section \<open>Into user mode\<close>

record user_state =
  us_rip :: u64
  us_rsp :: u64
  us_rflags :: u64
  us_rax :: u64
  us_regs :: fork_regs

definition cpu_set_rsp0 :: "nat \<Rightarrow> u64 \<Rightarrow> sched \<Rightarrow> sched" where
  "cpu_set_rsp0 c v = upd_cpu c (\<lambda>d. d\<lparr>cpu_rsp0 := v, tss_rsp0 := v\<rparr>)"

text \<open>What \<open>iretq\<close> loads: the frame the code has pushed, with the general registers as they are then. \<open>kflags\<close> are the
  flags of the kernel and \<open>r\<close> its registers at the call, of which the arguments and the flags have gone through
  \<open>rdi\<close>, \<open>rsi\<close>, \<open>rdx\<close> and \<open>r8\<close>.\<close>

definition enter_userspace :: "u64 \<Rightarrow> fork_regs \<Rightarrow> u64 \<Rightarrow> u64 \<Rightarrow> u64 \<Rightarrow> vm \<Rightarrow> user_state \<times> vm" where
  "enter_userspace kflags r pml4_phys rip rsp vm =
     (\<lparr>us_rip = rip, us_rsp = rsp, us_rflags = kflags OR 0x200, us_rax = 0,
       us_regs = r\<lparr>fork_rdi := pml4_phys, fork_rsi := rip, fork_rdx := rsp, fork_r8 := kflags OR 0x200\<rparr>\<rparr>,
      vmm_set_cr3 pml4_phys vm)"

definition enter_userspace_fork :: "u64 \<Rightarrow> u64 \<Rightarrow> u64 \<Rightarrow> u64 \<Rightarrow> proc \<Rightarrow> vm \<Rightarrow> user_state \<times> vm" where
  "enter_userspace_fork kflags pml4_phys rip rsp child vm =
     (\<lparr>us_rip = rip, us_rsp = rsp,
       us_rflags = (if fork_rflags (p_fork child) \<noteq> 0 then fork_rflags (p_fork child) else kflags OR 0x200),
       us_rax = 0, us_regs = p_fork child\<rparr>, vmm_set_cr3 pml4_phys vm)"

definition ring3_trampoline :: "nat \<Rightarrow> u64 \<Rightarrow> fork_regs \<Rightarrow> kernel \<Rightarrow> (user_state \<times> kernel) option" where
  "ring3_trampoline c kflags r k =
     (case proc_current c (k_sched k) of
        None \<Rightarrow> None
      | Some i \<Rightarrow>
          let p = procs (k_sched k) i;
              s = cpu_set_rsp0 c (p_kstack p + SCHED_STACK_SIZE) (k_sched k);
              (u, vm) = (if fork_rflags (p_fork p) \<noteq> 0
                         then enter_userspace_fork kflags (p_pml4_phys p) (p_rip p) (p_sleep_until p) p (k_vm k)
                         else enter_userspace kflags r (p_pml4_phys p) (p_rip p) (p_sleep_until p) (k_vm k))
          in Some (u, k\<lparr>k_sched := s, k_vm := vm\<rparr>))"

section \<open>Creating processes\<close>

text \<open>The kernel stack of a process that has not run: the return address slot at its top.\<close>

definition zero_ctx :: ctx_regs where
  "zero_ctx = \<lparr>ctx_rbx = 0, ctx_rbp = 0, ctx_r12 = 0, ctx_r13 = 0, ctx_r14 = 0, ctx_r15 = 0\<rparr>"

definition first_entry :: "u64 \<Rightarrow> nat \<Rightarrow> u64 \<Rightarrow> sched \<Rightarrow> sched" where
  "first_entry tramp i kstack s =
     (let ksp = kstack + SCHED_STACK_SIZE - 8;
          s1 = s\<lparr>stack_word := (stack_word s)(ksp := tramp)\<rparr>
      in upd_proc i (\<lambda>p. p\<lparr>p_rsp := ksp, p_saved_ret := tramp, p_ctx := zero_ctx\<rparr>) s1)"

text \<open>The loop that maps the initial user stack.\<close>

definition map_stack :: "u64 \<Rightarrow> vm \<Rightarrow> bool \<times> vm" where
  "map_stack pml4 vm = map_run pml4 STACK_BASE USER_STACK_PAGES vm"

definition proc_spawn_ring3 :: "u64 \<Rightarrow> umem \<Rightarrow> u64 \<Rightarrow> kernel \<Rightarrow> (nat option \<times> kernel) option" where
  "proc_spawn_ring3 tramp elf_data elf_len k =
     (case elf_validate elf_data elf_len of
        None \<Rightarrow> Some (None, k)
      | Some _ \<Rightarrow>
          let (pml4_phys, vm1) = vmm_create_pml4 (k_vm k) in
          if pml4_phys = 0 then Some (None, k\<lparr>k_vm := vm1\<rparr>)
          else let pml4_virt = phys_to_virt (vm_pmm vm1) pml4_phys in
          case elf_load elf_data elf_len pml4_virt vm1 of
            (None, vm2) \<Rightarrow> Some (None, k\<lparr>k_vm := vm2\<rparr>)
          | (Some start, vm2) \<Rightarrow>
              (case map_stack pml4_virt vm2 of
                 (False, vm3) \<Rightarrow> Some (None, k\<lparr>k_vm := vm3\<rparr>)
               | (True, vm3) \<Rightarrow>
                   let k1 = k\<lparr>k_vm := proc_map_sigreturn_trampoline pml4_virt vm3\<rparr> in
                   (case kmalloc SCHED_STACK_SIZE (k_heap k1) of
                      None \<Rightarrow> None
                    | Some (kstack, h) \<Rightarrow>
                        let k2 = k1\<lparr>k_heap := h\<rparr> in
                        if kstack = 0 then Some (None, k2)
                        else case proc_create start pml4_phys pml4_virt kstack (k_sched k2) of
                          (None, s) \<Rightarrow> Some (None, k2\<lparr>k_sched := s\<rparr>)
                        | (Some i, s) \<Rightarrow>
                            let s1 = upd_proc i (\<lambda>p. p\<lparr>p_ring3 := True, p_sleep_until := STACK_TOP - 16\<rparr>) s
                            in Some (Some i, k2\<lparr>k_sched := first_entry tramp i kstack s1\<rparr>))))"

text \<open>The fields a new process takes over from the one that creates it.\<close>

definition inherit :: "proc \<Rightarrow> proc \<Rightarrow> proc" where
  "inherit parent p =
     p\<lparr>p_ring3 := True, p_priority := p_priority parent, p_name := p_name parent,
       p_sig_blocked := p_sig_blocked parent, p_sig_pending := 0,
       p_sig_handler := (\<lambda>n. if n < 32 then p_sig_handler parent n else p_sig_handler p n),
       p_sig_mask := (\<lambda>n. if n < 32 then p_sig_mask parent n else p_sig_mask p n),
       p_sig_flags := (\<lambda>n. if n < 32 then p_sig_flags parent n else p_sig_flags p n)\<rparr>"

text \<open>The registers the entry code left on the kernel stack of the parent, \<open>off\<close> bytes below its top.\<close>

definition kstack_word :: "proc \<Rightarrow> u64 \<Rightarrow> sched \<Rightarrow> u64" where
  "kstack_word p off s = stack_word s (p_kstack p + SCHED_STACK_SIZE - off)"

definition child_regs :: "proc \<Rightarrow> saved_regs \<Rightarrow> u64 \<Rightarrow> sched \<Rightarrow> fork_regs" where
  "child_regs parent r r15 s =
     \<lparr>fork_rbx = user_rbx r, fork_rbp = user_rbp r, fork_r12 = user_r12 r, fork_r13 = user_r13 r, fork_r14 = user_r14 r,
      fork_r15 = r15, fork_rflags = kstack_word parent 24 s OR 0x200,
      fork_rdi = kstack_word parent 80 s, fork_rsi = kstack_word parent 72 s, fork_rdx = kstack_word parent 64 s,
      fork_r8 = kstack_word parent 48 s, fork_r9 = kstack_word parent 40 s, fork_r10 = kstack_word parent 56 s\<rparr>"

text \<open>A copy of the address space of \<open>parent\<close>, with the TLBs of all CPUs flushed.\<close>

definition clone_space :: "bool \<Rightarrow> proc \<Rightarrow> kernel \<Rightarrow> u64 \<times> kernel" where
  "clone_space smp parent k =
     (let (phys, vm1) = vmm_clone_user (p_pml4_virt parent) (k_vm k) in
      if phys = 0 then (0, k\<lparr>k_vm := vm1\<rparr>)
      else (phys, k\<lparr>k_vm := vmm_set_cr3 (p_pml4_phys parent) vm1,
                    k_shootdowns := k_shootdowns k + (if smp then 1 else 0)\<rparr>))"

definition discard_space :: "u64 \<Rightarrow> u64 \<Rightarrow> kernel \<Rightarrow> kernel" where
  "discard_space virt phys k = k\<lparr>k_vm := vm_free phys (vmm_destroy_user virt (k_vm k))\<rparr>"

definition proc_fork :: "nat \<Rightarrow> u64 \<Rightarrow> bool \<Rightarrow> kernel \<Rightarrow> (u64 \<times> kernel) option" where
  "proc_fork c tramp smp k =
     (case proc_current c (k_sched k) of
        None \<Rightarrow> Some (0, k)
      | Some pi \<Rightarrow>
          let parent = procs (k_sched k) pi in
          if \<not> p_ring3 parent then Some (0, k)
          else let (phys, k1) = clone_space smp parent k in
          if phys = 0 then Some (0, k1)
          else let virt = phys_to_virt (vm_pmm (k_vm k1)) phys in
          (case kmalloc SCHED_STACK_SIZE (k_heap k1) of
             None \<Rightarrow> None
           | Some (kstack, h) \<Rightarrow>
               let k2 = k1\<lparr>k_heap := h\<rparr> in
               if kstack = 0 then Some (0, discard_space virt phys k2)
               else case proc_create 0 phys virt kstack (k_sched k2) of
                 (None, s) \<Rightarrow>
                   map_option (\<lambda>h'. (0, discard_space virt phys (k2\<lparr>k_heap := h', k_sched := s\<rparr>))) (kfree kstack (k_heap k2))
               | (Some i, s) \<Rightarrow>
                   let s1 = upd_proc i (\<lambda>p. (inherit parent p)\<lparr>p_parent_pid := p_pid parent, p_reaped := False\<rparr>) s;
                       user_rsp = kstack_word parent 8 s1;
                       pa = vmm_virt_to_phys virt user_rsp (k_vm k2);
                       r15 = (if pa \<noteq> 0 then load_word (phys_mem (k_vm k2)) pa else 0);
                       s2 = upd_proc i (\<lambda>p. p\<lparr>p_fork := child_regs parent (k_saved k2 c) r15 s1,
                                            p_rip := kstack_word parent 16 s1, p_sleep_until := user_rsp + 8\<rparr>) s1;
                       s3 = first_entry tramp i kstack s2;
                       g = pipe_fork_inherit (ucast (p_pid parent)) (k_pipes k2)
                   in Some (p_pid (procs s3 i), k2\<lparr>k_sched := proc_make_ready smp i s3, k_pipes := g\<rparr>)))"


section \<open>Threads\<close>

definition share_space :: "nat \<Rightarrow> int \<Rightarrow> sched \<Rightarrow> sched" where
  "share_space pi d s = upd_proc pi (\<lambda>p. p\<lparr>p_pml4_refcount := p_pml4_refcount p + d\<rparr>) s"

text \<open>Undo the choice of the address space.\<close>

definition clone_undo :: "bool \<Rightarrow> nat \<Rightarrow> u64 \<Rightarrow> u64 \<Rightarrow> kernel \<Rightarrow> kernel" where
  "clone_undo share pi virt phys k =
     (if share then k\<lparr>k_sched := share_space pi (- 1) (k_sched k)\<rparr> else discard_space virt phys k)"

text \<open>The fields of a new thread.\<close>

definition thread_init :: "u64 \<Rightarrow> u64 \<Rightarrow> u64 \<Rightarrow> proc \<Rightarrow> saved_regs \<Rightarrow> sched \<Rightarrow> proc \<Rightarrow> proc" where
  "thread_init flags child_stack ctid parent r s p =
     (let q = inherit parent p;
          q1 = (if flags AND CLONE_THREAD \<noteq> 0
                then q\<lparr>p_parent_pid := p_parent_pid parent, p_reaped := True, p_tgid := p_tgid parent\<rparr>
                else q\<lparr>p_tgid := p_pid p, p_parent_pid := p_pid parent, p_reaped := False\<rparr>)
      in q1\<lparr>p_tid := p_pid p, p_fork := child_regs parent r 0 s, p_rip := kstack_word parent 16 s,
            p_sleep_until := (if child_stack \<noteq> 0 then child_stack else kstack_word parent 8 s),
            p_clear_tid_addr := (if flags AND CLONE_CHILD_CLEARTID \<noteq> 0 then ctid else p_clear_tid_addr p)\<rparr>)"

text \<open>\<open>user_store\<close> is the store instruction to a user address, through the active page tables.\<close>

definition clone_settid :: "(u64 \<Rightarrow> u64 \<Rightarrow> vm \<Rightarrow> vm) \<Rightarrow> u64 \<Rightarrow> u64 \<Rightarrow> u64 \<Rightarrow> u64 \<Rightarrow> u64 \<Rightarrow> vm \<Rightarrow> vm" where
  "clone_settid user_store flags ptid ctid virt tid vm =
     (let vm1 = (if flags AND CLONE_PARENT_SETTID \<noteq> 0 \<and> ptid \<noteq> 0 then user_store ptid tid vm else vm)
      in if flags AND CLONE_CHILD_SETTID \<noteq> 0 \<and> ctid \<noteq> 0 then
           let pa = vmm_virt_to_phys virt ctid vm1 in if pa \<noteq> 0 then phys_write pa (word_bytes tid) vm1 else vm1
         else vm1)"

definition proc_clone ::
  "(u64 \<Rightarrow> u64 \<Rightarrow> vm \<Rightarrow> vm) \<Rightarrow> nat \<Rightarrow> u64 \<Rightarrow> bool \<Rightarrow> u64 \<Rightarrow> u64 \<Rightarrow> u64 \<Rightarrow> u64 \<Rightarrow> kernel \<Rightarrow> (u64 \<times> kernel) option" where
  "proc_clone user_store c tramp smp flags child_stack ptid ctid k =
     (case proc_current c (k_sched k) of
        None \<Rightarrow> Some (0, k)
      | Some pi \<Rightarrow>
          let parent = procs (k_sched k) pi; share = (flags AND CLONE_VM \<noteq> 0) in
          if \<not> p_ring3 parent then Some (0, k)
          else let (phys, k1) = (if share then (p_pml4_phys parent, k\<lparr>k_sched := share_space pi 1 (k_sched k)\<rparr>)
                                 else clone_space smp parent k) in
          if \<not> share \<and> phys = 0 then Some (0, k1)
          else let virt = (if share then p_pml4_virt parent else phys_to_virt (vm_pmm (k_vm k1)) phys) in
          (case kmalloc SCHED_STACK_SIZE (k_heap k1) of
             None \<Rightarrow> None
           | Some (kstack, h) \<Rightarrow>
               let k2 = k1\<lparr>k_heap := h\<rparr> in
               if kstack = 0 then Some (0, clone_undo share pi virt phys k2)
               else case proc_create 0 phys virt kstack (k_sched k2) of
                 (None, s) \<Rightarrow>
                   map_option (\<lambda>h'. (0, clone_undo share pi virt phys (k2\<lparr>k_heap := h', k_sched := s\<rparr>))) (kfree kstack (k_heap k2))
               | (Some i, s) \<Rightarrow>
                   let s1 = upd_proc i (thread_init flags child_stack ctid parent (k_saved k2 c) s) s;
                       s2 = first_entry tramp i kstack s1;
                       tid = p_tid (procs s2 i);
                       vm = clone_settid user_store flags ptid ctid virt tid (k_vm k2);
                       g = pipe_fork_inherit (ucast (p_pid parent)) (k_pipes k2)
                   in Some (tid, k2\<lparr>k_sched := proc_make_ready smp i s2, k_vm := vm, k_pipes := g\<rparr>)))"

section \<open>Replacing the program\<close>

text \<open>Strings are the bytes before their NUL. The name of a missing applet falls back to the multicall binary.\<close>

definition bin_prefix :: "u8 list" where "bin_prefix = [47, 98, 105, 110, 47]"
definition cmds :: "u8 list" where "cmds = [99, 109, 100, 115]"

definition exec_open :: "u8 list \<Rightarrow> u32 \<Rightarrow> xfs \<Rightarrow> int \<times> u8 list \<times> xfs" where
  "exec_open path pid fs =
     (let (fd, fs1) = xfs_open (Some path) 0 pid fs in
      if fd < 0 \<and> take 5 path = bin_prefix \<and> drop 5 path \<noteq> cmds then
        let (fd2, fs2) = xfs_open (Some (bin_prefix @ cmds)) 0 pid fs1
        in (fd2, if fd2 \<ge> 0 then bin_prefix @ cmds else path, fs2)
      else (fd, path, fs1))"

definition copy_in :: "nat \<Rightarrow> u8 list \<Rightarrow> umem \<Rightarrow> umem" where
  "copy_in off bs m = (\<lambda>a. if off \<le> unat a \<and> unat a < off + length bs then bs ! (unat a - off) else m a)"

text \<open>The read loop, with the number of bytes read and the buffer, which starts at address 0 of \<open>buf\<close>.\<close>

function exec_read :: "int \<Rightarrow> u32 \<Rightarrow> nat \<Rightarrow> nat \<Rightarrow> umem \<Rightarrow> xfs \<Rightarrow> nat \<times> umem \<times> xfs" where
  "exec_read fd pid file_size done buf fs =
     (if done < file_size then
        case xfs_read fd True (file_size - done) pid fs of
          (n, bs, fs1) \<Rightarrow>
            if n \<le> 0 then (done, copy_in done bs buf, fs1)
            else exec_read fd pid file_size (done + nat n) (copy_in done bs buf) fs1
      else (done, buf, fs))"
  by pat_completeness auto
termination by (relation "measure (\<lambda>(fd, pid, file_size, done, buf, fs). file_size - done)") auto

declare exec_read.simps [simp del]

text \<open>Release the file buffer on the way out.\<close>

definition free_buf :: "u64 \<Rightarrow> 'a \<Rightarrow> kernel \<Rightarrow> ('a \<times> kernel) option" where
  "free_buf buf res k = map_option (\<lambda>h. (res, k\<lparr>k_heap := h\<rparr>)) (kfree buf (k_heap k))"

text \<open>The whole file in a buffer of the kernel: its address, the bytes from there on, and the size. \<open>junk\<close> is what the
  heap memory held before.\<close>

definition exec_file :: "umem \<Rightarrow> int \<Rightarrow> u32 \<Rightarrow> kernel \<Rightarrow> ((u64 \<times> umem \<times> u64) option \<times> kernel) option" where
  "exec_file junk fd pid k =
     (let closed = (\<lambda>k. k\<lparr>k_fs := xfs_close fd (k_fs k)\<rparr>) in
      case xfs_fstat fd True pid (k_fs k) of
        None \<Rightarrow> Some (None, closed k)
      | Some st \<Rightarrow>
          let file_size = ucast (d_size st) :: u64 in
          if file_size = 0 \<or> file_size > 0x400000 then Some (None, closed k)
          else (case kmalloc file_size (k_heap k) of
            None \<Rightarrow> None
          | Some (buf, h) \<Rightarrow>
              let k1 = k\<lparr>k_heap := h\<rparr> in
              if buf = 0 then Some (None, closed k1)
              else let (done, data, fs) = exec_read fd pid (unat file_size) 0 junk (k_fs k1);
                       k2 = closed (k1\<lparr>k_fs := fs\<rparr>)
                   in if done \<noteq> unat file_size then free_buf buf None k2 else Some (Some (buf, data, file_size), k2)))"

text \<open>A new address space with the program and an empty stack: its root, and the entry point.\<close>

definition exec_image :: "umem \<Rightarrow> u64 \<Rightarrow> kernel \<Rightarrow> (u64 \<times> u64 \<times> u64) option \<times> kernel" where
  "exec_image data len k =
     (let (phys, vm1) = vmm_create_pml4 (k_vm k) in
      if phys = 0 then (None, k\<lparr>k_vm := vm1\<rparr>)
      else let virt = phys_to_virt (vm_pmm vm1) phys in
      case elf_load data len virt vm1 of
        (None, vm2) \<Rightarrow> (None, discard_space virt phys (k\<lparr>k_vm := vm2\<rparr>))
      | (Some start, vm2) \<Rightarrow>
          (case map_stack virt vm2 of
             (False, vm3) \<Rightarrow> (None, discard_space virt phys (k\<lparr>k_vm := vm3\<rparr>))
           | (True, vm3) \<Rightarrow> (Some (phys, virt, start), k\<lparr>k_vm := proc_map_sigreturn_trampoline virt vm3\<rparr>)))"

text \<open>The name is what follows the last slash, cut to the size of the field.\<close>

definition comm_of :: "u8 list \<Rightarrow> string" where
  "comm_of s = take 15 (map (\<lambda>b. char_of (unat b)) (rev (takeWhile (\<lambda>c. c \<noteq> slash) (rev s))))"

definition comm_priority :: "string \<Rightarrow> u8" where
  "comm_priority n = (if n = ''composer'' \<or> n = ''terminal'' \<or> n = ''zsh'' then 0 else 1)"

text \<open>Copies to the new stack, one page at a time; a page that is not mapped ends the copy.\<close>

function ustack_write :: "u64 \<Rightarrow> u64 \<Rightarrow> u8 list \<Rightarrow> vm \<Rightarrow> vm" where
  "ustack_write pml4 va src vm =
     (if src = [] then vm
      else let pa = vmm_virt_to_phys pml4 va vm in
      if pa = 0 then vm
      else let chunk = min (4096 - unat (va AND 0xFFF)) (length src)
           in ustack_write pml4 (va + of_nat chunk) (drop chunk src) (phys_write pa (take chunk src) vm))"
  by pat_completeness auto
termination
proof (relation "measure (\<lambda>(pml4, va, src, vm). length src)", goal_cases)
  case (2 pml4 va src vm pa chunk)
  have "unat (va AND 0xFFF) < 4096" by (simp add: unat_page_offset)
  with 2 show ?case by (cases src) auto
qed simp

declare ustack_write.simps [simp del]

definition push_bytes :: "u64 \<Rightarrow> u8 list \<Rightarrow> u64 \<times> vm \<Rightarrow> u64 \<times> vm" where
  "push_bytes pml4 bs = (\<lambda>(sp, vm). let sp' = sp - of_nat (length bs) in (sp', ustack_write pml4 sp' bs vm))"

text \<open>The strings, the last one first, with their addresses; then the alignment and the block of pointers.\<close>

definition push_strings :: "u64 \<Rightarrow> u8 list list \<Rightarrow> u64 \<times> vm \<Rightarrow> u64 list \<times> u64 \<times> vm" where
  "push_strings pml4 args s =
     foldr (\<lambda>a (addrs, s). let s' = push_bytes pml4 (a @ [0]) s in (fst s' # addrs, s')) args ([], s)"

definition align_block :: "nat \<Rightarrow> u64 \<Rightarrow> u64" where
  "align_block argc sp =
     (let sp1 = sp AND NOT 0xF; ptr_bytes = 40 + of_nat argc * 8
      in if (sp1 - ptr_bytes) AND 0xF \<noteq> 0 then sp1 - 8 else sp1)"

definition exec_stack :: "u64 \<Rightarrow> u8 list list \<Rightarrow> vm \<Rightarrow> u64 \<times> vm" where
  "exec_stack pml4 args vm =
     (let (addrs, sp, vm1) = push_strings pml4 args (STACK_TOP, vm);
          s1 = push_bytes pml4 (replicate 16 0) (align_block (length args) sp, vm1);
          s2 = push_bytes pml4 (word_bytes 0) s1;
          s3 = push_bytes pml4 (word_bytes 0) s2;
          s4 = foldr (\<lambda>a. push_bytes pml4 (word_bytes a)) addrs s3
      in push_bytes pml4 (word_bytes (of_nat (length args))) s4)"

definition exec_args :: "u8 list \<Rightarrow> u8 list list option \<Rightarrow> u8 list list" where
  "exec_args path argv = (case argv of Some (a # as) \<Rightarrow> take 64 (a # as) | _ \<Rightarrow> [path])"

text \<open>From the new address space on the call does not return.\<close>

definition exec_commit ::
  "nat \<Rightarrow> u64 \<Rightarrow> bool \<Rightarrow> u64 \<Rightarrow> fork_regs \<Rightarrow> nat \<Rightarrow> u64 \<Rightarrow> u64 \<times> u64 \<times> u64 \<Rightarrow> u64 \<Rightarrow> kernel \<Rightarrow> (user_state option \<times> kernel) option" where
  "exec_commit c tramp smp kflags r i buf = (\<lambda>(phys, virt, start) rsp k.
     let p = procs (k_sched k) i;
         s1 = upd_proc i (\<lambda>p. p\<lparr>p_pml4_phys := phys, p_pml4_virt := virt, p_rip := start, p_sleep_until := rsp\<rparr>) (k_sched k);
         k1 = discard_space (p_pml4_virt p) (p_pml4_phys p)
                (k\<lparr>k_sched := s1, k_vm := vmm_set_cr3 phys (k_vm k), k_shootdowns := k_shootdowns k + (if smp then 1 else 0)\<rparr>)
     in case kfree buf (k_heap k1) of
          None \<Rightarrow> None
        | Some h \<Rightarrow>
            let s2 = first_entry tramp i (p_kstack p) (k_sched k1);
                s3 = upd_proc i (\<lambda>p. p\<lparr>p_fork := (p_fork p)\<lparr>fork_rflags := 0\<rparr>\<rparr>) s2;
                s4 = cpu_set_rsp0 c (p_kstack p + SCHED_STACK_SIZE) s3;
                (u, vm) = enter_userspace kflags r phys start rsp (k_vm k1)
            in Some (Some u, k1\<lparr>k_heap := h, k_sched := s4, k_vm := vm\<rparr>))"

text \<open>The result is None when the call returns the error, and otherwise the state in which the program starts.\<close>

definition proc_exec ::
  "umem \<Rightarrow> nat \<Rightarrow> u64 \<Rightarrow> bool \<Rightarrow> u64 \<Rightarrow> fork_regs \<Rightarrow> u8 list option \<Rightarrow> u8 list list option \<Rightarrow> kernel \<Rightarrow> (user_state option \<times> kernel) option" where
  "proc_exec junk c tramp smp kflags r path0 argv k =
     (case (path0, proc_current c (k_sched k)) of
        (Some path1, Some i) \<Rightarrow>
          let p = procs (k_sched k) i; pid = ucast (p_pid p) in
          if \<not> p_ring3 p then Some (None, k)
          else let (fd, path, fs) = exec_open path1 pid (k_fs k); k1 = k\<lparr>k_fs := fs\<rparr> in
          if fd < 0 then Some (None, k1)
          else (case exec_file junk fd pid k1 of
            None \<Rightarrow> None
          | Some (None, k2) \<Rightarrow> Some (None, k2)
          | Some (Some (buf, data, len), k2) \<Rightarrow>
              if elf_validate data len = None then free_buf buf None k2
              else (case exec_image data len k2 of
                (None, k3) \<Rightarrow> free_buf buf None k3
              | (Some (phys, virt, start), k3) \<Rightarrow>
                  let args = exec_args path argv;
                      name = comm_of (hd args);
                      s = upd_proc i (\<lambda>p. p\<lparr>p_name := name\<rparr>) (k_sched k3);
                      (rsp, vm) = exec_stack virt args (k_vm k3)
                  in exec_commit c tramp smp kflags r i buf (phys, virt, start) rsp
                       (k3\<lparr>k_sched := proc_set_priority i (comm_priority name) s, k_vm := vm\<rparr>)))
      | _ \<Rightarrow> Some (None, k))"

section \<open>Waiting for a child\<close>

definition wait_status_encode :: "int \<Rightarrow> int" where
  "wait_status_encode exit_code = push_bit 8 (exit_code AND 0xFF)"

datatype wait_result = Wait_error | Wait_none | Wait_reaped u64 int | Wait_again

definition reap :: "nat \<Rightarrow> sched \<Rightarrow> wait_result \<times> sched" where
  "reap i s = (Wait_reaped (p_pid (procs s i)) (wait_status_encode (p_exit_code (procs s i))),
               upd_proc i (\<lambda>p. p\<lparr>p_reaped := True\<rparr>) s)"

definition zombie :: "proc \<Rightarrow> bool" where
  "zombie p \<longleftrightarrow> p_state p = PROC_DEAD \<and> \<not> p_reaped p"

text \<open>The scan over all pids: the first zombie among the children, or whether a child is alive.\<close>

definition child_of :: "u64 \<Rightarrow> sched \<Rightarrow> nat \<Rightarrow> nat option" where
  "child_of parent s n =
     (case proc_by_pid (of_nat n) s of
        Some i \<Rightarrow> if p_parent_pid (procs s i) = parent then Some i else None
      | None \<Rightarrow> None)"

fun wait_scan :: "u64 \<Rightarrow> nat list \<Rightarrow> bool \<Rightarrow> sched \<Rightarrow> wait_result \<times> sched" where
  "wait_scan parent [] has_live s = (if has_live then Wait_again else Wait_error, s)"
| "wait_scan parent (n # ns) has_live s =
     (case child_of parent s n of
        None \<Rightarrow> wait_scan parent ns has_live s
      | Some i \<Rightarrow>
          if zombie (procs s i) then reap i s
          else wait_scan parent ns (has_live \<or> p_state (procs s i) \<noteq> PROC_DEAD) s)"

text \<open>One round of the loop.\<close>

definition wait_round :: "nat \<Rightarrow> int \<Rightarrow> int \<Rightarrow> sched \<Rightarrow> wait_result \<times> sched" where
  "wait_round parent pid options s =
     (let me = p_pid (procs s parent);
          (r, s1) = (if pid > 0 then
                       case proc_by_pid (of_int pid) s of
                         None \<Rightarrow> (Wait_error, s)
                       | Some i \<Rightarrow>
                           if p_parent_pid (procs s i) \<noteq> me then (Wait_error, s)
                           else if zombie (procs s i) then reap i s else (Wait_again, s)
                     else wait_scan me [1..<SCHED_MAX_PROCS] False s)
      in if r = Wait_again \<and> options AND XOS_WNOHANG \<noteq> 0 then (Wait_none, s1) else (r, s1))"

text \<open>\<open>env n\<close> is what happens to the scheduler from the \<open>n\<close>-th call of \<open>sched_yield\<close> until the caller runs again.\<close>

partial_function (option) wait_loop :: "(nat \<Rightarrow> sched \<Rightarrow> sched) \<Rightarrow> nat \<Rightarrow> nat \<Rightarrow> int \<Rightarrow> int \<Rightarrow> sched \<Rightarrow> (wait_result \<times> sched) option" where
  "wait_loop env n parent pid options s =
     (case wait_round parent pid options s of
        (Wait_again, s1) \<Rightarrow> wait_loop env (Suc n) parent pid options (env n s1)
      | (r, s1) \<Rightarrow> Some (r, s1))"

text \<open>The value returned, and the status if one is stored.\<close>

definition proc_waitpid ::
  "(nat \<Rightarrow> sched \<Rightarrow> sched) \<Rightarrow> nat \<Rightarrow> int \<Rightarrow> bool \<Rightarrow> int \<Rightarrow> sched \<Rightarrow> (int \<times> int option \<times> sched) option" where
  "proc_waitpid env c pid status options s =
     (case proc_current c s of
        None \<Rightarrow> Some (- XOS_ECHILD, None, s)
      | Some parent \<Rightarrow>
          map_option (\<lambda>(r, s1). case r of
              Wait_reaped p st \<Rightarrow> (sint (ucast p :: u32), if status then Some st else None, s1)
            | Wait_none \<Rightarrow> (0, None, s1)
            | _ \<Rightarrow> (- XOS_ECHILD, None, s1))
          (wait_loop env 0 parent pid options s))"

section \<open>The copy of an address space\<close>

text \<open>Every page of the space has an allocated frame that is not one of its tables.\<close>

definition leaves_ok :: "vm \<Rightarrow> u64 \<Rightarrow> bool" where
  "leaves_ok vm r \<longleftrightarrow> (\<forall>x e. user_map vm r x = Some e \<longrightarrow>
     held vm (e AND VMM_PHYS_MASK) \<and> e AND VMM_PHYS_MASK \<noteq> 0 \<and> e AND VMM_PHYS_MASK \<notin> utables vm r)"

lemma cloned_bytes:
  assumes c: "cloned vm src dst UNIV vm'" and ok: "leaves_ok vm src"
  shows "user_byte vm' dst v = user_byte vm src v" "user_byte vm' src v = user_byte vm src v"
proof -
  note D = clonedD [OF c]
  have "user_byte vm' dst v = user_byte vm src v \<and> user_byte vm' src v = user_byte vm src v"
  proof (cases "user_map vm src (page_of v)")
    case None
    then show ?thesis by (simp add: user_byte_def D(8,9))
  next
    case (Some e)
    then have "pages vm' (e AND VMM_PHYS_MASK) = pages vm (e AND VMM_PHYS_MASK)" using ok D(7) unfolding leaves_ok_def by blast
    then show ?thesis by (simp add: user_byte_def D(8,9) Some clone_entry_bits(1,3))
  qed
  then show "user_byte vm' dst v = user_byte vm src v" "user_byte vm' src v = user_byte vm src v" by blast+
qed

text \<open>The word at an address of user memory, read through the direct map.\<close>

definition user_word :: "vm \<Rightarrow> u64 \<Rightarrow> u64 \<Rightarrow> u64" where
  "user_word vm r a = load_word (\<lambda>v. the (user_byte vm r v)) a"

lemma frame_plus_offset:
  assumes "held vm f" "pmm_inv (vm_pmm vm)" "k < 4096"
  shows "(f + of_nat k) AND NOT 0xFFF = f" "unat ((f + of_nat k) AND 0xFFF) = k"
proof -
  have f: "frame_of f < MAX_FRAMES" "f = addr_of (frame_of f)" using assms by (auto simp: held_def frames_used_def pmm_inv_def)
  then have uf: "unat f = frame_of f * 4096" using unat_addr_of [of "frame_of f"] by simp
  have u: "unat (f + of_nat k) = frame_of f * 4096 + k" using uf f(1) assms(3) by (simp add: unat_word_ariths unat_of_nat)
  show "unat ((f + of_nat k) AND 0xFFF) = k" unfolding unat_page_offset u using assms(3) by simp
  show "(f + of_nat k) AND NOT 0xFFF = f" unfolding word_unat_eq_iff unat_page_base u uf using assms(3) by simp
qed

lemma phys_word:
  assumes ok: "leaves_ok vm r" and inv: "ptab_inv vm r" and r: "pml4 = phys_to_virt (vm_pmm vm) r"
    and a: "a < 0x800000000000" "unat a mod 4096 \<le> 4088" and m: "user_map vm r (page_of a) = Some e"
  shows "vmm_virt_to_phys pml4 a vm \<noteq> 0" "load_word (phys_mem vm) (vmm_virt_to_phys pml4 a vm) = user_word vm r a"
proof -
  let ?f = "e AND VMM_PHYS_MASK" and ?pa = "vmm_virt_to_phys pml4 a vm" and ?o = "unat a mod 4096"
  have f: "held vm ?f" "?f \<noteq> 0" using ok m unfolding leaves_ok_def by blast+
  note fo = frame_plus_offset [OF f(1) ptab_invD(1) [OF inv]]
  have "a AND 0xFFF = of_nat ?o" by (simp add: word_unat_eq_iff unat_page_offset unat_of_nat)
  then have pa: "?pa = ?f + of_nat ?o" using lookup_spec(2) [OF inv user_half [OF a(1)] r m] by simp
  show "?pa \<noteq> 0"
  proof
    assume "?pa = 0"
    then have "?f = 0" using fo(1) [of ?o] unfolding pa by simp
    then show False using f(2) by simp
  qed
  show "load_word (phys_mem vm) ?pa = user_word vm r a"
    unfolding user_word_def load_word_def
  proof (intro arg_cong [where f = word_rcat] map_cong refl)
    fix k assume "k \<in> set (rev [0..<LENGTH(64) div 8])"
    then have k: "?o + k < 4096" "k < 8" using a(2) by auto
    have ua: "unat (a + of_nat k) = unat a + k" using a(1) k by (simp add: unat_word_ariths unat_of_nat word_less_nat_alt)
    have "(unat a + k) mod 4096 = ?o + k" using k(1) by (metis mod_add_left_eq mod_less)
    then have off: "unat ((a + of_nat k) AND 0xFFF) = ?o + k" unfolding unat_page_offset ua .
    have base: "unat ((a + of_nat k) AND NOT 0xFFF) = unat (a AND NOT 0xFFF)"
      unfolding unat_page_base ua \<open>(unat a + k) mod 4096 = ?o + k\<close> by simp
    have "unat a div 4096 < 0x800000000" "unat a = 4096 * (unat a div 4096) + ?o" using a(1) by (simp_all add: word_less_nat_alt)
    then have "unat a + k < 0x800000000000" using k(1) by linarith
    then have "a + of_nat k < 0x800000000000" by (simp add: word_less_nat_alt ua)
    then have "page_of (a + of_nat k) = page_of a" using page_of_user_eq [OF _ a(1)] base by (simp add: word_unat_eq_iff)
    then have "user_byte vm r (a + of_nat k) = Some (page_byte (pages vm ?f) (?o + k))" by (simp add: user_byte_def m off)
    moreover have pk: "?pa + of_nat k = ?f + of_nat (?o + k)" by (simp add: pa)
    moreover have "phys_mem vm (?pa + of_nat k) = page_byte (pages vm ?f) (?o + k)"
      unfolding phys_mem_def pk fo [OF k(1)] ..
    ultimately show "phys_mem vm (?pa + of_nat k) = the (user_byte vm r (a + of_nat k))" by simp
  qed
qed


text \<open>Only the pages matter for what a process reads.\<close>

lemma user_map_cong_pages: "pages vm' = pages vm \<Longrightarrow> user_map vm' r = user_map vm r"
  by (rule tables_kept(2)) simp

lemma user_byte_cong_pages:
  assumes "pages vm' = pages vm"
  shows "user_byte vm' r v = user_byte vm r v"
  unfolding user_byte_def user_map_cong_pages [OF assms] assms ..

lemma leaves_ok_cloned:
  assumes c: "cloned vm src dst UNIV vm'" and ok: "leaves_ok vm src"
  shows "leaves_ok vm' dst"
proof -
  note D = clonedD [OF c]
  have "held vm' t" if "held vm t" for t using that D(5) by (auto simp: held_def)
  then show ?thesis using ok D(6) by (auto simp: leaves_ok_def D(8) clone_entry_bits(1))
qed

lemma forked_word:
  assumes c: "cloned vm src dst UNIV vm1" and ok: "leaves_ok vm src"
    and a: "a < 0x800000000000" "unat a mod 4096 \<le> 4088" and m: "user_map vm src (page_of a) \<noteq> None"
    and vm': "vm' = vmm_set_cr3 x vm1"
  shows "vmm_virt_to_phys (phys_to_virt (vm_pmm vm') dst) a vm' \<noteq> 0 \<and>
    load_word (phys_mem vm') (vmm_virt_to_phys (phys_to_virt (vm_pmm vm') dst) a vm') = user_word vm src a"
proof -
  have eq: "pages vm' = pages vm1" "vm_pmm vm' = vm_pmm vm1" by (simp_all add: vm' vmm_set_cr3_def)
  have um: "user_map vm' dst = user_map vm1 dst" "utables vm' dst = utables vm1 dst"
    using eq(1) by (auto intro!: tables_kept)
  have inv: "ptab_inv vm' dst" using other_space(1) [OF clonedD(2) [OF c], of vm'] eq ptab_invD(1) [OF clonedD(2) [OF c]] by simp
  have ok': "leaves_ok vm' dst" using leaves_ok_cloned [OF c ok] by (simp add: leaves_ok_def um held_def eq)
  obtain e where e: "user_map vm' dst (page_of a) = Some e" using m clonedD(8) [OF c] um by auto
  have "user_byte vm' dst v = user_byte vm src v" for v using user_byte_cong_pages [OF eq(1)] cloned_bytes(1) [OF c ok] by simp
  then have "user_word vm' dst a = user_word vm src a" by (simp add: user_word_def)
  then show ?thesis using phys_word [OF ok' inv refl a e] by simp
qed

section \<open>Fork\<close>

text \<open>The addresses of the kernel stack at \<open>kstack\<close>.\<close>

definition in_kstack :: "u64 \<Rightarrow> u64 \<Rightarrow> bool" where
  "in_kstack kstack a \<longleftrightarrow> unat kstack \<le> unat a \<and> unat a < unat kstack + 65536"

lemma new_kstack:
  assumes run: "run_inv h live" and live: "live p = Some SCHED_STACK_SIZE" and km: "kmalloc SCHED_STACK_SIZE h = Some (q, h')" "q \<noteq> 0"
    and a: "in_kstack p a"
  shows "\<not> in_kstack q a" "in_kstack q (q + SCHED_STACK_SIZE - 8)" "in_kstack q q"
proof -
  obtain fl where inv: "heap_inv h fl ((\<lambda>p. p - HDR_SIZE) ` dom live)" using run by (auto simp: run_inv_def)
  have "q - HDR_SIZE \<notin> (\<lambda>p. p - HDR_SIZE) ` dom live"
    by (cases rule: kmalloc_spec [OF inv, of SCHED_STACK_SIZE]) (use km in auto)
  then have qp: "q \<noteq> p" using live by blast
  have run': "run_inv h' (live(q \<mapsto> SCHED_STACK_SIZE))" using kmalloc_run [OF run _ km(1)] km(2) by simp
  have lq: "(live(q \<mapsto> SCHED_STACK_SIZE)) q = Some SCHED_STACK_SIZE" and lp: "(live(q \<mapsto> SCHED_STACK_SIZE)) p = Some SCHED_STACK_SIZE"
    using live qp by auto
  note Q = run_inv_live [OF run' lq] and P = run_inv_live [OF run' lp] and D = run_inv_disjoint [OF run' lq lp qp]
  show "\<not> in_kstack q a" using D Q(2,4) P(2,4) a by (auto simp: apart_def in_kstack_def)
  have "unat q + 65536 < 2 ^ 64" using Q(1,2,4,5) by (auto simp: block_ok_def)
  then show "in_kstack q (q + SCHED_STACK_SIZE - 8)" "in_kstack q q"
    by (auto simp: in_kstack_def unat_sub_if' unat_word_ariths)
qed


lemma make_ready_fields [simp]:
  "procs (proc_make_ready smp i s) = (procs s)(i := (procs s i)\<lparr>p_state := PROC_READY\<rparr>)"
  "stack_word (proc_make_ready smp i s) = stack_word s"
  by (simp_all add: proc_make_ready_def sched_notify_new_proc_def ready_enqueue_def upd_proc_def emit_def Let_def)

lemma first_entry_fields [simp]:
  "procs (first_entry tramp i kstack s) =
     (procs s)(i := (procs s i)\<lparr>p_rsp := kstack + SCHED_STACK_SIZE - 8, p_saved_ret := tramp, p_ctx := zero_ctx\<rparr>)"
  "stack_word (first_entry tramp i kstack s) = (stack_word s)(kstack + SCHED_STACK_SIZE - 8 := tramp)"
  by (simp_all add: first_entry_def upd_proc_def Let_def)

lemma stack_word_upd [simp]: "stack_word (upd_proc i f s) = stack_word s"
  by (simp add: upd_proc_def)

text \<open>A successful call: its intermediate results, and the fields of the new process.\<close>

definition forked :: "nat \<Rightarrow> u64 \<Rightarrow> proc \<Rightarrow> kernel \<Rightarrow> u64 \<Rightarrow> vm \<Rightarrow> u64 \<Rightarrow> nat \<Rightarrow> kernel \<Rightarrow> bool" where
  "forked c tramp parent k phys vm1 kstack i k' \<longleftrightarrow>
     (let vm = vmm_set_cr3 (p_pml4_phys parent) vm1;
          s = (k_sched k)\<lparr>stack_word := (stack_word (k_sched k))(kstack := KSTACK_CANARY)\<rparr>;
          rsp = kstack_word parent 8 s;
          pa = vmm_virt_to_phys (phys_to_virt (vm_pmm vm) phys) rsp vm;
          child = procs (k_sched k') i
      in k_vm k' = vm \<and> (\<forall>j. j \<noteq> i \<longrightarrow> procs (k_sched k') j = procs (k_sched k) j) \<and>
         stack_word (k_sched k') = (stack_word s)(kstack + SCHED_STACK_SIZE - 8 := tramp) \<and>
         p_fork child = child_regs parent (k_saved k c) (if pa \<noteq> 0 then load_word (phys_mem vm) pa else 0) s \<and>
         p_rip child = kstack_word parent 16 s \<and> p_sleep_until child = rsp + 8 \<and> p_pml4_phys child = phys \<and>
         p_parent_pid child = p_pid parent \<and> \<not> p_reaped child \<and> p_state child = PROC_READY \<and> p_ring3 child \<and>
         p_pid child = of_nat i \<and> p_kstack child = kstack \<and> p_saved_ret child = tramp \<and> p_sig_pending child = 0 \<and>
         p_sig_blocked child = p_sig_blocked parent \<and>
         (\<forall>n < 32. p_sig_handler child n = p_sig_handler parent n \<and> p_sig_mask child n = p_sig_mask parent n \<and>
            p_sig_flags child n = p_sig_flags parent n))"

lemma fork_steps:
  assumes cur: "proc_current c (k_sched k) = Some pi" "parent = procs (k_sched k) pi"
    and run: "proc_fork c tramp smp k = Some (pid, k')" "pid \<noteq> 0"
  obtains phys vm1 kstack h i where "vmm_clone_user (p_pml4_virt parent) (k_vm k) = (phys, vm1)" "phys \<noteq> 0"
    "kmalloc SCHED_STACK_SIZE (k_heap k) = Some (kstack, h)" "kstack \<noteq> 0"
    "find (\<lambda>i. free_slot (procs (k_sched k) i)) [1..<SCHED_MAX_PROCS] = Some i" "pid = of_nat i"
    "forked c tramp parent k phys vm1 kstack i k'"
proof -
  obtain phys vm1 where cl: "vmm_clone_user (p_pml4_virt parent) (k_vm k) = (phys, vm1)" by fastforce
  have nz: "phys \<noteq> 0" "p_ring3 parent" using run cur cl by (auto simp: proc_fork_def clone_space_def Let_def split: if_splits)
  obtain kstack h where km: "kmalloc SCHED_STACK_SIZE (k_heap k) = Some (kstack, h)"
    using run cur cl nz by (cases "kmalloc SCHED_STACK_SIZE (k_heap k)") (auto simp: proc_fork_def clone_space_def Let_def)
  have ks: "kstack \<noteq> 0" using run cur cl nz km by (auto simp: proc_fork_def clone_space_def Let_def split: if_splits)
  obtain i where i: "find (\<lambda>i. free_slot (procs (k_sched k) i)) [1..<SCHED_MAX_PROCS] = Some i"
    using run cur cl nz km ks
    by (cases "find (\<lambda>i. free_slot (procs (k_sched k) i)) [1..<SCHED_MAX_PROCS]")
       (auto simp: proc_fork_def clone_space_def Let_def proc_create_def split: if_splits)
  let ?vm = "vmm_set_cr3 (p_pml4_phys parent) vm1"
  define virt where "virt = phys_to_virt (vm_pmm ?vm) phys"
  define s0 where "s0 = (upd_proc i (init_slot i 0 phys virt kstack) (k_sched k))\<lparr>stack_word := (stack_word (k_sched k))(kstack := KSTACK_CANARY)\<rparr>"
  define s1 where "s1 = upd_proc i (\<lambda>p. (inherit parent p)\<lparr>p_parent_pid := p_pid parent, p_reaped := False\<rparr>) s0"
  define rsp where "rsp = kstack_word parent 8 s1"
  define r15 :: u64 where "r15 = (if vmm_virt_to_phys virt rsp ?vm \<noteq> 0 then load_word (phys_mem ?vm) (vmm_virt_to_phys virt rsp ?vm) else 0)"
  define s2 where "s2 = upd_proc i (\<lambda>p. p\<lparr>p_fork := child_regs parent (k_saved k c) r15 s1, p_rip := kstack_word parent 16 s1, p_sleep_until := rsp + 8\<rparr>) s1"
  define s3 where "s3 = first_entry tramp i kstack s2"
  have pc: "proc_create 0 phys virt kstack (k_sched k) = (Some i, s0)" using i ks by (simp add: proc_create_def s0_def Let_def)
  have eq: "pid = p_pid (procs s3 i) \<and> k_vm k' = ?vm \<and> k_sched k' = proc_make_ready smp i s3"
    using run(1) cur cl nz km ks pc
    by (auto simp: proc_fork_def clone_space_def Let_def virt_def s1_def rsp_def r15_def s2_def s3_def)
  have w: "kstack_word p off s1 = kstack_word p off ((k_sched k)\<lparr>stack_word := (stack_word (k_sched k))(kstack := KSTACK_CANARY)\<rparr>)" for p off
    by (simp add: kstack_word_def s1_def s0_def)
  have "forked c tramp parent k phys vm1 kstack i k'"
    using eq unfolding forked_def Let_def
    by (simp add: s3_def s2_def r15_def rsp_def w child_regs_def virt_def) (simp add: s1_def s0_def inherit_def init_slot_def)
  moreover have "p_pid (procs s3 i) = of_nat i" by (simp add: s3_def s2_def s1_def s0_def inherit_def init_slot_def)
  ultimately have f: "pid = of_nat i \<and> forked c tramp parent k phys vm1 kstack i k'" using eq by simp
  from that [OF cl nz(1) km ks i] f show thesis by blast
qed


lemma or_if_nonzero: "(w :: u64) OR 0x200 \<noteq> 0"
proof
  assume "w OR 0x200 = 0"
  then have "bit (w OR 0x200) 9 = bit (0 :: u64) 9" by simp
  then show False by (simp add: bit_or_iff)
qed

lemma kstack_word_kept:
  assumes "\<And>a. in_kstack (p_kstack parent) a \<Longrightarrow> stack_word s' a = stack_word s a"
    and top: "unat (p_kstack parent) + 65536 < 2 ^ 64" and off: "0 < unat off" "unat off \<le> 65536"
  shows "kstack_word parent off s' = kstack_word parent off s"
  unfolding kstack_word_def
  using top off by (intro assms(1)) (auto simp: in_kstack_def unat_sub_if' unat_word_ariths)

lemma trampoline_fork:
  assumes "fork_rflags (p_fork (procs (k_sched k) i)) \<noteq> 0"
    and "ring3_trampoline c kflags regs (k\<lparr>k_sched := proc_set_current c (Some i) (k_sched k)\<rparr>) = Some (u, k')"
  shows "cr3 (k_vm k') = p_pml4_phys (procs (k_sched k) i) \<and>
    u = \<lparr>us_rip = p_rip (procs (k_sched k) i), us_rsp = p_sleep_until (procs (k_sched k) i),
         us_rflags = fork_rflags (p_fork (procs (k_sched k) i)), us_rax = 0, us_regs = p_fork (procs (k_sched k) i)\<rparr>"
  using assms
  by (auto simp: ring3_trampoline_def proc_current_def proc_set_current_def enter_userspace_fork_def Let_def vmm_set_cr3_def)

section \<open>Properties\<close>

text \<open>C7: the child of a fork. If \<open>proc_fork\<close> returns a pid, the process of that number is ready, is a child of the
  caller that can be waited for, and has its signal dispositions and mask; both processes read the same bytes everywhere
  in user memory, those the caller had before; the kernel stack of the caller and its process slot are untouched. When
  the child first runs, on whatever CPU, it enters user mode at the instruction after the system call, with the stack
  pointer, the flags and all the registers the caller had there, \<open>r15\<close> from the user stack, and the result 0.\<close>

theorem fork_child_resumes:
  assumes cur: "proc_current c (k_sched k) = Some pi" "parent = procs (k_sched k) pi" "\<not> free_slot parent"
    and space: "ptab_inv (k_vm k) r" "p_pml4_virt parent = phys_to_virt (vm_pmm (k_vm k)) r" "leaves_ok (k_vm k) r"
    and heap: "heap_run (k_heap k) live" "live (p_kstack parent) = Some SCHED_STACK_SIZE"
    and rsp: "rsp = kstack_word parent 8 (k_sched k)" "rsp < 0x800000000000" "unat rsp mod 4096 \<le> 4088"
    and run: "proc_fork c tramp smp k = Some (pid, k')" "pid \<noteq> 0"
    and first: "ring3_trampoline c' kflags regs (k'\<lparr>k_sched := proc_set_current c' (Some (unat pid)) (k_sched k')\<rparr>) = Some (u, k'')"
  shows "us_rip u = kstack_word parent 16 (k_sched k) \<and> us_rsp u = rsp + 8 \<and> us_rax u = 0 \<and>
    us_rflags u = kstack_word parent 24 (k_sched k) OR 0x200 \<and>
    (user_map (k_vm k) r (page_of rsp) \<noteq> None \<longrightarrow>
       us_regs u = child_regs parent (k_saved k c) (user_word (k_vm k) r rsp) (k_sched k)) \<and>
    (\<forall>v. user_byte (k_vm k') (cr3 (k_vm k'')) v = user_byte (k_vm k) r v \<and> user_byte (k_vm k') r v = user_byte (k_vm k) r v) \<and>
    procs (k_sched k') pi = parent \<and> (\<forall>a. in_kstack (p_kstack parent) a \<longrightarrow> stack_word (k_sched k') a = stack_word (k_sched k) a) \<and>
    (let child = procs (k_sched k') (unat pid) in p_pid child = pid \<and> p_state child = PROC_READY \<and>
       p_parent_pid child = p_pid parent \<and> \<not> p_reaped child \<and> p_sig_blocked child = p_sig_blocked parent \<and>
       (\<forall>n < 32. p_sig_handler child n = p_sig_handler parent n))"
proof -
  obtain phys vm1 kstack h i where cl: "vmm_clone_user (p_pml4_virt parent) (k_vm k) = (phys, vm1)" "phys \<noteq> 0"
    and km: "kmalloc SCHED_STACK_SIZE (k_heap k) = Some (kstack, h)" "kstack \<noteq> 0"
    and i: "find (\<lambda>i. free_slot (procs (k_sched k) i)) [1..<SCHED_MAX_PROCS] = Some i" "pid = of_nat i"
    and F: "forked c tramp parent k phys vm1 kstack i k'"
    by (rule fork_steps [OF cur(1,2) run])
  note F = F [unfolded forked_def Let_def]
  have "i < SCHED_MAX_PROCS" "free_slot (procs (k_sched k) i)" using find_upt_SomeD [OF i(1)] by auto
  then have ip: "unat pid = i" "i \<noteq> pi" using cur(2,3) i(2) by (auto simp: unat_of_nat)
  note rinv = heap_run_inv [OF heap(1)]
  note NK = new_kstack [OF rinv heap(2) km]
  have ks: "stack_word (k_sched k') a = stack_word (k_sched k) a" if "in_kstack (p_kstack parent) a" for a
    using F NK [OF that] by auto
  let ?s = "(k_sched k)\<lparr>stack_word := (stack_word (k_sched k))(kstack := KSTACK_CANARY)\<rparr>"
  have top: "unat (p_kstack parent) + 65536 < 2 ^ 64" using run_inv_live [OF rinv heap(2)] by (auto simp: block_ok_def)
  have "stack_word ?s a = stack_word (k_sched k) a" if "in_kstack (p_kstack parent) a" for a using NK [OF that] by auto
  note W = kstack_word_kept [OF this top]
  have w: "kstack_word parent 8 ?s = rsp" "kstack_word parent 16 ?s = kstack_word parent 16 (k_sched k)"
    "kstack_word parent 24 ?s = kstack_word parent 24 (k_sched k)" "child_regs parent x y ?s = child_regs parent x y (k_sched k)" for x y
    using W by (simp_all add: rsp(1) child_regs_def)
  note cloned = clone_user_spec [OF space(1,2) cl]
  let ?vm = "vmm_set_cr3 (p_pml4_phys parent) vm1"
  have pg: "pages ?vm = pages vm1" by (simp add: vmm_set_cr3_def)
  have ub: "user_byte ?vm q v = user_byte vm1 q v" for q v by (rule user_byte_cong_pages [OF pg])
  note B = cloned_bytes [OF cloned space(3)]
  have r15: "vmm_virt_to_phys (phys_to_virt (vm_pmm ?vm) phys) rsp ?vm \<noteq> 0 \<and>
      load_word (phys_mem ?vm) (vmm_virt_to_phys (phys_to_virt (vm_pmm ?vm) phys) rsp ?vm) = user_word (k_vm k) r rsp"
    if m: "user_map (k_vm k) r (page_of rsp) \<noteq> None"
    by (rule forked_word [OF cloned space(3) rsp(2,3) m refl])
  have rf: "fork_rflags (p_fork (procs (k_sched k') i)) = kstack_word parent 24 (k_sched k) OR 0x200"
    using F w(3) by (simp add: child_regs_def)
  then have nz: "fork_rflags (p_fork (procs (k_sched k') i)) \<noteq> 0" using or_if_nonzero by metis
  have cr: "cr3 (k_vm k'') = phys" "us_rip u = kstack_word parent 16 (k_sched k)" "us_rsp u = rsp + 8" "us_rax u = 0"
      "us_rflags u = kstack_word parent 24 (k_sched k) OR 0x200" "us_regs u = p_fork (procs (k_sched k') i)"
    using trampoline_fork [OF nz first [unfolded ip(1)]] F w rf by simp_all
  show ?thesis using cr F B ub r15 ks ip w cur(2) i(2) by (auto simp: Let_def)
qed


text \<open>A heap with one kernel stack and room for another.\<close>

lemma two_stacks:
  obtains h p h' q where "heap_run h [p \<mapsto> SCHED_STACK_SIZE]" "kmalloc SCHED_STACK_SIZE h = Some (q, h')" "q \<noteq> 0"
proof -
  obtain p' h0 where b: "heap_init example_pmm example_heap = Some (p', h0)" by (rule example_boot)
  have run0: "heap_run h0 Map.empty" by (rule heap_run.boot [OF b example_pmm_ok])
  define a where "a = arena h0"
  have h0: "free_head h0 = a" "bsize h0 a = 0x4000000" "bnext h0 a = 0" "arena_sz h0 = 0x4000000"
    using b by (auto simp: a_def heap_init_def Let_def split: prod.splits if_splits)
  have inv: "heap_inv h0 [a] {}" unfolding a_def by (rule heap_init_inv [OF b example_pmm_ok])
  have a: "unat a + 0x4000000 < 2 ^ 64" "a \<noteq> 0" using heap_invD(2) [OF inv] heap_invD [OF inv] h0 by (auto simp: a_def)
  have need: "ALIGN16 SCHED_STACK_SIZE + HDR_SIZE = 65552" by (simp add: ALIGN16_def)
  have "kmalloc_scan h0 65552 0 a = Some (0, a)" using a h0 by (subst kmalloc_scan.simps) simp
  then have k1: "kmalloc SCHED_STACK_SIZE h0 = Some (a + HDR_SIZE, kmalloc_take 65552 0 a h0)"
    using a h0 by (simp add: kmalloc_def need Let_def)
  let ?h = "kmalloc_take 65552 0 a h0" and ?b = "a + 65552"
  have nz: "a + HDR_SIZE \<noteq> 0" "?b \<noteq> 0" "?b + HDR_SIZE \<noteq> 0" using a(1) by (auto simp: word_unat_eq_iff unat_word_ariths)
  have h1: "free_head ?h = ?b" "bsize ?h ?b = 0x3FEFFF0" using h0 by (simp_all add: kmalloc_take_def Let_def set_link_def set_size_def)
  have "kmalloc_scan ?h 65552 0 ?b = Some (0, ?b)" using nz h1 by (subst kmalloc_scan.simps) simp
  then have k2: "\<exists>h'. kmalloc SCHED_STACK_SIZE ?h = Some (?b + HDR_SIZE, h')" using nz h1 by (simp add: kmalloc_def need Let_def)
  have "heap_run ?h [a + HDR_SIZE \<mapsto> SCHED_STACK_SIZE]" using heap_run.malloc [OF run0 _ k1] nz(1) by simp
  then show thesis using that k2 nz(3) by blast
qed


theorem fork_child_resumes_witness:
  "\<exists>k k' u k''. proc_fork 0 0xFFFFFFFF80000000 False k = Some (1, k') \<and>
     ring3_trampoline 1 2 (p_fork zero_proc) (k'\<lparr>k_sched := proc_set_current 1 (Some 1) (k_sched k')\<rparr>) = Some (u, k'') \<and>
     us_rax u = 0 \<and> us_rsp u = 8 \<and> p_parent_pid (procs (k_sched k') 1) = 2"
proof -
  obtain h p h' q where hp: "heap_run h [p \<mapsto> SCHED_STACK_SIZE]" "kmalloc SCHED_STACK_SIZE h = Some (q, h')" "q \<noteq> 0" by (rule two_stacks)
  define parent where "parent = zero_proc\<lparr>p_pid := 2, p_state := PROC_RUNNING, p_ring3 := True, p_pml4_virt := 0xFFFF800000001000, p_kstack := p\<rparr>"
  define s where "s = (sched_bss 100)\<lparr>procs := (\<lambda>_. zero_proc\<lparr>p_reaped := True\<rparr>)(2 := parent), cpus := (\<lambda>_. zero_cpu)(0 := zero_cpu\<lparr>current_proc := Some 2\<rparr>)\<rparr>"
  define k where "k = \<lparr>k_sched = s, k_vm = ex_vm, k_heap = h, k_pipes = (\<lambda>_. zero_pipe), k_fs = ex_fs,
    k_saved = (\<lambda>_. \<lparr>user_rbx = 0, user_rbp = 0, user_r12 = 0, user_r13 = 0, user_r14 = 0\<rparr>), k_shootdowns = 0\<rparr>"
  obtain vm1 where cl: "vmm_clone_user 0xFFFF800000001000 ex_vm = (0x2000, vm1)" using ex_vm_clone by blast
  have cur: "proc_current 0 (k_sched k) = Some 2" "parent = procs (k_sched k) 2" by (simp_all add: k_def s_def proc_current_def)
  have par: "p_ring3 parent" "p_pml4_virt parent = 0xFFFF800000001000" "p_kstack parent = p" "p_pid parent = 2" "\<not> free_slot parent"
    by (simp_all add: parent_def free_slot_def)
  have "free_slot (procs s 1)" by (simp add: s_def free_slot_def zero_proc_def)
  then have i: "find (\<lambda>i. free_slot (procs s i)) [1..<SCHED_MAX_PROCS] = Some 1" by (subst upt_conv_Cons) simp_all
  have fields: "k_sched k = s" "k_vm k = ex_vm" "k_heap k = h" by (simp_all add: k_def)
  obtain k' where run: "proc_fork 0 0xFFFFFFFF80000000 False k = Some (1, k')"
    using cur par cl hp(2,3) i
    by (simp add: proc_fork_def clone_space_def fields Let_def proc_create_def inherit_def init_slot_def)
  obtain u k'' where first: "ring3_trampoline 1 2 (p_fork zero_proc) (k'\<lparr>k_sched := proc_set_current 1 (Some 1) (k_sched k')\<rparr>) = Some (u, k'')"
    by (simp add: ring3_trampoline_def proc_current_def proc_set_current_def Let_def split_beta)
  have "kstack_word parent 8 (k_sched k) = 0" by (simp add: kstack_word_def fields s_def sched_bss_def)
  then show ?thesis
    using fork_child_resumes [OF cur par(5) _ _ _ _ _ refl _ _ run, of "0x1000" "[p \<mapsto> SCHED_STACK_SIZE]" 1 2 "p_fork zero_proc" u k''] run first
    by (simp add: fields par hp ex_vm_inv leaves_ok_def phys_to_virt_def Let_def) (auto simp: ex_vm_def)
qed

section \<open>Waiting for a child\<close>

text \<open>The scan takes the zombie with the lowest pid, and otherwise tells whether a child is alive.\<close>

lemma wait_scan_first:
  "wait_scan parent ns has_live s =
     (case find (\<lambda>n. \<exists>i. child_of parent s n = Some i \<and> zombie (procs s i)) ns of
        Some n \<Rightarrow> reap (the (child_of parent s n)) s
      | None \<Rightarrow> (if has_live \<or> (\<exists>n \<in> set ns. \<exists>i. child_of parent s n = Some i \<and> p_state (procs s i) \<noteq> PROC_DEAD)
                 then Wait_again else Wait_error, s))"
  by (induction ns arbitrary: has_live) (auto split: option.splits)

lemma wait_status_decode: "drop_bit 8 (wait_status_encode n) = n AND 0xFF" "wait_status_encode n AND 0x7F = 0"
proof -
  show "drop_bit 8 (wait_status_encode n) = n AND 0xFF"
    by (rule bit_eqI) (auto simp: wait_status_encode_def bit_simps)
  have "push_bit 8 k AND mask 7 = (0 :: int)" for k by (simp only: take_bit_eq_mask [symmetric] take_bit_push_bit) simp
  from this [of "n AND 0xFF"] show "wait_status_encode n AND 0x7F = 0"
    unfolding wait_status_encode_def by (simp add: mask_eq_exp_minus_1)
qed

text \<open>Slot \<open>i\<close> is the caller's child with the pid waited for.\<close>

definition awaited :: "nat \<Rightarrow> int \<Rightarrow> nat \<Rightarrow> sched \<Rightarrow> bool" where
  "awaited parent pid i s \<longleftrightarrow> proc_by_pid (of_int pid) s = Some i \<and> p_parent_pid (procs s i) = p_pid (procs s parent)"

lemma wait_round_awaited:
  assumes "awaited parent pid i s" "0 < pid"
  shows "wait_round parent pid options s =
    (if zombie (procs s i) then reap i s else (if options AND XOS_WNOHANG \<noteq> 0 then Wait_none else Wait_again, s))"
  using assms by (simp add: wait_round_def awaited_def reap_def Let_def)

lemma wait_loop_until_zombie:
  assumes "\<And>m. m < n \<Longrightarrow> sts (Suc m) = env m (sts m) \<and> \<not> zombie (procs (sts m) i)" "\<And>m. m \<le> n \<Longrightarrow> awaited parent pid i (sts m)"
    and "zombie (procs (sts n) i)" "0 < pid" "options AND XOS_WNOHANG = 0" and m: "m \<le> n"
  shows "wait_loop env m parent pid options (sts m) = Some (reap i (sts n))"
  using m
proof (induction rule: inc_induct)
  case base
  then show ?case using assms(2,3,4) by (subst wait_loop.simps) (simp add: wait_round_awaited [of parent pid i] reap_def)
next
  case (step m)
  then show ?case using assms(1) [of m] assms(2) [of m] assms(4,5)
    by (subst wait_loop.simps) (simp add: wait_round_awaited [of parent pid i])
qed

text \<open>A reaped slot is not found any more.\<close>

lemma reaped_not_found:
  assumes "zombie (procs s i)"
  shows "proc_by_pid pid (upd_proc i (\<lambda>p. p\<lparr>p_reaped := True\<rparr>) s) \<noteq> Some i"
  using assms by (auto simp: proc_by_pid_def zombie_def find_Some_iff)

text \<open>C27: \<open>proc_waitpid\<close> for a child that dies returns. Let the caller wait without \<open>WNOHANG\<close> for the pid of a
  child, let \<open>sts m\<close> be the state of the scheduler at the \<open>m\<close>-th round, where the child is not dead before round \<open>n\<close>
  and is dead and not yet reaped at round \<open>n\<close>. Then the call returns at that round with the child's pid and a status
  from which \<open>WEXITSTATUS\<close> reads the low byte of its exit code and \<open>WIFEXITED\<close> holds; it marks the child's slot as
  reaped and changes nothing else, and the child is not found by a later wait.\<close>

theorem waitpid_returns:
  assumes "proc_current c (sts 0) = Some parent" "0 < pid" "options AND XOS_WNOHANG = 0"
    and "\<And>m. m < n \<Longrightarrow> sts (Suc m) = env m (sts m) \<and> \<not> zombie (procs (sts m) i)"
    and "\<And>m. m \<le> n \<Longrightarrow> awaited parent pid i (sts m)"
    and "zombie (procs (sts n) i)"
  shows "\<exists>st s'. proc_waitpid env c pid True options (sts 0) = Some (sint (ucast (p_pid (procs (sts n) i)) :: u32), Some st, s') \<and>
     drop_bit 8 st = p_exit_code (procs (sts n) i) AND 0xFF \<and> st AND 0x7F = 0 \<and>
     s' = upd_proc i (\<lambda>p. p\<lparr>p_reaped := True\<rparr>) (sts n) \<and> proc_by_pid (of_int pid) s' \<noteq> Some i"
  using wait_loop_until_zombie [of n sts env i parent pid options 0, OF assms(4,5,6,2,3)] assms(1) reaped_not_found [OF assms(6)]
  by (simp add: proc_waitpid_def reap_def wait_status_decode)

theorem waitpid_returns_witness:
  "\<exists>s st s'. proc_waitpid (\<lambda>_. upd_proc 3 (\<lambda>p. p\<lparr>p_state := PROC_DEAD, p_exit_code := 7\<rparr>)) 0 3 True 0 s = Some (3, Some st, s') \<and>
     drop_bit 8 st = 7 \<and> p_reaped (procs s' 3)"
proof -
  define s where "s = (sched_bss 100)\<lparr>procs := (\<lambda>_. zero_proc)(2 := zero_proc\<lparr>p_pid := 2, p_tgid := 2, p_state := PROC_RUNNING\<rparr>,
      3 := zero_proc\<lparr>p_pid := 3, p_tgid := 3, p_parent_pid := 2, p_state := PROC_READY\<rparr>),
    cpus := (\<lambda>_. zero_cpu)(0 := zero_cpu\<lparr>current_proc := Some 2\<rparr>)\<rparr>"
  define env where "env = (\<lambda>_ :: nat. upd_proc 3 (\<lambda>p. p\<lparr>p_state := PROC_DEAD, p_exit_code := 7\<rparr>))"
  define sts where "sts = (\<lambda>m :: nat. if m = 0 then s else env 0 s)"
  have f: "find P [0..<SCHED_MAX_PROCS] = Some 3" if "\<not> P 0" "\<not> P 1" "\<not> P 2" "P 3" for P :: "nat \<Rightarrow> bool"
    unfolding find_Some_iff using that by (intro exI [of _ 3]) (auto simp: less_Suc_eq numeral_3_eq_3 numeral_2_eq_2 simp del: upt_rec_numeral)
  have "awaited 2 3 3 (sts m)" for m
    unfolding awaited_def proc_by_pid_def by (subst f) (simp_all add: sts_def env_def s_def zero_proc_def)
  moreover have "proc_current 0 (sts 0) = Some 2" "\<not> zombie (procs (sts 0) 3)" "sts 1 = env 0 (sts 0)" "zombie (procs (sts 1) 3)"
    by (simp_all add: sts_def s_def env_def zombie_def proc_current_def zero_proc_def)
  ultimately have "\<exists>st s'. proc_waitpid env 0 3 True 0 (sts 0) = Some (sint (ucast (p_pid (procs (sts 1) 3)) :: u32), Some st, s') \<and>
     drop_bit 8 st = p_exit_code (procs (sts 1) 3) AND 0xFF \<and> st AND 0x7F = 0 \<and>
     s' = upd_proc 3 (\<lambda>p. p\<lparr>p_reaped := True\<rparr>) (sts 1) \<and> proc_by_pid (of_int 3) s' \<noteq> Some 3"
    by (intro waitpid_returns) auto
  then show ?thesis by (force simp: env_def sts_def s_def)
qed

end
