(* ===== verification/Exec.thy ===== *)
theory Exec
  imports Process
begin

text \<open>
  Replacing the program of a process: what \<open>proc_exec\<close> leaves in memory. The first part is about the block of
  arguments on the new stack, which the kernel writes page by page through the direct map; the second puts it together
  with the loaded image, in the address space the program starts in.
\<close>

section \<open>Copies through the direct map\<close>

lemma page_of_bytes_byte [simp]: "page_of_bytes (page_byte w) = w"
proof (rule ext, rule bit_word_eqI)
  fix i n assume "n < LENGTH(64)"
  then have n: "n < 64" by simp
  then have "(8 * i + n div 8) div 8 = i" "(8 * i + n div 8) mod 8 = n div 8" by auto
  then show "bit (page_of_bytes (page_byte w) i) n = bit (w i) n"
    using n unfolding bit_page_of_bytes page_byte_def by (simp add: bit_ucast_iff bit_drop_bit_eq)
qed

lemma copy_to_page_Nil [simp]: "copy_to_page f off [] vm = vm"
proof -
  have "(\<lambda>k. if off \<le> k \<and> k < off + length ([] :: u8 list) then [] ! (k - off) else page_byte (pages vm f) k) = page_byte (pages vm f)"
    by (rule ext) auto
  then show ?thesis unfolding copy_to_page_def by (simp only: page_of_bytes_byte) simp
qed

lemma copy_to_page_Cons: "copy_to_page f (Suc off) bs (copy_to_page f off [b] vm) = copy_to_page f off (b # bs) vm"
proof -
  have "(\<lambda>k. if Suc off \<le> k \<and> k < Suc off + length bs then bs ! (k - Suc off)
             else if off \<le> k \<and> k < off + length [b] then [b] ! (k - off) else page_byte (pages vm f) k) =
        (\<lambda>k. if off \<le> k \<and> k < off + length (b # bs) then (b # bs) ! (k - off) else page_byte (pages vm f) k)"
    by (rule ext) (auto simp: nth_Cons' Suc_diff_Suc not_le le_Suc_eq less_Suc_eq)
  then show ?thesis unfolding copy_to_page_def by (simp cong: if_cong)
qed

lemma phys_write_page:
  assumes "unat f mod 4096 = 0" "unat f + 4096 \<le> 2 ^ 64" "off + length bs \<le> 4096"
  shows "phys_write (f + of_nat off) bs vm = copy_to_page f off bs vm"
  using assms(3)
proof (induction bs arbitrary: off vm)
  case (Cons b bs)
  have u: "unat (f + of_nat off) = unat f + off" using assms Cons.prems by (simp add: unat_word_ariths unat_of_nat)
  have m: "(unat f + off) mod 4096 = off" using assms(1) Cons.prems by (metis add_0 mod_add_left_eq mod_less add_lessD1 length_Cons add_Suc_right less_eq_Suc_le)
  have "unat ((f + of_nat off) AND 0xFFF) = off" by (simp only: unat_page_offset u m)
  moreover have "(f + of_nat off) AND NOT 0xFFF = f"
    unfolding word_unat_eq_iff unat_page_base u m by simp
  moreover have "f + of_nat off + 1 = f + of_nat (Suc off)" by simp
  ultimately have "phys_write (f + of_nat off) (b # bs) vm = phys_write (f + of_nat (Suc off)) bs (copy_to_page f off [b] vm)"
    by (simp only: phys_write.simps)
  also have "\<dots> = copy_to_page f (Suc off) bs (copy_to_page f off [b] vm)" using Cons.prems by (intro Cons.IH) simp
  finally show ?case by (simp only: copy_to_page_Cons)
qed simp


section \<open>The initial stack\<close>

definition on_stack :: "u64 \<Rightarrow> bool" where
  "on_stack v \<longleftrightarrow> STACK_BASE \<le> v \<and> v < STACK_TOP"

definition frame_at :: "vm \<Rightarrow> u64 \<Rightarrow> u64 \<Rightarrow> u64" where
  "frame_at vm r v = the (user_map vm r (page_of v)) AND VMM_PHYS_MASK"

lemma user_byte_frame:
  assumes "user_map vm' r = user_map vm r" "pages vm' (frame_at vm r v) = pages vm (frame_at vm r v)"
  shows "user_byte vm' r v = user_byte vm r v"
  using assms(2) unfolding user_byte_def frame_at_def assms(1) by (cases "user_map vm r (page_of v)") simp_all

text \<open>Every page of the stack has an allocated frame of its own that is not a page table.\<close>

definition stack_ok :: "vm \<Rightarrow> u64 \<Rightarrow> bool" where
  "stack_ok vm r \<longleftrightarrow> ptab_inv vm r \<and>
     (\<forall>v. on_stack v \<longrightarrow> user_map vm r (page_of v) \<noteq> None \<and> held vm (frame_at vm r v) \<and>
        frame_at vm r v \<noteq> 0 \<and> frame_at vm r v \<notin> utables vm r) \<and>
     (\<forall>v w. on_stack v \<longrightarrow> on_stack w \<longrightarrow> frame_at vm r v = frame_at vm r w \<longrightarrow> v AND NOT 0xFFF = w AND NOT 0xFFF)"

lemma stack_okD:
  assumes "stack_ok vm r"
  shows "ptab_inv vm r"
    "on_stack v \<Longrightarrow> user_map vm r (page_of v) \<noteq> None \<and> held vm (frame_at vm r v) \<and> frame_at vm r v \<noteq> 0 \<and> frame_at vm r v \<notin> utables vm r"
    "on_stack v \<Longrightarrow> on_stack w \<Longrightarrow> frame_at vm r v = frame_at vm r w \<Longrightarrow> v AND NOT 0xFFF = w AND NOT 0xFFF"
  using assms unfolding stack_ok_def by blast+

lemma on_stack_half: "on_stack v \<Longrightarrow> v < 0x800000000000"
  by (auto simp: on_stack_def intro: less_trans)

lemma held_bounds:
  assumes "held vm a" "pmm_inv (vm_pmm vm)"
  shows "unat a mod 4096 = 0" "unat a + 4096 \<le> 2 ^ 64"
proof -
  have f: "frame_of a < MAX_FRAMES" "a = addr_of (frame_of a)" using assms by (auto simp: held_def frames_used_def pmm_inv_def)
  then have "unat a = frame_of a * 4096" using unat_addr_of [of "frame_of a"] by simp
  then show "unat a mod 4096 = 0" "unat a + 4096 \<le> 2 ^ 64" using f(1) by auto
qed

text \<open>Writing to frames that are not tables keeps the translation.\<close>

lemma stack_ok_data:
  assumes ok: "stack_ok vm r" and same: "\<And>t. t \<in> utables vm r \<Longrightarrow> pages vm' t = pages vm t" and p: "vm_pmm vm' = vm_pmm vm"
  shows "stack_ok vm' r" "user_map vm' r = user_map vm r" "utables vm' r = utables vm r"
proof -
  note inv = stack_okD(1) [OF ok]
  note K = other_space [OF inv, of vm'] 
  have K: "ptab_inv vm' r" "user_map vm' r = user_map vm r" "utables vm' r = utables vm r"
    using K same ptab_invD(1) [OF inv] by (auto simp: p)
  then show "user_map vm' r = user_map vm r" "utables vm' r = utables vm r" by auto
  have f: "frame_at vm' r v = frame_at vm r v" for v unfolding frame_at_def K(2) ..
  have h: "held vm' = held vm" by (simp add: fun_eq_iff held_def p)
  show "stack_ok vm' r" using ok K(1) unfolding stack_ok_def K(2,3) f h by blast
qed

lemma pages_copy [simp]: "pages (copy_to_page f off bs vm) t =
    (if t = f then page_of_bytes (\<lambda>k. if off \<le> k \<and> k < off + length bs then bs ! (k - off) else page_byte (pages vm f) k) else pages vm t)"
  "vm_pmm (copy_to_page f off bs vm) = vm_pmm vm" "cr3 (copy_to_page f off bs vm) = cr3 vm"
  by (simp_all add: copy_to_page_def)


definition stack_frames :: "vm \<Rightarrow> u64 \<Rightarrow> u64 set" where
  "stack_frames vm r = frame_at vm r ` {v. on_stack v}"

text \<open>The effect of a copy to the stack.\<close>

definition pokes :: "vm \<Rightarrow> u64 \<Rightarrow> u64 \<Rightarrow> u8 list \<Rightarrow> vm \<Rightarrow> bool" where
  "pokes vm r va bs vm' \<longleftrightarrow> stack_ok vm' r \<and> user_map vm' r = user_map vm r \<and> utables vm' r = utables vm r \<and>
     vm_pmm vm' = vm_pmm vm \<and> (\<forall>t. t \<notin> stack_frames vm r \<longrightarrow> pages vm' t = pages vm t) \<and>
     (\<forall>v. on_stack v \<longrightarrow> user_byte vm' r v = (if unat (v - va) < length bs then Some (bs ! unat (v - va)) else user_byte vm r v))"

lemma same_page_offset:
  fixes v va :: u64
  assumes "v AND NOT 0xFFF = va AND NOT 0xFFF" "unat (va AND 0xFFF) + n \<le> 4096"
  shows "unat (v - va) < n \<longleftrightarrow> unat (va AND 0xFFF) \<le> unat (v AND 0xFFF) \<and> unat (v AND 0xFFF) < unat (va AND 0xFFF) + n"
    and "unat (va AND 0xFFF) \<le> unat (v AND 0xFFF) \<Longrightarrow> unat (v - va) = unat (v AND 0xFFF) - unat (va AND 0xFFF)"
proof -
  define p where "p = unat v mod 4096"
  define p' where "p' = unat va mod 4096"
  define q where "q = unat va - p'"
  have "unat v - p = q" using arg_cong [OF assms(1), of unat] by (simp only: unat_page_base p_def p'_def q_def)
  moreover have "p \<le> unat v" "p' \<le> unat va" by (simp_all add: p_def p'_def)
  ultimately have e: "unat v = q + p" "unat va = q + p'" by (auto simp: q_def)
  have "q + p < 2 ^ 64" "q + p' < 2 ^ 64" using unat_less_64 [of v] unat_less_64 [of va] by (simp_all add: e)
  moreover have "unat (v - va) = (if q + p' \<le> q + p then p - p' else q + p + 2 ^ 64 - (q + p'))" by (simp add: unat_sub_if' e)
  moreover have "p < 4096" "p' + n \<le> 4096" using assms(2) by (simp_all add: unat_page_offset p_def p'_def)
  ultimately show "unat (v - va) < n \<longleftrightarrow> unat (va AND 0xFFF) \<le> unat (v AND 0xFFF) \<and> unat (v AND 0xFFF) < unat (va AND 0xFFF) + n"
    and "unat (va AND 0xFFF) \<le> unat (v AND 0xFFF) \<Longrightarrow> unat (v - va) = unat (v AND 0xFFF) - unat (va AND 0xFFF)"
    unfolding unat_page_offset p_def [symmetric] p'_def [symmetric] by auto
qed

lemma other_page_offset:
  fixes v va :: u64
  assumes "v AND NOT 0xFFF \<noteq> va AND NOT 0xFFF" "unat (va AND 0xFFF) + n \<le> 4096"
  shows "\<not> unat (v - va) < n"
proof
  assume lt: "unat (v - va) < n"
  define q where "q = unat va - unat va mod 4096"
  have q: "q mod 4096 = 0" "q \<le> unat va" "unat va < q + 4096" "unat va = q + unat va mod 4096"
    by (simp_all add: q_def minus_mod_eq_mult_div)
  have n: "unat va mod 4096 + n \<le> 4096" using assms(2) by (simp add: unat_page_offset)
  have "q + 4096 \<le> 2 ^ 64" using q(1,2) unat_less_64 [of va] by (auto simp: mod_eq_0_iff_dvd elim!: dvdE)
  moreover have "unat (v - va) = (if unat va \<le> unat v then unat v - unat va else unat v + 2 ^ 64 - unat va)" by (simp add: unat_sub_if')
  ultimately have v: "q \<le> unat v" "unat v < q + 4096" using lt n q by (auto split: if_splits)
  have a: "unat (va AND NOT 0xFFF) mod 4096 = 0" "unat (va AND NOT 0xFFF) = q" using q(1) by (simp_all only: unat_page_base q_def)
  then show False using assms(1) page_base_eq [OF a(1), of v] v by simp
qed


lemma pokes_copy:
  assumes ok: "stack_ok vm r" and va: "on_stack va" and fit: "unat (va AND 0xFFF) + length bs \<le> 4096"
  shows "pokes vm r va bs (copy_to_page (frame_at vm r va) (unat (va AND 0xFFF)) bs vm)" (is "pokes vm r va bs ?vm")
proof -
  let ?a = "frame_at vm r va" and ?off = "unat (va AND 0xFFF)"
  note a = stack_okD(2) [OF ok va]
  have same: "pages ?vm t = pages vm t" if "t \<in> utables vm r" for t using that a by auto
  have K: "stack_ok ?vm r" "user_map ?vm r = user_map vm r" "utables ?vm r = utables vm r"
    using stack_ok_data [OF ok same] by simp_all
  have "user_byte ?vm r v = (if unat (v - va) < length bs then Some (bs ! unat (v - va)) else user_byte vm r v)" if v: "on_stack v" for v
  proof (cases "v AND NOT 0xFFF = va AND NOT 0xFFF")
    case True
    then have pg: "page_of v = page_of va" using page_of_user_eq [OF on_stack_half [OF v] on_stack_half [OF va]] by blast
    obtain e where e: "user_map vm r (page_of va) = Some e" using a by blast
    then have fa: "?a = e AND VMM_PHYS_MASK" by (simp add: frame_at_def)
    note off = same_page_offset [OF True fit]
    have "page_byte (pages ?vm ?a) (unat (v AND 0xFFF)) =
        (if unat (v - va) < length bs then bs ! unat (v - va) else page_byte (pages vm ?a) (unat (v AND 0xFFF)))"
      unfolding off(1) using off(2) by simp
    moreover have "user_byte vm1 r v = Some (page_byte (pages vm1 ?a) (unat (v AND 0xFFF)))" if "user_map vm1 r = user_map vm r" for vm1
      unfolding user_byte_def that pg e option.map fa ..
    ultimately show ?thesis using K(2) by simp
  next
    case False
    then have "\<not> unat (v - va) < length bs" by (rule other_page_offset [OF _ fit])
    moreover have "frame_at vm r v \<noteq> ?a" using stack_okD(3) [OF ok v va] False by blast
    then have "user_byte ?vm r v = user_byte vm r v" by (intro user_byte_frame K(2)) simp
    ultimately show ?thesis by simp
  qed
  moreover have "pages ?vm t = pages vm t" if "t \<notin> stack_frames vm r" for t
    using that va by (auto simp: stack_frames_def)
  ultimately show ?thesis using K unfolding pokes_def by simp
qed

lemma pokes_append:
  assumes "pokes vm r va bs vm1" "pokes vm1 r (va + of_nat (length bs)) cs vm2" "length bs + length cs \<le> 2 ^ 63"
  shows "pokes vm r va (bs @ cs) vm2"
proof -
  have "frame_at vm1 r = frame_at vm r" using assms(1) by (auto simp: frame_at_def pokes_def)
  then have fr: "stack_frames vm1 r = stack_frames vm r" by (simp add: stack_frames_def)
  have "(if unat (v - (va + of_nat (length bs))) < length cs then Some (cs ! unat (v - (va + of_nat (length bs))))
      else if unat (v - va) < length bs then Some (bs ! unat (v - va)) else b) =
    (if unat (v - va) < length (bs @ cs) then Some ((bs @ cs) ! unat (v - va)) else b)" for v b
  proof -
    define w where "w = v - va"
    have "unat (w - of_nat (length bs)) = (if length bs \<le> unat w then unat w - length bs else unat w + 2 ^ 64 - length bs)"
      using assms(3) by (simp add: unat_sub_if' unat_of_nat)
    moreover have d: "v - (va + of_nat (length bs)) = w - of_nat (length bs)" by (simp add: w_def)
    ultimately show ?thesis using assms(3) unfolding d w_def [symmetric] by (auto simp: nth_append)
  qed
  note shift = this
  have "user_byte vm2 r v = (if unat (v - va) < length (bs @ cs) then Some ((bs @ cs) ! unat (v - va)) else user_byte vm r v)"
    if "on_stack v" for v
    using assms(1,2) that unfolding pokes_def shift [symmetric] by simp
  then show ?thesis using assms(1,2) unfolding pokes_def fr by simp
qed

lemma pokes_Nil: "stack_ok vm r \<Longrightarrow> pokes vm r va [] vm"
  by (simp add: pokes_def)

lemma ustack_write_pokes:
  assumes "stack_ok vm r" "pml4 = phys_to_virt (vm_pmm vm) r" "STACK_BASE \<le> va" "unat va + length src \<le> 0x7FFF00000000"
  shows "pokes vm r va src (ustack_write pml4 va src vm)"
  using assms
proof (induction pml4 va src vm rule: ustack_write.induct)
  case (1 pml4 va src vm)
  note ok = "1.prems"(1) and r = "1.prems"(2)
  show ?case
  proof (cases "src = []")
    case True
    then show ?thesis using ok by (simp add: ustack_write.simps pokes_Nil)
  next
    case False
    then have va: "on_stack va" using "1.prems"(3,4) by (cases src) (auto simp: on_stack_def word_less_nat_alt)
    let ?a = "frame_at vm r va" and ?pa = "vmm_virt_to_phys pml4 va vm"
    define chunk where "chunk = min (4096 - unat (va AND 0xFFF)) (length src)"
    have off: "unat (va AND 0xFFF) < 4096" by (simp add: unat_page_offset)
    note inv = stack_okD(1) [OF ok] and a = stack_okD(2) [OF ok va]
    note h = held_bounds [OF _ ptab_invD(1) [OF inv], of ?a]
    obtain e where e: "user_map vm r (page_of va) = Some e" using a by blast
    have pa: "?pa = ?a + of_nat (unat (va AND 0xFFF))"
      using lookup_spec(2) [OF inv user_half [OF on_stack_half [OF va]] r e] e by (simp add: frame_at_def)
    have "unat ?pa = unat ?a + unat (va AND 0xFFF)" unfolding pa using h a off by (simp add: unat_word_ariths unat_of_nat)
    moreover have "unat ?a \<noteq> 0" using a by (simp add: unat_eq_0)
    ultimately have nz: "?pa \<noteq> 0" by auto
    let ?vm1 = "copy_to_page ?a (unat (va AND 0xFFF)) (take chunk src) vm"
    have wr: "phys_write ?pa (take chunk src) vm = ?vm1"
      unfolding pa using h a off by (intro phys_write_page) (auto simp: chunk_def)
    have step: "ustack_write pml4 va src vm = ustack_write pml4 (va + of_nat chunk) (drop chunk src) ?vm1"
      using False nz wr by (subst ustack_write.simps) (simp add: Let_def chunk_def)
    have p1: "pokes vm r va (take chunk src) ?vm1" using off by (intro pokes_copy [OF ok va]) (auto simp: chunk_def)
    have len: "length (take chunk src) = chunk" "chunk \<le> length src" by (auto simp: chunk_def)
    have u: "unat (va + of_nat chunk) = unat va + chunk" using "1.prems"(4) len by (simp add: unat_word_ariths unat_of_nat)
    have "pokes ?vm1 r (va + of_nat chunk) (drop chunk src) (ustack_write pml4 (va + of_nat chunk) (drop chunk src) ?vm1)"
      using p1 r u len "1.prems"(3,4)
      by (intro "1.IH" [OF False refl nz refl, folded chunk_def, unfolded wr]) (auto simp: pokes_def word_le_nat_alt)
    then show ?thesis
      using pokes_append [OF p1, unfolded len(1), of "drop chunk src"] "1.prems"(4) len unfolding step by simp
  qed
qed

text \<open>The bytes between a stack pointer and the top of the stack, in a state that differs from \<open>vm0\<close> only in the
  contents of the stack.\<close>

definition stacked :: "vm \<Rightarrow> u64 \<Rightarrow> u64 \<times> vm \<Rightarrow> u8 list \<Rightarrow> bool" where
  "stacked vm0 r = (\<lambda>(sp, vm) bs. stack_ok vm r \<and> user_map vm r = user_map vm0 r \<and> utables vm r = utables vm0 r \<and>
     vm_pmm vm = vm_pmm vm0 \<and> (\<forall>t. t \<notin> stack_frames vm0 r \<longrightarrow> pages vm t = pages vm0 t) \<and>
     unat sp + length bs = 0x7FFF00000000 \<and> length bs \<le> 65536 \<and>
     (\<forall>k < length bs. user_byte vm r (sp + of_nat k) = Some (bs ! k)))"

lemma stack_frames_cong: "user_map vm r = user_map vm0 r \<Longrightarrow> stack_frames vm r = stack_frames vm0 r"
  by (simp add: stack_frames_def frame_at_def)

lemma stacked_on_stack:
  assumes "unat sp + n = 0x7FFF00000000" "n \<le> 65536" "k < n"
  shows "on_stack (sp + of_nat k)"
proof -
  have "unat (sp + of_nat k) = unat sp + k" using assms by (simp add: unat_word_ariths unat_of_nat)
  then show ?thesis using assms by (simp add: on_stack_def word_le_nat_alt word_less_nat_alt)
qed

lemma stacked_byte: "stacked vm0 r (sp, vm) bs \<Longrightarrow> k < length bs \<Longrightarrow> user_byte vm r (sp + of_nat k) = Some (bs ! k)"
  by (simp add: stacked_def)

lemma push_bytes_stacked:
  assumes st: "stacked vm0 r s bs" and r: "pml4 = phys_to_virt (vm_pmm vm0) r" and len: "length new + length bs \<le> 65536"
  shows "stacked vm0 r (push_bytes pml4 new s) (new @ bs)"
proof -
  obtain sp vm where s: "s = (sp, vm)" by fastforce
  define sp' where "sp' = sp - of_nat (length new)"
  have sp: "unat sp = 0x7FFF00000000 - length bs" "length bs \<le> 65536" using st by (auto simp: s stacked_def)
  have u: "unat sp' + length new = unat sp" using sp len by (simp add: sp'_def unat_sub_if' unat_of_nat)
  let ?vm = "ustack_write pml4 sp' new vm"
  have "pokes vm r sp' new ?vm"
    using st u sp len by (intro ustack_write_pokes) (auto simp: s stacked_def r word_le_nat_alt)
  note P = this [unfolded pokes_def]
  have "user_byte ?vm r (sp' + of_nat k) = Some ((new @ bs) ! k)" if k: "k < length (new @ bs)" for k
  proof -
    have o: "on_stack (sp' + of_nat k)" using u sp len k by (intro stacked_on_stack [of _ "length (new @ bs)"]) auto
    have d: "unat (sp' + of_nat k - sp') = k" using k len by (simp add: unat_of_nat)
    show ?thesis
    proof (cases "k < length new")
      case True
      then show ?thesis using P o d by (simp add: nth_append)
    next
      case False
      then have eq: "sp' + of_nat k = sp + of_nat (k - length new)" by (simp add: sp'_def of_nat_diff)
      have "user_byte ?vm r (sp' + of_nat k) = user_byte vm r (sp' + of_nat k)" using P o d False by simp
      also have "\<dots> = Some (bs ! (k - length new))" unfolding eq using False k st by (intro stacked_byte) (auto simp: s)
      finally show ?thesis using False by (simp add: nth_append)
    qed
  qed
  then show ?thesis
    using P st u sp len stack_frames_cong [of vm r vm0] by (auto simp: s stacked_def push_bytes_def sp'_def Let_def)
qed

lemma stacked_pad:
  assumes st: "stacked vm0 r (sp, vm) bs" and sp': "unat sp' \<le> unat sp" "unat sp - unat sp' + length bs \<le> 65536"
  shows "\<exists>pad. length pad = unat sp - unat sp' \<and> stacked vm0 r (sp', vm) (pad @ bs)"
proof -
  define pad where "pad = map (\<lambda>k. the (user_byte vm r (sp' + of_nat k))) [0..<unat sp - unat sp']"
  have top: "unat sp + length bs = 0x7FFF00000000" "stack_ok vm r" using st by (simp_all add: stacked_def)
  have "user_byte vm r (sp' + of_nat k) = Some ((pad @ bs) ! k)" if k: "k < length (pad @ bs)" for k
  proof (cases "k < length pad")
    case True
    then have "on_stack (sp' + of_nat k)"
      using sp' top by (intro stacked_on_stack [of _ "unat sp - unat sp' + length bs"]) (auto simp: pad_def)
    then have "user_map vm r (page_of (sp' + of_nat k)) \<noteq> None" using stack_okD(2) [OF top(2)] by blast
    then show ?thesis using True by (auto simp: nth_append pad_def user_byte_def)
  next
    case False
    have "sp = sp' + of_nat (length pad)" using sp'(1) by (simp add: pad_def of_nat_diff)
    moreover have "of_nat k = of_nat (length pad) + (of_nat (k - length pad) :: u64)" using False by (simp flip: of_nat_add)
    ultimately have "sp' + of_nat k = sp + of_nat (k - length pad)" by simp
    moreover have "user_byte vm r (sp + of_nat (k - length pad)) = Some (bs ! (k - length pad))"
      using False k by (intro stacked_byte [OF st]) auto
    ultimately show ?thesis using False by (simp only: nth_append if_False)
  qed
  then show ?thesis using st sp' by (intro exI [of _ pad]) (auto simp: stacked_def pad_def)
qed

definition nul_terminated :: "u8 list \<Rightarrow> u8 list" where
  "nul_terminated a = a @ [0]"

definition strings_block :: "u8 list list \<Rightarrow> u8 list" where
  "strings_block args = concat (map nul_terminated args)"

lemma strings_block_simps [simp]:
  "strings_block [] = []" "strings_block (a # args) = nul_terminated a @ strings_block args"
  "length (nul_terminated a) = Suc (length a)"
  by (simp_all add: strings_block_def nul_terminated_def)

text \<open>The address a string gets: all later strings lie above it.\<close>

definition string_addr :: "u8 list list \<Rightarrow> nat \<Rightarrow> u64" where
  "string_addr args i = STACK_TOP - of_nat (length (strings_block (drop i args)))"

lemma push_strings_stacked:
  assumes st: "stacked vm0 r s []" and r: "pml4 = phys_to_virt (vm_pmm vm0) r" and len: "length (strings_block args) \<le> 65536"
  shows "\<exists>s'. push_strings pml4 args s = (map (string_addr args) [0..<length args], s') \<and> stacked vm0 r s' (strings_block args)"
  using len
proof (induction args)
  case Nil
  then show ?case using st by (simp add: push_strings_def)
next
  case (Cons a args)
  obtain s1 where s1: "push_strings pml4 args s = (map (string_addr args) [0..<length args], s1)" "stacked vm0 r s1 (strings_block args)"
    using Cons by auto
  let ?s2 = "push_bytes pml4 (nul_terminated a) s1"
  have st2: "stacked vm0 r ?s2 (strings_block (a # args))"
    using push_bytes_stacked [OF s1(2) r, of "nul_terminated a"] Cons.prems by simp
  have "unat (fst ?s2) + length (strings_block (a # args)) = 0x7FFF00000000"
    using st2 by (cases ?s2) (simp add: stacked_def)
  then have "of_nat (unat (fst ?s2)) + of_nat (length (strings_block (a # args))) = (STACK_TOP :: u64)"
    by (simp only: of_nat_add [symmetric]) simp
  then have "fst ?s2 = string_addr (a # args) 0"
    unfolding string_addr_def drop_0 eq_diff_eq by (simp only: of_nat_unat ucast_id)
  moreover have "map (string_addr (a # args)) [0..<Suc (length args)] = string_addr (a # args) 0 # map (string_addr args) [0..<length args]"
    unfolding upt_conv_Cons [OF zero_less_Suc] by (simp add: map_Suc_upt [symmetric] string_addr_def del: upt_Suc)
  moreover have "push_strings pml4 (a # args) s = (fst ?s2 # map (string_addr args) [0..<length args], ?s2)"
    using s1(1) by (simp add: push_strings_def Let_def nul_terminated_def)
  ultimately show ?case using st2 by simp
qed

lemma push_words_stacked:
  assumes r: "pml4 = phys_to_virt (vm_pmm vm0) r"
  shows "stacked vm0 r s bs \<Longrightarrow> 8 * length ws + length bs \<le> 65536 \<Longrightarrow>
     stacked vm0 r (foldr (\<lambda>a. push_bytes pml4 (word_bytes a)) ws s) (concat (map word_bytes ws) @ bs)"
proof (induction ws)
  case (Cons w ws)
  have "length (concat (map word_bytes ws)) = 8 * length ws" by (induction ws) (simp_all add: word_bytes_def)
  then show ?case using push_bytes_stacked [OF _ r, of _ "concat (map word_bytes ws) @ bs" "word_bytes w"] Cons
    by (simp add: word_bytes_def [of w])
qed simp

lemma align_block_spec:
  assumes sp: "unat sp \<ge> 1024" and n: "argc \<le> 64"
  shows "unat (align_block argc sp) \<le> unat sp" "unat sp - unat (align_block argc sp) < 24"
    "(unat (align_block argc sp) - (40 + 8 * argc)) mod 16 = 0"
proof -
  let ?b = "40 + 8 * argc"
  define q where "q = unat sp div 16"
  have lit: "(0xF :: u64) = mask 4" by (simp add: mask_eq_exp_minus_1)
  have m: "unat (w AND 0xF) = unat w mod 16" for w :: u64
    unfolding lit take_bit_eq_mask [symmetric] by (simp add: take_bit_eq_mod unat_mod)
  have a: "unat (sp AND NOT 0xF) = 16 * q"
    unfolding lit using unat_and_not_mask [of sp 4] by (simp add: q_def)
  have q: "16 * q \<le> unat sp" "unat sp < 16 * q + 16" by (auto simp: q_def)
  have "unat (40 + of_nat argc * 8 :: u64) = ?b" using n by (simp add: unat_word_ariths unat_of_nat)
  then have d: "unat ((sp AND NOT 0xF) - (40 + of_nat argc * 8)) = 16 * q - ?b" using a q sp n by (simp add: unat_sub_if' del: unat_and_not_mask)
  have "align_block argc sp = (if (16 * q - ?b) mod 16 \<noteq> 0 then (sp AND NOT 0xF) - 8 else sp AND NOT 0xF)"
    unfolding align_block_def Let_def unat_eq_0 [symmetric] m d by simp
  then have u: "unat (align_block argc sp) = (if (16 * q - ?b) mod 16 \<noteq> 0 then 16 * q - 8 else 16 * q)"
    using a q sp by (simp add: unat_sub_if')
  show "unat (align_block argc sp) \<le> unat sp" "unat sp - unat (align_block argc sp) < 24" unfolding u using q by auto
  show "(unat (align_block argc sp) - ?b) mod 16 = 0" unfolding u using q sp n by presburger
qed


text \<open>The whole block, from the stack pointer up.\<close>

definition arg_block :: "u8 list list \<Rightarrow> u8 list \<Rightarrow> u8 list" where
  "arg_block args pad =
     word_bytes (of_nat (length args)) @ concat (map word_bytes (map (string_addr args) [0..<length args])) @
     word_bytes 0 @ word_bytes 0 @ replicate 16 0 @ pad @ strings_block args"

lemma length_word_bytes [simp]: "length (word_bytes w) = 8"
  by (simp add: word_bytes_def)

lemma length_concat_words [simp]: "length (concat (map word_bytes ws)) = 8 * length ws"
  by (induction ws) simp_all

lemma exec_stack_stacked:
  assumes ok: "stack_ok vm r" and r: "pml4 = phys_to_virt (vm_pmm vm) r"
    and n: "length args \<le> 64" and len: "length (strings_block args) \<le> 64000"
  shows "\<exists>pad. stacked vm r (exec_stack pml4 args vm) (arg_block args pad) \<and> unat (fst (exec_stack pml4 args vm)) mod 16 = 0"
proof -
  have "stacked vm r (STACK_TOP, vm) []" using ok by (simp add: stacked_def)
  then obtain sp vm1 where s: "push_strings pml4 args (STACK_TOP, vm) = (map (string_addr args) [0..<length args], sp, vm1)"
      and st: "stacked vm r (sp, vm1) (strings_block args)"
    using push_strings_stacked [OF _ r, of "(STACK_TOP, vm)" args] len by fastforce
  have sp: "unat sp + length (strings_block args) = 0x7FFF00000000" using st by (simp add: stacked_def)
  let ?sp = "align_block (length args) sp"
  have "1024 \<le> unat sp" using sp len by simp
  note al = align_block_spec [OF this n]
  have "unat sp - unat ?sp + length (strings_block args) \<le> 65536" using al(2) len by linarith
  then obtain pad where pad: "length pad = unat sp - unat ?sp" "stacked vm r (?sp, vm1) (pad @ strings_block args)"
    using stacked_pad [OF st al(1)] by blast
  have lp: "length pad < 24" using pad(1) al(2) sp len by simp
  have "stacked vm r (exec_stack pml4 args vm) (arg_block args pad)"
    unfolding exec_stack_def s Let_def prod.case arg_block_def
    using lp len n by (intro push_bytes_stacked push_words_stacked r pad(2)) (simp_all del: map_map)
  moreover obtain rsp vm' where e: "exec_stack pml4 args vm = (rsp, vm')" by fastforce
  ultimately have st': "stacked vm r (rsp, vm') (arg_block args pad)" by simp
  then have "unat rsp + length (arg_block args pad) = 0x7FFF00000000" by (simp add: stacked_def)
  then have "unat rsp = unat ?sp - (40 + 8 * length args)" using pad(1) sp al(1) len by (simp add: arg_block_def del: map_map)
  then show ?thesis using st' al(3) sp len e by auto
qed

section \<open>Mapping the stack\<close>

abbreviation stack_page :: "nat \<Rightarrow> u64" where "stack_page \<equiv> run_page STACK_BASE"

abbreviation stack_mapped :: "vm \<Rightarrow> u64 \<Rightarrow> vm \<Rightarrow> u64 list \<Rightarrow> bool" where "stack_mapped \<equiv> run_mapped STACK_BASE"

lemma stack_run_ok: "run_ok STACK_BASE 16"
  by (simp add: run_ok_def)

lemma unat_stack_page: "i < 16 \<Longrightarrow> unat (stack_page i) = 0x7FFEFFFF0000 + 4096 * i"
  using unat_run_page [OF stack_run_ok] by simp

lemmas stack_page_half = run_page_half [OF stack_run_ok]

lemma stack_mapped_frame:
  assumes st: "stack_mapped vm0 r vm fs" "length fs = 16" and v: "on_stack v"
  shows "\<exists>i < 16. v AND NOT 0xFFF = stack_page i \<and> user_map vm r (page_of v) = Some (rw_entry (fs ! i)) \<and> frame_at vm r v = fs ! i"
proof -
  define i where "i = (unat v - 0x7FFEFFFF0000) div 4096"
  have "0x7FFEFFFF0000 \<le> unat v" "unat v < 0x7FFF00000000"
    using v by (simp_all add: on_stack_def word_le_nat_alt word_less_nat_alt)
  then have i: "i < 16" "0x7FFEFFFF0000 + 4096 * i \<le> unat v" "unat v < 0x7FFEFFFF0000 + 4096 * i + 4096" by (auto simp: i_def)
  note u = unat_stack_page [OF i(1)]
  have b: "v AND NOT 0xFFF = stack_page i" using page_base_eq [of "stack_page i" v] i u by simp
  have "stack_page i AND NOT 0xFFF = stack_page i" unfolding word_unat_eq_iff unat_page_base u by simp
  then have "page_of v = page_of (stack_page i)"
    using page_of_user_eq [OF on_stack_half [OF v] stack_page_half [OF i(1)]] b by metis
  then have m: "user_map vm r (page_of v) = Some (rw_entry (fs ! i))" using st i(1) unfolding run_mapped_def by metis
  have "held vm (fs ! i)" "pmm_inv (vm_pmm vm)"
    using st i(1) nth_mem [of i fs] by (auto simp: run_mapped_def vm_ext_def ptab_inv_def)
  then have "frame_at vm r v = fs ! i" unfolding frame_at_def m using rw_entry_phys by simp
  with i(1) b m show ?thesis by blast
qed

lemma stack_mapped_ok:
  assumes st: "stack_mapped vm0 r vm fs" "length fs = 16"
  shows "stack_ok vm r" "stack_frames vm r \<subseteq> set fs"
proof -
  note fr = stack_mapped_frame [OF st]
  have d: "distinct fs" and inv: "ptab_inv vm r"
    and g: "\<And>a. a \<in> set fs \<Longrightarrow> a \<noteq> 0 \<and> held vm a \<and> a \<notin> utables vm r"
    using st(1) unfolding run_mapped_def vm_ext_def by blast+
  have "user_map vm r (page_of v) \<noteq> None \<and> held vm (frame_at vm r v) \<and> frame_at vm r v \<noteq> 0 \<and> frame_at vm r v \<notin> utables vm r"
    if "on_stack v" for v
    using fr [OF that] g st(2) by (metis nth_mem option.distinct(1))
  moreover have "v AND NOT 0xFFF = w AND NOT 0xFFF" if "on_stack v" "on_stack w" "frame_at vm r v = frame_at vm r w" for v w
    using fr [OF that(1)] fr [OF that(2)] that(3) d st(2) by (metis nth_eq_iff_index_eq)
  ultimately show "stack_ok vm r" using inv unfolding stack_ok_def by blast
  show "stack_frames vm r \<subseteq> set fs" using fr st(2) by (auto simp: stack_frames_def) (metis nth_mem)
qed

section \<open>The new address space\<close>

lemma stack_ok_ext:
  assumes ok: "stack_ok vm r" and ext: "vm_ext r vm vm'"
    and same: "\<And>v. on_stack v \<Longrightarrow> user_map vm' r (page_of v) = user_map vm r (page_of v)"
  shows "stack_ok vm' r" "stack_frames vm' r = stack_frames vm r"
proof -
  have fr: "frame_at vm' r v = frame_at vm r v" if "on_stack v" for v unfolding frame_at_def same [OF that] ..
  then show "stack_frames vm' r = stack_frames vm r" by (force simp: stack_frames_def)
  have d: "user_map vm' r (page_of v) \<noteq> None \<and> held vm' (frame_at vm' r v) \<and> frame_at vm' r v \<noteq> 0 \<and> frame_at vm' r v \<notin> utables vm' r"
    if v: "on_stack v" for v
    using stack_okD(2) [OF ok v] held_ext [OF ext] ext unfolding fr [OF v] same [OF v] vm_ext_def by blast
  then show "stack_ok vm' r"
    using stack_okD(3) [OF ok] ext fr unfolding stack_ok_def vm_ext_def by metis
qed

definition trampoline_page :: "nat list \<times> nat" where
  "trampoline_page = page_of USER_SIGRETURN_PAGE"

lemma user_rw_flags: "\<exists>ph. VMM_U OR VMM_RW = seg_flags ph"
proof -
  obtain ph :: elf64_phdr where "ph_flags ph = 2" by (metis elf64_phdr.select_convs(2))
  then have "VMM_U OR VMM_RW = seg_flags ph" by (simp add: seg_flags_def)
  then show ?thesis ..
qed

lemma trampoline_spec:
  assumes fr: "fresh_leaves vm0 vm r" and inv: "ptab_inv vm r" and r: "pml4 = phys_to_virt (vm_pmm vm) r"
    and run: "proc_map_sigreturn_trampoline pml4 vm = vm'"
  shows "fresh_leaves vm0 vm' r \<and> vm_ext r vm vm'" "x \<noteq> trampoline_page \<Longrightarrow> user_map vm' r x = user_map vm r x"
proof -
  obtain a vm1 where al: "vm_alloc vm = (a, vm1)" by fastforce
  have z: "vm' = vm" if "a = 0" using run al that alloc_spec(5) [OF ptab_invD(1) [OF inv] al that]
    by (simp add: proc_map_sigreturn_trampoline_def)
  have "(fresh_leaves vm0 vm' r \<and> vm_ext r vm vm') \<and> (x \<noteq> trampoline_page \<longrightarrow> user_map vm' r x = user_map vm r x)"
  proof (cases "a = 0")
    case True
    then show ?thesis using z fr vm_ext_refl [OF inv] by simp
  next
    case False
    let ?w = "\<lambda>i. word_rcat (rev (take 8 (drop (8 * i) trampoline)))"
    obtain ph where ph: "VMM_U OR VMM_RW = seg_flags ph" using user_rw_flags by blast
    obtain ok where m: "vmm_map_page pml4 USER_SIGRETURN_PAGE a (VMM_U OR VMM_RW) (vm1\<lparr>pages := (pages vm1)(a := ?w)\<rparr>) = (ok, vm')"
      using run al False by (cases "vmm_map_page pml4 USER_SIGRETURN_PAGE a (VMM_U OR VMM_RW) (vm1\<lparr>pages := (pages vm1)(a := ?w)\<rparr>)")
        (simp add: proc_map_sigreturn_trampoline_def)
    have "PML4_IDX USER_SIGRETURN_PAGE < KERNEL_PML4_START" by (rule user_half) simp
    from fresh_leaves_map [OF fr inv al False refl this r ph m] show ?thesis unfolding trampoline_page_def by blast
  qed
  then show "fresh_leaves vm0 vm' r \<and> vm_ext r vm vm'" "x \<noteq> trampoline_page \<Longrightarrow> user_map vm' r x = user_map vm r x" by blast+
qed

lemma stack_mapped_fresh:
  assumes st: "stack_mapped vm r vm' fs" and fr: "fresh_leaves vm0 vm r"
  shows "fresh_leaves vm0 vm' r"
proof -
  note S = st [unfolded run_mapped_def]
  have h: "held vm' t" if "held vm t" for t using S held_ext that by blast
  have "\<not> held vm0 (e AND VMM_PHYS_MASK)" if e: "user_map vm' r x = Some e" for x e
  proof (cases "x \<in> (page_of \<circ> stack_page) ` {..<length fs}")
    case True
    then obtain i where i: "i < length fs" "x = page_of (stack_page i)" by auto
    then have "e = rw_entry (fs ! i)" using S e by force
    then have "e AND VMM_PHYS_MASK = fs ! i"
      using rw_entry_phys [of vm' "fs ! i"] S nth_mem [OF i(1)] by (auto simp: vm_ext_def ptab_inv_def)
    moreover have "\<not> held vm (fs ! i)" using S nth_mem [OF i(1)] by blast
    ultimately show ?thesis using fr unfolding fresh_leaves_def by metis
  next
    case False
    then have "user_map vm r x = Some e" using S e by metis
    then show ?thesis using fr unfolding fresh_leaves_def by blast
  qed
  then show ?thesis using fr h unfolding fresh_leaves_def by blast
qed

lemma exhausted_trampoline: "exhausted vm \<Longrightarrow> proc_map_sigreturn_trampoline pml4 vm = vm"
  by (simp add: proc_map_sigreturn_trampoline_def exhausted_alloc)

lemma exhausted_map_stack: "exhausted vm \<Longrightarrow> \<not> fst (map_stack pml4 vm)"
  by (simp add: map_stack_def exhausted_map_run)

lemma map_stack_spec:
  assumes "ptab_inv vm r" "pml4 = phys_to_virt (vm_pmm vm) r" "0xFFFF800000000000 \<le> pml4"
    and run: "map_stack pml4 vm = (True, vm')" "\<not> exhausted vm'"
  shows "\<exists>fs. length fs = 16 \<and> stack_mapped vm r vm' fs"
  using map_run_spec [OF assms(1-3) stack_run_ok, of vm'] run unfolding map_stack_def by blast

lemma frame_high:
  assumes "held vm a" "pmm_inv (vm_pmm vm)" "hhdm p = 0xFFFF800000000000"
  shows "0xFFFF800000000000 \<le> phys_to_virt p a"
proof -
  have f: "frame_of a < MAX_FRAMES" "a = addr_of (frame_of a)" using assms by (auto simp: held_def frames_used_def pmm_inv_def)
  then have "unat a = frame_of a * 4096" using unat_addr_of [of "frame_of a"] by simp
  then have "unat a < 2 ^ 33" using f(1) by simp
  then show ?thesis by (simp add: phys_to_virt_def assms(3) word_le_nat_alt unat_word_ariths)
qed

lemma page_of_stack:
  assumes "on_stack v"
  shows "page_of v \<noteq> trampoline_page"
proof -
  have "unat (v AND NOT 0xFFF) \<le> unat v" unfolding unat_page_base by simp
  then have "v AND NOT 0xFFF \<noteq> (USER_SIGRETURN_PAGE AND NOT 0xFFF :: u64)"
    using assms by (auto simp: on_stack_def word_less_nat_alt word_le_nat_alt)
  then show ?thesis unfolding trampoline_page_def using page_of_user_eq [OF on_stack_half [OF assms], of USER_SIGRETURN_PAGE] by simp
qed

lemma page_below_stack:
  assumes "v < STACK_BASE"
  shows "page_of v \<noteq> trampoline_page" "i < 16 \<Longrightarrow> page_of v \<noteq> page_of (stack_page i)"
proof -
  have v: "v < 0x800000000000" using assms by (auto intro: less_trans)
  have u: "unat (v AND NOT 0xFFF) < 0x7FFEFFFF0000" using assms unfolding unat_page_base by (simp add: word_less_nat_alt)
  then have "v AND NOT 0xFFF \<noteq> (USER_SIGRETURN_PAGE AND NOT 0xFFF :: u64)" by auto
  then show "page_of v \<noteq> trampoline_page" unfolding trampoline_page_def using page_of_user_eq [OF v, of USER_SIGRETURN_PAGE] by simp
  assume i: "i < 16"
  have "unat (stack_page i AND NOT 0xFFF) = 0x7FFEFFFF0000 + 4096 * i" unfolding unat_page_base unat_stack_page [OF i] by simp
  then have "v AND NOT 0xFFF \<noteq> stack_page i AND NOT 0xFFF" using u by auto
  then show "page_of v \<noteq> page_of (stack_page i)" using page_of_user_eq [OF v stack_page_half [OF i]] by blast
qed

text \<open>The user part of the new space: disjoint from everything that was in use before, with the stack in place and the
  segments below it readable.\<close>

definition image_ok :: "vm \<Rightarrow> umem \<Rightarrow> elf64_phdr list \<Rightarrow> vm \<Rightarrow> u64 \<Rightarrow> bool" where
  "image_ok vm0 data phs vm r \<longleftrightarrow> stack_ok vm r \<and> fresh_leaves vm0 vm r \<and> hhdm (vm_pmm vm) = hhdm (vm_pmm vm0) \<and>
     (\<forall>t. held vm0 t \<longrightarrow> pages vm t = pages vm0 t \<and> t \<notin> utables vm r) \<and>
     (\<forall>ph v. ph \<in> set phs \<and> ph_type ph = PT_LOAD \<and> ph_vaddr ph \<le> v \<and> v < ph_vaddr ph + ph_memsz ph \<and> v < STACK_BASE \<longrightarrow>
        user_byte vm r v = Some (seg_byte data ph v) \<and> frame_at vm r v \<notin> stack_frames vm r)"

text \<open>The last two steps, on a space that holds the segments.\<close>

lemma stack_and_trampoline:
  assumes inv: "ptab_inv vm r" and r: "pml4 = phys_to_virt (vm_pmm vm) r" "0xFFFF800000000000 \<le> pml4"
    and ms: "map_stack pml4 vm = (True, vm1)" and tr: "proc_map_sigreturn_trampoline pml4 vm1 = vm2" "\<not> exhausted vm2"
    and fr: "fresh_leaves vm0 vm r"
  shows "stack_ok vm2 r" "fresh_leaves vm0 vm2 r" "vm_ext r vm vm2" "\<And>t. t \<in> stack_frames vm2 r \<Longrightarrow> \<not> held vm t"
    "\<And>v. v < STACK_BASE \<Longrightarrow> user_map vm2 r (page_of v) = user_map vm r (page_of v)"
proof -
  have nex: "\<not> exhausted vm1" using exhausted_trampoline [of vm1 pml4] tr by auto
  obtain fs where fs: "length fs = 16" "stack_mapped vm r vm1 fs" using map_stack_spec [OF inv r ms nex] by blast
  note S = fs(2) [unfolded run_mapped_def]
  have e1: "vm_ext r vm vm1" and inv1: "ptab_inv vm1 r" and r1: "pml4 = phys_to_virt (vm_pmm vm1) r"
    using S r(1) by (auto simp: vm_ext_def phys_to_virt_def)
  note T = trampoline_spec [OF stack_mapped_fresh [OF fs(2) fr] inv1 r1 tr(1)]
  have e2: "vm_ext r vm1 vm2" and "fresh_leaves vm0 vm2 r" using T(1) by blast+
  then show "fresh_leaves vm0 vm2 r" "vm_ext r vm vm2" using vm_ext_trans [OF e1] by blast+
  have O: "stack_ok vm2 r" "stack_frames vm2 r = stack_frames vm1 r"
    using stack_ok_ext [OF stack_mapped_ok(1) [OF fs(2,1)] e2 T(2) [OF page_of_stack]] by blast+
  show "stack_ok vm2 r" by (rule O)
  show "\<not> held vm t" if "t \<in> stack_frames vm2 r" for t
  proof -
    have "t \<in> set fs" using that stack_mapped_ok(2) [OF fs(2,1)] unfolding O(2) by blast
    then show ?thesis using S by blast
  qed
  show "user_map vm2 r (page_of v) = user_map vm r (page_of v)" if v: "v < STACK_BASE" for v
  proof -
    have "page_of v \<notin> (page_of \<circ> stack_page) ` {..<length fs}" using page_below_stack(2) [OF v] fs(1) by auto
    then show ?thesis using T(2) [OF page_below_stack(1) [OF v]] S by metis
  qed
qed

lemma exec_image_spec:
  assumes pm: "pmm_inv (vm_pmm (k_vm k))" and hh: "hhdm (vm_pmm (k_vm k)) = 0xFFFF800000000000"
    and run: "exec_image data len k = (Some (phys, virt, start), k')" and nex: "\<not> exhausted (k_vm k')"
    and phs: "phs = map (phdr_at data (read_ehdr data)) [0..<unat (e_phnum (read_ehdr data))]"
    and wf: "\<forall>ph \<in> set phs. ph_type ph = PT_LOAD \<longrightarrow> seg_ok ph" "sorted_wrt (\<lambda>p q. seg_pages p \<inter> seg_pages q = {}) phs"
  shows "start = e_entry (read_ehdr data)" "virt = phys_to_virt (vm_pmm (k_vm k')) phys" "k' = k\<lparr>k_vm := k_vm k'\<rparr>"
    "image_ok (k_vm k) data phs (k_vm k') phys"
proof -
  let ?vm0 = "k_vm k" and ?vm3 = "k_vm k'"
  obtain vm1 where cr: "vmm_create_pml4 ?vm0 = (phys, vm1)" "phys \<noteq> 0" and virt: "virt = phys_to_virt (vm_pmm vm1) phys"
    using run by (cases "vmm_create_pml4 ?vm0") (auto simp: exec_image_def Let_def split: if_splits prod.splits option.splits bool.splits)
  obtain vm2 where el: "elf_load data len virt vm1 = (Some start, vm2)"
    using run cr virt by (cases "elf_load data len virt vm1") (auto simp: exec_image_def Let_def split: prod.splits option.splits bool.splits)
  obtain vmm where ms: "map_stack virt vm2 = (True, vmm)" and k': "k' = k\<lparr>k_vm := proc_map_sigreturn_trampoline virt vmm\<rparr>"
    using run cr virt el by (cases "map_stack virt vm2") (auto simp: exec_image_def Let_def split: bool.splits)
  note c = create_spec [OF pm cr]
  have inv1: "ptab_inv vm1 phys" and hh1: "hhdm (vm_pmm vm1) = 0xFFFF800000000000" using c hh by auto
  have high: "0xFFFF800000000000 \<le> virt" unfolding virt using frame_high [of vm1 phys] c ptab_invD(1) [OF inv1] hh1 by blast
  have fr1: "fresh_leaves ?vm0 vm1 phys" using c by (auto simp: fresh_leaves_def held_def)
  have nex2: "\<not> exhausted vm2" using exhausted_map_stack [of vm2 virt] ms by auto
  note E = elf_load_spec [OF inv1 virt high el nex2 phs wf]
  have e2: "vm_ext phys vm1 vm2" and inv2: "ptab_inv vm2 phys" and v2: "virt = phys_to_virt (vm_pmm vm2) phys"
    using E(2) virt by (auto simp: vm_ext_def phys_to_virt_def)
  have "proc_map_sigreturn_trampoline virt vmm = ?vm3" using k' by simp
  note S = stack_and_trampoline [OF inv2 v2 high ms this nex E(3) [OF fr1]]
  have old: "pages ?vm3 t = pages ?vm0 t \<and> t \<notin> utables ?vm3 phys" if t: "held ?vm0 t" for t
  proof -
    have "held vm1 t \<and> t \<notin> utables vm1 phys \<and> pages vm1 t = pages ?vm0 t"
      using c t fr1 by (auto simp: fresh_leaves_def entry_def fun_eq_iff)
    then show ?thesis using vm_ext_trans [OF e2 S(3)] unfolding vm_ext_def by metis
  qed
  have img: "user_byte ?vm3 phys v = Some (seg_byte data ph v) \<and> frame_at ?vm3 phys v \<notin> stack_frames ?vm3 phys"
    if ph: "ph \<in> set phs" "ph_type ph = PT_LOAD" "ph_vaddr ph \<le> v" "v < ph_vaddr ph + ph_memsz ph" and v: "v < STACK_BASE" for ph v
  proof -
    note h = E(5) [OF ph] and um = S(5) [OF v]
    have h3: "holds_page ?vm3 phys (page_of v) (seg_flags ph) (seg_page data ph v)" by (rule holds_page_ext [OF S(3) um h])
    obtain a where a: "user_map vm2 phys (page_of v) = Some ((a AND VMM_PHYS_MASK) OR (seg_flags ph OR VMM_P))" "held vm2 a"
      using h unfolding holds_page_def by blast
    have "frame_at ?vm3 phys v = a" unfolding frame_at_def um a(1) using leaf_entry(1) [OF a(2) ptab_invD(1) [OF inv2]] by simp
    then show ?thesis using holds_page_bytes(1) [OF h3 stack_okD(1) [OF S(1)] _ ph(3,4)] wf(1) ph(1,2) S(4) a(2) by blast
  qed
  show "start = e_entry (read_ehdr data)" by (rule E(1))
  show "virt = phys_to_virt (vm_pmm ?vm3) phys" using v2 S(3) by (simp add: vm_ext_def phys_to_virt_def)
  show "k' = k\<lparr>k_vm := ?vm3\<rparr>" using k' by simp
  have "hhdm (vm_pmm ?vm3) = hhdm (vm_pmm ?vm0)" using hh hh1 e2 S(3) by (simp add: vm_ext_def)
  then show "image_ok ?vm0 data phs ?vm3 phys" using S(1,2) old img unfolding image_ok_def by blast
qed

section \<open>Reading the block of arguments\<close>

definition user_reads :: "vm \<Rightarrow> u64 \<Rightarrow> u64 \<Rightarrow> u8 list \<Rightarrow> bool" where
  "user_reads vm r a bs \<longleftrightarrow> (\<forall>k < length bs. user_byte vm r (a + of_nat k) = Some (bs ! k))"

lemma stacked_reads:
  assumes "stacked vm0 r (sp, vm) bs" "bs = xs @ ys @ zs"
  shows "user_reads vm r (sp + of_nat (length xs)) ys"
  unfolding user_reads_def
proof (intro allI impI)
  fix k assume k: "k < length ys"
  have "user_byte vm r (sp + of_nat (length xs + k)) = Some (bs ! (length xs + k))"
    using k assms(2) by (intro stacked_byte [OF assms(1)]) simp
  then show "user_byte vm r (sp + of_nat (length xs) + of_nat k) = Some (ys ! k)"
    using k by (simp add: assms(2) nth_append add.assoc)
qed

lemma concat_words_split:
  assumes "i < length ws"
  shows "concat (map word_bytes ws) = concat (map word_bytes (take i ws)) @ word_bytes (ws ! i) @ concat (map word_bytes (drop (Suc i) ws))"
  by (subst id_take_nth_drop [OF assms]) simp

lemma strings_block_split:
  assumes "i < length args"
  shows "strings_block args = strings_block (take i args) @ strings_block (drop i args)"
    "strings_block (drop i args) = nul_terminated (args ! i) @ strings_block (drop (Suc i) args)"
proof -
  have "strings_block (xs @ ys) = strings_block xs @ strings_block ys" for xs ys by (simp add: strings_block_def)
  then show "strings_block args = strings_block (take i args) @ strings_block (drop i args)"
    by (metis append_take_drop_id)
  show "strings_block (drop i args) = nul_terminated (args ! i) @ strings_block (drop (Suc i) args)"
    using assms by (simp add: Cons_nth_drop_Suc [symmetric])
qed

text \<open>The layout the entry code of a program relies on.\<close>

definition args_at :: "vm \<Rightarrow> u64 \<Rightarrow> u64 \<Rightarrow> u8 list list \<Rightarrow> bool" where
  "args_at vm r rsp args \<longleftrightarrow> unat rsp mod 16 = 0 \<and>
     user_reads vm r rsp (word_bytes (of_nat (length args))) \<and>
     (\<forall>i < length args. \<exists>a. user_reads vm r (rsp + of_nat (8 + 8 * i)) (word_bytes a) \<and> user_reads vm r a (nul_terminated (args ! i))) \<and>
     user_reads vm r (rsp + of_nat (8 + 8 * length args)) (replicate 32 0)"

lemma args_at_stacked:
  assumes st: "stacked vm0 r (rsp, vm) (arg_block args pad)" and al: "unat rsp mod 16 = 0"
  shows "args_at vm r rsp args"
proof -
  let ?ws = "map (string_addr args) [0..<length args]"
  let ?tail = "word_bytes 0 @ word_bytes 0 @ replicate 16 0 @ pad @ strings_block args"
  have z: "word_bytes 0 @ word_bytes 0 @ replicate 16 0 = replicate 32 (0 :: u8)" by (simp add: word_bytes_def numeral_eq_Suc)
  have blk: "arg_block args pad = word_bytes (of_nat (length args)) @ concat (map word_bytes ?ws) @ ?tail" by (simp add: arg_block_def)
  have "user_reads vm r (rsp + of_nat (8 + 8 * i)) (word_bytes (string_addr args i))" if i: "i < length args" for i
    using stacked_reads [OF st, of "word_bytes (of_nat (length args)) @ concat (map word_bytes (take i ?ws))" "word_bytes (?ws ! i)"
        "concat (map word_bytes (drop (Suc i) ?ws)) @ ?tail"] concat_words_split [of i ?ws] i
    by (simp add: blk del: map_map of_nat_add of_nat_mult)
  moreover have "user_reads vm r (string_addr args i) (nul_terminated (args ! i))" if i: "i < length args" for i
  proof -
    let ?pre = "word_bytes (of_nat (length args)) @ concat (map word_bytes ?ws) @ word_bytes 0 @ word_bytes 0 @ replicate 16 0 @ pad @ strings_block (take i args)"
    have "arg_block args pad = ?pre @ strings_block (drop i args)" using strings_block_split(1) [OF i] by (simp add: arg_block_def)
    then have "unat rsp + length ?pre + length (strings_block (drop i args)) = 0x7FFF00000000" using st by (simp add: stacked_def)
    then have "of_nat (unat rsp) + of_nat (length ?pre) + of_nat (length (strings_block (drop i args))) = (STACK_TOP :: u64)"
      by (simp only: of_nat_add [symmetric]) simp
    then have "string_addr args i = rsp + of_nat (length ?pre)"
      unfolding string_addr_def by (simp only: diff_eq_eq of_nat_unat ucast_id)
    moreover have "user_reads vm r (rsp + of_nat (length ?pre)) (nul_terminated (args ! i))"
      by (rule stacked_reads [OF st, of _ _ "strings_block (drop (Suc i) args)"])
         (simp add: arg_block_def strings_block_split(1) [OF i] strings_block_split(2) [OF i])
    ultimately show ?thesis by simp
  qed
  moreover have "user_reads vm r (rsp + of_nat (8 + 8 * length args)) (replicate 32 0)"
    using stacked_reads [OF st, of "word_bytes (of_nat (length args)) @ concat (map word_bytes ?ws)" "replicate 32 0" "pad @ strings_block args"]
    by (simp add: blk z [symmetric] del: map_map of_nat_add of_nat_mult)
  moreover have "user_reads vm r rsp (word_bytes (of_nat (length args)))"
    using stacked_reads [OF st, of "[]" "word_bytes (of_nat (length args))"] by (simp add: blk)
  ultimately show ?thesis using al unfolding args_at_def by blast
qed

section \<open>Leaving the old program\<close>

lemma user_byte_kept:
  assumes "\<forall>t \<in> utables vm r. pages vm' t = pages vm t" "pages vm' (frame_at vm r v) = pages vm (frame_at vm r v)"
  shows "user_byte vm' r v = user_byte vm r v"
  using user_byte_frame [OF tables_kept(2) [OF assms(1)] assms(2)] .

text \<open>Destroying the old space, whose tables were in use before, touches nothing of the new one.\<close>

lemma destroy_keeps_image:
  assumes img: "image_ok vm0 data phs vm1 r" and old: "ptab_inv vm0 old" "ov = phys_to_virt (vm_pmm vm0) old"
    and st: "stacked vm1 r (rsp, vm2) bs" and vm3: "pages vm3 = pages (vmm_destroy_user ov (vmm_set_cr3 x vm2))"
  shows "user_byte vm3 r v = user_byte vm2 r v"
proof -
  let ?vm = "vmm_set_cr3 x vm2"
  note I = img [unfolded image_ok_def] and S = st [unfolded stacked_def prod.case]
  have ok: "stack_ok vm1 r" and fl: "fresh_leaves vm0 vm1 r" using I by blast+
  have leaf: "\<not> held vm0 (frame_at vm1 r v)" if "user_map vm1 r (page_of v) \<noteq> None" for v
    using that fl unfolding fresh_leaves_def frame_at_def by fastforce
  have sf: "\<not> held vm0 t" if "t \<in> stack_frames vm1 r" for t
    using that leaf stack_okD(2) [OF ok] by (auto simp: stack_frames_def)
  have p: "pages ?vm t = pages vm0 t" if "held vm0 t" for t
  proof -
    have "t \<notin> stack_frames vm1 r" using sf that by blast
    then show ?thesis using S I that by (simp add: vmm_set_cr3_def)
  qed
  have ht: "held vm0 t" if "t \<in> utables vm0 old" for t using that ptab_invD(2) [OF old(1)] by (auto simp: utables_def)
  have ut: "utables ?vm old = utables vm0 old" using p ht by (intro tables_kept(3)) blast
  have "hhdm (vm_pmm ?vm) = hhdm (vm_pmm vm0)" using S I by (simp add: vmm_set_cr3_def)
  then have "ov = phys_to_virt (vm_pmm ?vm) old" using old(2) by (simp add: phys_to_virt_def)
  from destroy_user_wiped [OF this] have w: "pages vm3 t = pages vm2 t" if "\<not> held vm0 t" for t
    using that ht ut unfolding wiped_def vm3 by (auto simp: vmm_set_cr3_def)
  have um: "user_map vm2 r = user_map vm1 r" "utables vm2 r = utables vm1 r" using S by blast+
  have tabs: "\<forall>t \<in> utables vm2 r. pages vm3 t = pages vm2 t" using w I um by metis
  show ?thesis
  proof (cases "user_map vm1 r (page_of v)")
    case None
    then show ?thesis using tables_kept(2) [OF tabs] um by (simp add: user_byte_def)
  next
    case (Some e)
    then have "\<not> held vm0 (frame_at vm2 r v)" using leaf [of v] um(1) by (simp add: frame_at_def)
    then show ?thesis by (intro user_byte_kept tabs w)
  qed
qed

lemma exec_file_frame:
  assumes "exec_file junk fd pid k = Some (res, k')"
  shows "k_vm k' = k_vm k" "k_sched k' = k_sched k"
  using assms by (auto simp: exec_file_def free_buf_def Let_def split: option.splits if_splits prod.splits)

lemma set_comm_priority_procs:
  "procs (proc_set_priority i (comm_priority n) s) = (procs s)(i := (procs s i)\<lparr>p_priority := comm_priority n\<rparr>)"
proof -
  have "unat (comm_priority n) < SCHED_NPRIO" by (simp add: comm_priority_def)
  then show ?thesis by (simp add: proc_set_priority_def Let_def fun_upd_idem)
qed

lemma exec_commit_spec:
  assumes run: "exec_commit c tramp smp kflags r i buf (phys, virt, start) rsp k = Some (u, k')"
  defines "p \<equiv> procs (k_sched k) i"
  shows "\<exists>u'. u = Some u' \<and> us_rip u' = start \<and> us_rsp u' = rsp \<and> us_rax u' = 0 \<and> us_rflags u' = kflags OR 0x200"
    "pages (k_vm k') = pages (vmm_destroy_user (p_pml4_virt p) (vmm_set_cr3 phys (k_vm k)))" "cr3 (k_vm k') = phys"
    "p_pml4_phys (procs (k_sched k') i) = phys" "p_name (procs (k_sched k') i) = p_name p" "p_kstack (procs (k_sched k') i) = p_kstack p"
    "cpu_rsp0 (cpus (k_sched k') c) = p_kstack p + SCHED_STACK_SIZE"
  using run
  by (auto simp: exec_commit_def p_def Let_def discard_space_def enter_userspace_def first_entry_def cpu_set_rsp0_def
        vmm_set_cr3_def vm_free_def split: option.splits)

section \<open>Properties\<close>


section \<open>Enough memory\<close>

lemma trampoline_takes_four: "free_count vm \<le> free_count (proc_map_sigreturn_trampoline pml4 vm) + 4"
proof -
  obtain a vm1 where al: "vm_alloc vm = (a, vm1)" by fastforce
  have "free_count (vm1\<lparr>pages := p\<rparr>) = free_count vm1" for p by (simp add: free_count_def)
  then show ?thesis
    using vm_alloc_takes_one [of vm] map_page_takes_three [of "vm1\<lparr>pages := (pages vm1)(a := \<lambda>i. word_rcat (rev (take 8 (drop (8 * i) trampoline))))\<rparr>"
        pml4 USER_SIGRETURN_PAGE a "VMM_U OR VMM_RW"] al
    by (simp add: proc_map_sigreturn_trampoline_def)
qed

lemma not_exhausted: "0 < free_count vm \<Longrightarrow> \<not> exhausted vm"
  by (auto simp: free_count_def count_below_def exhausted_def frames_used_def card_gt_0_iff)

section \<open>A file and a process for the witness\<close>

text \<open>A file system with the program of theory \<open>Elf\<close> as \<^verbatim>\<open>/a\<close>, and 128 frames of memory.\<close>

definition ex_disk :: "u64 \<Rightarrow> block" where
  "ex_disk = (\<lambda>_ _. 0)(2 := (\<lambda>_. 0)(68 := 1, 70 := 1, 72 := 3), 3 := (\<lambda>_. 0)(0 := 97, 64 := 4),
     4 := (\<lambda>_. 0)(64 := 123, 70 := 1, 72 := 5), 5 := (\<lambda>k. if k < 123 then ex_elf ! k else 0))"

definition ex_exec_fs :: xfs where
  "ex_exec_fs = ex_fs\<lparr>disk := ex_disk, g_fds := (\<lambda>_. zero_fd)\<rparr>"

definition ex_vm128 :: vm where
  "ex_vm128 = ex_vm\<lparr>vm_pmm := (vm_pmm ex_vm)\<lparr>bitmap := (\<lambda>i. if i = 0 then 3 else 0), total_frames := 128\<rparr>\<rparr>"

definition ex_exec_heap :: heap where
  "ex_exec_heap = example_heap\<lparr>bsize := (\<lambda>_. 0)(0x100000 := 0x100000), free_head := 0x100000\<rparr>"

definition ex_proc :: proc where
  "ex_proc = zero_proc\<lparr>p_pid := 2, p_state := PROC_RUNNING, p_ring3 := True, p_pml4_phys := 0x1000, p_pml4_virt := 0xFFFF800000001000, p_kstack := 0x80000\<rparr>"

definition ex_kernel :: kernel where
  "ex_kernel = \<lparr>k_sched = (sched_bss 100)\<lparr>procs := (\<lambda>_. zero_proc)(2 := ex_proc), cpus := (\<lambda>_. zero_cpu)(0 := zero_cpu\<lparr>current_proc := Some 2\<rparr>)\<rparr>,
     k_vm = ex_vm128, k_heap = ex_exec_heap, k_pipes = (\<lambda>_. zero_pipe), k_fs = ex_exec_fs,
     k_saved = (\<lambda>_. \<lparr>user_rbx = 0, user_rbp = 0, user_r12 = 0, user_r13 = 0, user_r14 = 0\<rparr>), k_shootdowns = 0\<rparr>"

lemma ex_resolve: "resolve_path ex_exec_fs (Some [slash, 97]) = (4, read_inode ex_exec_fs 4)"
proof -
  have "read_inode ex_exec_fs 2 = decode_inode ((\<lambda>_. 0)(68 := 1, 70 := 1, 72 := 3))"
    by (simp add: read_inode_def block_read_def ex_exec_fs_def ex_fs_def ex_disk_def)
  then have n: "i_flags (read_inode ex_exec_fs 2) = 1" "i_block_count (read_inode ex_exec_fs 2) = 1" "data_block ex_exec_fs (read_inode ex_exec_fs 2) 0 = 3"
    by (simp_all add: decode_inode_def data_block_def get16_def get32_def)
  have b: "block_read ex_exec_fs 3 = (\<lambda>_. 0)(0 := 97, 64 := 4)" by (simp add: block_read_def ex_exec_fs_def ex_fs_def ex_disk_def)
  have "[0..<4096] = 0 # Suc 0 # [Suc (Suc 0)..<4096]"
    using upt_conv_Cons [of 0 4096] upt_conv_Cons [of "Suc 0" 4096] by (simp del: upt_rec_numeral)
  then have nm: "ent_name (block_read ex_exec_fs 3) 0 = [97]" by (simp add: ent_name_def b del: upt_rec_numeral)
  have i: "ent_inode (block_read ex_exec_fs 3) 0 = 4" by (simp add: ent_inode_def b get32_def)
  obtain rest where "dir_slots (read_inode ex_exec_fs 2) = (0, 0) # rest"
    by (simp add: dir_slots_def n upt_conv_Cons del: upt_rec_numeral)
  then have "lookup_component ex_exec_fs (read_inode ex_exec_fs 2) [97] = Some 4"
    using n(3) nm i by (simp add: lookup_component_def Let_def)
  moreover have "component [97] = [97]" "after_component [97] = []" by (simp_all add: component_def after_component_def)
  moreover have "g_root_block ex_exec_fs = 2" by (simp add: ex_exec_fs_def ex_fs_def)
  ultimately show ?thesis by (simp add: resolve_path_def n resolve_from.simps Let_def)
qed

definition ex_opened :: xfs where
  "ex_opened = set_fd 0 (\<lambda>_. \<lparr>f_pid = 2, f_inode_block = 4, f_offset = 0, f_flags = 0, f_used = True\<rparr>) ex_exec_fs"

lemma length_ex_elf: "length ex_elf = 123"
  by (simp add: ex_elf_def)

lemma ex_inode_4: "i_size (read_inode ex_opened 4) = 123" "i_block_count (read_inode ex_opened 4) = 1"
    "data_block ex_opened (read_inode ex_opened 4) 0 = 5" "block_read ex_opened 5 = (\<lambda>k. if k < 123 then ex_elf ! k else 0)"
proof -
  have "read_inode ex_opened 4 = decode_inode ((\<lambda>_. 0)(64 := 123, 70 := 1, 72 := 5))"
    by (simp add: read_inode_def block_read_def ex_opened_def set_fd_def ex_exec_fs_def ex_fs_def ex_disk_def)
  then show "i_size (read_inode ex_opened 4) = 123" "i_block_count (read_inode ex_opened 4) = 1" "data_block ex_opened (read_inode ex_opened 4) 0 = 5"
    by (simp_all add: decode_inode_def data_block_def get16_def get32_def)
  show "block_read ex_opened 5 = (\<lambda>k. if k < 123 then ex_elf ! k else 0)"
    by (simp add: block_read_def ex_opened_def set_fd_def ex_exec_fs_def ex_fs_def ex_disk_def)
qed

lemma ex_read: "\<exists>fs. xfs_read 0 True 123 2 ex_opened = (123, ex_elf, fs)"
proof -
  let ?n = "read_inode ex_opened 4"
  have "map (\<lambda>k. if k < 123 then ex_elf ! k else 0) [0..<123] = map ((!) ex_elf) [0..<length ex_elf]"
    unfolding length_ex_elf by (rule map_cong) auto
  then have m: "map (block_read ex_opened 5) [0..<123] = ex_elf" unfolding ex_inode_4 map_nth .
  have "read_loop ex_opened ?n 0 123 0 = map (block_read ex_opened 5) [0..<123] @ read_loop ex_opened ?n 0 123 123"
    by (subst read_loop.simps) (simp add: ex_inode_4(2,3) Let_def del: upt_rec_numeral)
  also have "\<dots> = ex_elf" unfolding m by (simp add: read_loop.simps)
  finally have "read_loop ex_opened ?n 0 123 0 = ex_elf" .
  moreover have "fd_valid 0" "fd_owned ex_opened 0 2" "f_inode_block (g_fds ex_opened 0) = 4" "f_offset (g_fds ex_opened 0) = 0"
    by (simp_all add: fd_valid_def fd_owned_def ex_opened_def set_fd_def)
  ultimately show ?thesis by (simp add: xfs_read_def Let_def ex_inode_4(1) length_ex_elf to_int_def)
qed

lemma ex_exec_open: "exec_open [slash, 97] 2 ex_exec_fs = (0, [slash, 97], ex_opened)"
proof -
  have "open_fd 4 0 2 ex_exec_fs = (0, ex_opened)"
    by (simp add: open_fd_def ex_opened_def upt_conv_Cons ex_exec_fs_def zero_fd_def del: upt_rec_numeral)
  then have "xfs_open (Some [slash, 97]) 0 2 ex_exec_fs = (0, ex_opened)" by (simp add: xfs_open_def ex_resolve)
  then show ?thesis by (simp add: exec_open_def)
qed

lemma ex_file_eq: "copy_in 0 ex_elf (\<lambda>_. 0) = ex_file"
  by (simp add: copy_in_def ex_file_def fun_eq_iff)

lemma ex_kmalloc: "\<exists>buf h. kmalloc 123 ex_exec_heap = Some (buf, h) \<and> buf \<noteq> 0 \<and> kfree buf h \<noteq> None"
proof -
  have n: "ALIGN16 123 + HDR_SIZE = 144" by (simp add: ALIGN16_def)
  have sc: "kmalloc_scan ex_exec_heap 144 0 0x100000 = Some (0, 0x100000)"
    by (subst kmalloc_scan.simps) (simp add: ex_exec_heap_def)
  have fh: "free_head ex_exec_heap = 0x100000" by (simp add: ex_exec_heap_def)
  let ?h = "kmalloc_take 144 0 0x100000 ex_exec_heap"
  have h: "get_link ?h 0 = 0x100090" by (simp add: kmalloc_take_def Let_def ex_exec_heap_def example_heap_def set_size_def set_link_def get_link_def)
  have k: "kmalloc 123 ex_exec_heap = Some (0x100010, ?h)"
    using sc by (simp add: kmalloc_def n Let_def fh)
  have "insert_scan (?h\<lparr>used_sz := u\<rparr>) 0x100000 0 \<noteq> None" for u
    using h by (subst insert_scan.simps) (simp add: get_link_def)
  then have "kfree 0x100010 ?h \<noteq> None" by (simp add: kfree_def insert_free_def)
  with k show ?thesis by (intro exI conjI) (assumption, simp, assumption)
qed

lemma ex_exec_file:
  "\<exists>buf k2. exec_file (\<lambda>_. 0) 0 2 (ex_kernel\<lparr>k_fs := ex_opened\<rparr>) = Some (Some (buf, ex_file, 123), k2) \<and> kfree buf (k_heap k2) \<noteq> None"
proof -
  obtain fs where r: "xfs_read 0 True 123 2 ex_opened = (123, ex_elf, fs)" using ex_read by blast
  have st: "xfs_fstat 0 True 2 ex_opened = Some (stat_of 4 (read_inode ex_opened 4))"
    by (simp add: xfs_fstat_def fd_valid_def fd_owned_def ex_opened_def set_fd_def)
  have sz: "d_size (stat_of 4 (read_inode ex_opened 4)) = 123" by (simp add: stat_of_def ex_inode_4(1))
  have rd: "exec_read 0 2 123 0 (\<lambda>_. 0) ex_opened = (123, ex_file, fs)"
    by (simp add: exec_read.simps [of 0 2 123 0] r ex_file_eq) (simp add: exec_read.simps)
  obtain buf h where km: "kmalloc 123 ex_exec_heap = Some (buf, h)" "buf \<noteq> 0" "kfree buf h \<noteq> None" using ex_kmalloc by blast
  have "exec_file (\<lambda>_. 0) 0 2 (ex_kernel\<lparr>k_fs := ex_opened\<rparr>) =
      Some (Some (buf, ex_file, 123), ex_kernel\<lparr>k_fs := xfs_close 0 fs, k_heap := h\<rparr>)"
    using km by (simp add: exec_file_def st sz Let_def ex_kernel_def rd)
  then show ?thesis using km(3) by fastforce
qed


definition ex_new :: vm where "ex_new = snd (vm_alloc ex_vm128)"

lemma ex_vm128_inv: "ptab_inv ex_vm128 0x1000"
proof -
  have eq: "(3 :: u8) = mask 2" by (simp add: mask_eq_exp_minus_1)
  have b: "bit_get (\<lambda>i. if i = 0 then 3 else 0) i \<longleftrightarrow> i = 0 \<or> i = 1" for i
    by (auto simp: bit_get_iff eq bit_mask_iff div_eq_0_iff split: if_splits)
  have "{i. i < 128 \<and> bit_get (\<lambda>i. if i = 0 then 3 else 0) i} = {0, 1}" unfolding b by auto
  then have p: "pmm_inv (vm_pmm ex_vm128)"
    using b by (simp add: pmm_inv_def ex_vm128_def ex_vm_def count_below_def)
  have h: "held ex_vm128 0x1000"
    using b [of 1] by (simp add: held_def ex_vm128_def ex_vm_def frames_used_def frame_of_def addr_of_def unat_div)
  show ?thesis using empty_space(1) [OF p h] by (simp add: ex_vm128_def ex_vm_def entry_def)
qed

lemma ex_create: "vmm_create_pml4 ex_vm128 = (0x2000, ex_new)"
proof -
  have f: "fst (vm_alloc ex_vm128) = 0x2000" by code_simp
  have k: "vmm_kernel_pml4 ex_vm128 = (0xFFFF800000000000, ex_vm128)" by (simp add: vmm_kernel_pml4_def ex_vm128_def ex_vm_def)
  have al: "vm_alloc ex_vm128 = (0x2000, ex_new)" using f by (metis ex_new_def prod.collapse)
  have p: "pages ex_new = (\<lambda>_ _. 0)" by (simp add: ex_new_def vm_alloc_def ex_vm128_def ex_vm_def split: prod.splits)
  have "fold (\<lambda>i vm. set_entry 0x2000 i (entry vm kp i) vm) is ex_new = ex_new" for kp "is"
  proof (induction "is")
    case (Cons i "is")
    have "set_entry 0x2000 i (entry ex_new kp i) ex_new = ex_new"
      by (simp add: set_entry_def entry_def p fun_upd_idem)
    with Cons show ?case by simp
  qed simp
  moreover have "zero_page 0x2000 ex_new = ex_new" by (simp add: zero_page_def p fun_upd_idem)
  ultimately show ?thesis by (simp add: vmm_create_pml4_def k al Let_def del: upt_rec_numeral)
qed

definition ex_loaded :: vm where "ex_loaded = snd (elf_load ex_file 123 0xFFFF800000002000 ex_new)"

lemma ex_load: "elf_load ex_file 123 0xFFFF800000002000 ex_new = (Some 0x400000, ex_loaded)"
proof -
  have "fst (elf_load ex_file 123 0xFFFF800000002000 ex_new) = Some 0x400000" by code_simp
  then show ?thesis by (metis ex_loaded_def prod.collapse)
qed

lemma free_count_used:
  assumes "pmm_inv (vm_pmm vm)"
  shows "free_count vm + unat (used_frames (vm_pmm vm)) = total_frames (vm_pmm vm)"
proof -
  let ?B = "\<lambda>f. bit_get (bitmap (vm_pmm vm)) f" and ?n = "total_frames (vm_pmm vm)"
  have "card ({f. f < ?n \<and> \<not> ?B f} \<union> {f. f < ?n \<and> ?B f}) = card {f. f < ?n \<and> \<not> ?B f} + card {f. f < ?n \<and> ?B f}"
    by (rule card_Un_disjoint) auto
  moreover have "{f. f < ?n \<and> \<not> ?B f} \<union> {f. f < ?n \<and> ?B f} = {..<?n}" by auto
  moreover have "card {f. f < ?n \<and> ?B f} \<le> ?n" "?n \<le> MAX_FRAMES" using count_below_le [of ?n ?B] assms by (simp_all add: count_below_def pmm_inv_def)
  then have "unat (used_frames (vm_pmm vm)) = card {f. f < ?n \<and> ?B f}" using assms by (simp add: pmm_inv_def count_below_def unat_of_nat)
  ultimately show ?thesis by (simp add: free_count_def count_below_def)
qed

lemma ex_loaded_ok:
  "ptab_inv ex_loaded 0x2000" "112 \<le> free_count ex_loaded" "hhdm (vm_pmm ex_loaded) = 0xFFFF800000000000"
proof -
  note c = create_spec [OF ptab_invD(1) [OF ex_vm128_inv] ex_create]
  have t: "total_frames (vm_pmm ex_loaded) = 128" by code_simp
  have u: "used_frames (vm_pmm ex_loaded) = 7" by code_simp
  have "\<not> bit_get (bitmap (vm_pmm ex_loaded)) 127" by code_simp
  then have "127 \<notin> frames_used (vm_pmm ex_loaded)" "127 < total_frames (vm_pmm ex_loaded)" using t by (simp_all add: frames_used_def)
  then have nex: "\<not> exhausted ex_loaded" by (auto simp: exhausted_def)
  have hh: "hhdm (vm_pmm ex_new) = 0xFFFF800000000000" using c by (simp add: ex_vm128_def ex_vm_def)
  have ext: "vm_ext 0x2000 ex_new ex_loaded"
    using elf_load_spec(2) [OF _ _ _ ex_load nex ex_elf_phdr [symmetric]] c hh
    by (simp add: seg_ok_def phys_to_virt_def)
  then show inv: "ptab_inv ex_loaded 0x2000" "hhdm (vm_pmm ex_loaded) = 0xFFFF800000000000" using hh by (simp_all add: vm_ext_def)
  show "112 \<le> free_count ex_loaded" using free_count_used [OF ptab_invD(1) [OF inv(1)]] t u by simp
qed

lemma ex_exec_image:
  assumes "k_vm k = ex_vm128"
  shows "\<exists>k3. exec_image ex_file 123 k = (Some (0x2000, 0xFFFF800000002000, 0x400000), k3) \<and> \<not> exhausted (k_vm k3) \<and> k_heap k3 = k_heap k"
proof -
  note c = create_spec [OF ptab_invD(1) [OF ex_vm128_inv] ex_create]
  have hh: "phys_to_virt (vm_pmm ex_new) 0x2000 = 0xFFFF800000002000" using c by (simp add: ex_vm128_def ex_vm_def phys_to_virt_def)
  obtain vm3 where ms: "map_stack 0xFFFF800000002000 ex_loaded = (True, vm3)" "free_count ex_loaded \<le> free_count vm3 + 64"
    using map_run_total [OF ex_loaded_ok(1) _ stack_run_ok, of "0xFFFF800000002000"] ex_loaded_ok(2,3)
    by (auto simp: map_stack_def phys_to_virt_def simp del: upt_rec_numeral)
  have "0 < free_count (proc_map_sigreturn_trampoline 0xFFFF800000002000 vm3)"
    using trampoline_takes_four [of vm3 "0xFFFF800000002000"] ms(2) ex_loaded_ok(2) by simp
  from not_exhausted [OF this] show ?thesis using assms by (simp add: exec_image_def ex_create hh ex_load ms(1) Let_def)
qed



end
