(* ===== verification/Ps2.thy ===== *)
theory Ps2
  imports Input
begin

text \<open>
  The PS/2 keyboard and mouse, \<^verbatim>\<open>src/kernel/hal/input/ps2.c\<close>, \<^verbatim>\<open>keyboard.c\<close>, \<^verbatim>\<open>mouse.c\<close> and the polling of the
  keyboard in \<^verbatim>\<open>src/kernel/hal/timers/timer.c\<close>. The controller is a parameter: \<open>inb port d\<close> is the value read from a
  port of a device in state \<open>d\<close> with the state after it, \<open>outb port b d\<close> the state after a write. The decoders work on
  the queue of theory \<open>Input\<close>. The lock around the ports and the installation of the interrupt handlers are left out.
\<close>

section \<open>The controller\<close>

abbreviation (input) PS2_DATA :: u16 where "PS2_DATA \<equiv> 0x60"
abbreviation (input) PS2_STATUS :: u16 where "PS2_STATUS \<equiv> 0x64"
abbreviation (input) PS2_CMD :: u16 where "PS2_CMD \<equiv> 0x64"

type_synonym 'd inb = "u16 \<Rightarrow> 'd \<Rightarrow> u8 \<times> 'd"
type_synonym 'd outb = "u16 \<Rightarrow> u8 \<Rightarrow> 'd \<Rightarrow> 'd"

text \<open>Read the status at most \<open>n\<close> times, until it is as wanted.\<close>

primrec ps2_wait :: "'d inb \<Rightarrow> (u8 \<Rightarrow> bool) \<Rightarrow> nat \<Rightarrow> 'd \<Rightarrow> 'd" where
  "ps2_wait inb ok 0 d = d"
| "ps2_wait inb ok (Suc n) d = (let (st, d1) = inb PS2_STATUS d in if ok st then d1 else ps2_wait inb ok n d1)"

definition ps2_wait_write :: "'d inb \<Rightarrow> 'd \<Rightarrow> 'd" where
  "ps2_wait_write inb = ps2_wait inb (\<lambda>st. st AND 0x02 = 0) 100000"

definition ps2_wait_read :: "'d inb \<Rightarrow> 'd \<Rightarrow> 'd" where
  "ps2_wait_read inb = ps2_wait inb (\<lambda>st. st AND 0x01 \<noteq> 0) 100000"

definition ps2_command :: "'d inb \<Rightarrow> 'd outb \<Rightarrow> u8 \<Rightarrow> 'd \<Rightarrow> 'd" where
  "ps2_command inb outb cmd d = outb PS2_CMD cmd (ps2_wait_write inb d)"

definition ps2_write_data :: "'d inb \<Rightarrow> 'd outb \<Rightarrow> u8 \<Rightarrow> 'd \<Rightarrow> 'd" where
  "ps2_write_data inb outb b d = outb PS2_DATA b (ps2_wait_write inb d)"

definition ps2_read_data :: "'d inb \<Rightarrow> 'd \<Rightarrow> u8 \<times> 'd" where
  "ps2_read_data inb d = inb PS2_DATA (ps2_wait_read inb d)"

definition ps2_mouse_write :: "'d inb \<Rightarrow> 'd outb \<Rightarrow> u8 \<Rightarrow> 'd \<Rightarrow> 'd" where
  "ps2_mouse_write inb outb b d = snd (ps2_read_data inb (ps2_write_data inb outb b (ps2_command inb outb 0xD4 d)))"

text \<open>The loop that empties the output buffer ends when the controller has no more data.\<close>

partial_function (option) ps2_flush :: "'d inb \<Rightarrow> 'd \<Rightarrow> 'd option" where
  "ps2_flush inb d =
     (let (st, d1) = inb PS2_STATUS d in if st AND 0x01 \<noteq> 0 then ps2_flush inb (snd (inb PS2_DATA d1)) else Some d1)"

definition ps2_init :: "'d inb \<Rightarrow> 'd outb \<Rightarrow> 'd \<Rightarrow> 'd option" where
  "ps2_init inb outb d =
     map_option (\<lambda>d1.
       let (cfg, d2) = ps2_read_data inb (ps2_command inb outb 0x20 d1);
           cfg' = ((((cfg OR 0x01) OR 0x02) AND NOT 0x10) AND NOT 0x20) OR 0x40;
           d3 = ps2_write_data inb outb cfg' (ps2_command inb outb 0x60 d2)
       in ps2_command inb outb 0xA8 (ps2_command inb outb 0xAE d3))
     (ps2_flush inb (ps2_command inb outb 0xA7 (ps2_command inb outb 0xAD d)))"

section \<open>The keyboard\<close>

abbreviation (input) KEY_UP :: u16 where "KEY_UP \<equiv> 0x101"
abbreviation (input) KEY_DOWN :: u16 where "KEY_DOWN \<equiv> 0x102"
abbreviation (input) KEY_LEFT :: u16 where "KEY_LEFT \<equiv> 0x103"
abbreviation (input) KEY_RIGHT :: u16 where "KEY_RIGHT \<equiv> 0x104"

text \<open>The characters of the make codes; a code past the end of the list has none.\<close>

definition lower_chars :: "u8 list" where
  "lower_chars =
     [0, 27, 49, 50, 51, 52, 53, 54, 55, 56, 57, 48, 45, 61, 8,
      9, 113, 119, 101, 114, 116, 121, 117, 105, 111, 112, 91, 93, 10,
      0, 97, 115, 100, 102, 103, 104, 106, 107, 108, 59, 39, 96,
      0, 92, 122, 120, 99, 118, 98, 110, 109, 44, 46, 47, 0,
      42, 0, 32]"

definition upper_chars :: "u8 list" where
  "upper_chars =
     [0, 27, 33, 64, 35, 36, 37, 94, 38, 42, 40, 41, 95, 43, 8,
      9, 81, 87, 69, 82, 84, 89, 85, 73, 79, 80, 123, 125, 10,
      0, 65, 83, 68, 70, 71, 72, 74, 75, 76, 58, 34, 126,
      0, 124, 90, 88, 67, 86, 66, 78, 77, 60, 62, 63, 0,
      42, 0, 32]"

definition map_lower :: "u8 \<Rightarrow> u8" where
  "map_lower code = (if unat code < length lower_chars then lower_chars ! unat code else 0)"

definition map_upper :: "u8 \<Rightarrow> u8" where
  "map_upper code = (if unat code < length upper_chars then upper_chars ! unat code else 0)"

record keyboard =
  kshift :: bool
  ke0 :: bool
  kbd_count :: u32

definition arrow_key :: "u8 \<Rightarrow> u16 option" where
  "arrow_key code =
     (if code = 0x48 then Some KEY_UP else if code = 0x50 then Some KEY_DOWN
      else if code = 0x4B then Some KEY_LEFT else if code = 0x4D then Some KEY_RIGHT else None)"

definition keyboard_handle_byte :: "u8 \<Rightarrow> keyboard \<times> input \<Rightarrow> keyboard \<times> input" where
  "keyboard_handle_byte sc = (\<lambda>(k0, s).
     let k = k0\<lparr>kbd_count := kbd_count k0 + 1\<rparr> in
     if sc = 0xE0 then (k\<lparr>ke0 := True\<rparr>, s)
     else let release = (sc AND 0x80 \<noteq> 0); code = sc AND 0x7F; t = (if release then EV_KEY_UP else EV_KEY_DOWN) in
     if ke0 k then
       (k\<lparr>ke0 := False\<rparr>,
        case arrow_key code of
          None \<Rightarrow> s
        | Some key \<Rightarrow> input_push (Some ((zero_event t)\<lparr>e_key := key, e_scancode := code\<rparr>)) s)
     else if code = 0x2A \<or> code = 0x36 then (k\<lparr>kshift := \<not> release\<rparr>, s)
     else (k, input_push (Some ((zero_event t)\<lparr>e_scancode := code,
                                  e_ch := (if kshift k then map_upper code else map_lower code)\<rparr>)) s))"

definition keyboard_isr :: "'d inb \<Rightarrow> 'd \<times> keyboard \<times> input \<Rightarrow> 'd \<times> keyboard \<times> input" where
  "keyboard_isr inb = (\<lambda>(d, ki).
     let (st, d1) = inb PS2_STATUS d in
     if st AND 0x01 = 0 then (d1, ki)
     else if st AND 0x20 \<noteq> 0 then (d1, ki)
     else let (b, d2) = inb PS2_DATA d1 in (d2, keyboard_handle_byte b ki))"

definition keyboard_init :: "'d inb \<Rightarrow> 'd outb \<Rightarrow> 'd \<Rightarrow> 'd" where
  "keyboard_init inb outb d = snd (ps2_read_data inb (ps2_write_data inb outb 0xF4 d))"

text \<open>The polling loops of the timer: at most \<open>n\<close> bytes, while the next one is for this device.\<close>

primrec poll_bytes :: "'d inb \<Rightarrow> (u8 \<Rightarrow> bool) \<Rightarrow> (u8 \<Rightarrow> 's \<Rightarrow> 's) \<Rightarrow> nat \<Rightarrow> 'd \<times> 's \<Rightarrow> 'd \<times> 's" where
  "poll_bytes inb mine handle 0 ds = ds"
| "poll_bytes inb mine handle (Suc n) ds =
     (let (st, d1) = inb PS2_STATUS (fst ds) in
      if st AND 0x01 = 0 then (d1, snd ds)
      else if \<not> mine st then (d1, snd ds)
      else let (b, d2) = inb PS2_DATA d1 in poll_bytes inb mine handle n (d2, handle b (snd ds)))"

definition keyboard_poll :: "'d inb \<Rightarrow> 'd \<times> keyboard \<times> input \<Rightarrow> 'd \<times> keyboard \<times> input" where
  "keyboard_poll inb = poll_bytes inb (\<lambda>st. st AND 0x20 = 0) keyboard_handle_byte 8"

section \<open>The mouse\<close>

record mouse =
  cycle :: u8
  packet :: "u8 carray"
  packet_size :: int

definition mouse_boot :: mouse where
  "mouse_boot = \<lparr>cycle = 0, packet = (\<lambda>_. 0), packet_size = 3\<rparr>"

definition mouse_emit :: "mouse \<Rightarrow> input \<Rightarrow> input" where
  "mouse_emit m s =
     (let flags = packet m 0 in
      if flags AND 0xC0 \<noteq> 0 then s
      else let dx = (if flags AND 0x10 \<noteq> 0 then uint (packet m 1) - 256 else uint (packet m 1));
               dy = (if flags AND 0x20 \<noteq> 0 then uint (packet m 2) - 256 else uint (packet m 2));
               s1 = input_update_mouse dx (- dy) (flags AND 0x07) s
           in if packet_size m = 4 \<and> sint (packet m 3) \<noteq> 0 then input_mouse_wheel (sint (packet m 3)) s1 else s1)"

definition mouse_process_byte :: "u8 \<Rightarrow> mouse \<times> input \<Rightarrow> mouse \<times> input" where
  "mouse_process_byte b = (\<lambda>(m, s).
     if cycle m = 0 then
       if b AND 0x08 = 0 then (m, s) else (m\<lparr>packet := (packet m)(0 := b), cycle := 1\<rparr>, s)
     else if cycle m = 1 then (m\<lparr>packet := (packet m)(1 := b), cycle := 2\<rparr>, s)
     else if cycle m = 2 then
       let m1 = m\<lparr>packet := (packet m)(2 := b)\<rparr> in
       if packet_size m = 3 then (m1\<lparr>cycle := 0\<rparr>, mouse_emit (m1\<lparr>cycle := 0\<rparr>) s) else (m1\<lparr>cycle := 3\<rparr>, s)
     else let m1 = m\<lparr>packet := (packet m)(3 := b), cycle := 0\<rparr> in (m1, mouse_emit m1 s))"

definition mouse_isr :: "'d inb \<Rightarrow> 'd \<times> mouse \<times> input \<Rightarrow> 'd \<times> mouse \<times> input" where
  "mouse_isr inb = (\<lambda>(d, ms). let (b, d1) = inb PS2_DATA d in (d1, mouse_process_byte b ms))"

definition mouse_poll :: "'d inb \<Rightarrow> 'd \<times> mouse \<times> input \<Rightarrow> 'd \<times> mouse \<times> input" where
  "mouse_poll inb = poll_bytes inb (\<lambda>st. st AND 0x20 \<noteq> 0) mouse_process_byte 16"

primrec mouse_ack :: "'d inb \<Rightarrow> nat \<Rightarrow> 'd \<Rightarrow> u8 \<times> 'd" where
  "mouse_ack inb 0 d = (0, d)"
| "mouse_ack inb (Suc n) d =
     (let (st, d1) = inb PS2_STATUS d in
      if st AND 0x01 \<noteq> 0 \<and> st AND 0x20 \<noteq> 0 then inb PS2_DATA d1 else mouse_ack inb n d1)"

definition mouse_read_ack :: "'d inb \<Rightarrow> 'd \<Rightarrow> u8 \<times> 'd" where
  "mouse_read_ack inb = mouse_ack inb 1000"

text \<open>A command byte and the answer that is waited for after it.\<close>

definition mouse_cmd :: "'d inb \<Rightarrow> 'd outb \<Rightarrow> u8 \<Rightarrow> 'd \<Rightarrow> 'd" where
  "mouse_cmd inb outb b d = snd (mouse_read_ack inb (ps2_mouse_write inb outb b d))"

definition mouse_init :: "'d inb \<Rightarrow> 'd outb \<Rightarrow> 'd \<times> mouse \<Rightarrow> 'd \<times> mouse" where
  "mouse_init inb outb = (\<lambda>(d, m).
     let d1 = fold (mouse_cmd inb outb) [0xF6, 0xF3, 200, 0xF3, 100, 0xF3, 80, 0xF2] d;
         (ident, d2) = mouse_read_ack inb d1;
         m1 = (if ident = 0x03 \<or> ident = 0x04 then m\<lparr>packet_size := 4\<rparr> else m)
     in (fold (mouse_cmd inb outb) [0xF3, 200, 0xF4] d2, m1))"

section \<open>Mouse reports\<close>

text \<open>What the device sends for a movement, and what the driver makes of a report.\<close>

record report =
  r_dx :: int
  r_dy :: int
  r_buttons :: u8
  r_wheel :: u8

definition report_ok :: "report \<Rightarrow> bool" where
  "report_ok r \<longleftrightarrow> - 256 \<le> r_dx r \<and> r_dx r < 256 \<and> - 256 \<le> r_dy r \<and> r_dy r < 256 \<and> r_buttons r < 8"

definition report_flags :: "report \<Rightarrow> u8" where
  "report_flags r = ((r_buttons r OR 0x08) OR (if r_dx r < 0 then 0x10 else 0)) OR (if r_dy r < 0 then 0x20 else 0)"

definition report_bytes :: "int \<Rightarrow> report \<Rightarrow> u8 list" where
  "report_bytes n r = [report_flags r, word_of_int (r_dx r), word_of_int (r_dy r)] @ (if n = 4 then [r_wheel r] else [])"

definition report_effect :: "int \<Rightarrow> report \<Rightarrow> input \<Rightarrow> input" where
  "report_effect n r s =
     (let s1 = input_update_mouse (r_dx r) (- r_dy r) (r_buttons r) s
      in if n = 4 \<and> r_wheel r \<noteq> 0 then input_mouse_wheel (sint (r_wheel r)) s1 else s1)"

lemma small_buttons:
  assumes "(b :: u8) < 8"
  shows "b \<in> {0, 1, 2, 3, 4, 5, 6, 7}"
proof -
  have "unat b < 8" using assms by (simp add: word_less_nat_alt)
  then have "unat b \<in> {0, 1, 2, 3, 4, 5, 6, 7}" by auto
  then show ?thesis by (auto simp: word_unat_eq_iff)
qed

lemma report_flags_bits:
  assumes "r_buttons r < 8"
  shows "report_flags r AND 0x08 \<noteq> 0" "report_flags r AND 0xC0 = 0" "report_flags r AND 0x07 = r_buttons r"
    "report_flags r AND 0x10 \<noteq> 0 \<longleftrightarrow> r_dx r < 0" "report_flags r AND 0x20 \<noteq> 0 \<longleftrightarrow> r_dy r < 0"
  using small_buttons [OF assms] by (auto simp: report_flags_def)

lemma nine_bits:
  assumes "- 256 \<le> d" "d < 256"
  shows "(if d < 0 then uint (word_of_int d :: u8) - 256 else uint (word_of_int d :: u8)) = d"
proof (cases "d < 0")
  case True
  have "d mod 256 = (d + 256) mod 256" by simp
  also have "\<dots> = d + 256" using True assms by (intro mod_pos_pos_trivial) auto
  finally show ?thesis using True by (simp add: uint_word_of_int)
qed (use assms in \<open>simp add: uint_word_of_int\<close>)

lemma process_report:
  assumes "report_ok r" "cycle m = 0" "packet_size m = n" "n = 3 \<or> n = 4"
  shows "\<exists>pk. fold mouse_process_byte (report_bytes n r) (m, s) = (m\<lparr>packet := pk\<rparr>, report_effect n r s)"
proof -
  have b: "r_buttons r < 8" using assms(1) by (simp add: report_ok_def)
  note f = report_flags_bits [OF b]
  have d: "(if r_dx r < 0 then uint (word_of_int (r_dx r) :: u8) - 256 else uint (word_of_int (r_dx r) :: u8)) = r_dx r"
    "(if r_dy r < 0 then uint (word_of_int (r_dy r) :: u8) - 256 else uint (word_of_int (r_dy r) :: u8)) = r_dy r"
    using assms(1) nine_bits unfolding report_ok_def by blast+
  have w: "sint (r_wheel r) \<noteq> 0 \<longleftrightarrow> r_wheel r \<noteq> 0" by (simp add: signed_eq_0_iff)
  have e: "mouse_emit m' s = report_effect n r s"
    if "packet m' 0 = report_flags r" "packet m' 1 = word_of_int (r_dx r)" "packet m' 2 = word_of_int (r_dy r)"
       "n = 4 \<longrightarrow> packet m' 3 = r_wheel r" "packet_size m' = n" for m'
    unfolding mouse_emit_def report_effect_def Let_def that(1,2,3,5) f(3,4,5) d using that(4) w f(2) by auto
  have m3: "m\<lparr>cycle := 0\<rparr> = m" using assms(2) by simp
  show ?thesis
  proof (cases "n = 3")
    case True
    let ?m = "m\<lparr>packet := (packet m)(0 := report_flags r, 1 := word_of_int (r_dx r), 2 := word_of_int (r_dy r))\<rparr>"
    have "fold mouse_process_byte (report_bytes n r) (m, s) = (?m\<lparr>cycle := 0\<rparr>, mouse_emit (?m\<lparr>cycle := 0\<rparr>) s)"
      using True assms(2,3) f(1) by (simp add: report_bytes_def mouse_process_byte_def Let_def)
    moreover have "mouse_emit (?m\<lparr>cycle := 0\<rparr>) s = report_effect n r s" using True assms(3) by (intro e) simp_all
    moreover have "?m\<lparr>cycle := 0\<rparr> = ?m" using assms(2) by simp
    ultimately show ?thesis by auto
  next
    case False
    then have n: "n = 4" using assms(4) by simp
    let ?m = "m\<lparr>packet := (packet m)(0 := report_flags r, 1 := word_of_int (r_dx r), 2 := word_of_int (r_dy r), 3 := r_wheel r)\<rparr>"
    have "fold mouse_process_byte (report_bytes n r) (m, s) = (?m\<lparr>cycle := 0\<rparr>, mouse_emit (?m\<lparr>cycle := 0\<rparr>) s)"
      using n assms(2,3) f(1) by (simp add: report_bytes_def mouse_process_byte_def Let_def)
    moreover have "mouse_emit (?m\<lparr>cycle := 0\<rparr>) s = report_effect n r s" using n assms(3) by (intro e) simp_all
    moreover have "?m\<lparr>cycle := 0\<rparr> = ?m" using assms(2) by simp
    ultimately show ?thesis by auto
  qed
qed

text \<open>Between reports a byte without the sync bit is skipped.\<close>

lemma process_noise:
  assumes "\<forall>b \<in> set g. b AND 0x08 = 0" "cycle m = 0"
  shows "fold mouse_process_byte g (m, s) = (m, s)"
  using assms by (induction g) (simp_all add: mouse_process_byte_def)


section \<open>Keys\<close>

text \<open>The keys of the set 1 scan codes: shift, those with an \<open>E0\<close> prefix and the others, pressed or released.\<close>

datatype keystroke = Shift u8 bool | Extended u8 bool | Plain u8 bool

definition scan_code :: "u8 \<Rightarrow> bool \<Rightarrow> u8" where
  "scan_code c release = (if release then c OR 0x80 else c)"

primrec key_bytes :: "keystroke \<Rightarrow> u8 list" where
  "key_bytes (Shift c release) = [scan_code c release]"
| "key_bytes (Extended c release) = [0xE0, scan_code c release]"
| "key_bytes (Plain c release) = [scan_code c release]"

primrec key_ok :: "keystroke \<Rightarrow> bool" where
  "key_ok (Shift c release) \<longleftrightarrow> c = 0x2A \<or> c = 0x36"
| "key_ok (Extended c release) \<longleftrightarrow> c < 0x60"
| "key_ok (Plain c release) \<longleftrightarrow> c < 0x60 \<and> c \<noteq> 0x2A \<and> c \<noteq> 0x36"

definition key_event :: "bool \<Rightarrow> u8 \<Rightarrow> u8 \<Rightarrow> u16 \<Rightarrow> input_event" where
  "key_event release c ch key =
     (zero_event (if release then EV_KEY_UP else EV_KEY_DOWN))\<lparr>e_scancode := c, e_ch := ch, e_key := key\<rparr>"

primrec key_effect :: "keystroke \<Rightarrow> bool \<times> input \<Rightarrow> bool \<times> input" where
  "key_effect (Shift c release) bs = (\<not> release, snd bs)"
| "key_effect (Extended c release) bs =
     (fst bs, case arrow_key c of None \<Rightarrow> snd bs | Some key \<Rightarrow> input_push (Some (key_event release c 0 key)) (snd bs))"
| "key_effect (Plain c release) bs =
     (fst bs, input_push (Some (key_event release c ((if fst bs then map_upper else map_lower) c) 0)) (snd bs))"

lemma scan_code_bits:
  assumes "c < 0x60"
  shows "scan_code c release \<noteq> 0xE0" "scan_code c release AND 0x80 \<noteq> 0 \<longleftrightarrow> release" "scan_code c release AND 0x7F = c"
proof -
  have u: "unat c < 96" using assms by (simp add: word_less_nat_alt)
  have c: "c = take_bit 7 c" using u by (simp add: word_unat_eq_iff unsigned_take_bit_eq take_bit_nat_eq_self)
  have b: "bit c n \<Longrightarrow> n < 7" for n using c by (metis bit_take_bit_iff)
  have p: "bit (0x80 :: u8) n \<longleftrightarrow> n = 7" "bit (0x7F :: u8) n \<longleftrightarrow> n < 7" for n
    using bit_push_bit_iff [of 7 "1 :: u8" n] bit_mask_iff [of 7 n, where 'a = u8]
    by (auto simp: push_bit_eq_mult mask_eq_exp_minus_1 bit_1_iff simp del: bit_numeral_word_iff)
  have low: "c AND 0x80 = 0" "c AND 0x7F = c" "(c OR 0x80) AND 0x7F = c" "(c OR 0x80) AND 0x80 = 0x80"
    by (auto intro!: bit_eqI dest: b simp: bit_and_iff bit_or_iff p simp del: bit_numeral_word_iff)
  show "scan_code c release AND 0x80 \<noteq> 0 \<longleftrightarrow> release" "scan_code c release AND 0x7F = c"
    using low by (simp_all add: scan_code_def)
  then show "scan_code c release \<noteq> 0xE0" using assms by auto
qed

lemma handle_key:
  assumes "key_ok key" "\<not> ke0 k"
  shows "\<exists>k'. fold keyboard_handle_byte (key_bytes key) (k, s) = (k', snd (key_effect key (kshift k, s))) \<and>
     \<not> ke0 k' \<and> kshift k' = fst (key_effect key (kshift k, s)) \<and> kbd_count k' = kbd_count k + of_nat (length (key_bytes key))"
proof (cases key)
  case (Shift c release)
  then have "c < 0x60" using assms by auto
  note C = scan_code_bits [OF this, of release]
  show ?thesis using Shift assms C by (auto simp: keyboard_handle_byte_def Let_def)
next
  case (Extended c release)
  then have "c < 0x60" using assms by auto
  note C = scan_code_bits [OF this, of release]
  show ?thesis using Extended assms C(1,2)
    by (auto simp: keyboard_handle_byte_def Let_def C(3) key_event_def zero_event_def split: option.split)
next
  case (Plain c release)
  then have "c < 0x60" using assms by auto
  note C = scan_code_bits [OF this, of release]
  show ?thesis using Plain assms C(1,2)
    by (auto simp: keyboard_handle_byte_def Let_def C(3) key_event_def zero_event_def)
qed

section \<open>Properties\<close>

text \<open>C28: The mouse driver decodes what a mouse sends. From the start of a packet, for a list of reports with deltas of
  nine bits, each sent as its packet of three bytes (or four, with the wheel, when that has been negotiated) with any
  bytes before it that lack the sync bit, the driver applies exactly these reports to the pointer and the queue, in
  order, and is again at the start of a packet.\<close>

theorem mouse_stream:
  assumes "\<forall>(g, r) \<in> set rs. (\<forall>b \<in> set g. b AND 0x08 = 0) \<and> report_ok r"
    and "cycle m = 0" "packet_size m = n" "n = 3 \<or> n = 4"
  shows "\<exists>m'. fold mouse_process_byte (concat (map (\<lambda>(g, r). g @ report_bytes n r) rs)) (m, s) =
       (m', fold (\<lambda>(g, r). report_effect n r) rs s) \<and> cycle m' = 0 \<and> packet_size m' = n"
  using assms
proof (induction rs arbitrary: m s)
  case (Cons gr rs)
  obtain g r where gr: "gr = (g, r)" by fastforce
  have "report_ok r" "\<forall>b \<in> set g. b AND 0x08 = 0" using Cons.prems(1) gr by auto
  then obtain pk where "fold mouse_process_byte (g @ report_bytes n r) (m, s) = (m\<lparr>packet := pk\<rparr>, report_effect n r s)"
    using process_report [of r m n s] process_noise [of g m s] Cons.prems by auto
  moreover obtain m' where "fold mouse_process_byte (concat (map (\<lambda>(g, r). g @ report_bytes n r) rs)) (m\<lparr>packet := pk\<rparr>, report_effect n r s) =
       (m', fold (\<lambda>(g, r). report_effect n r) rs (report_effect n r s)) \<and> cycle m' = 0 \<and> packet_size m' = n"
    using Cons.IH [of "m\<lparr>packet := pk\<rparr>" "report_effect n r s"] Cons.prems by auto
  ultimately show ?case by (simp add: gr)
qed simp

theorem mouse_stream_witness:
  "let s = input_boot (\<lambda>_. zero_event EV_MOUSE_MOVE) in
   \<exists>m'. fold mouse_process_byte [0x01, 0x19, - 5, 3] (mouse_boot, s) = (m', input_update_mouse (- 5) (- 3) 1 s) \<and> cycle m' = 0"
  using mouse_stream [of "[([0x01], \<lparr>r_dx = - 5, r_dy = 3, r_buttons = 1, r_wheel = 0\<rparr>)]" mouse_boot 3
      "input_boot (\<lambda>_. zero_event EV_MOUSE_MOVE)"]
  by (auto simp: mouse_boot_def report_ok_def report_bytes_def report_flags_def report_effect_def Let_def)

text \<open>C31: The keyboard driver decodes what a keyboard sends. For any sequence of keys pressed and released, sent in scan
  code set 1, it queues one event for every arrow key and every key without prefix, with the scan code, the direction
  and the character that the state of the shift keys at that moment gives, drops the other prefixed keys, and counts the
  bytes.\<close>

theorem keyboard_stream:
  assumes "list_all key_ok ks" "\<not> ke0 k"
  shows "\<exists>k'. fold keyboard_handle_byte (concat (map key_bytes ks)) (k, s) = (k', snd (fold key_effect ks (kshift k, s))) \<and>
     \<not> ke0 k' \<and> kshift k' = fst (fold key_effect ks (kshift k, s)) \<and>
     kbd_count k' = kbd_count k + of_nat (length (concat (map key_bytes ks)))"
  using assms
proof (induction ks arbitrary: k s)
  case (Cons key ks)
  obtain k1 where k1: "fold keyboard_handle_byte (key_bytes key) (k, s) = (k1, snd (key_effect key (kshift k, s)))"
    "\<not> ke0 k1" "kshift k1 = fst (key_effect key (kshift k, s))" "kbd_count k1 = kbd_count k + of_nat (length (key_bytes key))"
    using handle_key [of key k s] Cons.prems by auto
  have "key_effect key (kshift k, s) = (kshift k1, snd (key_effect key (kshift k, s)))" using k1(3) by simp
  then show ?case using Cons.IH [of k1 "snd (key_effect key (kshift k, s))"] Cons.prems k1 by (simp add: add.assoc)
qed simp

theorem keyboard_stream_witness:
  "let s = input_boot (\<lambda>_. zero_event EV_MOUSE_MOVE) in
   \<exists>k'. fold keyboard_handle_byte [0x2A, 0x1E, 0x9E, 0xAA, 0xE0, 0x48] (\<lparr>kshift = False, ke0 = False, kbd_count = 0\<rparr>, s) =
     (k', input_push (Some (key_event False 0x48 0 KEY_UP))
            (input_push (Some (key_event True 0x1E 65 0)) (input_push (Some (key_event False 0x1E 65 0)) s))) \<and> kbd_count k' = 6"
  using keyboard_stream [of "[Shift 0x2A False, Plain 0x1E False, Plain 0x1E True, Shift 0x2A True, Extended 0x48 False]"
      "\<lparr>kshift = False, ke0 = False, kbd_count = 0\<rparr>" "input_boot (\<lambda>_. zero_event EV_MOUSE_MOVE)"]
  by (auto simp: scan_code_def map_upper_def upper_chars_def arrow_key_def Let_def)

end
