(* ===== verification/Path.thy ===== *)
theory Path
  imports Xfs
begin

text \<open>
  Absolute paths, \<open>path_abs\<close> of \<^verbatim>\<open>src/kernel/arch/x86_64/syscall.c\<close>: a path given by a program is joined to the
  current directory and reduced to its components. Strings are the bytes before their NUL.
\<close>

section \<open>Resolving a path\<close>

abbreviation (input) XOS_PATH_MAX :: nat where "XOS_PATH_MAX \<equiv> 256"
abbreviation (input) PATH_COMPS :: nat where "PATH_COMPS \<equiv> 32"
abbreviation (input) dot :: u8 where "dot \<equiv> 46"

definition path_join :: "u8 list \<Rightarrow> u8 list \<Rightarrow> u8 list option" where
  "path_join g_cwd inp =
     (if inp = [] then None
      else if hd inp = slash then (if length inp \<ge> XOS_PATH_MAX then None else Some inp)
      else if length g_cwd + 1 + length inp + 1 > XOS_PATH_MAX then None
      else Some (if g_cwd = [] \<or> last g_cwd \<noteq> slash then g_cwd @ slash # inp else g_cwd @ inp))"

text \<open>The loop over the components, with those kept so far.\<close>

function path_comps :: "u8 list \<Rightarrow> u8 list list \<Rightarrow> u8 list list option" where
  "path_comps p comps =
     (if p = [] then Some comps
      else let comp = component p; q = after_component p in
      if comp = [] \<or> comp = [dot] then path_comps q comps
      else if comp = [dot, dot] then path_comps q (butlast comps)
      else if length comps \<ge> PATH_COMPS then None
      else path_comps q (comps @ [comp]))"
  by pat_completeness auto
termination by (relation "measure (\<lambda>(p, comps). length p)") (auto simp: after_component_less)

declare path_comps.simps [simp del]

primrec path_emit :: "nat \<Rightarrow> u8 list list \<Rightarrow> u8 list \<Rightarrow> u8 list option" where
  "path_emit outsz [] buf = Some buf"
| "path_emit outsz (c # cs) buf =
     (if length buf + 1 + length c + 1 > outsz then None else path_emit outsz cs (buf @ slash # c))"

definition path_abs :: "u8 list \<Rightarrow> u8 list option \<Rightarrow> nat \<Rightarrow> u8 list option" where
  "path_abs g_cwd inp outsz =
     (case inp of
        None \<Rightarrow> None
      | Some i \<Rightarrow>
          if i = [] \<or> outsz < 2 then None
          else case path_join g_cwd i of
            None \<Rightarrow> None
          | Some joined \<Rightarrow>
              let p = (if joined \<noteq> [] \<and> hd joined = slash then tl joined else joined) in
              (case path_comps p [] of
                 None \<Rightarrow> None
               | Some comps \<Rightarrow> if comps = [] then Some [slash] else path_emit outsz comps []))"

section \<open>The current directory\<close>

definition sys_getcwd_impl :: "bool \<Rightarrow> nat \<Rightarrow> u8 list \<Rightarrow> u8 list option" where
  "sys_getcwd_impl buf len g_cwd =
     (if \<not> buf \<or> len = 0 then None else if length g_cwd + 1 > len then None else Some (g_cwd @ [0]))"

definition sys_chdir_impl :: "u8 list option \<Rightarrow> xfs \<Rightarrow> u8 list \<Rightarrow> bool \<times> u8 list" where
  "sys_chdir_impl path fs g_cwd =
     (case path of
        None \<Rightarrow> (False, g_cwd)
      | Some _ \<Rightarrow>
          (case path_abs g_cwd path XOS_PATH_MAX of
             None \<Rightarrow> (False, g_cwd)
           | Some apath \<Rightarrow>
               (case xfs_stat (Some apath) True fs of
                  None \<Rightarrow> (False, g_cwd)
                | Some st \<Rightarrow>
                    if d_flags st AND 1 = 0 then (False, g_cwd)
                    else if length apath \<ge> XOS_PATH_MAX then (False, g_cwd)
                    else (True, apath))))"

section \<open>Paths as lists of names\<close>

fun split_path :: "u8 list \<Rightarrow> u8 list list" where
  "split_path [] = [[]]"
| "split_path (c # p) =
     (if c = slash then [] # split_path p else (c # hd (split_path p)) # tl (split_path p))"

definition norm_step :: "u8 list list \<Rightarrow> u8 list \<Rightarrow> u8 list list" where
  "norm_step cs w = (if w = [] \<or> w = [dot] then cs else if w = [dot, dot] then butlast cs else cs @ [w])"

definition normalise :: "u8 list list \<Rightarrow> u8 list list" where
  "normalise ws = foldl norm_step [] ws"

definition show_path :: "u8 list list \<Rightarrow> u8 list" where
  "show_path cs = (if cs = [] then [slash] else concat (map (\<lambda>c. slash # c) cs))"

text \<open>A name a directory entry can have.\<close>

definition name_ok :: "u8 list \<Rightarrow> bool" where
  "name_ok w \<longleftrightarrow> w \<noteq> [] \<and> w \<noteq> [dot] \<and> w \<noteq> [dot, dot] \<and> slash \<notin> set w \<and> length w < XFS_NAME_MAX"

lemma split_path_ne [simp]: "split_path p \<noteq> []"
  by (cases p) auto

lemma split_path_word: "slash \<notin> set w \<Longrightarrow> split_path w = [w]" "slash \<notin> set w \<Longrightarrow> split_path (w @ slash # q) = w # split_path q"
  by (induction w) auto

lemma split_path_cases:
  obtains (single) "slash \<notin> set p" "split_path p = [p]"
  | (more) w q where "p = w @ slash # q" "slash \<notin> set w" "split_path p = w # split_path q"
proof (cases "slash \<in> set p")
  case True
  then obtain w q where "p = w @ slash # q" "slash \<notin> set w" using split_list_first by metis
  then show thesis using more split_path_word(2) by blast
qed (use single split_path_word(1) in blast)

lemma component_short:
  assumes "slash \<notin> set w" "length w < XFS_NAME_MAX"
  shows "component w = w" "after_component w = []" "component (w @ slash # q) = w" "after_component (w @ slash # q) = q"
proof -
  have t: "takeWhile (\<lambda>c. c \<noteq> slash) w = w" using assms(1) by (auto simp: takeWhile_eq_all_conv)
  then have t': "takeWhile (\<lambda>c. c \<noteq> slash) (w @ slash # q) = w" by (simp add: takeWhile_tail)
  show "component w = w" "component (w @ slash # q) = w" unfolding component_def t t' using assms(2) by simp_all
  then show "after_component w = []" "after_component (w @ slash # q) = q" by (simp_all add: after_component_def)
qed

lemma name_ok_component: "component p \<noteq> [] \<Longrightarrow> component p \<noteq> [dot] \<Longrightarrow> component p \<noteq> [dot, dot] \<Longrightarrow> name_ok (component p)"
  by (auto simp: name_ok_def component_def dest: in_set_takeD set_takeWhileD)

text \<open>The loop keeps names only, and computes the normal form when no name has to be cut.\<close>

lemma path_comps_names:
  "path_comps p comps = Some cs \<Longrightarrow> list_all name_ok comps \<Longrightarrow> length comps \<le> PATH_COMPS \<Longrightarrow>
     list_all name_ok cs \<and> length cs \<le> PATH_COMPS"
proof (induction p comps rule: path_comps.induct)
  case (1 p comps)
  have b: "list_all name_ok (butlast comps)" "length (butlast comps) \<le> PATH_COMPS"
    using "1.prems" by (auto simp: list_all_iff dest: in_set_butlastD)
  have a: "list_all name_ok (comps @ [component p])" if "component p \<noteq> []" "component p \<noteq> [dot]" "component p \<noteq> [dot, dot]"
    using "1.prems" name_ok_component that by simp
  have room: "length comps < PATH_COMPS" if "p \<noteq> []" "component p \<noteq> []" "component p \<noteq> [dot]" "component p \<noteq> [dot, dot]"
    using "1.prems"(1) that by (simp add: path_comps.simps [of p comps] Let_def split: if_splits)
  consider "p = []" | "p \<noteq> []" "component p = [] \<or> component p = [dot]" | "p \<noteq> []" "component p = [dot, dot]"
    | "p \<noteq> []" "component p \<noteq> []" "component p \<noteq> [dot]" "component p \<noteq> [dot, dot]" "length comps < PATH_COMPS"
    using room by blast
  then show ?case
  proof cases
    case 2
    then show ?thesis using "1.IH"(1) [OF _ refl refl] "1.prems" by (simp add: path_comps.simps [of p comps])
  next
    case 3
    then show ?thesis using "1.IH"(2) [OF _ refl refl] "1.prems"(1) b by (simp add: path_comps.simps [of p comps])
  next
    case 4
    then show ?thesis using "1.IH"(3) [OF _ refl refl] "1.prems"(1) a by (simp add: path_comps.simps [of p comps])
  qed (use "1.prems" in \<open>simp add: path_comps.simps\<close>)
qed

lemma path_comps_normalise:
  "\<forall>w \<in> set (split_path p). length w < XFS_NAME_MAX \<Longrightarrow> length comps + length (filter (\<lambda>w. w \<noteq> []) (split_path p)) \<le> PATH_COMPS \<Longrightarrow>
     path_comps p comps = Some (foldl norm_step comps (split_path p))"
proof (induction "length p" arbitrary: p comps rule: less_induct)
  case less
  show ?case
  proof (cases p rule: split_path_cases)
    case single
    then have "length p < XFS_NAME_MAX" using less.prems by simp
    note c = component_short(1,2) [OF single(1) this]
    show ?thesis
      using less.prems(2) single by (cases "p = []") (simp_all add: path_comps.simps c norm_step_def)
  next
    case (more w q)
    then have "length w < XFS_NAME_MAX" using less.prems by simp
    note c = component_short(3,4) [OF more(2) this, of q]
    have IH: "path_comps q ds = Some (foldl norm_step ds (split_path q))"
      if "length ds + length (filter (\<lambda>w. w \<noteq> []) (split_path q)) \<le> PATH_COMPS" for ds
      using less.hyps [of q ds] less.prems(1) more that by simp
    have "length comps + (if w = [] then 0 else 1) + length (filter (\<lambda>w. w \<noteq> []) (split_path q)) \<le> PATH_COMPS"
      using less.prems(2) more(3) by (simp split: if_splits)
    moreover have "p \<noteq> []" using more(1) by simp
    ultimately show ?thesis
      by (simp add: path_comps.simps [of p] more(3) norm_step_def Let_def IH c [folded more(1)] split: if_splits)
  qed
qed


text \<open>Writing the names out again.\<close>

lemma path_emit_concat:
  "length buf + length (concat (map (\<lambda>c. slash # c) cs)) < outsz \<Longrightarrow> path_emit outsz cs buf = Some (buf @ concat (map (\<lambda>c. slash # c) cs))"
  by (induction cs arbitrary: buf) auto

lemma path_emit_Some:
  "path_emit outsz cs buf = Some out \<Longrightarrow> length buf < outsz \<Longrightarrow> out = buf @ concat (map (\<lambda>c. slash # c) cs) \<and> length out < outsz"
proof (induction cs arbitrary: buf)
  case (Cons c cs)
  have "path_emit outsz cs (buf @ slash # c) = Some out" "length (buf @ slash # c) < outsz"
    using Cons.prems by (auto split: if_splits)
  from Cons.IH [OF this] show ?case by auto
qed simp

lemma show_path_split:
  assumes "list_all name_ok cs"
  shows "split_path (show_path cs) = [] # (if cs = [] then [[]] else cs)"
proof -
  have "split_path (concat (map (\<lambda>c. slash # c) cs)) = [] # cs" if "cs \<noteq> []" "list_all name_ok cs" for cs
    using that
  proof (induction cs)
    case (Cons c cs)
    then have "slash \<notin> set c" by (simp add: name_ok_def)
    then show ?case using Cons split_path_word by (cases cs) auto
  qed simp
  then show ?thesis using assms by (auto simp: show_path_def)
qed

lemma normalise_names: "list_all name_ok cs \<Longrightarrow> foldl norm_step ds cs = ds @ cs"
  by (induction cs arbitrary: ds) (auto simp: norm_step_def name_ok_def)

lemma norm_step_ok: "list_all name_ok cs \<Longrightarrow> slash \<notin> set w \<Longrightarrow> length w < XFS_NAME_MAX \<Longrightarrow> list_all name_ok (norm_step cs w)"
  by (auto simp: norm_step_def name_ok_def list_all_iff dest: in_set_butlastD)

lemma split_path_no_slash: "w \<in> set (split_path p) \<Longrightarrow> slash \<notin> set w"
proof (induction p arbitrary: w)
  case (Cons c p)
  show ?case
  proof (cases "c = slash")
    case False
    then have "w = c # hd (split_path p) \<or> w \<in> set (tl (split_path p))" using Cons.prems by auto
    then show ?thesis using Cons.IH False by (metis list.set_sel set_ConsD split_path_ne)
  qed (use Cons in auto)
qed simp

lemma foldl_norm_ok:
  "list_all name_ok cs \<Longrightarrow> \<forall>w \<in> set ws. slash \<notin> set w \<and> length w < XFS_NAME_MAX \<Longrightarrow> list_all name_ok (foldl norm_step cs ws)"
  by (induction ws arbitrary: cs) (auto intro: norm_step_ok)

lemma foldl_norm_length:
  "length (concat (map (\<lambda>c. slash # c) (foldl norm_step cs ws))) \<le> length (concat (map (\<lambda>c. slash # c) cs)) + length (concat (map (\<lambda>c. slash # c) ws))"
proof (induction ws arbitrary: cs)
  case (Cons w ws)
  have "length (concat (map (\<lambda>c. slash # c) (norm_step cs w))) \<le> length (concat (map (\<lambda>c. slash # c) cs)) + length (slash # w)"
    by (cases cs rule: rev_cases) (auto simp: norm_step_def)
  then show ?case using Cons.IH [of "norm_step cs w"] by simp
qed simp

lemma split_path_length: "length (concat (map (\<lambda>c. slash # c) (split_path p))) = Suc (length p)"
proof (induction p)
  case (Cons c p)
  obtain w ws where "split_path p = w # ws" by (cases "split_path p") auto
  with Cons show ?case by auto
qed simp

text \<open>What a successful call gives, whatever the length of the names.\<close>

lemma path_abs_names:
  assumes "path_abs g_cwd inp outsz = Some out"
  shows "\<exists>cs. list_all name_ok cs \<and> length cs \<le> PATH_COMPS \<and> out = show_path cs \<and> length out < outsz"
proof -
  from assms obtain p cs where cs: "path_comps p [] = Some cs" and out: "if cs = [] then out = [slash] else path_emit outsz cs [] = Some out"
    and sz: "2 \<le> outsz"
    by (auto simp: path_abs_def Let_def split: option.splits if_splits)
  have "list_all name_ok cs \<and> length cs \<le> PATH_COMPS" using path_comps_names [OF cs] by simp
  moreover have "out = show_path cs \<and> length out < outsz"
    using out sz path_emit_Some [of outsz cs "[]" out] by (cases "cs = []") (auto simp: show_path_def)
  ultimately show ?thesis by blast
qed

lemma path_join_length: "path_join g_cwd inp = Some p \<Longrightarrow> inp \<noteq> [] \<and> length p < XOS_PATH_MAX"
  by (auto simp: path_join_def split: if_splits)

lemma path_abs_normal:
  assumes p: "path_join g_cwd inp = Some (slash # p)" and short: "\<forall>w \<in> set (split_path p). length w < XFS_NAME_MAX"
    and few: "length (filter (\<lambda>w. w \<noteq> []) (split_path p)) \<le> PATH_COMPS"
  shows "path_abs g_cwd (Some inp) XOS_PATH_MAX = Some (show_path (normalise (split_path p)))"
proof -
  have ne: "inp \<noteq> []" "length (slash # p) < XOS_PATH_MAX" using path_join_length [OF p] by simp_all
  have "path_comps p [] = Some (normalise (split_path p))" using path_comps_normalise [of p "[]"] short few by (simp add: normalise_def)
  moreover have "length (concat (map (\<lambda>c. slash # c) (normalise (split_path p)))) < XOS_PATH_MAX"
    using foldl_norm_length [of "[]" "split_path p"] ne(2) unfolding normalise_def split_path_length by simp
  ultimately show ?thesis using p ne(1) path_emit_concat [of "[]" _ XOS_PATH_MAX] by (simp add: path_abs_def show_path_def)
qed

section \<open>Properties\<close>



end
