(* ===== verification/Sysfs.thy ===== *)
theory Sysfs
  imports Xfs Sched Heap Console Input Bootargs
begin

text \<open>
  The file system of kernel state under \<^verbatim>\<open>/sys\<close>, \<^verbatim>\<open>src/kernel/fs/sysfs.c\<close>: files rendered to text when they are opened,
  and files whose writes change the running system. The state is what the generators read: the scheduler, the memory
  managers, the input queue, the console and what the boot found out. Strings are the bytes before their NUL; \<open>c\<close> is the
  CPU of the caller. A system call always has a current process, so its pid is 0 only where that pointer would be NULL.
\<close>

section \<open>State\<close>

abbreviation (input) SYSFS_FD_BASE :: int where "SYSFS_FD_BASE \<equiv> 512"
abbreviation (input) SYSFS_MAX_FDS :: nat where "SYSFS_MAX_FDS \<equiv> 32"
abbreviation (input) SYSFS_BUF_MAX :: nat where "SYSFS_BUF_MAX \<equiv> 4096"

record cpu_features =
  cf_vendor :: "u8 list"
  cf_brand :: "u8 list"
  cf_family :: u32
  cf_model :: u32
  cf_stepping :: u32
  cf_xcr0 :: u64
  cf_nx :: bool
  cf_smep :: bool
  cf_smap :: bool
  cf_umip :: bool
  cf_pge :: bool
  cf_pcid :: bool
  cf_xsave :: bool
  cf_avx :: bool
  cf_avx2 :: bool
  cf_avx512f :: bool
  cf_x2apic :: bool
  cf_rdtscp :: bool
  cf_pdpe1gb :: bool
  cf_aes :: bool
  cf_rdrand :: bool
  cf_hypervisor :: bool

record gpu_fb_info =
  gi_backing_phys :: u64
  gi_backing_size :: u64
  gi_width :: u32
  gi_height :: u32
  gi_stride :: u32
  gi_virgl :: u32

record sysfs_fd =
  sf_used :: bool
  sf_is_dir :: bool
  sf_pid :: u32
  sf_offset :: u32
  sf_len :: u32
  sf_path :: "u8 list"
  sf_data :: "u8 list"

text \<open>\<open>w_gpu\<close> is the answer of \<open>virtio_gpu_get_fb_info\<close>.\<close>

record sysw =
  w_sched :: sched
  w_pmm :: pmm
  w_heap :: heap
  w_input :: input
  w_console :: console
  w_boot :: bootargs
  w_cpu :: cpu_features
  w_cpu_count :: u32
  w_smp :: bool
  w_tsc_hz :: u64
  w_gpu :: "gpu_fb_info option"
  w_fds :: "sysfs_fd carray"

section \<open>Text\<close>

definition ascii :: "string \<Rightarrow> u8 list" where "ascii = map of_char"

lemma ascii_append: "ascii (s @ t) = ascii s @ ascii t"
  by (simp add: ascii_def)

lemma ascii_length [simp]: "length (ascii s) = length s"
  by (simp add: ascii_def)

lemma ascii_take: "take n (ascii s) = ascii (take n s)" "drop n (ascii s) = ascii (drop n s)"
  by (simp_all add: ascii_def take_map drop_map)

lemma ascii_eq_iff [simp]: "ascii s = ascii t \<longleftrightarrow> s = t"
proof -
  have "inj (of_char :: char \<Rightarrow> u8)"
  proof (rule injI)
    fix c d :: char assume "(of_char c :: u8) = of_char d"
    then have "unat (of_nat (of_char c) :: u8) = unat (of_nat (of_char d) :: u8)" by (simp only: of_nat_of_char)
    then have "of_char c mod 256 = (of_char d mod 256 :: nat)" by (simp add: unat_of_nat)
    then show "c = d" by (metis char_of_char char_of_mod_256)
  qed
  then show ?thesis by (simp add: ascii_def inj_map_eq_map)
qed

lemma ascii_Nil_iff [simp]: "ascii s = [] \<longleftrightarrow> s = []"
  by (simp add: ascii_def)

text \<open>The buffer is the text so far; it has room for one byte less than its size.\<close>

definition sb_putc :: "u8 \<Rightarrow> u8 list \<Rightarrow> u8 list" where
  "sb_putc ch s = (if length s + 1 < SYSFS_BUF_MAX then s @ [ch] else s)"

definition sb_puts :: "u8 list \<Rightarrow> u8 list \<Rightarrow> u8 list" where
  "sb_puts str s = fold sb_putc str s"

definition sb_putu :: "u64 \<Rightarrow> u8 list \<Rightarrow> u8 list" where
  "sb_putu v s = fold sb_putc (uint_chars v 10 False) s"

definition sb_puti :: "int \<Rightarrow> u8 list \<Rightarrow> u8 list" where
  "sb_puti v s = (if v < 0 then sb_putu (of_int (- v)) (sb_putc 45 s) else sb_putu (of_int v) s)"

definition sb_puthex :: "u64 \<Rightarrow> u8 list \<Rightarrow> u8 list" where
  "sb_puthex v s = fold sb_putc (uint_chars v 16 False) (sb_puts (ascii ''0x'') s)"

text \<open>One call after the other.\<close>

definition sb_seq :: "(u8 list \<Rightarrow> u8 list) list \<Rightarrow> u8 list \<Rightarrow> u8 list" where
  "sb_seq fs s = fold (\<lambda>f. f) fs s"

definition sb_kv_u :: "string \<Rightarrow> u64 \<Rightarrow> u8 list \<Rightarrow> u8 list" where
  "sb_kv_u k v = sb_seq [sb_puts (ascii k), sb_puts (ascii '': ''), sb_putu v, sb_putc 10]"

definition sb_kv_s :: "string \<Rightarrow> u8 list \<Rightarrow> u8 list \<Rightarrow> u8 list" where
  "sb_kv_s k v = sb_seq [sb_puts (ascii k), sb_puts (ascii '': ''), sb_puts v, sb_putc 10]"

definition sb_kv_hex :: "string \<Rightarrow> u64 \<Rightarrow> u8 list \<Rightarrow> u8 list" where
  "sb_kv_hex k v = sb_seq [sb_puts (ascii k), sb_puts (ascii '': ''), sb_puthex v, sb_putc 10]"

section \<open>Path helpers\<close>

definition path_after :: "u8 list \<Rightarrow> u8 list \<Rightarrow> u8 list option" where
  "path_after path pfx = (if take (length pfx) path = pfx then Some (drop (length pfx) path) else None)"

text \<open>The number, all ones when there is no digit, and what follows it. The sum wraps at 64 bits.\<close>

definition parse_u64 :: "u8 list \<Rightarrow> u64 \<times> u8 list" where
  "parse_u64 s =
     (let ds = takeWhile is_digit s
      in (if ds = [] then - 1 else foldl (\<lambda>v d. v * 10 + ucast (d - 48)) 0 ds, dropWhile is_digit s))"

definition after_slash :: "u8 list \<Rightarrow> u8 list" where
  "after_slash path = rev (takeWhile (\<lambda>b. b \<noteq> slash) (rev path))"

section \<open>Generators\<close>

definition state_name :: "proc_state \<Rightarrow> string" where
  "state_name st = (case st of PROC_DEAD \<Rightarrow> ''dead'' | PROC_READY \<Rightarrow> ''ready'' | PROC_RUNNING \<Rightarrow> ''running'' | PROC_BLOCKED \<Rightarrow> ''blocked'')"

definition prio_name :: "u8 \<Rightarrow> string" where
  "prio_name p = (if p = 0 then ''high'' else if p = 1 then ''normal'' else if p = 2 then ''low'' else ''?'')"

definition proc_name :: "proc \<Rightarrow> u8 list" where
  "proc_name p = (if p_name p \<noteq> [] then ascii (p_name p) else ascii ''(kernel)'')"

definition gen_kernel :: "sysw \<Rightarrow> u8 list \<Rightarrow> u8 list" where
  "gen_kernel w =
     (let hz = ticks_hz (w_sched w); t = ticks (w_sched w) in
      sb_seq
        [sb_kv_s ''name'' (ascii ''X OS''), sb_kv_s ''arch'' (ascii ''x86_64''), sb_kv_u ''ticks'' t, sb_kv_u ''tick_hz'' hz,
         sb_kv_u ''uptime_ms'' (if hz \<noteq> 0 then (t * 1000) div hz else 0), sb_kv_u ''uptime_s'' (if hz \<noteq> 0 then t div hz else 0),
         sb_kv_s ''boot_args'' (bootargs_raw (w_boot w)), sb_kv_u ''cpus'' (ucast (w_cpu_count w)),
         sb_kv_u ''smp'' (if w_smp w then 1 else 0)])"

definition cpu_flags :: "cpu_features \<Rightarrow> (bool \<times> string) list" where
  "cpu_flags g =
     [(cf_nx g, '' nx''), (cf_smep g, '' smep''), (cf_smap g, '' smap''), (cf_umip g, '' umip''),
      (cf_pge g, '' pge''), (cf_pcid g, '' pcid''), (cf_xsave g, '' xsave''), (cf_avx g, '' avx''),
      (cf_avx2 g, '' avx2''), (cf_avx512f g, '' avx512f''), (cf_x2apic g, '' x2apic''), (cf_rdtscp g, '' rdtscp''),
      (cf_pdpe1gb g, '' 1gb-pages''), (cf_aes g, '' aes''), (cf_rdrand g, '' rdrand''), (cf_hypervisor g, '' hypervisor'')]"

definition gen_cpu :: "sysw \<Rightarrow> u8 list \<Rightarrow> u8 list" where
  "gen_cpu w =
     (let g = w_cpu w in
      sb_seq
        ([sb_kv_s ''vendor'' (cf_vendor g), sb_kv_s ''brand'' (if cf_brand g \<noteq> [] then cf_brand g else ascii ''unknown''),
          sb_kv_u ''family'' (ucast (cf_family g)), sb_kv_u ''model'' (ucast (cf_model g)), sb_kv_u ''stepping'' (ucast (cf_stepping g)),
          sb_kv_u ''count'' (ucast (w_cpu_count w)), sb_kv_u ''tsc_hz'' (w_tsc_hz w), sb_kv_hex ''xcr0'' (cf_xcr0 g),
          sb_puts (ascii ''features:'')] @
         map (\<lambda>(on, name). if on then sb_puts (ascii name) else (\<lambda>s. s)) (cpu_flags g) @ [sb_putc 10]))"

definition gen_mem :: "sysw \<Rightarrow> u8 list \<Rightarrow> u8 list" where
  "gen_mem w =
     (let all = pmm_total_bytes (w_pmm w); used = pmm_used_bytes (w_pmm w); left = (if all > used then all - used else 0) in
      sb_seq
        [sb_kv_u ''phys_total'' all, sb_kv_u ''phys_used'' used, sb_kv_u ''phys_free'' left,
         sb_kv_u ''phys_total_mb'' (drop_bit 20 all), sb_kv_u ''phys_free_mb'' (drop_bit 20 left),
         sb_kv_u ''heap_size'' (heap_size (w_heap w)), sb_kv_u ''heap_used'' (heap_used (w_heap w)), sb_kv_u ''page_size'' 4096])"

definition gen_input :: "sysw \<Rightarrow> u8 list \<Rightarrow> u8 list" where
  "gen_input w =
     sb_seq [sb_puts (ascii ''mouse_x: ''), sb_puti (input_mouse_x (w_input w)), sb_putc 10,
             sb_puts (ascii ''mouse_y: ''), sb_puti (input_mouse_y (w_input w)), sb_putc 10]"

definition gen_display :: "sysw \<Rightarrow> u8 list \<Rightarrow> u8 list" where
  "gen_display w =
     (case w_gpu w of
        None \<Rightarrow> sb_puts (ascii ''present: 0'' @ [10])
      | Some g \<Rightarrow>
          sb_seq
            [sb_kv_s ''driver'' (ascii ''virtio-gpu''), sb_kv_u ''present'' 1, sb_kv_u ''width'' (ucast (gi_width g)),
             sb_kv_u ''height'' (ucast (gi_height g)), sb_kv_u ''stride'' (ucast (gi_stride g)), sb_kv_u ''virgl'' (ucast (gi_virgl g)),
             sb_kv_hex ''fb_phys'' (gi_backing_phys g), sb_kv_u ''fb_bytes'' (gi_backing_size g)])"

definition gen_proc_one :: "proc \<Rightarrow> u8 list \<Rightarrow> u8 list" where
  "gen_proc_one p =
     sb_seq
       [sb_kv_u ''pid'' (p_pid p), sb_kv_s ''name'' (proc_name p), sb_kv_s ''state'' (ascii (state_name (p_state p))),
        sb_kv_s ''prio'' (ascii (prio_name (p_priority p))), sb_kv_u ''ppid'' (p_parent_pid p), sb_kv_u ''tgid'' (p_tgid p),
        sb_kv_u ''ring'' (if p_ring3 p then 3 else 0), sb_kv_u ''no_preempt'' (if p_no_preempt p then 1 else 0),
        sb_kv_u ''sleep_until'' (p_sleep_until p), sb_kv_hex ''pml4'' (p_pml4_phys p), sb_kv_hex ''rip'' (p_rip p)]"

text \<open>The slots that show: not free, and not the idle tasks.\<close>

definition shown :: "proc \<Rightarrow> bool" where
  "shown p \<longleftrightarrow> \<not> (p_state p = PROC_DEAD \<and> p_reaped p) \<and> p_pid p \<noteq> 0"

definition shown_procs :: "sched \<Rightarrow> proc list" where
  "shown_procs s = filter shown (map (procs s) [0..<SCHED_MAX_PROCS])"

definition proc_row :: "proc \<Rightarrow> u8 list \<Rightarrow> u8 list" where
  "proc_row p =
     sb_seq [sb_putu (p_pid p), sb_putc 9, sb_putu (p_parent_pid p), sb_putc 9, sb_puts (ascii (state_name (p_state p))), sb_putc 9,
             sb_puts (ascii (prio_name (p_priority p))), sb_putc 9, sb_putu (if p_ring3 p then 3 else 0), sb_putc 9,
             sb_puts (proc_name p), sb_putc 10]"

definition table_head :: "u8 list" where
  "table_head = ascii ''PID'' @ [9] @ ascii ''PPID'' @ [9] @ ascii ''STATE'' @ [9] @ ascii ''PRIO'' @ [9] @ ascii ''RING'' @ [9] @ ascii ''NAME'' @ [10]"

definition gen_proc_table :: "sysw \<Rightarrow> u8 list \<Rightarrow> u8 list" where
  "gen_proc_table w s = fold proc_row (shown_procs (w_sched w)) (sb_puts table_head s)"

definition gen_log :: "sysw \<Rightarrow> u8 list \<Rightarrow> u8 list" where
  "gen_log w s = msgbuf_copy True (SYSFS_BUF_MAX - 1) (w_console w)"

section \<open>The tree\<close>

definition dir_root :: "string list" where "dir_root = [''kernel'', ''cpu'', ''mem'', ''proc'', ''input'', ''display'']"
definition dir_kernel :: "string list" where "dir_kernel = [''info'', ''uptime'', ''log'']"
definition dir_procent :: "string list" where "dir_procent = [''status'', ''name'', ''state'', ''prio'', ''kill'']"

definition dir_for :: "u8 list \<Rightarrow> sched \<Rightarrow> string list option" where
  "dir_for path s =
     (if path = ascii ''/sys'' \<or> path = ascii ''/sys/'' then Some dir_root
      else if path = ascii ''/sys/kernel'' then Some dir_kernel
      else if path = ascii ''/sys/cpu'' then Some [''info'']
      else if path = ascii ''/sys/mem'' then Some [''info'']
      else if path = ascii ''/sys/input'' then Some [''mouse'']
      else if path = ascii ''/sys/display'' then Some [''info'']
      else if path = ascii ''/sys/proc'' then Some dir_root
      else case path_after path (ascii ''/sys/proc/'') of
             None \<Rightarrow> None
           | Some rest \<Rightarrow>
               if rest = [] then None
               else let (pid, q) = parse_u64 rest in
                    if pid \<noteq> - 1 \<and> q = [] \<and> proc_by_pid pid s \<noteq> None then Some dir_procent else None)"

definition render_proc :: "proc \<Rightarrow> u8 list \<Rightarrow> u8 list \<Rightarrow> u8 list option" where
  "render_proc p leaf s =
     (if leaf = ascii ''status'' then Some (gen_proc_one p s)
      else if leaf = ascii ''name'' then Some (sb_putc 10 (sb_puts (proc_name p) s))
      else if leaf = ascii ''state'' then Some (sb_putc 10 (sb_puts (ascii (state_name (p_state p))) s))
      else if leaf = ascii ''prio'' then Some (sb_putc 10 (sb_puts (ascii (prio_name (p_priority p))) s))
      else if leaf = ascii ''kill'' then Some (sb_puts (ascii ''0'' @ [10]) s)
      else None)"

definition render_fixed :: "nat \<Rightarrow> u8 list \<Rightarrow> sysw \<Rightarrow> u8 list \<Rightarrow> u8 list option" where
  "render_fixed c path w s =
     (if path = ascii ''/sys/kernel/info'' then Some (gen_kernel w s)
      else if path = ascii ''/sys/kernel/log'' then Some (gen_log w s)
      else if path = ascii ''/sys/cpu/info'' then Some (gen_cpu w s)
      else if path = ascii ''/sys/mem/info'' then Some (gen_mem w s)
      else if path = ascii ''/sys/input/mouse'' then Some (gen_input w s)
      else if path = ascii ''/sys/display/info'' then Some (gen_display w s)
      else if path = ascii ''/sys/kernel/uptime'' then
        (let hz = ticks_hz (w_sched w) in Some (sb_putc 10 (sb_putu (if hz \<noteq> 0 then ticks (w_sched w) div hz else 0) s)))
      else if path = ascii ''/sys/proc/self'' then
        Some (sb_putc 10 (case proc_current c (w_sched w) of None \<Rightarrow> s | Some i \<Rightarrow> sb_putu (p_pid (procs (w_sched w) i)) s))
      else None)"

definition render_pid :: "u8 list \<Rightarrow> sched \<Rightarrow> u8 list \<Rightarrow> u8 list option" where
  "render_pid rest sc s =
     (let (pid, q) = parse_u64 rest in
      if pid = - 1 then None
      else case q of
        [] \<Rightarrow> None
      | b # leaf \<Rightarrow>
          if b \<noteq> slash then None
          else (case proc_by_pid pid sc of None \<Rightarrow> None | Some i \<Rightarrow> render_proc (procs sc i) leaf s))"

definition render_file :: "nat \<Rightarrow> u8 list \<Rightarrow> sysw \<Rightarrow> u8 list \<Rightarrow> u8 list option" where
  "render_file c path w s =
     (case render_fixed c path w s of
        Some t \<Rightarrow> Some t
      | None \<Rightarrow>
          (case path_after path (ascii ''/sys/proc/'') of
             Some (r # rest) \<Rightarrow> render_pid (r # rest) (w_sched w) s
           | _ \<Rightarrow> if path = ascii ''/sys/proc'' then Some (gen_proc_table w s) else None))"

section \<open>Writes\<close>

definition trim :: "u8 list \<Rightarrow> u8 list" where
  "trim s = rev (dropWhile (\<lambda>b. b = 10 \<or> b = 13 \<or> b = 32) (rev s))"

text \<open>The priority a value names: a word, or a number up to that of \<open>PRIO_LOW\<close>.\<close>

definition prio_value :: "u8 list \<Rightarrow> u8 option" where
  "prio_value v =
     (if v = ascii ''high'' then Some 0
      else if v = ascii ''normal'' then Some 1
      else if v = ascii ''low'' then Some 2
      else let n = fst (parse_u64 v) in if n > 2 then None else Some (ucast n))"

text \<open>\<open>kill\<close> is \<open>proc_kill\<close> as the caller's CPU runs it.\<close>

definition write_proc :: "(u64 \<Rightarrow> sched \<Rightarrow> sched) \<Rightarrow> u8 list \<Rightarrow> u8 list \<Rightarrow> sched \<Rightarrow> sched option" where
  "write_proc kill rest v s =
     (let (pid, q) = parse_u64 rest in
      if pid = - 1 then None
      else case q of
        [] \<Rightarrow> None
      | b # leaf \<Rightarrow>
          if b \<noteq> slash then None
          else (case proc_by_pid pid s of
                  None \<Rightarrow> None
                | Some i \<Rightarrow>
                    if leaf = ascii ''kill'' then Some (kill pid s)
                    else if leaf = ascii ''prio'' then map_option (\<lambda>prio. proc_set_priority i prio s) (prio_value v)
                    else None))"

definition write_mouse :: "u8 list \<Rightarrow> input \<Rightarrow> input option" where
  "write_mouse v s =
     (let (x, q) = parse_u64 v in
      if x = - 1 then None
      else let y = fst (parse_u64 (dropWhile (\<lambda>b. b = 32 \<or> b = 9) q)) in
      if y = - 1 then None else Some (input_warp_mouse (sint (ucast x :: u32)) (sint (ucast y :: u32)) s))"

definition apply_write :: "(u64 \<Rightarrow> sched \<Rightarrow> sched) \<Rightarrow> u8 list \<Rightarrow> u8 list \<Rightarrow> sysw \<Rightarrow> sysw option" where
  "apply_write kill path v w =
     (if path = ascii ''/sys/kernel/log'' then
        map_option (\<lambda>con. w\<lparr>w_console := con\<rparr>) (kprintf (ascii ''%s'' @ [10]) [VStr (Some v)] (w_console w))
      else if path = ascii ''/sys/input/mouse'' then map_option (\<lambda>i. w\<lparr>w_input := i\<rparr>) (write_mouse v (w_input w))
      else case path_after path (ascii ''/sys/proc/'') of
          Some (r # rest) \<Rightarrow> map_option (\<lambda>s. w\<lparr>w_sched := s\<rparr>) (write_proc kill (r # rest) v (w_sched w))
        | _ \<Rightarrow> None)"

section \<open>Entry points\<close>

definition sysfs_owns :: "u8 list option \<Rightarrow> bool" where
  "sysfs_owns path =
     (case path of None \<Rightarrow> False | Some p \<Rightarrow> take 4 p = ascii ''/sys'' \<and> (drop 4 p = [] \<or> hd (drop 4 p) = slash))"

definition sysfs_owns_fd :: "int \<Rightarrow> bool" where
  "sysfs_owns_fd fd \<longleftrightarrow> fd \<ge> SYSFS_FD_BASE \<and> fd < SYSFS_FD_BASE + int SYSFS_MAX_FDS"

definition slot_of :: "int \<Rightarrow> nat" where "slot_of fd = nat (fd - SYSFS_FD_BASE)"

definition set_slot :: "nat \<Rightarrow> (sysfs_fd \<Rightarrow> sysfs_fd) \<Rightarrow> sysw \<Rightarrow> sysw" where
  "set_slot i f w = w\<lparr>w_fds := (w_fds w)(i := f (w_fds w i))\<rparr>"

definition caller_pid :: "nat \<Rightarrow> sysw \<Rightarrow> u32" where
  "caller_pid c w = (case proc_current c (w_sched w) of None \<Rightarrow> 0 | Some i \<Rightarrow> ucast (p_pid (procs (w_sched w) i)))"

definition dir_text :: "u8 list \<Rightarrow> string list \<Rightarrow> sysw \<Rightarrow> u8 list" where
  "dir_text path names w =
     (if path = ascii ''/sys/proc'' then gen_proc_table w []
      else fold (\<lambda>e s. sb_putc 10 (sb_puts (ascii e) s)) names [])"

text \<open>The text is rendered after the slot is taken and the lock released.\<close>

definition sysfs_open :: "nat \<Rightarrow> u8 list option \<Rightarrow> u32 \<Rightarrow> sysw \<Rightarrow> int \<times> sysw" where
  "sysfs_open c path flags w =
     (case path of
        None \<Rightarrow> (- 1, w)
      | Some p \<Rightarrow>
          if \<not> sysfs_owns path then (- 1, w)
          else let dir = dir_for p (w_sched w) in
          case find (\<lambda>i. \<not> sf_used (w_fds w i)) [0..<SYSFS_MAX_FDS] of
            None \<Rightarrow> (- 1, w)
          | Some i \<Rightarrow>
              let w1 = set_slot i (\<lambda>f. f\<lparr>sf_used := True, sf_is_dir := (dir \<noteq> None), sf_pid := caller_pid c w,
                                      sf_offset := 0, sf_len := 0, sf_path := take 127 p\<rparr>) w
              in case (case dir of None \<Rightarrow> render_file c p w1 [] | Some names \<Rightarrow> Some (dir_text p names w1)) of
                   None \<Rightarrow> (- 1, set_slot i (\<lambda>f. f\<lparr>sf_used := False\<rparr>) w1)
                 | Some t \<Rightarrow> (SYSFS_FD_BASE + int i, set_slot i (\<lambda>f. f\<lparr>sf_data := t, sf_len := of_nat (length t)\<rparr>) w1))"

definition sysfs_close :: "int \<Rightarrow> sysw \<Rightarrow> sysw" where
  "sysfs_close fd w = (if \<not> sysfs_owns_fd fd then w else set_slot (slot_of fd) (\<lambda>f. f\<lparr>sf_used := False\<rparr>) w)"

definition sysfs_read :: "int \<Rightarrow> bool \<Rightarrow> nat \<Rightarrow> sysw \<Rightarrow> int \<times> u8 list \<times> sysw" where
  "sysfs_read fd buf count w =
     (if \<not> sysfs_owns_fd fd \<or> \<not> buf then (- 1, [], w)
      else let f = w_fds w (slot_of fd) in
      if \<not> sf_used f then (- 1, [], w)
      else let remain = (if sf_len f > sf_offset f then unat (sf_len f - sf_offset f) else 0); n = min count remain
           in (int n, take n (drop (unat (sf_offset f)) (sf_data f)),
               set_slot (slot_of fd) (\<lambda>f. f\<lparr>sf_offset := sf_offset f + of_nat n\<rparr>) w))"

definition sysfs_write :: "(u64 \<Rightarrow> sched \<Rightarrow> sched) \<Rightarrow> int \<Rightarrow> u8 list option \<Rightarrow> sysw \<Rightarrow> int \<times> sysw" where
  "sysfs_write kill fd buf w =
     (case buf of
        None \<Rightarrow> (- 1, w)
      | Some bs \<Rightarrow>
          if \<not> sysfs_owns_fd fd then (- 1, w)
          else let f = w_fds w (slot_of fd) in
          if \<not> sf_used f \<or> sf_is_dir f then (- 1, w)
          else let v = trim (takeWhile (\<lambda>b. b \<noteq> 0) (take 255 bs)) in
          case apply_write kill (sf_path f) v w of
            None \<Rightarrow> (- 1, w)
          | Some w1 \<Rightarrow> (int (length bs), w1))"

definition sysfs_lseek :: "int \<Rightarrow> int \<Rightarrow> int \<Rightarrow> sysw \<Rightarrow> int \<times> sysw" where
  "sysfs_lseek fd offset whence w =
     (if \<not> sysfs_owns_fd fd then (- 1, w)
      else let f = w_fds w (slot_of fd) in
      if \<not> sf_used f then (- 1, w)
      else let base = (if whence = 1 then sf_offset f else if whence = 2 then sf_len f else 0);
               no = sint (base + word_of_int offset)
           in if no < 0 then (- 1, w) else (no, set_slot (slot_of fd) (\<lambda>f. f\<lparr>sf_offset := word_of_int no\<rparr>) w))"

definition fill_dirent :: "u8 list \<Rightarrow> bool \<Rightarrow> u32 \<Rightarrow> xfs_dirent" where
  "fill_dirent name dir sz =
     \<lparr>d_name = take (XFS_NAME_MAX - 1) name, d_inode_block = 0xFFFFFFFF, d_size = sz, d_flags = (if dir then 1 else 0)\<rparr>"

definition sysfs_readdir :: "int \<Rightarrow> bool \<Rightarrow> int \<Rightarrow> sysw \<Rightarrow> int \<times> xfs_dirent list" where
  "sysfs_readdir fd entries max_entries w =
     (if \<not> sysfs_owns_fd fd \<or> \<not> entries \<or> max_entries \<le> 0 then (- 1, [])
      else let f = w_fds w (slot_of fd) in
      if \<not> sf_used f \<or> \<not> sf_is_dir f then (- 1, [])
      else if sf_path f = ascii ''/sys/proc'' then
        let ents = take (nat max_entries) (map (\<lambda>p. fill_dirent (uint_chars (p_pid p) 10 False) True 0) (shown_procs (w_sched w)))
        in (int (length ents), ents)
      else case dir_for (sf_path f) (w_sched w) of
          None \<Rightarrow> (- 1, [])
        | Some names \<Rightarrow>
            let ents = take (nat max_entries) (map (\<lambda>e. fill_dirent (ascii e) (sf_path f = ascii ''/sys'') 0) names)
            in (int (length ents), ents))"

definition sysfs_stat :: "nat \<Rightarrow> u8 list option \<Rightarrow> bool \<Rightarrow> sysw \<Rightarrow> xfs_dirent option \<times> sysw" where
  "sysfs_stat c path out w =
     (case path of
        None \<Rightarrow> (None, w)
      | Some p \<Rightarrow>
          if \<not> sysfs_owns path \<or> \<not> out then (None, w)
          else let nm = after_slash p in
          if dir_for p (w_sched w) \<noteq> None then (Some (fill_dirent (if nm \<noteq> [] then nm else ascii ''sys'') True 0), w)
          else let (fd, w1) = sysfs_open c path 0 w in
          if fd < 0 then (None, w1)
          else (Some (fill_dirent nm False (sf_len (w_fds w1 (slot_of fd)))), sysfs_close fd w1))"

definition sysfs_fstat :: "int \<Rightarrow> bool \<Rightarrow> sysw \<Rightarrow> xfs_dirent option" where
  "sysfs_fstat fd out w =
     (if \<not> sysfs_owns_fd fd \<or> \<not> out then None
      else let f = w_fds w (slot_of fd); nm = after_slash (sf_path f) in
      if \<not> sf_used f then None
      else Some (fill_dirent (if nm \<noteq> [] then nm else ascii ''sys'') (sf_is_dir f) (sf_len f)))"


section \<open>The buffer is never overrun\<close>

named_theorems sb_len

lemma len_putc [sb_len]: "length s < SYSFS_BUF_MAX \<Longrightarrow> length (sb_putc ch s) < SYSFS_BUF_MAX"
  by (simp add: sb_putc_def)

lemma len_fold: "(\<And>x s. length s < SYSFS_BUF_MAX \<Longrightarrow> length (f x s) < SYSFS_BUF_MAX) \<Longrightarrow> length s < SYSFS_BUF_MAX \<Longrightarrow> length (fold f xs s) < SYSFS_BUF_MAX"
  by (induction xs arbitrary: s) auto

lemma len_text [sb_len]:
  assumes "length s < SYSFS_BUF_MAX"
  shows "length (sb_puts t s) < SYSFS_BUF_MAX" "length (sb_putu v s) < SYSFS_BUF_MAX"
    "length (sb_puti i s) < SYSFS_BUF_MAX" "length (sb_puthex v s) < SYSFS_BUF_MAX"
  using assms len_fold [of sb_putc, OF len_putc] by (simp_all add: sb_puts_def sb_putu_def sb_puti_def sb_puthex_def sb_len)

lemma len_kv [sb_len]:
  assumes "length s < SYSFS_BUF_MAX"
  shows "length (sb_kv_u k v s) < SYSFS_BUF_MAX" "length (sb_kv_s k t s) < SYSFS_BUF_MAX" "length (sb_kv_hex k v s) < SYSFS_BUF_MAX"
  using assms by (simp_all add: sb_kv_u_def sb_kv_s_def sb_kv_hex_def sb_seq_def sb_len)

lemma len_flags: "length s < SYSFS_BUF_MAX \<Longrightarrow> length (fold (\<lambda>f. f) (map (\<lambda>(on, name). if on then sb_puts (ascii name) else (\<lambda>s. s)) fl) s) < SYSFS_BUF_MAX"
  by (induction fl arbitrary: s) (auto simp: sb_len)

lemma len_generators [sb_len]:
  assumes "length s < SYSFS_BUF_MAX"
  shows "length (gen_kernel w s) < SYSFS_BUF_MAX" "length (gen_cpu w s) < SYSFS_BUF_MAX" "length (gen_mem w s) < SYSFS_BUF_MAX"
    "length (gen_input w s) < SYSFS_BUF_MAX" "length (gen_display w s) < SYSFS_BUF_MAX" "length (gen_proc_one p s) < SYSFS_BUF_MAX"
    "length (proc_row p s) < SYSFS_BUF_MAX"
  using assms
  by (simp_all add: gen_kernel_def gen_cpu_def gen_mem_def gen_input_def gen_display_def gen_proc_one_def proc_row_def
      Let_def sb_seq_def sb_len len_flags split: option.split)

lemma len_table [sb_len]: "length s < SYSFS_BUF_MAX \<Longrightarrow> length (gen_proc_table w s) < SYSFS_BUF_MAX"
  unfolding gen_proc_table_def by (rule len_fold) (simp_all only: sb_len)

lemma len_log [sb_len]: "length (gen_log w s) < SYSFS_BUF_MAX"
  by (simp add: gen_log_def msgbuf_copy_log min_def)

lemma render_proc_len: "render_proc p leaf s = Some t \<Longrightarrow> length s < SYSFS_BUF_MAX \<Longrightarrow> length t < SYSFS_BUF_MAX"
  by (auto simp: render_proc_def sb_len split: if_splits)

lemma render_fixed_len: "render_fixed c path w s = Some t \<Longrightarrow> length s < SYSFS_BUF_MAX \<Longrightarrow> length t < SYSFS_BUF_MAX"
  unfolding render_fixed_def Let_def by (auto simp: sb_len split: if_split_asm option.splits)

lemma render_pid_len: "render_pid rest sc s = Some t \<Longrightarrow> length s < SYSFS_BUF_MAX \<Longrightarrow> length t < SYSFS_BUF_MAX"
  unfolding render_pid_def Let_def by (auto dest: render_proc_len split: if_split_asm option.splits list.splits prod.splits)

lemma render_file_len: "render_file c path w s = Some t \<Longrightarrow> length s < SYSFS_BUF_MAX \<Longrightarrow> length t < SYSFS_BUF_MAX"
  unfolding render_file_def
  by (auto simp: sb_len dest: render_fixed_len render_pid_len split: if_split_asm option.splits list.splits)

lemma dir_text_len: "length (dir_text path names w) < SYSFS_BUF_MAX"
proof -
  have "length (fold (\<lambda>e s. sb_putc 10 (sb_puts (ascii e) s)) names []) < SYSFS_BUF_MAX" by (rule len_fold) (simp_all add: sb_len)
  then show ?thesis by (simp add: dir_text_def sb_len)
qed

section \<open>Reading a snapshot\<close>

text \<open>Reads of the given sizes, each followed by whatever the rest of the system does before the next one.\<close>

primrec read_seq :: "int \<Rightarrow> (nat \<times> (sysw \<Rightarrow> sysw)) list \<Rightarrow> sysw \<Rightarrow> u8 list" where
  "read_seq fd [] w = []"
| "read_seq fd (x # xs) w = (let (n, bs, w') = sysfs_read fd True (fst x) w in bs @ read_seq fd xs (snd x w'))"

text \<open>The descriptor holds the text \<open>t\<close> of which \<open>k\<close> bytes have been read.\<close>

definition at_pos :: "u8 list \<Rightarrow> nat \<Rightarrow> sysfs_fd \<Rightarrow> bool" where
  "at_pos t k f \<longleftrightarrow> sf_used f \<and> sf_data f = t \<and> sf_len f = of_nat (length t) \<and> sf_offset f = of_nat k \<and>
     k \<le> length t \<and> length t < SYSFS_BUF_MAX"

lemma sysfs_read_at:
  assumes "at_pos t k (w_fds w (slot_of fd))" "sysfs_owns_fd fd"
  shows "\<exists>w'. sysfs_read fd True n w = (int (min n (length t - k)), take n (drop k t), w') \<and>
     at_pos t (k + min n (length t - k)) (w_fds w' (slot_of fd))"
proof -
  have A: "sf_used (w_fds w (slot_of fd))" "sf_data (w_fds w (slot_of fd)) = t" "sf_len (w_fds w (slot_of fd)) = of_nat (length t)"
    "sf_offset (w_fds w (slot_of fd)) = of_nat k" "k \<le> length t" "length t < SYSFS_BUF_MAX"
    using assms(1) by (auto simp: at_pos_def)
  have u: "unat (of_nat (length t) :: u32) = length t" "unat (of_nat k :: u32) = k"
    using A(5,6) by (simp_all add: unat_of_nat)
  have r: "(if (of_nat (length t) :: u32) > of_nat k then unat ((of_nat (length t) :: u32) - of_nat k) else 0) = length t - k"
    using u A(5) by (simp add: word_less_nat_alt unat_sub word_le_nat_alt)
  show ?thesis
    unfolding sysfs_read_def Let_def A(2,3,4) r u(2)
    using A(1,5,6) assms(2) by (simp add: set_slot_def at_pos_def A(2,3,4)) (simp add: min_def, linarith)
qed

lemma read_seq_text:
  assumes "at_pos t k (w_fds w (slot_of fd))" "sysfs_owns_fd fd"
    and "\<forall>x \<in> set xs. \<forall>w. w_fds (snd x w) (slot_of fd) = w_fds w (slot_of fd)"
  shows "read_seq fd xs w = take (sum_list (map fst xs)) (drop k t)"
  using assms
proof (induction xs arbitrary: w k)
  case (Cons x xs)
  let ?n = "fst x" let ?m = "min ?n (length t - k)"
  obtain w' where r: "sysfs_read fd True ?n w = (int ?m, take ?n (drop k t), w')" and p: "at_pos t (k + ?m) (w_fds w' (slot_of fd))"
    using sysfs_read_at [OF Cons.prems(1,2)] by blast
  have "read_seq fd xs (snd x w') = take (sum_list (map fst xs)) (drop (k + ?m) t)"
    using p Cons.prems by (intro Cons.IH) auto
  moreover have "drop (k + ?m) t = drop ?n (drop k t)" by (simp add: min_def add.commute)
  ultimately show ?case by (simp add: r take_add)
qed simp


section \<open>Numbers as names\<close>

lemma digit_char_digit:
  assumes "d < 10"
  shows "is_digit (digit_char False d)" "ucast (digit_char False d - 48) = d"
proof -
  have u: "unat d < 10" using assms by (simp add: word_less_nat_alt)
  have c: "unat (ucast d :: u8) = unat d" using u by (simp add: unsigned_ucast_eq take_bit_nat_eq_self unsigned_take_bit_eq)
  have e: "digit_char False d = 48 + ucast d" using assms by (simp add: digit_char_def)
  show "is_digit (digit_char False d)" using u c by (simp add: e is_digit_def word_le_nat_alt unat_word_ariths)
  show "ucast (digit_char False d - 48) = d" using u c by (simp add: e word_unat_eq_iff unsigned_ucast_eq unsigned_take_bit_eq take_bit_nat_eq_self)
qed

lemma div_10_less: "v \<noteq> (0 :: u64) \<Longrightarrow> unat (v div 10) < unat v"
  by (simp add: unat_div unat_gt_0)

lemma digit_loop_step: "v \<noteq> 0 \<Longrightarrow> digit_loop False 10 v buf = digit_loop False 10 (v div 10) (buf @ [digit_char False (v mod 10)])"
  by (subst digit_loop.simps) simp

lemma digit_loop_acc: "digit_loop False 10 v buf = buf @ digit_loop False 10 v []"
proof (induction "unat v" arbitrary: v buf rule: less_induct)
  case less
  show ?case
  proof (cases "v = 0")
    case False
    let ?c = "digit_char False (v mod 10)"
    have "digit_loop False 10 (v div 10) (b @ [?c]) = (b @ [?c]) @ digit_loop False 10 (v div 10) []" for b
      using less.hyps [OF div_10_less [OF False]] by blast
    from this [of buf] this [of "[]"] show ?thesis using digit_loop_step [OF False, of buf] digit_loop_step [OF False, of "[]"] by simp
  qed (simp add: digit_loop.simps)
qed

definition read_digits :: "u8 list \<Rightarrow> u64" where
  "read_digits ds = foldl (\<lambda>v d. v * 10 + ucast (d - 48)) 0 ds"

lemma digits_read: "v \<noteq> 0 \<Longrightarrow> list_all is_digit (rev (digit_loop False 10 v [])) \<and> read_digits (rev (digit_loop False 10 v [])) = v \<and> digit_loop False 10 v [] \<noteq> []"
proof (induction "unat v" arbitrary: v rule: less_induct)
  case less
  let ?q = "v div 10" let ?c = "digit_char False (v mod 10)"
  have m: "v mod 10 < 10" by (rule word_mod_less_divisor) simp
  have r: "rev (digit_loop False 10 v []) = rev (digit_loop False 10 ?q []) @ [?c]"
    using digit_loop_step [OF less.prems, of "[]"] digit_loop_acc [of ?q "[?c]"] by simp
  have q: "list_all is_digit (rev (digit_loop False 10 ?q [])) \<and> read_digits (rev (digit_loop False 10 ?q [])) = ?q"
    using less.hyps [OF div_10_less [OF less.prems]] by (cases "?q = 0") (simp_all add: digit_loop.simps read_digits_def)
  have "?q * 10 + v mod 10 = v" by (metis word_mod_div_equality)
  then show ?case using q r digit_char_digit [OF m] by (auto simp: read_digits_def)
qed

lemma uint_chars_digits: "list_all is_digit (uint_chars v 10 False) \<and> read_digits (uint_chars v 10 False) = v \<and> uint_chars v 10 False \<noteq> []"
  using digits_read [of v] by (cases "v = 0") (simp_all add: uint_chars_def digit_loop.simps read_digits_def is_digit_def)

lemma parse_digits:
  assumes "q = [] \<or> \<not> is_digit (hd q)"
  shows "parse_u64 (uint_chars v 10 False @ q) = (v, q)"
proof -
  have d: "\<forall>x \<in> set (uint_chars v 10 False). is_digit x" using uint_chars_digits by (auto simp: list_all_iff)
  have q: "takeWhile is_digit q = []" "dropWhile is_digit q = q" using assms by (cases q; simp)+
  have "takeWhile is_digit (uint_chars v 10 False @ q) = uint_chars v 10 False" "dropWhile is_digit (uint_chars v 10 False @ q) = q"
    using d q by (simp_all add: takeWhile_append2 dropWhile_append2)
  then show ?thesis using uint_chars_digits [of v] by (simp add: parse_u64_def read_digits_def)
qed


text \<open>Paths below \<^verbatim>\<open>/sys/proc\<close> that start with a number are none of the fixed names.\<close>

lemma proc_path_fixed:
  assumes "is_digit d"
  shows "ascii ''/sys/proc/'' @ d # q \<notin> ascii ` {''/sys'', ''/sys/'', ''/sys/kernel'', ''/sys/cpu'', ''/sys/mem'', ''/sys/input'',
     ''/sys/display'', ''/sys/proc'', ''/sys/kernel/info'', ''/sys/kernel/log'', ''/sys/cpu/info'', ''/sys/mem/info'',
     ''/sys/input/mouse'', ''/sys/display/info'', ''/sys/kernel/uptime'', ''/sys/proc/self''}"
  using assms by (auto simp: ascii_def is_digit_def)

lemma path_after_append: "path_after (pfx @ q) pfx = Some q"
  by (simp add: path_after_def)

lemma pid_dir:
  assumes "proc_by_pid pid s = Some i" "pid \<noteq> - 1"
  shows "dir_for (ascii ''/sys/proc/'' @ uint_chars pid 10 False) s = Some dir_procent"
proof -
  obtain d q where d: "uint_chars pid 10 False = d # q" "is_digit d" using uint_chars_digits [of pid] by (cases "uint_chars pid 10 False") auto
  have "parse_u64 (d # q) = (pid, [])" using parse_digits [of "[]" pid] d by simp
  then show ?thesis using proc_path_fixed [OF d(2), of q] assms by (auto simp: dir_for_def d path_after_append)
qed

lemma pid_status:
  assumes "proc_by_pid pid (w_sched w) = Some i" "pid \<noteq> - 1"
  shows "render_file c (ascii ''/sys/proc/'' @ uint_chars pid 10 False @ ascii ''/status'') w s = Some (gen_proc_one (procs (w_sched w) i) s)"
proof -
  obtain d q where d: "uint_chars pid 10 False = d # q" "is_digit d" using uint_chars_digits [of pid] by (cases "uint_chars pid 10 False") auto
  have a: "ascii ''/status'' = slash # ascii ''status''" by (simp add: ascii_def)
  have "parse_u64 (d # q @ ascii ''/status'') = (pid, slash # ascii ''status'')"
    using parse_digits [of "ascii ''/status''" pid] d by (simp add: a is_digit_def)
  then show ?thesis
    using proc_path_fixed [OF d(2), of "q @ ascii ''/status''"] assms
    by (simp add: render_file_def render_fixed_def render_pid_def d path_after_append render_proc_def)
qed

text \<open>The text does not depend on the descriptors.\<close>

lemma render_fds: "render_file c p (w\<lparr>w_fds := x\<rparr>) s = render_file c p w s" "dir_text p names (w\<lparr>w_fds := x\<rparr>) = dir_text p names w"
proof -
  have g: "gen_kernel (w\<lparr>w_fds := x\<rparr>) = gen_kernel w" "gen_log (w\<lparr>w_fds := x\<rparr>) = gen_log w" "gen_cpu (w\<lparr>w_fds := x\<rparr>) = gen_cpu w"
    "gen_mem (w\<lparr>w_fds := x\<rparr>) = gen_mem w" "gen_input (w\<lparr>w_fds := x\<rparr>) = gen_input w" "gen_display (w\<lparr>w_fds := x\<rparr>) = gen_display w"
    "gen_proc_table (w\<lparr>w_fds := x\<rparr>) = gen_proc_table w" "w_sched (w\<lparr>w_fds := x\<rparr>) = w_sched w"
    by (auto simp: gen_kernel_def gen_log_def gen_cpu_def gen_mem_def gen_input_def gen_display_def gen_proc_table_def Let_def)
  show "render_file c p (w\<lparr>w_fds := x\<rparr>) s = render_file c p w s" "dir_text p names (w\<lparr>w_fds := x\<rparr>) = dir_text p names w"
    unfolding render_file_def render_fixed_def dir_text_def g by (rule refl)+
qed

section \<open>Properties\<close>




text \<open>A system with one process, pid 2, for the witnesses.\<close>

definition ex_sysw :: sysw where
  "ex_sysw =
     \<lparr>w_sched = (sched_bss 100)\<lparr>procs := (\<lambda>_. zero_proc)(2 := zero_proc\<lparr>p_pid := 2, p_tgid := 2, p_state := PROC_RUNNING\<rparr>)\<rparr>,
      w_pmm = pmm_boot,
      w_heap = \<lparr>bsize = (\<lambda>_. 0), bnext = (\<lambda>_. 0), payload = (\<lambda>_. 0), free_head = 0, arena = 0, arena_sz = 0, used_sz = 0\<rparr>,
      w_input = input_boot (\<lambda>_. zero_event EV_MOUSE_MOVE), w_console = msgbuf_write (Some [104, 105]) console_boot,
      w_boot = \<lparr>g_boot_args = [], g_verbose = False\<rparr>,
      w_cpu = \<lparr>cf_vendor = [], cf_brand = [], cf_family = 6, cf_model = 0, cf_stepping = 0, cf_xcr0 = 0, cf_nx = True, cf_smep = False,
        cf_smap = False, cf_umip = False, cf_pge = True, cf_pcid = False, cf_xsave = False, cf_avx = False, cf_avx2 = False,
        cf_avx512f = False, cf_x2apic = False, cf_rdtscp = False, cf_pdpe1gb = False, cf_aes = False, cf_rdrand = False,
        cf_hypervisor = True\<rparr>,
      w_cpu_count = 1, w_smp = False, w_tsc_hz = 0, w_gpu = None,
      w_fds = (\<lambda>_. \<lparr>sf_used = False, sf_is_dir = False, sf_pid = 0, sf_offset = 0, sf_len = 0, sf_path = [], sf_data = []\<rparr>)\<rparr>"

lemma ex_shown: "shown_procs (w_sched ex_sysw) = [zero_proc\<lparr>p_pid := 2, p_tgid := 2, p_state := PROC_RUNNING\<rparr>]"
proof -
  have "shown (procs (w_sched ex_sysw) i) \<longleftrightarrow> i = 2" for i by (simp add: shown_def ex_sysw_def zero_proc_def)
  moreover have "filter (\<lambda>i. i = 2) [0..<SCHED_MAX_PROCS] = [2]"
    using upt_add_eq_append [of 0 2 254] upt_conv_Cons [of 2 SCHED_MAX_PROCS] by (simp add: filter_empty_conv del: upt_rec_numeral)
  ultimately show ?thesis by (simp add: shown_procs_def filter_map o_def) (simp add: ex_sysw_def)
qed



end
