(* ===== verification/Usermem.thy ===== *)
theory Usermem imports Process begin

text \<open>
  The memory of a running process: the system calls of \<^verbatim>\<open>src/kernel/arch/x86_64/syscall.c\<close> and
  \<^verbatim>\<open>src/kernel/bsd/syscalls.c\<close> that map, share and release pages. The state is the kernel with the table of program breaks
  and the next address for anonymous mappings; \<open>c\<close> is the CPU of the caller. The result -1 is \<open>2\<^sup>6\<^sup>4 - 1\<close>.
\<close>

section \<open>The program break\<close>

abbreviation (input) USER_HEAP_BASE :: u64 where "USER_HEAP_BASE \<equiv> 0x20000000000"
abbreviation (input) USER_HEAP_MAX :: u64 where "USER_HEAP_MAX \<equiv> 0x30000000000"
abbreviation (input) KERNEL_HALF :: u64 where "KERNEL_HALF \<equiv> 0xFFFF800000000000"

record usermem =
  um_k :: kernel
  g_proc_brk :: "nat \<Rightarrow> u64"
  anon_base :: u64

definition um_vm :: "usermem \<Rightarrow> vm" where "um_vm s = k_vm (um_k s)"

definition set_vm :: "vm \<Rightarrow> usermem \<Rightarrow> usermem" where
  "set_vm vm s = s\<lparr>um_k := (um_k s)\<lparr>k_vm := vm\<rparr>\<rparr>"

definition caller :: "nat \<Rightarrow> usermem \<Rightarrow> proc option" where
  "caller c s = map_option (procs (k_sched (um_k s))) (proc_current c (k_sched (um_k s)))"

definition proc_brk_reset :: "u64 \<Rightarrow> usermem \<Rightarrow> usermem" where
  "proc_brk_reset pid s = (if pid < 32 then s\<lparr>g_proc_brk := (g_proc_brk s)(unat pid := 0)\<rparr> else s)"

definition page_up :: "u64 \<Rightarrow> u64" where
  "page_up a = (a + 0x1000 - 1) AND NOT (0x1000 - 1)"

definition page_count :: "u64 \<Rightarrow> u64 \<Rightarrow> nat" where
  "page_count from to = unat (to - from) div 4096"

definition unmap_run :: "u64 \<Rightarrow> u64 \<Rightarrow> nat \<Rightarrow> vm \<Rightarrow> vm" where
  "unmap_run pml4 base n vm = fold (\<lambda>i. vmm_unmap_page pml4 (base + of_nat i * 0x1000)) [0..<n] vm"

definition sys_brk_impl :: "nat \<Rightarrow> u64 \<Rightarrow> usermem \<Rightarrow> u64 \<times> usermem" where
  "sys_brk_impl c addr s0 =
     (case caller c s0 of
        None \<Rightarrow> (- 1, s0)
      | Some p \<Rightarrow>
          if \<not> p_ring3 p then (- 1, s0)
          else let pid_idx = ucast (p_pid p) :: u32 in
          if pid_idx \<ge> 32 then (- 1, s0)
          else let i = unat pid_idx;
                   s = (if g_proc_brk s0 i = 0 then s0\<lparr>g_proc_brk := (g_proc_brk s0)(i := USER_HEAP_BASE)\<rparr> else s0);
                   old_brk = g_proc_brk s i in
          if addr = 0 then (old_brk, s)
          else if addr < USER_HEAP_BASE \<or> addr \<ge> USER_HEAP_MAX then (- 1, s)
          else let old_page = page_up old_brk; new_page = page_up addr;
                   moved = (\<lambda>s. (addr, s\<lparr>g_proc_brk := (g_proc_brk s)(i := addr)\<rparr>)) in
          if new_page > old_page then
            (case map_run (p_pml4_virt p) old_page (page_count old_page new_page) (um_vm s) of
               (False, vm) \<Rightarrow> (old_brk, set_vm vm s)
             | (True, vm) \<Rightarrow> moved (set_vm vm s))
          else if new_page < old_page then
            moved (set_vm (unmap_run (p_pml4_virt p) new_page (page_count new_page old_page) (um_vm s)) s)
          else moved s)"

section \<open>Single pages\<close>

definition user_page_flags :: "u64 \<Rightarrow> u64" where
  "user_page_flags flags = ((flags AND ((VMM_RW OR VMM_WT) OR VMM_CD)) OR VMM_U) OR VMM_P"

definition sys_mem_map :: "nat \<Rightarrow> u64 \<Rightarrow> u64 \<Rightarrow> u64 \<Rightarrow> usermem \<Rightarrow> u64 \<times> usermem" where
  "sys_mem_map c vaddr paddr flags s =
     (if vaddr \<ge> KERNEL_HALF then (- 1, s)
      else case caller c s of
        None \<Rightarrow> (- 1, s)
      | Some p \<Rightarrow>
          if p_pml4_virt p = 0 then (- 1, s)
          else let (ok, vm) = vmm_map_page (p_pml4_virt p) vaddr paddr (user_page_flags flags) (um_vm s)
               in (if ok then 0 else - 1, set_vm vm s))"

definition sys_mem_alloc_impl :: "nat \<Rightarrow> u64 \<Rightarrow> u64 \<Rightarrow> usermem \<Rightarrow> u64 \<times> usermem" where
  "sys_mem_alloc_impl c vaddr flags s =
     (if vaddr \<ge> KERNEL_HALF then (- 1, s)
      else let (frame, vm) = vm_alloc (um_vm s) in
      if frame = 0 then (- 1, set_vm vm s)
      else case caller c s of
        None \<Rightarrow> (- 1, set_vm (vm_free frame vm) s)
      | Some p \<Rightarrow>
          if p_pml4_virt p = 0 then (- 1, set_vm (vm_free frame vm) s)
          else (case vmm_map_page (p_pml4_virt p) vaddr frame (user_page_flags flags) vm of
                  (False, vm1) \<Rightarrow> (- 1, set_vm (vm_free frame vm1) s)
                | (True, vm1) \<Rightarrow> (0, set_vm vm1 s)))"

definition sys_mem_free_impl :: "nat \<Rightarrow> u64 \<Rightarrow> usermem \<Rightarrow> u64 \<times> usermem" where
  "sys_mem_free_impl c vaddr s =
     (case caller c s of
        None \<Rightarrow> (- 1, s)
      | Some p \<Rightarrow>
          if p_pml4_virt p = 0 then (- 1, s)
          else let paddr = vmm_virt_to_phys (p_pml4_virt p) vaddr (um_vm s) in
          if paddr = 0 then (- 1, s)
          else (0, set_vm (vm_free paddr (vmm_unmap_page (p_pml4_virt p) vaddr (um_vm s))) s))"

definition share_page :: "u64 \<Rightarrow> u64 \<Rightarrow> u64 \<Rightarrow> u64 \<Rightarrow> u64 \<Rightarrow> vm \<Rightarrow> bool \<times> vm" where
  "share_page from vaddr to target_vaddr flags vm =
     (let paddr = vmm_virt_to_phys from vaddr vm;
          vm1 = vm\<lparr>vm_pmm := pmm_ref_frame paddr (vm_pmm vm)\<rparr> in
      case vmm_map_page to target_vaddr paddr (user_page_flags flags OR VMM_SHARED) vm1 of
        (False, vm2) \<Rightarrow> (False, vm_free paddr vm2)
      | (True, vm2) \<Rightarrow>
          (True, case vmm_pte_lookup from vaddr vm2 of
                   None \<Rightarrow> vm2
                 | Some (t, i) \<Rightarrow> set_entry t i (entry vm2 t i OR VMM_SHARED) vm2))"

definition sys_mem_share_impl :: "nat \<Rightarrow> u64 \<Rightarrow> u64 \<Rightarrow> u64 \<Rightarrow> u64 \<Rightarrow> usermem \<Rightarrow> u64 \<times> usermem" where
  "sys_mem_share_impl c vaddr target_pid target_vaddr flags s =
     (if vaddr AND 0xFFF \<noteq> 0 \<or> target_vaddr AND 0xFFF \<noteq> 0 \<or> target_vaddr \<ge> KERNEL_HALF then (- 1, s)
      else case caller c s of
        None \<Rightarrow> (- 1, s)
      | Some p \<Rightarrow>
          if p_pml4_virt p = 0 \<or> vmm_virt_to_phys (p_pml4_virt p) vaddr (um_vm s) = 0 then (- 1, s)
          else (case proc_by_pid target_pid (k_sched (um_k s)) of
                  None \<Rightarrow> (- 1, s)
                | Some i \<Rightarrow>
                    let to = p_pml4_virt (procs (k_sched (um_k s)) i) in
                    if to = 0 then (- 1, s)
                    else let (ok, vm) = share_page (p_pml4_virt p) vaddr to target_vaddr flags (um_vm s)
                         in (if ok then 0 else - 1, set_vm vm s)))"

section \<open>Anonymous mappings\<close>

text \<open>\<open>prot\<close> of the source becomes the flags of the pages; the loop stops at the first page that cannot be mapped.\<close>

definition mmap_flags :: "u64 \<Rightarrow> u64" where
  "mmap_flags prot =
     ((if prot AND 1 \<noteq> 0 then VMM_U else 0) OR (if prot AND 2 \<noteq> 0 then VMM_RW OR VMM_U else 0)) OR (if prot AND 4 \<noteq> 0 then VMM_U else 0)"

definition mmap_page :: "u64 \<Rightarrow> u64 \<Rightarrow> u64 \<Rightarrow> nat \<Rightarrow> bool \<times> vm \<Rightarrow> bool \<times> vm" where
  "mmap_page pml4 vaddr fl i = (\<lambda>(ok, vm).
     if \<not> ok then (False, vm)
     else let (phys, vm1) = vm_alloc vm in
       if phys = 0 then (False, vm1)
       else vmm_map_page pml4 (vaddr + of_nat i * 0x1000) phys (fl OR VMM_P) vm1)"

definition sys_mmap_impl :: "nat \<Rightarrow> u64 \<Rightarrow> u64 \<Rightarrow> u64 \<Rightarrow> usermem \<Rightarrow> u64 \<times> usermem" where
  "sys_mmap_impl c addr len prot s0 =
     (let vaddr = (if addr = 0 then anon_base s0 else addr);
          s = (if addr = 0 then s0\<lparr>anon_base := anon_base s0 + ((len + 0xFFF) AND NOT 0xFFF)\<rparr> else s0);
          npages = unat ((len + 0xFFF) div 0x1000) in
      case caller c s of
        None \<Rightarrow> (- 1, s)
      | Some p \<Rightarrow>
          if p_pml4_virt p = 0 then (- 1, s)
          else let (ok, vm) = fold (mmap_page (p_pml4_virt p) vaddr (mmap_flags prot)) [0..<npages] (True, um_vm s)
               in (if ok then vaddr else - 1, set_vm vm s))"

section \<open>What the break means\<close>

lemma unat_page_up:
  assumes "unat a < 2 ^ 63"
  shows "unat (page_up a) = (unat a + 4095) div 4096 * 4096"
proof -
  have u: "unat (a + 0x1000 - 1) = unat a + 4095" using assms by (simp add: unat_word_ariths)
  have "unat (page_up a) = (unat a + 4095) - (unat a + 4095) mod 4096"
    unfolding page_up_def using unat_page_base [of "a + 0x1000 - 1"] u by simp
  then show ?thesis by (simp add: minus_mod_eq_div_mult)
qed


lemma exhausted_no_free: "exhausted vm \<Longrightarrow> free_count vm = 0"
  by (auto simp: exhausted_def free_count_def count_below_def frames_used_def card_eq_0_iff)

lemma has_VMM_U: "has e VMM_U \<longleftrightarrow> bit e 2"
  using and_exp_eq_0_iff_not_bit [of e 2] by (simp add: has_def)

lemma has_rw_entry: "has (rw_entry a) VMM_U" "has (rw_entry a) VMM_RW" "has (rw_entry a) VMM_P"
  unfolding has_VMM_U has_bit rw_entry_def by (simp_all add: bit_or_iff bit_small_numerals del: bit_numeral_word_iff)

lemma heap_run_ok:
  assumes "USER_HEAP_BASE \<le> old" "old < USER_HEAP_MAX" "USER_HEAP_BASE \<le> addr" "addr < USER_HEAP_MAX" "page_up old < page_up addr"
  shows "run_ok (page_up old) (page_count (page_up old) (page_up addr))"
    "unat (page_up addr) = unat (page_up old) + 4096 * page_count (page_up old) (page_up addr)" "unat addr \<le> unat (page_up addr)"
proof -
  have o: "unat old < 0x30000000000" "unat addr < 0x30000000000" using assms by (simp_all add: word_less_nat_alt)
  then have "unat old < 2 ^ 63" "unat addr < 2 ^ 63" by simp_all
  note u = unat_page_up [OF this(1)] unat_page_up [OF this(2)]
  have lt: "unat (page_up old) < unat (page_up addr)" using assms(5) by (simp add: word_less_nat_alt)
  then have "unat (page_up addr - page_up old) = unat (page_up addr) - unat (page_up old)"
    by (simp add: unat_sub word_le_nat_alt)
  moreover have "(a * 4096 - b * 4096) div 4096 = a - b" for a b :: nat by (simp flip: diff_mult_distrib)
  ultimately have n: "page_count (page_up old) (page_up addr) = (unat addr + 4095) div 4096 - (unat old + 4095) div 4096"
    unfolding page_count_def u by simp
  show e: "unat (page_up addr) = unat (page_up old) + 4096 * page_count (page_up old) (page_up addr)"
    using lt unfolding n u by (simp add: diff_mult_distrib2)
  have "(unat addr + 4095) div 4096 < 0x30000001"
    using o(2) by (intro less_mult_imp_div_less) simp
  then have "unat (page_up addr) \<le> 0x30000000000" unfolding u by simp
  then show "run_ok (page_up old) (page_count (page_up old) (page_up addr))" unfolding run_ok_def using e by (simp add: u)
  show "unat addr \<le> unat (page_up addr)" unfolding u by linarith
qed

lemma run_mapped_writable:
  assumes st: "run_mapped base vm0 r vm fs" "run_ok base (length fs)" and v: "unat base \<le> unat v" "unat v < unat base + 4096 * length fs"
  shows "user_writable vm r v"
proof -
  define i where "i = (unat v - unat base) div 4096"
  have i: "i < length fs" "unat base + 4096 * i \<le> unat v" "unat v < unat base + 4096 * i + 4096" using v by (auto simp: i_def)
  note u = unat_run_page [OF st(2) i(1)]
  have "unat (run_page base i) mod 4096 = 0" using u st(2) by (simp add: run_ok_def mod_add_eq [symmetric])
  then have "v AND NOT 0xFFF = run_page base i" using page_base_eq [of "run_page base i" v] i u by simp
  moreover have "v < 0x800000000000" using v st(2) by (simp add: word_less_nat_alt run_ok_def)
  ultimately have "page_of v = page_of (run_page base i)"
    using page_of_user_eq [OF _ run_page_half [OF st(2) i(1)], of v] run_page_aligned [OF st(2) i(1)] by metis
  then have "user_map vm r (page_of v) = Some (rw_entry (fs ! i))" using st(1) i(1) by (simp add: run_mapped_def)
  then show ?thesis using has_rw_entry by (auto simp: user_writable_def)
qed

lemma run_mapped_below:
  assumes st: "run_mapped base vm0 r vm fs" "run_ok base (length fs)" and v: "v < base"
  shows "user_map vm r (page_of v) = user_map vm0 r (page_of v)"
proof -
  have h: "v < 0x800000000000" using v st(2) by (simp add: word_less_nat_alt run_ok_def)
  have "page_of v \<noteq> page_of (run_page base i)" if i: "i < length fs" for i
  proof
    assume "page_of v = page_of (run_page base i)"
    then have "v AND NOT 0xFFF = run_page base i" using page_of_user_eq [OF h run_page_half [OF st(2) i]] run_page_aligned [OF st(2) i] by simp
    then have "unat (run_page base i) \<le> unat v" using unat_page_base [of v] by (metis diff_le_self)
    then show False using unat_run_page [OF st(2) i] v by (simp add: word_less_nat_alt)
  qed
  then have "page_of v \<notin> (page_of \<circ> run_page base) ` {..<length fs}" by auto
  then show ?thesis using st(1) unfolding run_mapped_def by blast
qed

section \<open>Properties\<close>



text \<open>The memory of eight frames, two of them in use, and one process that grows its heap by a page.\<close>

lemma ex_vm_free: "4 < free_count ex_vm"
proof -
  have "list_all (\<lambda>i. \<not> bit_get (\<lambda>_. 3) i) [2..<8]" by code_simp
  then have b: "\<forall>i \<in> {2..<8}. \<not> bit_get (\<lambda>_. 3) i" unfolding list_all_iff set_upt .
  have "card {2..<8 :: nat} \<le> card {i. i < 8 \<and> \<not> bit_get (\<lambda>_. 3) i}"
    using b by (intro card_mono) auto
  then show ?thesis by (simp add: free_count_def ex_vm_def count_below_def)
qed



section \<open>Sharing a page\<close>

lemma um_vm_set_vm [simp]: "um_vm (set_vm vm s) = vm"
  by (simp add: um_vm_def set_vm_def)

text \<open>Two address spaces with no table in common: a change to the tables of one leaves the other as it was.\<close>

lemma apart_ext:
  assumes ext: "vm_ext r vm vm'" and inv: "ptab_inv vm q" and ap: "utables vm r \<inter> utables vm q = {}"
  shows "ptab_inv vm' q" "user_map vm' q = user_map vm q" "utables vm' q = utables vm q" "utables vm' r \<inter> utables vm' q = {}"
proof -
  have h: "held vm t" if "t \<in> utables vm q" for t using that ptab_invD(2) [OF inv] by (auto simp: utables_def)
  then have "\<forall>t \<in> utables vm q. pages vm' t = pages vm t" using ext ap by (auto simp: vm_ext_def)
  note O = other_space [OF inv this]
  have p: "pmm_inv (vm_pmm vm')" "frames_used (vm_pmm vm) \<subseteq> frames_used (vm_pmm vm')" using ext ptab_invD(1) by (auto simp: vm_ext_def)
  show "ptab_inv vm' q" "user_map vm' q = user_map vm q" "utables vm' q = utables vm q" using O p by simp_all
  then show "utables vm' r \<inter> utables vm' q = {}" using h ext ap unfolding vm_ext_def by blast
qed

lemma ref_frame_ext:
  assumes "ptab_inv vm r"
  shows "vm_ext r vm (vm\<lparr>vm_pmm := pmm_ref_frame a (vm_pmm vm)\<rparr>)" "user_map (vm\<lparr>vm_pmm := pmm_ref_frame a (vm_pmm vm)\<rparr>) r = user_map vm r"
    "utables (vm\<lparr>vm_pmm := pmm_ref_frame a (vm_pmm vm)\<rparr>) r = utables vm r"
proof -
  let ?vm = "vm\<lparr>vm_pmm := pmm_ref_frame a (vm_pmm vm)\<rparr>"
  have "pmm_inv (vm_pmm ?vm)" "frames_used (vm_pmm vm) \<subseteq> frames_used (vm_pmm ?vm)"
    using pmm_ref_frame_inv [OF ptab_invD(1) [OF assms]] by (simp_all add: frames_used_def)
  note O = other_space [OF assms _ this, simplified]
  show "vm_ext r vm ?vm" "user_map ?vm r = user_map vm r" "utables ?vm r = utables vm r"
    using O by (simp_all add: vm_ext_def frames_used_def)
qed

lemma tag_shared:
  assumes inv: "ptab_inv vm r" and e: "user_map vm r (page_of v) = Some e"
  obtains t where "walk vm r (fst (page_of v)) = Some t"
    "vm_ext r vm (set_entry t (PT_IDX v) (entry vm t (PT_IDX v) OR VMM_SHARED) vm)"
    "user_map (set_entry t (PT_IDX v) (entry vm t (PT_IDX v) OR VMM_SHARED) vm) r = (user_map vm r)(page_of v \<mapsto> e OR VMM_SHARED)"
proof -
  obtain p l where pg: "page_of v = (p, l)" by fastforce
  then have l: "l = PT_IDX v" by (simp add: page_of_def)
  obtain t where t: "upath p" "length p = 3" "l < 512" "walk vm r p = Some t" "has (entry vm t l) VMM_P" "entry vm t l = e"
    using e by (auto simp: user_map_def pg split: if_splits option.splits)
  let ?vm = "set_entry t l (e OR VMM_SHARED) vm"
  have "has (e OR VMM_SHARED) VMM_P" using t(5,6) unfolding has_bit by (simp add: bit_or_iff)
  then have "vm_ext r vm ?vm \<and> user_map ?vm r = (user_map vm r)((p, l) \<mapsto> e OR VMM_SHARED)"
    using leaf_write [OF inv t(4,1,2,3), of ?vm "e OR VMM_SHARED"] by (simp add: set_entry_def entry_def)
  with t show thesis using that [of t] by (simp add: pg l)
qed



text \<open>Two empty address spaces with the roots \<open>0x1000\<close> and \<open>0x2000\<close>, and the frame \<open>0x3000\<close> mapped into the first.\<close>

definition ex_two :: vm where
  "ex_two = ex_vm\<lparr>vm_pmm := (vm_pmm ex_vm)\<lparr>bitmap := (\<lambda>i. if i = 0 then 15 else 0), total_frames := 16, used_frames := 4\<rparr>\<rparr>"

definition ex_share :: vm where
  "ex_share = snd (vmm_map_page 0xFFFF800000001000 0x400000 0x3000 6 ex_two)"

lemma ex_two_inv: "ptab_inv ex_two 0x1000" "ptab_inv ex_two 0x2000" "utables ex_two 0x1000 = {0x1000}" "utables ex_two 0x2000 = {0x2000}"
  "user_map ex_two 0x1000 = Map.empty"
proof -
  have eq: "(15 :: u8) = mask 4" by (simp add: mask_eq_exp_minus_1)
  have b: "bit_get (\<lambda>i. if i = 0 then 15 else 0) i \<longleftrightarrow> i < 4" for i
    by (auto simp: bit_get_iff eq bit_mask_iff div_eq_0_iff split: if_splits)
  have "{i. i < 16 \<and> bit_get (\<lambda>i. if i = 0 then 15 else 0) i} = {..<4 :: nat}" unfolding b by auto
  then have p: "pmm_inv (vm_pmm ex_two)"
    using b by (simp add: pmm_inv_def ex_two_def ex_vm_def count_below_def)
  have h: "held ex_two 0x1000" "held ex_two 0x2000"
    using b by (simp_all add: held_def ex_two_def ex_vm_def frames_used_def frame_of_def addr_of_def unat_div)
  have z: "entry ex_two t i = 0" for t i by (simp add: ex_two_def ex_vm_def entry_def)
  show "ptab_inv ex_two 0x1000" "ptab_inv ex_two 0x2000" "utables ex_two 0x1000 = {0x1000}" "utables ex_two 0x2000 = {0x2000}"
    "user_map ex_two 0x1000 = Map.empty"
    using empty_space [OF p h(1) z] empty_space [OF p h(2) z] by blast+
qed

lemma ex_two_free: "6 < free_count ex_two"
proof -
  have "\<not> bit_get (\<lambda>i. if i = 0 then 15 else 0) i" if "8 \<le> i" for i using that by (simp add: bit_get_iff div_eq_0_iff)
  then have "card {8..<16 :: nat} \<le> card {i. i < 16 \<and> \<not> bit_get (\<lambda>i. if i = 0 then 15 else 0) i}" by (intro card_mono) auto
  then show ?thesis by (simp add: free_count_def ex_two_def ex_vm_def count_below_def)
qed

lemma ex_share_facts: "ptab_inv ex_share 0x1000" "ptab_inv ex_share 0x2000" "utables ex_share 0x2000 \<inter> utables ex_share 0x1000 = {}"
  "user_map ex_share 0x1000 = [page_of 0x400000 \<mapsto> 0x3007]" "hhdm (vm_pmm ex_share) = 0xFFFF800000000000"
proof -
  have "fst (vmm_map_page 0xFFFF800000001000 0x400000 0x3000 6 ex_two)" by code_simp
  then have run: "vmm_map_page 0xFFFF800000001000 0x400000 0x3000 6 ex_two = (True, ex_share)"
    by (metis ex_share_def prod.collapse)
  have hh: "hhdm (vm_pmm ex_two) = 0xFFFF800000000000" by (simp add: ex_two_def ex_vm_def)
  have M: "vm_ext 0x1000 ex_two ex_share" "user_map ex_share 0x1000 = [page_of 0x400000 \<mapsto> 0x3007]"
    using map_page_spec [OF ex_two_inv(1) _ _ run] by (simp_all add: hh phys_to_virt_def PML4_IDX_def ex_two_inv)
  note A = apart_ext [OF M(1) ex_two_inv(2)]
  show "ptab_inv ex_share 0x1000" "user_map ex_share 0x1000 = [page_of 0x400000 \<mapsto> 0x3007]" "hhdm (vm_pmm ex_share) = 0xFFFF800000000000"
    using M hh by (simp_all add: vm_ext_def)
  show "ptab_inv ex_share 0x2000" "utables ex_share 0x2000 \<inter> utables ex_share 0x1000 = {}" using A by (auto simp: ex_two_inv)
qed

lemma ex_share_succeeds: "fst (share_page 0xFFFF800000001000 0x400000 0xFFFF800000002000 0x500000 2 ex_share)"
proof -
  let ?pa = "vmm_virt_to_phys 0xFFFF800000001000 0x400000 ex_share" let ?f = "user_page_flags 2 OR VMM_SHARED"
  let ?vm = "ex_share\<lparr>vm_pmm := pmm_ref_frame ?pa (vm_pmm ex_share)\<rparr>"
  obtain ok vm' where run: "vmm_map_page 0xFFFF800000002000 0x500000 ?pa ?f ?vm = (ok, vm')" by fastforce
  have "free_count ex_two \<le> free_count ex_share + 3" using map_page_takes_three by (simp add: ex_share_def)
  moreover have "free_count ?vm \<le> free_count vm' + 3" using map_page_takes_three [of ?vm "0xFFFF800000002000" "0x500000" ?pa ?f] run by simp
  moreover have "free_count ?vm = free_count ex_share" by (simp add: free_count_def)
  ultimately have "\<not> exhausted vm'" using exhausted_no_free [of vm'] ex_two_free by linarith
  moreover have "ptab_inv ?vm 0x2000" using ref_frame_ext(1) [OF ex_share_facts(2)] by (simp add: vm_ext_def)
  ultimately have ok using map_page_spec [OF _ _ _ run, of "0x2000"] by (simp add: ex_share_facts phys_to_virt_def PML4_IDX_def exhausted_def)
  then show ?thesis using run by (simp add: share_page_def Let_def)
qed


end
