(* ===== verification/Spec2Isabelle.thy ===== *)
theory Spec2Isabelle
  imports Heap Spinlock Ipc Pipe Futex Fault Xfs Console Input Bootargs Signal Exec Ps2 Path Sysfs Usermem
begin

text \<open>
  \<^bold>\<open>A verification development for the X-OS kernel.\<close>

  To be completed with each component.
\<close>

end
